(* ===== verification/Prelude.thy ===== *)
theory Prelude
  imports Main "HOL-Library.Word" "HOL-Library.Multiset"
begin

text \<open>
  The vocabulary shared by every component of the development: machine integer types, the
  error codes of the guest ABI, the result of a system call, and the generic facts on lists
  and words that the component proofs use through the collections \<open>queue_simps\<close>,
  \<open>sched_simps\<close> and \<open>lv2_inv\<close>.
\<close>

unbundle bit_operations_syntax

named_theorems queue_simps
named_theorems sched_simps
named_theorems lv2_inv

section \<open>Machine integers\<close>

type_synonym u8 = "8 word"
type_synonym u16 = "16 word"
type_synonym u32 = "32 word"
type_synonym u64 = "64 word"

text \<open>
  Signed integers are modelled by \<^typ>\<open>int\<close> and the wrap-around of a width is written out:
  \<open>s32 x\<close> is what a 32-bit two's complement variable holds after \<open>x\<close> is stored in it,
  and \<open>u32_of_int x\<close> is the conversion of a signed value to an unsigned one.
\<close>

definition s32 :: "int \<Rightarrow> int" where
  "s32 x = signed_take_bit 31 x"

definition s64 :: "int \<Rightarrow> int" where
  "s64 x = signed_take_bit 63 x"

definition smin32 :: int where
  "smin32 = - (2 ^ 31)"

definition smax32 :: int where
  "smax32 = 2 ^ 31 - 1"

definition u32_of_int :: "int \<Rightarrow> int" where
  "u32_of_int x = x mod 2 ^ 32"

lemma s32_id: "- (2 ^ 31) \<le> x \<Longrightarrow> x < 2 ^ 31 \<Longrightarrow> s32 x = x"
  by (simp add: s32_def signed_take_bit_int_eq_self)

lemma s64_id: "- (2 ^ 63) \<le> x \<Longrightarrow> x < 2 ^ 63 \<Longrightarrow> s64 x = x"
  by (simp add: s64_def signed_take_bit_int_eq_self)

lemma s32_range: "- (2 ^ 31) \<le> s32 x" "s32 x < 2 ^ 31"
  using signed_take_bit_int_greater_eq_minus_exp [of 31 x]
    signed_take_bit_int_less_exp [of 31 x]
  by (simp_all add: s32_def)

lemma u32_of_int_nonneg: "0 \<le> u32_of_int x"
  by (simp add: u32_of_int_def)

lemma u32_of_int_id: "0 \<le> x \<Longrightarrow> x < 2 ^ 32 \<Longrightarrow> u32_of_int x = x"
  by (simp add: u32_of_int_def)

section \<open>Error codes and results of system calls\<close>

datatype CellError =
    CELL_EAGAIN | CELL_EINVAL | CELL_ENOSYS | CELL_ENOMEM | CELL_ESRCH | CELL_ENOENT
  | CELL_ENOEXEC | CELL_EDEADLK | CELL_EPERM | CELL_EBUSY | CELL_ETIMEDOUT | CELL_EABORT
  | CELL_EFAULT | CELL_ENOCHILD | CELL_ESTAT | CELL_EALIGN | CELL_EKRESOURCE | CELL_EISDIR
  | CELL_ECANCELED | CELL_EEXIST | CELL_EISCONN | CELL_ENOTCONN

text \<open>The numeric value of an error code, as the guest sees it in register 3.\<close>

fun cell_error_code :: "CellError \<Rightarrow> u32" where
  "cell_error_code CELL_EAGAIN = 0x80010001"
| "cell_error_code CELL_EINVAL = 0x80010002"
| "cell_error_code CELL_ENOSYS = 0x80010003"
| "cell_error_code CELL_ENOMEM = 0x80010004"
| "cell_error_code CELL_ESRCH = 0x80010005"
| "cell_error_code CELL_ENOENT = 0x80010006"
| "cell_error_code CELL_ENOEXEC = 0x80010007"
| "cell_error_code CELL_EDEADLK = 0x80010008"
| "cell_error_code CELL_EPERM = 0x80010009"
| "cell_error_code CELL_EBUSY = 0x8001000A"
| "cell_error_code CELL_ETIMEDOUT = 0x8001000B"
| "cell_error_code CELL_EABORT = 0x8001000C"
| "cell_error_code CELL_EFAULT = 0x8001000D"
| "cell_error_code CELL_ENOCHILD = 0x8001000E"
| "cell_error_code CELL_ESTAT = 0x8001000F"
| "cell_error_code CELL_EALIGN = 0x80010010"
| "cell_error_code CELL_EKRESOURCE = 0x80010011"
| "cell_error_code CELL_EISDIR = 0x80010012"
| "cell_error_code CELL_ECANCELED = 0x80010013"
| "cell_error_code CELL_EEXIST = 0x80010014"
| "cell_error_code CELL_EISCONN = 0x80010015"
| "cell_error_code CELL_ENOTCONN = 0x80010016"

text \<open>
  What a system call does to its caller: it returns \<^verbatim>\<open>CELL_OK\<close>, an error code (with or
  without \<^verbatim>\<open>not_an_error\<close>, which only changes logging), a plain value in register 3, it
  leaves the caller suspended in a sleep queue (\<open>Blocked\<close>) or queued and about to sleep
  (\<open>Enqueued\<close>), or it is aborted by a savestate with
  \<^verbatim>\<open>cpu_flag::again\<close> raised on the caller.
\<close>

datatype sysres = Ok | Err CellError | Value u64 | Blocked | Enqueued | Restart

section \<open>Generic facts\<close>

lemma remove1_Cons_neq: "x \<noteq> y \<Longrightarrow> remove1 x (y # ys) = y # remove1 x ys"
  by simp

lemma mset_remove1_member: "x \<in> set xs \<Longrightarrow> mset xs = add_mset x (mset (remove1 x xs))"
  by simp

lemma length_remove1_member: "x \<in> set xs \<Longrightarrow> length xs = Suc (length (remove1 x xs))"
  by (metis One_nat_def Suc_pred length_pos_if_in_set length_remove1)

lemma remove1_last_butlast: "xs \<noteq> [] \<Longrightarrow> distinct xs \<Longrightarrow> remove1 (last xs) xs = butlast xs"
  by (induction xs) auto

lemma set_remove1_distinct: "distinct xs \<Longrightarrow> set (remove1 x xs) = set xs - {x}"
  by (rule set_remove1_eq)

lemma distinct_mset_eq: "mset xs = mset ys \<Longrightarrow> distinct xs \<Longrightarrow> distinct ys"
  by (simp add: distinct_count_atmost_1) (metis set_mset_mset)

text \<open>Bit operations on signed values: setting and clearing the lowest bit.\<close>

lemma int_or_1: "(k :: int) OR 1 = 2 * (k div 2) + 1"
  by (simp add: or_one_eq)

lemma int_and_m2: "(k :: int) AND - 2 = 2 * (k div 2)"
proof (rule bit_eqI)
  fix n
  show "bit (k AND - 2) n = bit (2 * (k div 2)) n"
    by (cases n) (auto simp: bit_and_iff bit_double_iff simp flip: bit_Suc)
qed

lemma uint_push_flags:
  assumes "uint (t :: u32) < 2 ^ 31"
  shows "uint (push_bit 1 t OR of_bool a OR of_bool b) = 2 * uint t + of_bool (a \<or> b)"
proof -
  have e: "push_bit 1 t OR of_bool a OR of_bool b = 2 * t + of_bool (a \<or> b)"
    by (cases a; cases b) (simp_all add: push_bit_eq_mult or_one_eq mult.commute)
  have "0 \<le> uint t" by simp
  then show ?thesis unfolding e using assms by (cases "a \<or> b") (simp_all add: uint_word_ariths)
qed

end
