(* ===== verification/Ppu_Thread.thy ===== *)
theory Ppu_Thread
  imports Prelude
begin

text \<open>
  The part of a guest thread that the kernel model reads and writes: its state flags
  (\<^verbatim>\<open>rpcs3/Emu/CPU/CPUThread.h\<close>), its priority word and the fields the scheduler keeps in it
  (\<^verbatim>\<open>rpcs3/Emu/Cell/PPUThread.h\<close>). Threads live in a table indexed by their id.
\<close>

datatype cpu_flag =
    F_stop | F_exit | F_wait | F_temp | F_pause | F_suspend | F_ret | F_again | F_signal
  | F_memory | F_pending | F_pending_recheck | F_notify | F_yield | F_preempt
  | F_req_exit | F_dbg_global_pause | F_dbg_pause | F_dbg_step

definition is_stopped :: "cpu_flag set \<Rightarrow> bool" where
  "is_stopped st \<longleftrightarrow> F_stop \<in> st \<or> F_exit \<in> st \<or> F_again \<in> st \<or> F_req_exit \<in> st"

definition is_paused :: "cpu_flag set \<Rightarrow> bool" where
  "is_paused st \<longleftrightarrow>
     (F_suspend \<in> st \<or> F_dbg_global_pause \<in> st \<or> F_dbg_pause \<in> st) \<and> \<not> is_stopped st"

datatype thread_class = Class_ppu | Class_spu

text \<open>
  \<^verbatim>\<open>ppu_prio_t\<close> packs a 13-bit signed priority, a 50-bit signed enqueue order and one bit
  that keeps the order across a savestate. Storing to a bit field truncates.
\<close>

definition bf_prio :: "int \<Rightarrow> int" where
  "bf_prio x = signed_take_bit 12 x"

definition bf_order :: "int \<Rightarrow> int" where
  "bf_order x = signed_take_bit 49 x"

type_synonym tid = u32

record ppu_thread =
  t_class :: thread_class
  prio :: int
  order :: int
  preserve_bit :: bool
  gpr :: "nat \<Rightarrow> u64"
  state :: "cpu_flag set"
  ack_suspend :: bool
  cancel_sleep :: nat
  start_time :: u64
  end_time :: u64
  raddr :: u32
  hw_sleep_time :: u32
  in_function :: bool

type_synonym threads = "tid \<Rightarrow> ppu_thread"

abbreviation has_again :: "threads \<Rightarrow> tid \<Rightarrow> bool" where
  "has_again thr t \<equiv> F_again \<in> state (thr t)"

definition upd_thread :: "tid \<Rightarrow> (ppu_thread \<Rightarrow> ppu_thread) \<Rightarrow> threads \<Rightarrow> threads" where
  "upd_thread t f thr = thr(t := f (thr t))"

definition set_gpr :: "tid \<Rightarrow> nat \<Rightarrow> u64 \<Rightarrow> threads \<Rightarrow> threads" where
  "set_gpr t n v = upd_thread t (\<lambda>p. p\<lparr>gpr := (gpr p)(n := v)\<rparr>)"

definition add_flag :: "tid \<Rightarrow> cpu_flag \<Rightarrow> threads \<Rightarrow> threads" where
  "add_flag t f = upd_thread t (\<lambda>p. p\<lparr>state := insert f (state p)\<rparr>)"

definition del_flag :: "tid \<Rightarrow> cpu_flag \<Rightarrow> threads \<Rightarrow> threads" where
  "del_flag t f = upd_thread t (\<lambda>p. p\<lparr>state := state p - {f}\<rparr>)"

text \<open>A thread as it is created: every flag clear, no pending sleep.\<close>

definition new_thread :: "int \<Rightarrow> ppu_thread" where
  "new_thread pr = \<lparr>t_class = Class_ppu, prio = bf_prio pr, order = 0, preserve_bit = False,
     gpr = (\<lambda>_. 0), state = {}, ack_suspend = False, cancel_sleep = 0, start_time = 0,
     end_time = 0, raddr = 0, hw_sleep_time = 0, in_function = False\<rparr>"

lemma bf_order_id: "- (2 ^ 49) \<le> x \<Longrightarrow> x < 2 ^ 49 \<Longrightarrow> bf_order x = x"
  by (simp add: bf_order_def signed_take_bit_int_eq_self)

lemma bf_prio_id: "- (2 ^ 12) \<le> x \<Longrightarrow> x < 2 ^ 12 \<Longrightarrow> bf_prio x = x"
  by (simp add: bf_prio_def signed_take_bit_int_eq_self)

lemma upd_thread_same [simp]: "upd_thread t f thr t = f (thr t)"
  by (simp add: upd_thread_def)

lemma upd_thread_other [simp]: "s \<noteq> t \<Longrightarrow> upd_thread t f thr s = thr s"
  by (simp add: upd_thread_def)

text \<open>
  The scheduling key of a thread and its \<^verbatim>\<open>again\<close> flag are all that the sleep queues read;
  the operations below keep both.
\<close>

definition same_keys :: "threads \<Rightarrow> threads \<Rightarrow> bool" where
  "same_keys a b \<longleftrightarrow> (\<forall>t. prio (a t) = prio (b t) \<and> order (a t) = order (b t))"

lemma same_keys_refl [simp, intro]: "same_keys a a"
  by (simp add: same_keys_def)

lemma same_keys_trans [trans]: "same_keys a b \<Longrightarrow> same_keys b c \<Longrightarrow> same_keys a c"
  by (simp add: same_keys_def)

lemma same_keys_set_gpr [simp]: "same_keys (set_gpr t n v thr) thr"
  by (simp add: same_keys_def set_gpr_def upd_thread_def)

lemma has_again_set_gpr [simp]: "has_again (set_gpr t n v thr) s = has_again thr s"
  by (simp add: set_gpr_def upd_thread_def)

end
