(* ===== verification/Sleep_Queue.thy ===== *)
theory Sleep_Queue
  imports Ppu_Thread
begin

text \<open>
  The intrusive sleep queues of \<^verbatim>\<open>lv2_obj\<close> (\<^verbatim>\<open>rpcs3/Emu/Cell/lv2/sys_sync.h\<close>), twice. The list
  model is what the synchronisation objects are built on: \<open>emplace\<close> pushes at the head,
  \<open>schedule\<close> picks by protocol and removes, \<open>unqueue\<close> removes a given thread. The pointer
  model follows the loops of the source over \<^verbatim>\<open>next_cpu\<close> cells, and the refinement lemmas show
  that it computes the list model on every well-formed chain. The locale \<open>sleep_queue\<close> is the
  contract the objects rely on.
\<close>

datatype lv2_protocol =
  SYS_SYNC_FIFO | SYS_SYNC_PRIORITY | SYS_SYNC_PRIORITY_INHERIT | SYS_SYNC_RETRY

text \<open>The protocol field of an attribute, as \<^verbatim>\<open>enum lv2_protocol\<close> numbers it.\<close>

definition protocol_of :: "u32 \<Rightarrow> lv2_protocol option" where
  "protocol_of w =
     (if w = 1 then Some SYS_SYNC_FIFO
      else if w = 2 then Some SYS_SYNC_PRIORITY
      else if w = 3 then Some SYS_SYNC_PRIORITY_INHERIT
      else if w = 4 then Some SYS_SYNC_RETRY
      else None)"

section \<open>The list model\<close>

text \<open>The condition of the priority loop: \<open>a\<close> is taken in preference to \<open>b\<close>.\<close>

definition sched_before :: "threads \<Rightarrow> tid \<Rightarrow> tid \<Rightarrow> bool" where
  "sched_before thr a b \<longleftrightarrow>
     prio (thr a) < prio (thr b) \<or> (prio (thr a) = prio (thr b) \<and> order (thr a) < order (thr b))"

fun sched_find :: "threads \<Rightarrow> tid \<Rightarrow> tid list \<Rightarrow> tid" where
  "sched_find thr found [] = found"
| "sched_find thr found (n # ns) =
     sched_find thr (if sched_before thr n found then n else found) ns"

definition sched_pick :: "threads \<Rightarrow> lv2_protocol \<Rightarrow> tid list \<Rightarrow> tid option" where
  "sched_pick thr protocol q =
     (case q of [] \<Rightarrow> None
      | x # xs \<Rightarrow> Some (if protocol = SYS_SYNC_FIFO then last q else sched_find thr x xs))"

definition schedule :: "threads \<Rightarrow> lv2_protocol \<Rightarrow> tid list \<Rightarrow> tid option \<times> tid list" where
  "schedule thr protocol q =
     (case sched_pick thr protocol q of
        None \<Rightarrow> (None, q)
      | Some t \<Rightarrow> (Some t, if has_again thr t then q else remove1 t q))"

definition unqueue :: "tid \<Rightarrow> tid list \<Rightarrow> tid option \<times> tid list" where
  "unqueue t q = (if t \<in> set q then (Some t, remove1 t q) else (None, q))"

text \<open>
  \<open>emplace\<close> stamps the thread with the next value of \<^verbatim>\<open>g_priority_order_tag\<close> unless a
  savestate restored its stamp.
\<close>

definition stamp_order :: "u64 \<Rightarrow> tid \<Rightarrow> threads \<Rightarrow> threads" where
  "stamp_order tag t = upd_thread t (\<lambda>p. p\<lparr>order := bf_order (uint tag)\<rparr>)"

definition emplace :: "threads \<Rightarrow> u64 \<Rightarrow> tid list \<Rightarrow> tid \<Rightarrow> threads \<times> u64 \<times> tid list" where
  "emplace thr tag q t =
     ((if preserve_bit (thr t) then upd_thread t (\<lambda>p. p\<lparr>preserve_bit := False\<rparr>) thr
       else stamp_order (tag + 1) t thr),
      tag + 1, t # q)"

text \<open>Taking up to \<open>n\<close> threads, as the loops that wake several waiters do.\<close>

fun schedule_n :: "threads \<Rightarrow> lv2_protocol \<Rightarrow> nat \<Rightarrow> tid list \<Rightarrow> tid list \<times> tid list" where
  "schedule_n thr protocol 0 q = ([], q)"
| "schedule_n thr protocol (Suc n) q =
     (case schedule thr protocol q of
        (None, q') \<Rightarrow> ([], q')
      | (Some t, q') \<Rightarrow> (let (ts, q'') = schedule_n thr protocol n q' in (t # ts, q'')))"

lemma sched_find_mem: "sched_find thr f ns \<in> insert f (set ns)"
  by (induction ns arbitrary: f) (auto split: if_splits)

lemma sched_before_trans:
  "sched_before thr a b \<Longrightarrow> \<not> sched_before thr c b \<Longrightarrow> \<not> sched_before thr c a"
  by (auto simp: sched_before_def)

lemma sched_before_irrefl [simp]: "\<not> sched_before thr a a"
  by (simp add: sched_before_def)

lemma not_before_trans:
  "\<not> sched_before thr a b \<Longrightarrow> \<not> sched_before thr b c \<Longrightarrow> \<not> sched_before thr a c"
  by (auto simp: sched_before_def)

lemma sched_find_min:
  "t \<in> insert f (set ns) \<Longrightarrow> \<not> sched_before thr t (sched_find thr f ns)"
proof (induction ns arbitrary: f t)
  case Nil
  then show ?case by simp
next
  case (Cons n ns)
  let ?g = "if sched_before thr n f then n else f"
  have g: "\<not> sched_before thr ?g (sched_find thr ?g ns)"
    by (rule Cons.IH) simp
  have f: "\<not> sched_before thr f ?g" and n: "\<not> sched_before thr n ?g"
    by (auto simp: sched_before_def)
  show ?case
  proof (cases "t \<in> set ns")
    case True
    then show ?thesis using Cons.IH [of t ?g] by simp
  next
    case False
    with Cons.prems have "t = f \<or> t = n" by auto
    with f n g show ?thesis
      using not_before_trans by (metis sched_find.simps(2))
  qed
qed

lemma sched_pick_Nil [simp]: "sched_pick thr p [] = None"
  by (simp add: sched_pick_def)

lemma sched_pick_None [simp]: "sched_pick thr p q = None \<longleftrightarrow> q = []"
  by (simp add: sched_pick_def split: list.splits)

lemma sched_pick_mem: "sched_pick thr p q = Some t \<Longrightarrow> t \<in> set q"
  using sched_find_mem by (fastforce simp: sched_pick_def split: list.splits if_splits)

lemma schedule_Nil [simp, queue_simps]: "schedule thr p [] = (None, [])"
  by (simp add: schedule_def)

lemma schedule_None: "schedule thr p q = (None, q') \<longleftrightarrow> q = [] \<and> q' = []"
  by (auto simp: schedule_def split: option.splits)

lemma schedule_SomeD:
  assumes "schedule thr p q = (Some t, q')"
  shows "t \<in> set q" and "sched_pick thr p q = Some t"
    and "\<not> has_again thr t \<Longrightarrow> q' = remove1 t q"
    and "has_again thr t \<Longrightarrow> q' = q"
  using assms sched_pick_mem by (auto simp: schedule_def split: option.splits)

lemma schedule_nonempty: "q \<noteq> [] \<Longrightarrow> \<exists>t q'. schedule thr p q = (Some t, q')"
  by (auto simp: schedule_def split: option.splits)

lemma unqueue_SomeD:
  "unqueue t q = (Some s, q') \<Longrightarrow> s = t \<and> t \<in> set q \<and> q' = remove1 t q"
  by (auto simp: unqueue_def split: if_splits)

lemma unqueue_None: "unqueue t q = (None, q') \<longleftrightarrow> t \<notin> set q \<and> q' = q"
  by (auto simp: unqueue_def)

section \<open>The contract of a sleep queue\<close>

text \<open>
  What the synchronisation objects rely on, for any representation of the queue: a push adds
  one waiter, a scheduling step takes one waiter out unless that waiter is frozen by a
  savestate, a removal takes exactly the given waiter. The loops that wake several threads are
  proved once over the contract.
\<close>

locale sleep_queue =
  fixes enq :: "'a \<Rightarrow> 'q \<Rightarrow> 'q"
    and deq :: "'q \<Rightarrow> 'a option \<times> 'q"
    and del :: "'a \<Rightarrow> 'q \<Rightarrow> 'a option \<times> 'q"
    and waiters :: "'q \<Rightarrow> 'a multiset"
    and frozen :: "'a \<Rightarrow> bool"
  assumes waiters_enq: "waiters (enq t q) = add_mset t (waiters q)"
    and deq_empty: "fst (deq q) = None \<longleftrightarrow> waiters q = {#}"
    and deq_empty_same: "fst (deq q) = None \<Longrightarrow> snd (deq q) = q"
    and deq_takes: "fst (deq q) = Some t \<Longrightarrow> \<not> frozen t \<Longrightarrow>
      waiters q = add_mset t (waiters (snd (deq q)))"
    and deq_mem: "fst (deq q) = Some t \<Longrightarrow> t \<in># waiters q"
    and deq_frozen: "fst (deq q) = Some t \<Longrightarrow> frozen t \<Longrightarrow> snd (deq q) = q"
    and del_takes: "t \<in># waiters q \<Longrightarrow> fst (del t q) = Some t \<and>
      waiters q = add_mset t (waiters (snd (del t q)))"
    and del_absent: "t \<notin># waiters q \<Longrightarrow> del t q = (None, q)"
begin

primrec deq_n :: "nat \<Rightarrow> 'q \<Rightarrow> 'a list \<times> 'q" where
  "deq_n 0 q = ([], q)"
| "deq_n (Suc n) q =
     (case deq q of (None, q') \<Rightarrow> ([], q')
      | (Some t, q') \<Rightarrow> (let (ts, q'') = deq_n n q' in (t # ts, q'')))"

lemma deq_n_exact:
  assumes "n \<le> size (waiters q)" and "\<And>t. t \<in># waiters q \<Longrightarrow> \<not> frozen t"
  shows "length (fst (deq_n n q)) = n \<and> waiters q = mset (fst (deq_n n q)) + waiters (snd (deq_n n q))"
  using assms
proof (induction n arbitrary: q)
  case 0
  then show ?case by simp
next
  case (Suc n)
  have "waiters q \<noteq> {#}" using Suc.prems(1) by auto
  then obtain t q' where d: "deq q = (Some t, q')"
    by (metis deq_empty not_Some_eq prod.collapse)
  then have nf: "\<not> frozen t" using deq_mem [of q t] Suc.prems(2) by simp
  then have w: "waiters q = add_mset t (waiters q')" using deq_takes [of q t] d by simp
  then have "length (fst (deq_n n q')) = n \<and> waiters q' = mset (fst (deq_n n q')) + waiters (snd (deq_n n q'))"
    using Suc.prems by (intro Suc.IH) auto
  then show ?case using d w by (simp add: case_prod_beta Let_def)
qed

lemma deq_n_all:
  assumes "\<And>t. t \<in># waiters q \<Longrightarrow> \<not> frozen t" and "size (waiters q) \<le> n"
  shows "waiters (snd (deq_n n q)) = {#} \<and> mset (fst (deq_n n q)) = waiters q"
  using assms
proof (induction n arbitrary: q)
  case 0
  then show ?case by simp
next
  case (Suc n)
  show ?case
  proof (cases "deq q")
    case (Pair r q')
    show ?thesis
    proof (cases r)
      case None
      then have "waiters q = {#}" and "q' = q"
        using Pair deq_empty [of q] deq_empty_same [of q] by auto
      then show ?thesis using Pair None by simp
    next
      case (Some t)
      then have "\<not> frozen t" using Pair deq_mem [of q t] Suc.prems(1) by simp
      then have w: "waiters q = add_mset t (waiters q')" using Pair Some deq_takes [of q t] by simp
      then have "waiters (snd (deq_n n q')) = {#} \<and> mset (fst (deq_n n q')) = waiters q'"
        using Suc.prems by (intro Suc.IH) auto
      then show ?thesis using Pair Some w by (simp add: case_prod_beta Let_def)
    qed
  qed
qed

lemma del_after_enq: "t \<notin># waiters q \<Longrightarrow> waiters (snd (del t (enq t q))) = waiters q"
  using del_takes [of t "enq t q"] by (simp add: waiters_enq)

end

interpretation lq: sleep_queue "(#)" "schedule thr p" unqueue mset "has_again thr"
  for thr :: threads and p :: lv2_protocol
proof unfold_locales
  fix q :: "tid list" and t :: tid
  show "fst (schedule thr p q) = None \<longleftrightarrow> mset q = {#}"
    by (auto simp: schedule_def split: option.splits)
  show "fst (schedule thr p q) = None \<Longrightarrow> snd (schedule thr p q) = q"
    by (auto simp: schedule_def split: option.splits)
  show "fst (schedule thr p q) = Some t \<Longrightarrow> t \<in># mset q"
    using schedule_SomeD(1) by (metis prod.collapse set_mset_mset)
  show "fst (schedule thr p q) = Some t \<Longrightarrow> \<not> has_again thr t \<Longrightarrow>
      mset q = add_mset t (mset (snd (schedule thr p q)))"
    using schedule_SomeD(1,3) mset_remove1_member by (metis prod.collapse)
  show "fst (schedule thr p q) = Some t \<Longrightarrow> has_again thr t \<Longrightarrow> snd (schedule thr p q) = q"
    using schedule_SomeD(4) by (metis prod.collapse)
qed (auto simp: unqueue_def)

lemma schedule_n_deq_n: "schedule_n thr p n q = lq.deq_n thr p n q"
  by (induction n arbitrary: q) (auto split: prod.splits option.splits)

lemma schedule_n_exact:
  assumes "n \<le> length q" and "\<And>t. t \<in> set q \<Longrightarrow> \<not> has_again thr t"
    and "schedule_n thr p n q = (ts, q')"
  shows "length ts = n" and "mset q = mset ts + mset q'"
  using lq.deq_n_exact [of n q thr p] assms by (auto simp: schedule_n_deq_n)

lemma schedule_n_all:
  assumes "\<And>t. t \<in> set q \<Longrightarrow> \<not> has_again thr t" and "length q \<le> n"
  shows "schedule_n thr p n q = (ts, q') \<Longrightarrow> q' = [] \<and> mset ts = mset q"
  using lq.deq_n_all [of q thr n p] assms by (auto simp: schedule_n_deq_n)

text \<open>Only the scheduling keys and the \<^verbatim>\<open>again\<close> flags of the waiters matter.\<close>

lemma sched_find_cong:
  assumes "\<And>t. t \<in> insert f (set ns) \<Longrightarrow> prio (a t) = prio (b t) \<and> order (a t) = order (b t)"
  shows "sched_find a f ns = sched_find b f ns"
  using assms by (induction ns arbitrary: f) (auto simp: sched_before_def)

lemma schedule_cong:
  assumes "\<And>t. t \<in> set q \<Longrightarrow> prio (a t) = prio (b t) \<and> order (a t) = order (b t) \<and>
      has_again a t = has_again b t"
  shows "schedule a p q = schedule b p q"
proof -
  have pick: "sched_pick a p q = sched_pick b p q"
    using assms by (auto simp: sched_pick_def split: list.splits intro!: sched_find_cong)
  show ?thesis
    using assms sched_pick_mem [of b p q] by (auto simp: schedule_def pick split: option.splits)
qed

section \<open>Emptying a queue\<close>

text \<open>
  The loop \<^verbatim>\<open>while (auto cpu = schedule(...))\<close> with which several calls wake every waiter. A thread
  with \<^verbatim>\<open>cpu_flag::again\<close> stays in its queue, so the loop does not end when it reaches one;
  \<open>None\<close> stands for that. Without such a thread the loop returns every waiter, and the queue is empty.
\<close>

partial_function (option) schedule_loop :: "threads \<Rightarrow> lv2_protocol \<Rightarrow> tid list \<Rightarrow> tid list option" where
  "schedule_loop tab p q =
     (case fst (schedule tab p q) of
        None \<Rightarrow> Some []
      | Some t \<Rightarrow> Option.bind (schedule_loop tab p (snd (schedule tab p q))) (\<lambda>ts. Some (t # ts)))"

lemma schedule_loop_all:
  assumes "\<forall>u \<in> set q. \<not> has_again tab u"
  shows "\<exists>ts. schedule_loop tab p q = Some ts \<and> mset ts = mset q"
  using assms
proof (induction "length q" arbitrary: q)
  case 0
  then show ?case by (simp add: schedule_loop.simps)
next
  case (Suc n)
  then obtain t q1 where sc: "schedule tab p q = (Some t, q1)"
    using schedule_nonempty [of q tab p] by (cases q) auto
  have q1: "q1 = remove1 t q" and t: "t \<in> set q" using schedule_SomeD [OF sc] Suc.prems by auto
  have "n = length q1" using length_remove1_member [OF t] Suc.hyps(2) q1 by simp
  moreover have "\<forall>u \<in> set q1. \<not> has_again tab u" using Suc.prems q1 by (auto dest: notin_set_remove1)
  ultimately obtain ts where "schedule_loop tab p q1 = Some ts" "mset ts = mset q1" using Suc.hyps(1) by blast
  then show ?case using sc t q1 by (subst schedule_loop.simps) simp
qed

lemma schedule_loop_stuck:
  assumes "schedule tab p q = (Some t, q)"
  shows "schedule_loop tab p q = None"
proof -
  have e: "schedule_loop tab p q = Option.bind (schedule_loop tab p q) (\<lambda>ts. Some (t # ts))"
    using assms by (subst schedule_loop.simps) simp
  have "schedule_loop tab p q \<noteq> Some ts" for ts
    using e by (cases "schedule_loop tab p q") auto
  then show ?thesis by auto
qed

end
