(* ===== verification/Sleep_Queue_Ptr.thy ===== *)
theory Sleep_Queue_Ptr
  imports Sleep_Queue "HOL-Library.Monad_Syntax"
begin

text \<open>
  The pointer model of the sleep queues: \<open>links\<close> holds the \<^verbatim>\<open>next_cpu\<close> cell of every thread and
  the queue is the head pointer of a chain of cells. The loops of \<^verbatim>\<open>lv2_obj::unqueue\<close> and
  \<^verbatim>\<open>lv2_obj::schedule\<close> follow the cells and write through the address of the parent cell, so on a
  cyclic chain they would not return; they are partial functions and the refinement lemmas prove
  that they return on every chain that represents a list.
\<close>

type_synonym links = "tid \<Rightarrow> tid option"

text \<open>The address of a pointer cell: the head of the queue or the link of a thread.\<close>

datatype cell = Head | Link tid

fun write_cell :: "cell \<Rightarrow> tid option \<Rightarrow> links \<times> tid option \<Rightarrow> links \<times> tid option" where
  "write_cell Head v (h, first) = (h, v)"
| "write_cell (Link t) v (h, first) = (h(t := v), first)"

partial_function (option) unqueue_loop :: "bool \<Rightarrow> links \<Rightarrow> tid \<Rightarrow> tid \<Rightarrow> (links \<times> tid option) option" where
  "unqueue_loop modify h obj it =
     (case h it of
        None \<Rightarrow> Some (h, None)
      | Some next \<Rightarrow>
          if next = obj then
            (let h1 = h(it := h next) in Some ((if modify then h1(next := None) else h1), Some next))
          else unqueue_loop modify h obj next)"

definition unqueue_ptr :: "bool \<Rightarrow> links \<Rightarrow> tid option \<Rightarrow> tid \<Rightarrow> (links \<times> tid option \<times> tid option) option" where
  "unqueue_ptr modify h first obj =
     (case first of
        None \<Rightarrow> Some (h, first, None)
      | Some it \<Rightarrow>
          if it = obj then Some ((if modify then h(it := None) else h), h it, Some it)
          else do {
            (h', r) \<leftarrow> unqueue_loop modify h obj it;
            Some (h', first, r)
          })"

partial_function (option) fifo_loop :: "links \<Rightarrow> tid \<Rightarrow> cell \<Rightarrow> (tid \<times> cell) option" where
  "fifo_loop h it parent_found =
     (case h it of
        Some next \<Rightarrow> fifo_loop h next (Link it)
      | None \<Rightarrow> Some (it, parent_found))"

partial_function (option) prio_loop :: "threads \<Rightarrow> links \<Rightarrow> tid \<Rightarrow> tid \<Rightarrow> cell \<Rightarrow> (tid \<times> cell) option" where
  "prio_loop thr h it found parent_found =
     (case h it of
        None \<Rightarrow> Some (found, parent_found)
      | Some next \<Rightarrow>
          if sched_before thr next found then prio_loop thr h next next (Link it)
          else prio_loop thr h next found parent_found)"

definition schedule_ptr ::
  "threads \<Rightarrow> links \<Rightarrow> tid option \<Rightarrow> lv2_protocol \<Rightarrow> bool \<Rightarrow> (links \<times> tid option \<times> tid option) option" where
  "schedule_ptr thr h first protocol modify_node =
     (case first of
        None \<Rightarrow> Some (h, first, None)
      | Some it \<Rightarrow>
          if protocol = SYS_SYNC_FIFO then do {
            (t, parent_found) \<leftarrow> fifo_loop h it Head;
            let (h1, first1) =
              (if has_again thr t then (h, first) else write_cell parent_found None (h, first));
            Some (h1, first1, Some t)
          } else do {
            (found, parent_found) \<leftarrow> prio_loop thr h it it Head;
            let (h1, first1) =
              (if has_again thr found then (h, first)
               else let (h2, first2) = write_cell parent_found (h found) (h, first)
                    in ((if modify_node then h2(found := None) else h2), first2));
            Some (h1, first1, Some found)
          })"

definition emplace_ptr :: "links \<Rightarrow> tid option \<Rightarrow> tid \<Rightarrow> links \<times> tid option" where
  "emplace_ptr h first obj = (h(obj := first), Some obj)"

section \<open>Chains\<close>

text \<open>\<open>chain h p xs\<close>: from pointer \<open>p\<close> the cells lead through the threads \<open>xs\<close> to null.\<close>

primrec chain :: "links \<Rightarrow> tid option \<Rightarrow> tid list \<Rightarrow> bool" where
  "chain h p [] \<longleftrightarrow> p = None"
| "chain h p (x # xs) \<longleftrightarrow> p = Some x \<and> chain h (h x) xs"

lemma chain_unique: "chain h p xs \<Longrightarrow> chain h p ys \<Longrightarrow> xs = ys"
proof (induction xs arbitrary: p ys)
  case Nil
  then show ?case by (cases ys) auto
next
  case (Cons x xs)
  then show ?case by (cases ys) auto
qed

lemma chain_suffix: "chain h p (xs @ y # ys) \<Longrightarrow> chain h (Some y) (y # ys)"
  by (induction xs arbitrary: p) auto

lemma chain_distinct: "chain h p xs \<Longrightarrow> distinct xs"
proof (induction xs arbitrary: p)
  case Nil
  then show ?case by simp
next
  case (Cons x xs)
  then have c: "chain h (h x) xs" by simp
  have "x \<notin> set xs"
  proof
    assume "x \<in> set xs"
    then obtain us vs where "xs = us @ x # vs" by (auto simp: in_set_conv_decomp)
    then have "chain h (h x) vs" using c chain_suffix [of h "h x" us x vs] by simp
    with c have "xs = vs" by (rule chain_unique)
    with \<open>xs = us @ x # vs\<close> show False by simp
  qed
  with Cons.IH c show ?case by simp
qed

lemma chain_frame: "\<forall>x \<in> set xs. h' x = h x \<Longrightarrow> chain h' p xs = chain h p xs"
  by (induction xs arbitrary: p) simp_all

lemma chain_upd [simp]: "a \<notin> set xs \<Longrightarrow> chain (h(a := v)) p xs = chain h p xs"
  by (rule chain_frame) auto

lemma chain_Some: "chain h (Some x) ys \<longleftrightarrow> (\<exists>zs. ys = x # zs \<and> chain h (h x) zs)"
  by (cases ys) auto

text \<open>Cutting a thread out of a chain by redirecting its parent's cell.\<close>

lemma chain_cut:
  assumes "chain h p (us @ a # x # vs)"
  shows "chain (h(a := h x)) p (us @ a # vs)"
  using assms
proof (induction us arbitrary: p)
  case Nil
  then have c: "chain h (h x) vs" "p = Some a" by auto
  moreover have "a \<notin> set vs" using chain_distinct [OF Nil] by simp
  ultimately show ?case by (simp del: fun_upd_apply add: fun_upd_same)
next
  case (Cons u us)
  moreover have "u \<noteq> a" using chain_distinct [OF Cons.prems] by auto
  ultimately show ?case by (simp del: fun_upd_apply add: fun_upd_other)
qed

lemma chain_head_upd:
  assumes "chain h p (us @ a # vs)" and "a \<notin> set us"
  shows "chain (h(a := None)) p (us @ [a])"
  using assms
  by (induction us arbitrary: p) (auto simp del: fun_upd_apply simp add: fun_upd_same fun_upd_other)

section \<open>Refinement of the list model\<close>

text \<open>The removal loop, started inside the chain behind the parent \<open>a\<close>.\<close>

lemma unqueue_loop_absent:
  "chain h (h a) vs \<Longrightarrow> obj \<notin> set vs \<Longrightarrow> unqueue_loop m h obj a = Some (h, None)"
proof (induction vs arbitrary: a)
  case Nil
  then show ?case by (simp add: unqueue_loop.simps)
next
  case (Cons v vs)
  then show ?case by (subst unqueue_loop.simps) auto
qed

lemma unqueue_loop_found:
  "chain h (h a) (vs @ obj # ws) \<Longrightarrow> obj \<notin> set vs \<Longrightarrow>
   unqueue_loop m h obj a =
     (let b = last (a # vs); h1 = h(b := h obj)
      in Some (if m then h1(obj := None) else h1, Some obj))"
proof (induction vs arbitrary: a)
  case Nil
  then show ?case by (subst unqueue_loop.simps) (simp add: Let_def)
next
  case (Cons v vs)
  then have "h a = Some v" and "v \<noteq> obj" and "chain h (h v) (vs @ obj # ws)" by auto
  moreover have "last (a # v # vs) = last (v # vs)" by simp
  ultimately show ?case
    using Cons.IH [of v] Cons.prems(2)
    by (subst unqueue_loop.simps) (simp del: fun_upd_apply last.simps)
qed

text \<open>
  C6: \<^verbatim>\<open>unqueue\<close> returns on every chain, returns what the list model returns, leaves a chain for the
  shortened list and touches no cell outside the queue.
\<close>

theorem unqueue_ptr_refines:
  assumes c: "chain h first xs"
  shows "\<exists>h' first'. unqueue_ptr m h first obj = Some (h', first', fst (unqueue obj xs)) \<and>
    chain h' first' (snd (unqueue obj xs)) \<and> (\<forall>t. t \<notin> set xs \<longrightarrow> h' t = h t) \<and>
    (m \<longrightarrow> obj \<in> set xs \<longrightarrow> h' obj = None)"
proof (cases xs)
  case Nil
  with c show ?thesis by (simp add: unqueue_ptr_def unqueue_def)
next
  case (Cons it vs)
  with c have first: "first = Some it" and cv: "chain h (h it) vs" by auto
  have dist: "distinct (it # vs)" using chain_distinct [OF c] Cons by simp
  show ?thesis
  proof (cases "it = obj")
    case True
    have "chain (h(obj := None)) (h obj) vs"
      using cv dist True by (simp del: fun_upd_apply)
    with True first cv dist Cons show ?thesis
      by (auto simp: unqueue_ptr_def unqueue_def)
  next
    case it: False
    show ?thesis
    proof (cases "obj \<in> set vs")
      case False
      with it first cv c Cons show ?thesis
        by (simp add: unqueue_ptr_def unqueue_def unqueue_loop_absent [of h it vs])
    next
      case True
      then obtain us ws where vs: "vs = us @ obj # ws" and nu: "obj \<notin> set us"
        by (metis split_list_first)
      define b where "b = last (it # us)"
      have b: "it # us = butlast (it # us) @ [b]" by (simp add: b_def)
      have nb: "obj \<noteq> b" using it nu b_def by (auto split: if_splits)
      have full: "chain h first (butlast (it # us) @ b # obj # ws)"
        using c Cons vs b by (metis append.assoc append_Cons append_Nil)
      then have cut: "chain (h(b := h obj)) first (it # us @ ws)"
        using chain_cut [of h first "butlast (it # us)" b obj ws] b
        by (metis append.assoc append_Cons append_Nil)
      have on: "obj \<notin> set (it # us @ ws)" using dist vs it by auto
      then have cut': "chain (h(b := h obj, obj := None)) first (it # us @ ws)"
        using cut by (rule chain_upd [THEN iffD2])
      have run: "unqueue_ptr m h first obj =
          Some (if m then h(b := h obj, obj := None) else h(b := h obj), first, Some obj)"
        using it first unqueue_loop_found [of h it us obj ws m] cv vs nu
        by (simp add: unqueue_ptr_def Let_def b_def)
      have lst: "unqueue obj xs = (Some obj, it # us @ ws)"
        using Cons vs it nu by (simp add: unqueue_def remove1_append)
      have bin: "b \<in> set xs" using Cons vs b by (metis Un_iff list.set_intros(1) set_append append_Cons)
      show ?thesis
        using run lst cut cut' bin True Cons by (cases m) auto
    qed
  qed
qed

text \<open>The two scheduling loops find the thread of the list model and the cell that points to it.\<close>

definition parent_cell :: "tid list \<Rightarrow> cell" where
  "parent_cell us = (if us = [] then Head else Link (last us))"

lemma fifo_loop_run:
  "chain h (Some it) (it # vs) \<Longrightarrow> fifo_loop h it (parent_cell us) =
     Some (last (it # vs), parent_cell (us @ butlast (it # vs)))"
proof (induction vs arbitrary: it us)
  case Nil
  then show ?case by (simp add: fifo_loop.simps)
next
  case (Cons v vs)
  have "fifo_loop h v (parent_cell (us @ [it])) = Some (last (v # vs), parent_cell ((us @ [it]) @ butlast (v # vs)))"
    using Cons.prems by (intro Cons.IH) simp
  moreover have "parent_cell (us @ [it]) = Link it" by (simp add: parent_cell_def)
  ultimately show ?case using Cons.prems by (subst fifo_loop.simps) simp
qed

lemma prio_loop_run:
  assumes "chain h (Some it) (it # vs)" and "us @ it # vs = as @ found # bs" and "length as \<le> length us"
  shows "\<exists>as' bs'. prio_loop thr h it found (parent_cell as) =
      Some (sched_find thr found vs, parent_cell as') \<and>
      us @ it # vs = as' @ sched_find thr found vs # bs'"
  using assms
proof (induction vs arbitrary: it us as bs found)
  case Nil
  then show ?case by (auto simp: prio_loop.simps)
next
  case (Cons v vs)
  have hv: "h it = Some v" and cv: "chain h (Some v) (v # vs)" using Cons.prems(1) by auto
  show ?case
  proof (cases "sched_before thr v found")
    case True
    have "\<exists>as' bs'. prio_loop thr h v v (parent_cell (us @ [it])) =
        Some (sched_find thr v vs, parent_cell as') \<and>
        (us @ [it]) @ v # vs = as' @ sched_find thr v vs # bs'"
      by (rule Cons.IH [OF cv]) auto
    moreover have "parent_cell (us @ [it]) = Link it" by (simp add: parent_cell_def)
    ultimately show ?thesis using True hv by (subst prio_loop.simps) simp
  next
    case False
    have "\<exists>as' bs'. prio_loop thr h v found (parent_cell as) =
        Some (sched_find thr found vs, parent_cell as') \<and>
        (us @ [it]) @ v # vs = as' @ sched_find thr found vs # bs'"
      using Cons.prems(2,3) by (intro Cons.IH [OF cv, where bs = bs]) auto
    then show ?thesis using False hv by (subst prio_loop.simps) simp
  qed
qed

text \<open>Writing the parent's cell takes the found thread out of the chain.\<close>

lemma write_parent_chain:
  assumes "chain h first (as @ f # bs)" and "write_cell (parent_cell as) (h f) (h, first) = (h', first')"
  shows "chain h' first' (as @ bs)" and "\<forall>t. t \<notin> set as \<longrightarrow> h' t = h t"
proof -
  show "chain h' first' (as @ bs)"
  proof (cases as rule: rev_cases)
    case Nil
    with assms show ?thesis by (auto simp: parent_cell_def)
  next
    case (snoc us a)
    with assms have "h' = h(a := h f)" "first' = first" by (auto simp: parent_cell_def)
    then show ?thesis using chain_cut [of h first us a f bs] assms(1) snoc by simp
  qed
  show "\<forall>t. t \<notin> set as \<longrightarrow> h' t = h t"
    using assms(2) by (auto simp: parent_cell_def split: if_splits)
qed

lemma chain_last_None: "chain h p (us @ [a]) \<Longrightarrow> h a = None"
  by (induction us arbitrary: p) auto

text \<open>
  C5: \<^verbatim>\<open>schedule\<close> returns on every chain, selects the thread that the list model selects under each
  protocol, leaves a chain for the remaining threads (the whole chain when the selected thread is frozen by a
  savestate) and touches no cell outside the queue.
\<close>

theorem schedule_ptr_refines:
  assumes c: "chain h first xs"
  shows "\<exists>h' first'. schedule_ptr thr h first protocol m = Some (h', first', fst (schedule thr protocol xs)) \<and>
    chain h' first' (snd (schedule thr protocol xs)) \<and> (\<forall>t. t \<notin> set xs \<longrightarrow> h' t = h t)"
proof (cases xs)
  case Nil
  with c show ?thesis by (simp add: schedule_ptr_def)
next
  case (Cons it vs)
  with c have first: "first = Some it" by simp
  have c1: "chain h (Some it) (it # vs)" using c Cons first by simp
  have dist: "distinct xs" using c by (rule chain_distinct)
  define f where "f = (if protocol = SYS_SYNC_FIFO then last xs else sched_find thr it vs)"
  have pick: "sched_pick thr protocol xs = Some f" by (simp add: sched_pick_def Cons f_def)
  obtain as bs where ab: "xs = as @ f # bs" and
    loop: "protocol = SYS_SYNC_FIFO \<Longrightarrow> fifo_loop h it Head = Some (f, parent_cell as) \<and> bs = []"
          "protocol \<noteq> SYS_SYNC_FIFO \<Longrightarrow> prio_loop thr h it it Head = Some (f, parent_cell as)"
  proof (cases "protocol = SYS_SYNC_FIFO")
    case True
    then show ?thesis
      using that [of "butlast xs" "[]"] fifo_loop_run [OF c1, of "[]"] Cons
      by (simp add: f_def parent_cell_def)
  next
    case False
    from prio_loop_run [OF c1, of "[]" "[]" it vs thr] False show ?thesis
      using that Cons by (auto simp: f_def parent_cell_def)
  qed
  have rem: "remove1 f xs = as @ bs" using dist ab by (simp add: remove1_append)
  obtain h1 first1 where w: "write_cell (parent_cell as) (h f) (h, first) = (h1, first1)"
    by (metis prod.collapse)
  note cut = write_parent_chain [OF c [unfolded ab] w]
  have last: "protocol = SYS_SYNC_FIFO \<Longrightarrow> h f = None"
    using c ab loop(1) chain_last_None [of h first as f] by simp
  have clr: "chain (h1(f := None)) first1 (as @ bs)"
    using cut(1) dist ab by (simp add: chain_upd del: fun_upd_apply)
  show ?thesis
  proof (cases "has_again thr f")
    case True
    then show ?thesis using pick loop c first by (auto simp: schedule_ptr_def schedule_def Let_def)
  next
    case False
    have h1: "\<forall>t. t \<notin> set xs \<longrightarrow> h1 t = h t" using cut(2) ab by auto
    show ?thesis
    proof (cases "protocol = SYS_SYNC_FIFO")
      case True
      then show ?thesis
        using False pick loop(1) w first rem cut(1) last h1
        by (auto simp: schedule_ptr_def schedule_def Let_def)
    next
      case pr: False
      have "\<forall>t. t \<notin> set xs \<longrightarrow> (h1(f := None)) t = h t" using h1 ab by auto
      then show ?thesis
        using False pick loop(2) pr w first rem cut(1) clr h1
        by (cases m) (auto simp: schedule_ptr_def schedule_def Let_def simp del: fun_upd_apply)
    qed
  qed
qed

lemma emplace_ptr_refines:
  "chain h first xs \<Longrightarrow> t \<notin> set xs \<Longrightarrow> emplace_ptr h first t = (h', first') \<Longrightarrow> chain h' first' (t # xs)"
  by (auto simp: emplace_ptr_def simp del: fun_upd_apply simp add: fun_upd_same)

text \<open>A queue of three threads: 3 was pushed last, 1 first.\<close>

definition demo_links :: links where
  "demo_links = (\<lambda>_. None)(3 := Some 2, 2 := Some 1)"

lemma demo_chain: "chain demo_links (Some 3) [3, 2, 1]"
  by (simp add: demo_links_def)

theorem schedule_ptr_refines_witness:
  "\<exists>h' first'. schedule_ptr (\<lambda>_. new_thread 100) demo_links (Some 3) SYS_SYNC_FIFO True = Some (h', first', Some 1) \<and>
    chain h' first' [3, 2]"
  using schedule_ptr_refines [OF demo_chain, of "\<lambda>_. new_thread 100" SYS_SYNC_FIFO True]
  by (simp add: schedule_def sched_pick_def new_thread_def) blast

theorem unqueue_ptr_refines_witness:
  "\<exists>h' first'. unqueue_ptr True demo_links (Some 3) 2 = Some (h', first', Some 2) \<and> chain h' first' [3, 1]"
  using unqueue_ptr_refines [OF demo_chain, of True 2] by (simp add: unqueue_def) blast

end
