(* ===== verification/Scheduler.thy ===== *)
theory Scheduler
  imports Sleep_Queue
begin

text \<open>
  The thread scheduler of \<^verbatim>\<open>rpcs3/Emu/Cell/lv2/lv2.cpp\<close>. \<open>kstate\<close> gathers the static members of
  \<^verbatim>\<open>lv2_obj\<close> (the run queue \<^verbatim>\<open>g_ppu\<close>, the timeout queue \<^verbatim>\<open>g_waiting\<close>, the pending counter, the
  list of threads to awake) and the thread table. The two queues are lists, the head first.
  An \<^verbatim>\<open>ensure\<close> that fails ends the emulation with an exception; the model keeps going and records
  it in the sticky flag \<open>fault\<close>, and the lemmas show that it is never set. Host-level
  notifications (\<^verbatim>\<open>g_to_notify\<close>, futex wake-ups) and reservation notifications are not modelled: they
  change when a thread runs, not what it finds. The current guest time and time stamp counter are
  arguments, \<open>cur\<close> is \<^verbatim>\<open>cpu_thread::get_current()\<close>.
\<close>

record kstate =
  thr :: threads
  order_tag :: u64
  g_ppu :: "tid list"
  g_waiting :: "(u64 \<times> tid) list"
  g_pending :: u32
  g_to_sleep :: "tid list"
  g_to_awake :: "tid list"
  g_scheduler_ready :: bool
  ppu_threads :: nat
  all_timers :: bool
  yield_frequency :: u64
  max_yield_tsc :: u64
  last_yield_tsc :: u64
  preempts_taken :: u32
  fault :: bool

definition upd_thr :: "tid \<Rightarrow> (ppu_thread \<Rightarrow> ppu_thread) \<Rightarrow> kstate \<Rightarrow> kstate" where
  "upd_thr t f ks = ks\<lparr>thr := upd_thread t f (thr ks)\<rparr>"

definition ensure :: "bool \<Rightarrow> kstate \<Rightarrow> kstate" where
  "ensure b ks = (if b then ks else ks\<lparr>fault := True\<rparr>)"

definition with_flag :: "cpu_flag \<Rightarrow> ppu_thread \<Rightarrow> ppu_thread" where
  "with_flag f p = p\<lparr>state := insert f (state p)\<rparr>"

definition without_flags :: "cpu_flag set \<Rightarrow> ppu_thread \<Rightarrow> ppu_thread" where
  "without_flags fs p = p\<lparr>state := state p - fs\<rparr>"

section \<open>Going to sleep\<close>

text \<open>The timeout queue is kept sorted; a new entry goes behind the entries that are not later.\<close>

fun register_timeout :: "u64 \<Rightarrow> tid \<Rightarrow> (u64 \<times> tid) list \<Rightarrow> (u64 \<times> tid) list" where
  "register_timeout w t [] = [(w, t)]"
| "register_timeout w t ((w', t') # xs) =
     (if w' > w then (w, t) # (w', t') # xs else (w', t') # register_timeout w t xs)"

definition wait_until :: "u64 \<Rightarrow> u64 \<Rightarrow> u64" where
  "wait_until start timeout = start + min timeout (NOT start)"

definition sleep_unlocked :: "kstate \<Rightarrow> tid \<Rightarrow> u64 \<Rightarrow> u64 \<Rightarrow> kstate \<times> bool" where
  "sleep_unlocked ks t timeout now =
     (if t_class (thr ks t) = Class_ppu then
        let ks1 = (if ack_suspend (thr ks t)
                   then (upd_thr t (\<lambda>p. p\<lparr>ack_suspend := False\<rparr>) ks)\<lparr>g_pending := g_pending ks - 1\<rparr>
                   else ks);
            return_val = (cancel_sleep (thr ks1 t) \<noteq> 2);
            ks2 = upd_thr t (\<lambda>p. p\<lparr>cancel_sleep := 0\<rparr>) ks1
        in if F_signal \<in> state (thr ks2 t) then (ks2, False)
           else
             let ks3 = ensure (timeout = 0 \<or> F_notify \<notin> state (thr ks2 t))
                         (upd_thr t (with_flag F_suspend) ks2)
             in case unqueue t (g_ppu ks3) of
                  (None, _) \<Rightarrow>
                    if t \<in> set (g_to_sleep ks3)
                    then (upd_thr t (\<lambda>p. p\<lparr>start_time := now\<rparr>)
                            (ks3\<lparr>g_to_sleep := remove1 t (g_to_sleep ks3)\<rparr>), True)
                    else (ks3, False)
                | (Some _, q) \<Rightarrow>
                    let ks4 = upd_thr t (\<lambda>p. p\<lparr>raddr := 0, start_time := now,
                                end_time := (if timeout \<noteq> 0 then wait_until now timeout else - 1)\<rparr>)
                                (ks3\<lparr>g_ppu := q\<rparr>);
                        ks5 = (if timeout \<noteq> 0
                               then ks4\<lparr>g_waiting := register_timeout (wait_until now timeout) t (g_waiting ks4)\<rparr>
                               else ks4)
                    in (ks5, return_val)
      else if t \<in> set (g_to_sleep ks)
      then (ks\<lparr>g_to_sleep := remove1 t (g_to_sleep ks)\<rparr>, True)
      else (ks, False))"

section \<open>Waking up\<close>

datatype awake_cmd = Enqueue_cmd | Yield_cmd | Set_prio int

text \<open>The insertion loop of \<^verbatim>\<open>emplace_thread\<close>: \<open>None\<close> when the thread is met in the queue.\<close>

fun ppu_insert :: "threads \<Rightarrow> tid \<Rightarrow> tid list \<Rightarrow> tid list option" where
  "ppu_insert tab t [] = Some [t]"
| "ppu_insert tab t (n # ns) =
     (if n = t then None
      else if prio (tab n) > prio (tab t) then Some (t # n # ns)
      else map_option ((#) n) (ppu_insert tab t ns))"

fun unregister_timeout :: "tid \<Rightarrow> (u64 \<times> tid) list \<Rightarrow> (u64 \<times> tid) list" where
  "unregister_timeout t [] = []"
| "unregister_timeout t ((w, t') # xs) = (if t' = t then xs else (w, t') # unregister_timeout t xs)"

definition emplace_thread :: "tid \<Rightarrow> kstate \<Rightarrow> kstate \<times> bool" where
  "emplace_thread t ks =
     (case ppu_insert (thr ks) t (g_ppu ks) of
        None \<Rightarrow>
          ((if cancel_sleep (thr ks t) = 1 then upd_thr t (\<lambda>p. p\<lparr>cancel_sleep := 2\<rparr>) ks else ks), False)
      | Some q \<Rightarrow> (ks\<lparr>g_ppu := q, g_waiting := unregister_timeout t (g_waiting ks)\<rparr>, True))"

text \<open>\<^verbatim>\<open>set_prio\<close>: the order stamp moves to the back or to the front of its new priority level.\<close>

definition set_prio :: "tid \<Rightarrow> int \<Rightarrow> bool \<Rightarrow> bool \<Rightarrow> kstate \<Rightarrow> kstate" where
  "set_prio t value increment_order_last increment_order_first ks =
     (let ks1 = (if increment_order_first \<or> increment_order_last
                 then ks\<lparr>order_tag := order_tag ks + 1\<rparr> else ks);
          tag = sint (order_tag ks1)
      in upd_thr t (\<lambda>p. p\<lparr>prio := bf_prio value,
           order := (if increment_order_first then bf_order (NOT tag)
                     else if increment_order_last then bf_order tag else order p)\<rparr>) ks1)"

text \<open>
  The yield command: the thread is rotated behind the threads of its own priority. The second
  component is the index the source compares with the number of hardware threads, \<open>None\<close> when
  there is nothing to rotate.
\<close>

definition yield_rotate :: "threads \<Rightarrow> tid \<Rightarrow> tid list \<Rightarrow> (tid list \<times> nat) option" where
  "yield_rotate tab t q =
     (if t \<notin> set q then None
      else
        let us = takeWhile (\<lambda>x. x \<noteq> t) q;
            vs = drop (Suc (length us)) q;
            same = takeWhile (\<lambda>x. prio (tab x) = prio (tab t)) vs;
            rest = drop (length same) vs
        in if same = [] then None else Some (us @ same @ t # rest, length us + length same))"

definition suspend_thread :: "tid \<Rightarrow> kstate \<Rightarrow> kstate" where
  "suspend_thread t ks =
     (if F_suspend \<in> state (thr ks t) then ks
      else (upd_thr t (\<lambda>p. with_flag F_suspend (p\<lparr>ack_suspend := True\<rparr>)) ks)
             \<lparr>g_pending := g_pending ks + 1\<rparr>)"

definition onproc_count :: "kstate \<Rightarrow> nat" where
  "onproc_count ks = min (length (g_ppu ks)) (ppu_threads ks)"

definition has_running :: "kstate \<Rightarrow> bool" where
  "has_running ks \<longleftrightarrow> ppu_threads ks < length (g_ppu ks)"

text \<open>The delay given to a caller that made a thread of higher priority runnable.\<close>

definition hw_delay :: "tid \<Rightarrow> kstate \<Rightarrow> kstate" where
  "hw_delay c ks =
     (let p = thr ks c; is_create_thread = (in_function p \<and> gpr p 11 = 0x35)
      in if is_create_thread \<or> all_timers ks
         then upd_thr c (\<lambda>p. (with_flag F_yield p)\<lparr>hw_sleep_time :=
                (if F_yield \<notin> state p \<or> hw_sleep_time p \<noteq> 0 then hw_sleep_time p + 100 else 30000)\<rparr>) ks
         else ks)"

definition emplace_step :: "tid \<Rightarrow> kstate \<times> bool \<times> int \<Rightarrow> kstate \<times> bool \<times> int" where
  "emplace_step t s =
     (case s of (ks, changed, lowest) \<Rightarrow>
        (case emplace_thread t ks of
           (ks', True) \<Rightarrow> (ks', True, min (prio (thr ks' t)) lowest)
         | (ks', False) \<Rightarrow> (ks', changed, lowest)))"

text \<open>
  What follows the command switch of \<^verbatim>\<open>awake_unlocked\<close>: the threads are put into the run queue,
  the threads beyond the hardware threads are asked to suspend, and the caller acknowledges.
\<close>

definition awake_tail :: "kstate \<Rightarrow> tid option \<Rightarrow> awake_cmd \<Rightarrow> tid option \<Rightarrow> kstate \<times> bool" where
  "awake_tail ks cpu cmd cur =
     (let has_free = (onproc_count ks < ppu_threads ks);
          targets = (case cpu of
                       Some t \<Rightarrow> if cmd = Yield_cmd then g_to_awake ks else [t]
                     | None \<Rightarrow> g_to_awake ks);
          (ks1, changed, lowest) = fold emplace_step targets (ks, cmd = Yield_cmd, smax32);
          ks2 = fold suspend_thread (drop (ppu_threads ks1) (g_ppu ks1)) ks1
      in case cur of
           None \<Rightarrow> (ks2, changed)
         | Some c \<Rightarrow>
             let ks3 = (if ack_suspend (thr ks2 c)
                        then ensure (g_pending ks2 \<noteq> 0)
                               ((upd_thr c (\<lambda>p. p\<lparr>ack_suspend := False\<rparr>) ks2)\<lparr>g_pending := g_pending ks2 - 1\<rparr>)
                        else ks2);
                 ks4 = (if cpu \<noteq> Some c \<and> changed \<and> has_free \<and> prio (thr ks3 c) > lowest
                        then hw_delay c ks3 else ks3)
             in (ks4, changed))"

definition awake_unlocked :: "kstate \<Rightarrow> tid option \<Rightarrow> awake_cmd \<Rightarrow> tid option \<Rightarrow> u64 \<Rightarrow> kstate \<times> bool" where
  "awake_unlocked ks cpu cmd cur now =
     (case (cmd, cpu) of
        (Set_prio p, Some t) \<Rightarrow>
          let old_prio = prio (thr ks t)
          in if old_prio = p \<and> cur = Some t then (set_prio t p False False ks, True)
             else (case unqueue t (g_ppu ks) of
                     (None, _) \<Rightarrow> (set_prio t p (old_prio > p) (old_prio < p) ks, True)
                   | (Some _, q) \<Rightarrow> awake_tail (set_prio t p False False (ks\<lparr>g_ppu := q\<rparr>)) cpu cmd cur)
      | (Yield_cmd, Some t) \<Rightarrow>
          (case yield_rotate (thr ks) t (g_ppu ks) of
             None \<Rightarrow> (ks, False)
           | Some (q, i) \<Rightarrow>
               let ks1 = ks\<lparr>g_ppu := q\<rparr>
               in if i < ppu_threads ks then (ks1, False)
                  else awake_tail (upd_thr t (\<lambda>p. p\<lparr>start_time := now\<rparr>) ks1) cpu cmd cur)
      | _ \<Rightarrow> awake_tail ks cpu cmd cur)"

section \<open>Dispatching\<close>

text \<open>A suspended thread at the front of the run queue is signalled.\<close>

definition resume_thread :: "tid \<Rightarrow> kstate \<Rightarrow> kstate" where
  "resume_thread t ks =
     (if F_suspend \<in> state (thr ks t)
      then upd_thr t (\<lambda>p.
             let remove_yield = (if start_time p = 0 then {F_suspend} else {F_yield, F_preempt})
             in p\<lparr>start_time := 0,
                  state := insert F_signal (state p) - {F_suspend} - remove_yield\<rparr>) ks
      else ks)"

fun expire_timeouts :: "tid option \<Rightarrow> u64 \<Rightarrow> (u64 \<times> tid) list \<Rightarrow> kstate \<Rightarrow> kstate" where
  "expire_timeouts cur now [] ks = ks\<lparr>g_waiting := []\<rparr>"
| "expire_timeouts cur now ((w, t) # xs) ks =
     (if w \<le> now
      then expire_timeouts cur now xs
             (if cur = Some t then ks
              else upd_thr t (with_flag F_notify) (ensure (F_notify \<notin> state (thr ks t)) ks))
      else ks\<lparr>g_waiting := (w, t) # xs\<rparr>)"

text \<open>The forced preemption at the configured yield frequency.\<close>

definition preempt_candidate :: "kstate \<Rightarrow> tid option \<Rightarrow> tid option" where
  "preempt_candidate ks cur =
     (case find (\<lambda>t. F_preempt \<notin> state (thr ks t) \<and> F_wait \<notin> state (thr ks t))
             (take (ppu_threads ks) (g_ppu ks)) of
        Some t \<Rightarrow> Some t
      | None \<Rightarrow>
          (case g_ppu ks of
             t # _ \<Rightarrow> if F_preempt \<notin> state (thr ks t) then Some t
                      else (case cur of Some c \<Rightarrow> if F_suspend \<notin> state (thr ks c) then Some c else None
                            | None \<Rightarrow> None)
           | [] \<Rightarrow> (case cur of Some c \<Rightarrow> if F_suspend \<notin> state (thr ks c) then Some c else None
                    | None \<Rightarrow> None)))"

definition schedule_preempt :: "kstate \<Rightarrow> tid option \<Rightarrow> u64 \<Rightarrow> kstate" where
  "schedule_preempt ks cur tsc =
     (if yield_frequency ks \<noteq> 0 \<and> tsc \<ge> last_yield_tsc ks \<and> tsc \<le> max_yield_tsc ks \<and>
         tsc - last_yield_tsc ks \<ge> yield_frequency ks
      then (case preempt_candidate ks cur of
              Some t \<Rightarrow>
                if F_preempt \<notin> state (thr ks t)
                then (upd_thr t (with_flag F_preempt) ks)
                       \<lparr>last_yield_tsc := tsc, preempts_taken := preempts_taken ks + 1\<rparr>
                else ks
            | None \<Rightarrow> ks)
      else ks)"

definition schedule_all :: "kstate \<Rightarrow> tid option \<Rightarrow> u64 \<Rightarrow> u64 \<Rightarrow> kstate" where
  "schedule_all ks cur now tsc =
     (let ks1 = (if g_pending ks = 0 \<and> g_scheduler_ready ks
                 then fold resume_thread (take (ppu_threads ks) (g_ppu ks)) ks else ks);
          ks2 = expire_timeouts cur now (g_waiting ks1) ks1
      in schedule_preempt ks2 cur tsc)"

section \<open>The entry points\<close>

definition lv2_sleep :: "kstate \<Rightarrow> tid \<Rightarrow> u64 \<Rightarrow> tid option \<Rightarrow> u64 \<Rightarrow> u64 \<Rightarrow> kstate \<times> bool" where
  "lv2_sleep ks t timeout cur now tsc =
     (let (ks1, result) = sleep_unlocked ks t timeout now;
          ks2 = (if g_to_awake ks1 \<noteq> [] then fst (awake_unlocked ks1 None Enqueue_cmd cur now) else ks1);
          ks3 = schedule_all ks2 cur now tsc
      in (ks3\<lparr>g_to_awake := []\<rparr>, result))"

definition lv2_awake :: "kstate \<Rightarrow> tid option \<Rightarrow> awake_cmd \<Rightarrow> tid option \<Rightarrow> u64 \<Rightarrow> u64 \<Rightarrow> kstate \<times> bool" where
  "lv2_awake ks cpu cmd cur now tsc =
     (let (ks1, result) = awake_unlocked ks cpu cmd cur now
      in (schedule_all ks1 cur now tsc, result))"

definition lv2_yield :: "kstate \<Rightarrow> tid \<Rightarrow> tid option \<Rightarrow> u64 \<Rightarrow> u64 \<Rightarrow> kstate \<times> bool" where
  "lv2_yield ks t cur now tsc =
     (if t_class (thr ks t) = Class_ppu then
        let ks1 = upd_thr t (\<lambda>p. p\<lparr>raddr := 0\<rparr>) ks
        in if t \<notin> set (butlast (g_ppu ks1)) then (ks1, False)
           else lv2_awake ks1 (Some t) Yield_cmd cur now tsc
      else lv2_awake ks (Some t) Yield_cmd cur now tsc)"

definition set_priority :: "kstate \<Rightarrow> tid \<Rightarrow> int \<Rightarrow> tid option \<Rightarrow> u64 \<Rightarrow> u64 \<Rightarrow> kstate" where
  "set_priority ks t p cur now tsc =
     fst (lv2_awake (ensure (u32_of_int (p + 512) < 3712) ks) (Some t) (Set_prio p) cur now tsc)"

definition lv2_append :: "tid \<Rightarrow> kstate \<Rightarrow> kstate" where
  "lv2_append t ks = ks\<lparr>g_to_awake := g_to_awake ks @ [t]\<rparr>"

definition awake_all :: "kstate \<Rightarrow> tid option \<Rightarrow> u64 \<Rightarrow> u64 \<Rightarrow> kstate" where
  "awake_all ks cur now tsc = (fst (lv2_awake ks None Enqueue_cmd cur now tsc))\<lparr>g_to_awake := []\<rparr>"

definition make_scheduler_ready :: "kstate \<Rightarrow> tid option \<Rightarrow> u64 \<Rightarrow> u64 \<Rightarrow> kstate" where
  "make_scheduler_ready ks cur now tsc = awake_all (ks\<lparr>g_scheduler_ready := True\<rparr>) cur now tsc"

definition cleanup :: "kstate \<Rightarrow> kstate" where
  "cleanup ks = ks\<lparr>g_ppu := [], g_scheduler_ready := False, g_to_sleep := [], g_waiting := [],
     g_pending := 0, yield_frequency := 0\<rparr>"

definition set_future_sleep :: "tid \<Rightarrow> kstate \<Rightarrow> kstate" where
  "set_future_sleep t ks = ks\<lparr>g_to_sleep := g_to_sleep ks @ [t]\<rparr>"

definition is_scheduler_ready :: "kstate \<Rightarrow> bool" where
  "is_scheduler_ready ks \<longleftrightarrow> g_to_sleep ks = []"

definition set_yield_frequency :: "u64 \<Rightarrow> u64 \<Rightarrow> kstate \<Rightarrow> kstate" where
  "set_yield_frequency freq max_tsc ks =
     ks\<lparr>yield_frequency := freq, max_yield_tsc := max_tsc, preempts_taken := 0\<rparr>"

definition get_running_ppu :: "kstate \<Rightarrow> nat \<Rightarrow> tid option" where
  "get_running_ppu ks index =
     (if index \<ge> ppu_threads ks then None
      else if index < length (g_ppu ks) then Some (g_ppu ks ! index) else None)"

end
