(* ===== verification/Scheduler_Inv.thy ===== *)
theory Scheduler_Inv
  imports Scheduler
begin

text \<open>
  The invariant of the scheduler and its preservation by every entry point: the run queue is
  duplicate-free and sorted by priority, the timeout queue is sorted by expiry and disjoint from
  the run queue, and the pending counter counts the threads that owe an acknowledgement.
\<close>

definition ppu_sorted :: "threads \<Rightarrow> tid list \<Rightarrow> bool" where
  "ppu_sorted tab = sorted_wrt (\<lambda>a b. prio (tab a) \<le> prio (tab b))"

definition acks :: "threads \<Rightarrow> tid set" where
  "acks tab = {t. ack_suspend (tab t)}"

definition sched_inv :: "kstate \<Rightarrow> bool" where
  "sched_inv ks \<longleftrightarrow>
     distinct (g_ppu ks) \<and> ppu_sorted (thr ks) (g_ppu ks) \<and>
     sorted (map fst (g_waiting ks)) \<and> distinct (map snd (g_waiting ks)) \<and>
     snd ` set (g_waiting ks) \<inter> set (g_ppu ks) = {} \<and>
     (\<forall>t \<in> snd ` set (g_waiting ks). F_notify \<notin> state (thr ks t)) \<and>
     (\<forall>t. ack_suspend (thr ks t) \<longrightarrow> t \<noteq> 0 \<and> F_suspend \<in> state (thr ks t)) \<and>
     g_pending ks = of_nat (card (acks (thr ks))) \<and>
     (\<forall>t. bf_prio (prio (thr ks t)) = prio (thr ks t)) \<and>
     0 \<notin> set (g_ppu ks) \<and> 0 \<notin> set (g_to_awake ks)"

lemma disjoint_insert_mono: "A \<subseteq> B \<Longrightarrow> B \<inter> C = {} \<Longrightarrow> x \<notin> A \<Longrightarrow> A \<inter> insert x C = {}"
  by blast

lemma sched_invD:
  assumes "sched_inv ks"
  shows "distinct (g_ppu ks)" and "ppu_sorted (thr ks) (g_ppu ks)"
    and "sorted (map fst (g_waiting ks))" and "distinct (map snd (g_waiting ks))"
    and "snd ` set (g_waiting ks) \<inter> set (g_ppu ks) = {}"
    and "\<forall>t \<in> snd ` set (g_waiting ks). F_notify \<notin> state (thr ks t)"
    and "\<forall>t. ack_suspend (thr ks t) \<longrightarrow> t \<noteq> 0 \<and> F_suspend \<in> state (thr ks t)"
    and "g_pending ks = of_nat (card (acks (thr ks)))"
    and "\<forall>t. bf_prio (prio (thr ks t)) = prio (thr ks t)"
    and "0 \<notin> set (g_ppu ks)" and "0 \<notin> set (g_to_awake ks)"
  using assms by (simp_all only: sched_inv_def) blast+

section \<open>Frame facts\<close>

lemma upd_thr_simps [simp]:
  "thr (upd_thr t f ks) = upd_thread t f (thr ks)"
  "g_ppu (upd_thr t f ks) = g_ppu ks"
  "g_waiting (upd_thr t f ks) = g_waiting ks"
  "g_pending (upd_thr t f ks) = g_pending ks"
  "g_to_sleep (upd_thr t f ks) = g_to_sleep ks"
  "g_to_awake (upd_thr t f ks) = g_to_awake ks"
  "g_scheduler_ready (upd_thr t f ks) = g_scheduler_ready ks"
  "ppu_threads (upd_thr t f ks) = ppu_threads ks"
  "order_tag (upd_thr t f ks) = order_tag ks"
  "fault (upd_thr t f ks) = fault ks"
  by (simp_all add: upd_thr_def)

lemma ensure_simps [simp]:
  "thr (ensure b ks) = thr ks" "g_ppu (ensure b ks) = g_ppu ks"
  "g_waiting (ensure b ks) = g_waiting ks" "g_pending (ensure b ks) = g_pending ks"
  "g_to_sleep (ensure b ks) = g_to_sleep ks" "g_to_awake (ensure b ks) = g_to_awake ks"
  "g_scheduler_ready (ensure b ks) = g_scheduler_ready ks"
  "ppu_threads (ensure b ks) = ppu_threads ks" "order_tag (ensure b ks) = order_tag ks"
  "fault (ensure b ks) = (fault ks \<or> \<not> b)"
  by (simp_all add: ensure_def)

lemma flag_simps [simp]:
  "prio (with_flag f p) = prio p" "order (with_flag f p) = order p"
  "ack_suspend (with_flag f p) = ack_suspend p" "state (with_flag f p) = insert f (state p)"
  "gpr (with_flag f p) = gpr p" "start_time (with_flag f p) = start_time p"
  "preserve_bit (with_flag f p) = preserve_bit p" "t_class (with_flag f p) = t_class p"
  by (simp_all add: with_flag_def)

lemma upd_thread_sel:
  "prio (upd_thread t f tab s) = (if s = t then prio (f (tab t)) else prio (tab s))"
  "ack_suspend (upd_thread t f tab s) = (if s = t then ack_suspend (f (tab t)) else ack_suspend (tab s))"
  "state (upd_thread t f tab s) = (if s = t then state (f (tab t)) else state (tab s))"
  by (simp_all add: upd_thread_def)

lemma ppu_sorted_cong:
  "(\<And>t. t \<in> set q \<Longrightarrow> prio (a t) = prio (b t)) \<Longrightarrow> ppu_sorted a q = ppu_sorted b q"
  by (induction q) (auto simp: ppu_sorted_def)

lemma ppu_sorted_upd [simp]:
  "(\<And>p. prio (f p) = prio p) \<Longrightarrow> ppu_sorted (upd_thread t f tab) q = ppu_sorted tab q"
  by (rule ppu_sorted_cong) (simp add: upd_thread_sel)

lemma ppu_sorted_remove1: "ppu_sorted tab q \<Longrightarrow> ppu_sorted tab (remove1 t q)"
  unfolding ppu_sorted_def by (induction q) (auto dest: notin_set_remove1 split: if_splits)

lemma acks_upd_same [simp]:
  "(\<And>p. ack_suspend (f p) = ack_suspend p) \<Longrightarrow> acks (upd_thread t f tab) = acks tab"
  by (auto simp: acks_def upd_thread_sel)

lemma acks_clear: "(\<And>p. \<not> ack_suspend (f p)) \<Longrightarrow> acks (upd_thread t f tab) = acks tab - {t}"
  by (auto simp: acks_def upd_thread_sel split: if_splits)

lemma acks_set: "(\<And>p. ack_suspend (f p)) \<Longrightarrow> acks (upd_thread t f tab) = insert t (acks tab)"
  by (auto simp: acks_def upd_thread_sel split: if_splits)

lemma mem_acks [simp]: "t \<in> acks tab \<longleftrightarrow> ack_suspend (tab t)"
  by (simp add: acks_def)

text \<open>Thread id 0 is never used, so the pending counter cannot wrap.\<close>

lemma card_acks_bound: "0 \<notin> acks tab \<Longrightarrow> card (acks tab) < 2 ^ 32"
proof -
  assume "0 \<notin> acks tab"
  then have "acks tab \<subset> (UNIV :: u32 set)" by blast
  then have "card (acks tab) < card (UNIV :: u32 set)" by (intro psubset_card_mono) simp_all
  then show ?thesis by (simp add: card_word)
qed

lemma pending_zero_iff:
  assumes "sched_inv ks"
  shows "g_pending ks = 0 \<longleftrightarrow> acks (thr ks) = {}"
proof -
  have z: "0 \<notin> acks (thr ks)" and p: "g_pending ks = of_nat (card (acks (thr ks)))"
    using assms by (auto simp: sched_inv_def)
  have "unat (g_pending ks) = card (acks (thr ks))"
    using card_acks_bound [OF z] p by (simp add: unat_of_nat)
  then show ?thesis by (metis card_eq_0_iff finite unat_eq_zero)
qed

section \<open>The timeout queue\<close>

lemma register_timeout_set: "set (register_timeout w t xs) = insert (w, t) (set xs)"
  by (induction w t xs rule: register_timeout.induct) auto

lemma register_timeout_sorted: "sorted (map fst xs) \<Longrightarrow> sorted (map fst (register_timeout w t xs))"
  by (induction w t xs rule: register_timeout.induct) (auto simp: register_timeout_set)

lemma register_timeout_distinct:
  "distinct (map snd xs) \<Longrightarrow> t \<notin> snd ` set xs \<Longrightarrow> distinct (map snd (register_timeout w t xs))"
  by (induction w t xs rule: register_timeout.induct) (auto simp: register_timeout_set)

lemma unregister_timeout_subset: "set (unregister_timeout t xs) \<subseteq> set xs"
  by (induction t xs rule: unregister_timeout.induct) auto

lemma unregister_timeout_gone: "distinct (map snd xs) \<Longrightarrow> t \<notin> snd ` set (unregister_timeout t xs)"
  by (induction t xs rule: unregister_timeout.induct) auto

lemma unregister_timeout_sorted: "sorted (map fst xs) \<Longrightarrow> sorted (map fst (unregister_timeout t xs))"
proof (induction t xs rule: unregister_timeout.induct)
  case (2 t w t' xs)
  then show ?case using unregister_timeout_subset [of t xs] by auto
qed simp

lemma unregister_timeout_distinct:
  "distinct (map snd xs) \<Longrightarrow> distinct (map snd (unregister_timeout t xs))"
proof (induction t xs rule: unregister_timeout.induct)
  case (2 t w t' xs)
  then show ?case using unregister_timeout_subset [of t xs] by auto
qed simp

section \<open>The run queue\<close>

lemma ppu_insert_None: "ppu_sorted tab q \<Longrightarrow> ppu_insert tab t q = None \<longleftrightarrow> t \<in> set q"
  by (induction tab t q rule: ppu_insert.induct) (auto simp: ppu_sorted_def)

lemma ppu_insert_set: "ppu_insert tab t q = Some q' \<Longrightarrow> set q' = insert t (set q)"
  by (induction tab t q arbitrary: q' rule: ppu_insert.induct) (auto split: if_splits)

text \<open>Among equal priorities the newcomer is last: the queue is FIFO within a priority.\<close>

lemma ppu_insert_fifo:
  assumes "ppu_insert tab t q = Some q'" and "ppu_sorted tab q"
  shows "\<exists>us vs. q = us @ vs \<and> q' = us @ t # vs \<and> (\<forall>u \<in> set us. prio (tab u) \<le> prio (tab t)) \<and>
    (\<forall>v \<in> set vs. prio (tab t) < prio (tab v))"
  using assms
proof (induction tab t q arbitrary: q' rule: ppu_insert.induct)
  case (1 tab t)
  then show ?case by simp
next
  case (2 tab t n ns)
  show ?case
  proof (cases "prio (tab n) > prio (tab t)")
    case True
    then have "n \<noteq> t" by auto
    with True 2 show ?thesis
      by (intro exI [of _ "[]"] exI [of _ "n # ns"]) (force simp: ppu_sorted_def)
  next
    case False
    with 2 obtain q'' where q'': "ppu_insert tab t ns = Some q''" "q' = n # q''" and nt: "n \<noteq> t"
      by (auto split: if_splits)
    then obtain us vs where "ns = us @ vs" "q'' = us @ t # vs" "\<forall>u \<in> set us. prio (tab u) \<le> prio (tab t)"
      "\<forall>v \<in> set vs. prio (tab t) < prio (tab v)"
      using "2.IH" [of q''] False "2.prems" by (auto simp: ppu_sorted_def)
    with q'' False show ?thesis
      by (intro exI [of _ "n # us"] exI [of _ vs]) auto
  qed
qed

lemma ppu_insert_sorted:
  assumes "ppu_insert tab t q = Some q'" and "ppu_sorted tab q"
  shows "ppu_sorted tab q'"
  using ppu_insert_fifo [OF assms] assms(2) by (force simp: ppu_sorted_def sorted_wrt_append)

lemma ppu_insert_distinct:
  "ppu_insert tab t q = Some q' \<Longrightarrow> ppu_sorted tab q \<Longrightarrow> distinct q \<Longrightarrow> t \<notin> set q \<Longrightarrow> distinct q'"
  using ppu_insert_fifo [of tab t q q'] by auto

section \<open>Preservation of the invariant\<close>

lemma sched_inv_upd:
  assumes "sched_inv ks" and "\<And>p. prio (f p) = prio p" and "\<And>p. ack_suspend (f p) = ack_suspend p"
    and "\<And>p. F_notify \<in> state (f p) \<Longrightarrow> F_notify \<in> state p"
    and "\<And>p. F_suspend \<in> state p \<Longrightarrow> F_suspend \<in> state (f p)"
  shows "sched_inv (upd_thr t f ks)"
  using assms by (auto simp: sched_inv_def upd_thread_sel)

lemma sched_inv_fields [simp]:
  "sched_inv (ks\<lparr>g_to_sleep := ts\<rparr>) = sched_inv ks"
  "sched_inv (ks\<lparr>order_tag := v\<rparr>) = sched_inv ks"
  "sched_inv (ks\<lparr>g_scheduler_ready := b\<rparr>) = sched_inv ks"
  "sched_inv (ks\<lparr>last_yield_tsc := x\<rparr>) = sched_inv ks"
  "sched_inv (ks\<lparr>preempts_taken := y\<rparr>) = sched_inv ks"
  "sched_inv (ensure b ks) = sched_inv ks"
  by (simp_all add: sched_inv_def)

lemma sched_inv_clear_ack:
  assumes "sched_inv ks" and "ack_suspend (thr ks t)"
    and "\<And>p. prio (f p) = prio p \<and> state (f p) = state p \<and> \<not> ack_suspend (f p)"
  shows "sched_inv ((upd_thr t f ks)\<lparr>g_pending := g_pending ks - 1\<rparr>)" and "g_pending ks \<noteq> 0"
proof -
  have pos: "0 < card (acks (thr ks))" using assms(2) by (auto simp: card_gt_0_iff)
  have c: "of_nat (card (acks (thr ks) - {t})) = (of_nat (card (acks (thr ks))) - 1 :: u32)"
    using assms(2) pos by (simp add: card_Diff_singleton of_nat_diff)
  have st: "\<And>p. prio (f p) = prio p" "\<And>p. state (f p) = state p" "\<And>p. \<not> ack_suspend (f p)"
    using assms(3) by simp_all
  show "sched_inv ((upd_thr t f ks)\<lparr>g_pending := g_pending ks - 1\<rparr>)"
    using assms(1) c st unfolding sched_inv_def by (auto simp: upd_thread_sel acks_clear)
  show "g_pending ks \<noteq> 0"
    using pending_zero_iff [OF assms(1)] assms(2) mem_acks [of t "thr ks"] by (metis empty_iff)
qed

lemma suspend_thread_inv: "sched_inv ks \<Longrightarrow> t \<noteq> 0 \<Longrightarrow> sched_inv (suspend_thread t ks)"
proof (cases "F_suspend \<in> state (thr ks t)")
  case False
  assume inv: "sched_inv ks" and t: "t \<noteq> 0"
  have n: "\<not> ack_suspend (thr ks t)" using inv False by (auto simp: sched_inv_def)
  then have "card (insert t (acks (thr ks))) = Suc (card (acks (thr ks)))" by simp
  with inv t False n show ?thesis
    by (auto simp: suspend_thread_def sched_inv_def upd_thread_sel acks_set)
qed (simp add: suspend_thread_def)

lemma emplace_thread_inv:
  assumes "sched_inv ks" and "t \<noteq> 0" and "emplace_thread t ks = (ks', b)"
  shows "sched_inv ks'" and "set (g_ppu ks') = insert t (set (g_ppu ks))" and "b \<longleftrightarrow> t \<notin> set (g_ppu ks)"
    and "g_to_awake ks' = g_to_awake ks" and "fault ks' = fault ks" and "ppu_threads ks' = ppu_threads ks"
proof -
  have srt: "ppu_sorted (thr ks) (g_ppu ks)" using assms(1) by (simp add: sched_inv_def)
  note none = ppu_insert_None [OF srt, of t]
  show "b \<longleftrightarrow> t \<notin> set (g_ppu ks)"
    using assms(3) none by (auto simp: emplace_thread_def split: option.splits)
  show "set (g_ppu ks') = insert t (set (g_ppu ks))"
    using assms(3) none by (auto simp: emplace_thread_def split: option.splits if_splits dest: ppu_insert_set)
  show "g_to_awake ks' = g_to_awake ks" "fault ks' = fault ks" "ppu_threads ks' = ppu_threads ks"
    using assms(3) by (auto simp: emplace_thread_def split: option.splits if_splits)
  show "sched_inv ks'"
  proof (cases "ppu_insert (thr ks) t (g_ppu ks)")
    case None
    then show ?thesis
      using assms by (auto simp: emplace_thread_def intro!: sched_inv_upd split: if_splits)
  next
    case (Some q)
    define W where "W = unregister_timeout t (g_waiting ks)"
    have W: "sorted (map fst W)" "distinct (map snd W)" "t \<notin> snd ` set W" "set W \<subseteq> set (g_waiting ks)"
      using sched_invD(3,4) [OF assms(1)] unregister_timeout_subset [of t "g_waiting ks"]
      by (simp_all add: W_def unregister_timeout_sorted unregister_timeout_distinct unregister_timeout_gone)
    have "t \<notin> set (g_ppu ks)" using none Some by simp
    then have q: "distinct q" "ppu_sorted (thr ks) q" "set q = insert t (set (g_ppu ks))"
      using ppu_insert_distinct [OF Some srt] ppu_insert_sorted [OF Some srt] ppu_insert_set [OF Some]
        sched_invD(1) [OF assms(1)] by simp_all
    have sub: "snd ` set W \<subseteq> snd ` set (g_waiting ks)" using W(4) by (rule image_mono)
    have dis: "snd ` set W \<inter> set q = {}" unfolding q(3) by (rule disjoint_insert_mono [OF sub sched_invD(5) [OF assms(1)] W(3)])
    have not: "\<forall>t \<in> snd ` set W. F_notify \<notin> state (thr ks t)"
      using sched_invD(6) [OF assms(1)] subsetD [OF W(4)] by simp
    have z: "0 \<notin> set q" using q(3) sched_invD(10) [OF assms(1)] assms(2) by auto
    have ks': "ks' = ks\<lparr>g_ppu := q, g_waiting := W\<rparr>"
      using Some assms(3) by (simp add: emplace_thread_def W_def)
    show ?thesis
      using sched_invD(7,8,9,11) [OF assms(1)] W(1,2) q(1,2) dis not z
      unfolding ks' sched_inv_def by (intro conjI) simp_all
  qed
qed

lemma emplace_fold_inv:
  assumes "sched_inv ks" and "0 \<notin> set ts" and "fold emplace_step ts (ks, c, l) = (ks', c', l')"
  shows "sched_inv ks' \<and> set (g_ppu ks') = set ts \<union> set (g_ppu ks) \<and> fault ks' = fault ks \<and>
    ppu_threads ks' = ppu_threads ks \<and> g_to_awake ks' = g_to_awake ks"
  using assms
proof (induction ts arbitrary: ks c l)
  case (Cons t ts)
  obtain k1 b where e: "emplace_thread t ks = (k1, b)" by fastforce
  have t: "t \<noteq> 0" using Cons.prems(2) by auto
  note k1 = emplace_thread_inv [OF Cons.prems(1) t e]
  obtain c1 l1 where "emplace_step t (ks, c, l) = (k1, c1, l1)"
    using e by (cases b) (auto simp: emplace_step_def)
  then show ?case using Cons.IH [of k1 c1 l1] k1 Cons.prems(2,3) by auto
qed simp

lemma suspend_fold_inv:
  assumes "sched_inv ks" and "0 \<notin> set ts"
  shows "sched_inv (fold suspend_thread ts ks)"
  using assms by (induction ts arbitrary: ks) (auto simp: suspend_thread_inv)

lemma suspend_fold_frame [simp]:
  "g_ppu (fold suspend_thread ts ks) = g_ppu ks" "ppu_threads (fold suspend_thread ts ks) = ppu_threads ks"
  "fault (fold suspend_thread ts ks) = fault ks" "g_to_awake (fold suspend_thread ts ks) = g_to_awake ks"
  "g_waiting (fold suspend_thread ts ks) = g_waiting ks"
  by (induction ts arbitrary: ks) (simp_all add: suspend_thread_def)

lemma suspend_fold_state:
  "state (thr (fold suspend_thread ts ks) t) = (if t \<in> set ts then insert F_suspend (state (thr ks t)) else state (thr ks t))"
  by (induction ts arbitrary: ks) (auto simp: suspend_thread_def upd_thread_sel)

lemma hw_delay_inv: "sched_inv ks \<Longrightarrow> sched_inv (hw_delay c ks)"
  by (auto simp: hw_delay_def Let_def intro!: sched_inv_upd)

lemma hw_delay_frame [simp]:
  "g_ppu (hw_delay c ks) = g_ppu ks" "ppu_threads (hw_delay c ks) = ppu_threads ks"
  "fault (hw_delay c ks) = fault ks" "g_to_awake (hw_delay c ks) = g_to_awake ks"
  by (simp_all add: hw_delay_def Let_def)

text \<open>Every thread behind the hardware threads is suspended.\<close>

definition disp_inv :: "kstate \<Rightarrow> bool" where
  "disp_inv ks \<longleftrightarrow> (\<forall>t \<in> set (drop (ppu_threads ks) (g_ppu ks)). F_suspend \<in> state (thr ks t))"

lemma disp_inv_upd:
  assumes "disp_inv ks" and "\<And>p. F_suspend \<in> state p \<Longrightarrow> F_suspend \<in> state (f p)"
  shows "disp_inv (upd_thr t f ks)"
  using assms by (auto simp: disp_inv_def upd_thread_sel)

lemma disp_inv_fields [simp]:
  "disp_inv (ks\<lparr>g_pending := n\<rparr>) = disp_inv ks" "disp_inv (ensure b ks) = disp_inv ks"
  "disp_inv (ks\<lparr>g_to_awake := ts\<rparr>) = disp_inv ks" "disp_inv (ks\<lparr>g_waiting := ws\<rparr>) = disp_inv ks"
  "disp_inv (ks\<lparr>last_yield_tsc := x\<rparr>) = disp_inv ks" "disp_inv (ks\<lparr>preempts_taken := y\<rparr>) = disp_inv ks"
  "disp_inv (ks\<lparr>g_to_sleep := ts\<rparr>) = disp_inv ks" "disp_inv (ks\<lparr>order_tag := v\<rparr>) = disp_inv ks"
  by (simp_all add: disp_inv_def)

definition awake_targets :: "kstate \<Rightarrow> tid option \<Rightarrow> awake_cmd \<Rightarrow> tid list" where
  "awake_targets ks cpu cmd =
     (case cpu of Some t \<Rightarrow> if cmd = Yield_cmd then g_to_awake ks else [t] | None \<Rightarrow> g_to_awake ks)"

lemma awake_tail_inv:
  assumes "sched_inv ks" and "0 \<notin> set (awake_targets ks cpu cmd)" and "awake_tail ks cpu cmd cur = (ks', r)"
  shows "sched_inv ks'" and "fault ks' = fault ks" and "disp_inv ks'"
    and "set (g_ppu ks') = set (awake_targets ks cpu cmd) \<union> set (g_ppu ks)"
    and "ppu_threads ks' = ppu_threads ks" and "g_to_awake ks' = g_to_awake ks"
proof -
  obtain k1 ch lo where e: "fold emplace_step (awake_targets ks cpu cmd) (ks, cmd = Yield_cmd, smax32) = (k1, ch, lo)"
    using prod_cases3 by blast
  note k1 = emplace_fold_inv [OF assms(1,2) e]
  define k2 where "k2 = fold suspend_thread (drop (ppu_threads k1) (g_ppu k1)) k1"
  have "0 \<notin> set (g_ppu k1)" using k1 sched_invD(10) by blast
  then have "0 \<notin> set (drop (ppu_threads k1) (g_ppu k1))" by (auto dest: in_set_dropD)
  then have i2: "sched_inv k2" using k1 by (simp add: k2_def suspend_fold_inv)
  have d2: "disp_inv k2" by (simp add: k2_def disp_inv_def suspend_fold_state)
  have f2: "fault k2 = fault ks" "g_ppu k2 = g_ppu k1" "ppu_threads k2 = ppu_threads ks"
    "g_to_awake k2 = g_to_awake ks" using k1 by (simp_all add: k2_def)
  define ack where "ack c = ensure (g_pending k2 \<noteq> 0)
    ((upd_thr c (\<lambda>p. p\<lparr>ack_suspend := False\<rparr>) k2)\<lparr>g_pending := g_pending k2 - 1\<rparr>)" for c
  have i3: "sched_inv (ack c)" "g_pending k2 \<noteq> 0" if "ack_suspend (thr k2 c)" for c
    using sched_inv_clear_ack [OF i2 that, of "\<lambda>p. p\<lparr>ack_suspend := False\<rparr>"] by (simp_all add: ack_def)
  have a: "fault (ack c) = fault ks" "disp_inv (ack c)" if "ack_suspend (thr k2 c)" for c
    using i3 [OF that] d2 f2 by (simp_all add: ack_def disp_inv_upd)
  have g: "g_ppu (ack c) = g_ppu k1" "ppu_threads (ack c) = ppu_threads ks" "g_to_awake (ack c) = g_to_awake ks" for c
    using f2 by (simp_all add: ack_def)
  have hd: "disp_inv k \<Longrightarrow> disp_inv (hw_delay c k)" for c k
    by (auto simp: hw_delay_def Let_def intro!: disp_inv_upd)
  have res: "ks' = k2 \<or> (\<exists>c. ks' = hw_delay c k2) \<or>
      (\<exists>c. ack_suspend (thr k2 c) \<and> (ks' = ack c \<or> ks' = hw_delay c (ack c)))"
    using assms(3) e unfolding awake_tail_def awake_targets_def [symmetric] Let_def k2_def [symmetric] ack_def
    by (auto simp: k2_def [symmetric] split: option.splits if_splits)
  show "sched_inv ks'" using res i2 i3 by (auto intro: hw_delay_inv)
  show "fault ks' = fault ks" using res f2 a by auto
  show "disp_inv ks'" using res d2 a hd by auto
  show "set (g_ppu ks') = set (awake_targets ks cpu cmd) \<union> set (g_ppu ks)" using res f2 g k1 by auto
  show "ppu_threads ks' = ppu_threads ks" "g_to_awake ks' = g_to_awake ks" using res f2 g by auto
qed

lemma bf_prio_idem [simp]: "bf_prio (bf_prio x) = bf_prio x"
  by (simp add: bf_prio_def)

lemma set_prio_inv:
  assumes "sched_inv ks" and "t \<notin> set (g_ppu ks) \<or> bf_prio p = prio (thr ks t)"
  shows "sched_inv (set_prio t p l f ks)"
proof -
  define ks1 where "ks1 = (if f \<or> l then ks\<lparr>order_tag := order_tag ks + 1\<rparr> else ks)"
  have "sched_inv ks1" and g: "g_ppu ks1 = g_ppu ks" "thr ks1 = thr ks" using assms(1) by (simp_all add: ks1_def)
  define g where "g q = q\<lparr>prio := bf_prio p,
    order := (if f then bf_order (NOT (sint (order_tag ks1))) else if l then bf_order (sint (order_tag ks1)) else order q)\<rparr>" for q :: ppu_thread
  have e: "set_prio t p l f ks = upd_thr t g ks1"
    unfolding set_prio_def Let_def ks1_def [symmetric] g_def [abs_def] by (rule refl)
  have srt: "ppu_sorted (upd_thread t g (thr ks)) (g_ppu ks) = ppu_sorted (thr ks) (g_ppu ks)"
    using assms(2) by (intro ppu_sorted_cong) (auto simp: upd_thread_sel g_def)
  have ak: "acks (upd_thread t g (thr ks)) = acks (thr ks)" by (rule acks_upd_same) (simp add: g_def)
  have st: "state (upd_thread t g (thr ks) s) = state (thr ks s)" for s by (simp add: upd_thread_sel g_def)
  have as: "ack_suspend (upd_thread t g (thr ks) s) = ack_suspend (thr ks s)" for s by (simp add: upd_thread_sel g_def)
  have pr: "\<forall>s. bf_prio (prio (upd_thread t g (thr ks) s)) = prio (upd_thread t g (thr ks) s)"
    using sched_invD(9) [OF assms(1)] by (simp add: upd_thread_sel g_def)
  show ?thesis
    using \<open>sched_inv ks1\<close> pr by (simp only: e sched_inv_def upd_thr_simps g srt ak st as) blast
qed

lemma set_prio_frame [simp]:
  "g_ppu (set_prio t p l f ks) = g_ppu ks" "ppu_threads (set_prio t p l f ks) = ppu_threads ks"
  "fault (set_prio t p l f ks) = fault ks" "g_to_awake (set_prio t p l f ks) = g_to_awake ks"
  by (simp_all add: set_prio_def Let_def)

lemma set_prio_state [simp]: "state (thr (set_prio t p l f ks) s) = state (thr ks s)"
  by (simp add: set_prio_def Let_def upd_thread_sel)

lemma sched_inv_remove:
  assumes "sched_inv ks"
  shows "sched_inv (ks\<lparr>g_ppu := remove1 t (g_ppu ks)\<rparr>)"
  using sched_invD [OF assms] unfolding sched_inv_def
  by (auto simp: ppu_sorted_remove1 dest: notin_set_remove1)

lemma yield_rotate_SomeD:
  assumes "yield_rotate tab t q = Some (q', i)"
  obtains us same rest where "q = us @ t # same @ rest" and "q' = us @ same @ t # rest" and "t \<notin> set us"
    and "\<forall>x \<in> set same. prio (tab x) = prio (tab t)" and "same \<noteq> []"
    and "rest \<noteq> [] \<Longrightarrow> prio (tab (hd rest)) \<noteq> prio (tab t)" and "i = length us + length same"
proof -
  let ?us = "takeWhile (\<lambda>x. x \<noteq> t) q"
  let ?vs = "drop (Suc (length ?us)) q"
  let ?same = "takeWhile (\<lambda>x. prio (tab x) = prio (tab t)) ?vs"
  let ?rest = "dropWhile (\<lambda>x. prio (tab x) = prio (tab t)) ?vs"
  have t: "t \<in> set q" using assms by (auto simp: yield_rotate_def split: if_splits)
  then have "dropWhile (\<lambda>x. x \<noteq> t) q = t # drop 1 (dropWhile (\<lambda>x. x \<noteq> t) q)"
    by (metis (mono_tags, lifting) One_nat_def drop0 drop_Suc dropWhile_eq_Nil_conv hd_dropWhile list.collapse)
  moreover have "drop 1 (dropWhile (\<lambda>x. x \<noteq> t) q) = ?vs"
    by (simp add: dropWhile_eq_drop)
  ultimately have q: "q = ?us @ t # ?same @ ?rest"
    by (metis takeWhile_dropWhile_id)
  have r: "drop (length ?same) ?vs = ?rest" by (simp add: dropWhile_eq_drop)
  have ne: "?same \<noteq> []" and q': "q' = ?us @ ?same @ t # ?rest" and i: "i = length ?us + length ?same"
    using assms t r by (auto simp: yield_rotate_def Let_def split: if_splits)
  have "?rest \<noteq> [] \<Longrightarrow> prio (tab (hd ?rest)) \<noteq> prio (tab t)"
    using hd_dropWhile [of "\<lambda>x. prio (tab x) = prio (tab t)" ?vs] by simp
  then show thesis
    by (intro that [OF q q' _ _ ne _ i]) (auto dest: set_takeWhileD)
qed

lemma yield_rotate_inv:
  assumes "sched_inv ks" and "yield_rotate (thr ks) t (g_ppu ks) = Some (q, i)"
  shows "sched_inv (ks\<lparr>g_ppu := q\<rparr>)" and "set q = set (g_ppu ks)"
proof -
  obtain us same rest where d: "g_ppu ks = us @ t # same @ rest" "q = us @ same @ t # rest"
    "\<forall>x \<in> set same. prio (thr ks x) = prio (thr ks t)"
    using yield_rotate_SomeD [OF assms(2)] by metis
  show s: "set q = set (g_ppu ks)" using d by auto
  have "distinct q" using sched_invD(1) [OF assms(1)] d by auto
  moreover have "ppu_sorted (thr ks) q"
    using sched_invD(2) [OF assms(1)] d by (auto simp: ppu_sorted_def sorted_wrt_append)
  ultimately show "sched_inv (ks\<lparr>g_ppu := q\<rparr>)"
    using sched_invD [OF assms(1)] unfolding sched_inv_def by (simp add: s)
qed

lemma yield_rotate_disp:
  assumes "disp_inv ks" and "yield_rotate (thr ks) t (g_ppu ks) = Some (q, i)" and "i < ppu_threads ks"
  shows "disp_inv (ks\<lparr>g_ppu := q\<rparr>)"
proof -
  obtain us same rest where d: "g_ppu ks = us @ t # same @ rest" "q = us @ same @ t # rest"
    "i = length us + length same"
    using yield_rotate_SomeD [OF assms(2)] by metis
  have "drop (ppu_threads ks) q = drop (ppu_threads ks) (g_ppu ks)"
    using d assms(3) by (cases "ppu_threads ks - length us") (auto simp: Suc_diff_le)
  then show ?thesis using assms(1) by (simp add: disp_inv_def)
qed

text \<open>A command is well formed when it and the list to awake name real threads.\<close>

definition awake_ok :: "kstate \<Rightarrow> tid option \<Rightarrow> bool" where
  "awake_ok ks cpu \<longleftrightarrow> cpu \<noteq> Some 0 \<and> 0 \<notin> set (g_to_awake ks)"

lemma awake_targets_ok: "awake_ok ks cpu \<Longrightarrow> 0 \<notin> set (awake_targets ks cpu cmd)"
  by (auto simp: awake_ok_def awake_targets_def split: option.splits if_splits)

lemma disp_inv_remove: "disp_inv ks \<Longrightarrow> disp_inv (ks\<lparr>g_ppu := remove1 t (g_ppu ks)\<rparr>)"
proof -
  have "set (drop n (remove1 t q)) \<subseteq> set (drop n q)" for n and q :: "tid list"
  proof (induction q arbitrary: n)
    case (Cons a q)
    then show ?case
      using set_drop_subset_set_drop [of "n - 1" n q] by (cases n) (auto dest: notin_set_remove1)
  qed simp
  then show "disp_inv ks \<Longrightarrow> ?thesis" by (force simp: disp_inv_def)
qed

lemma awake_unlocked_inv:
  assumes "sched_inv ks" and "disp_inv ks" and "cpu \<noteq> Some 0" and "awake_unlocked ks cpu cmd cur now = (ks', r)"
  shows "sched_inv ks' \<and> disp_inv ks' \<and> fault ks' = fault ks \<and> g_to_awake ks' = g_to_awake ks \<and>
    ppu_threads ks' = ppu_threads ks"
proof -
  have ok: "awake_ok k cpu" if "g_to_awake k = g_to_awake ks" for k
    using that sched_invD(11) [OF assms(1)] assms(3) by (simp add: awake_ok_def)
  have tail: "sched_inv ks' \<and> disp_inv ks' \<and> fault ks' = fault ks \<and> g_to_awake ks' = g_to_awake ks \<and>
      ppu_threads ks' = ppu_threads ks"
    if "awake_tail k cpu cmd cur = (ks', r)" "sched_inv k" "fault k = fault ks" "g_to_awake k = g_to_awake ks"
      "ppu_threads k = ppu_threads ks" for k
    using awake_tail_inv [OF that(2) awake_targets_ok [OF ok [OF that(4)]] that(1)] that(3-5) by simp
  consider (prio) p t where "cmd = Set_prio p" "cpu = Some t" | (yield) t where "cmd = Yield_cmd" "cpu = Some t"
    | (other) "awake_unlocked ks cpu cmd cur now = awake_tail ks cpu cmd cur"
    by (cases cmd; cases cpu) (auto simp: awake_unlocked_def)
  then show ?thesis
  proof cases
    case prio
    have same: "sched_inv (set_prio t p l f ks) \<and> disp_inv (set_prio t p l f ks)"
      if "t \<notin> set (g_ppu ks) \<or> p = prio (thr ks t)" for l f
      using that set_prio_inv [OF assms(1), of t p] assms(2) sched_invD(9) [OF assms(1)]
      by (auto simp: disp_inv_def)
    have t: "sched_inv (set_prio t p False False (ks\<lparr>g_ppu := remove1 t (g_ppu ks)\<rparr>))"
      using set_prio_inv [OF sched_inv_remove [OF assms(1), of t], of t p] sched_invD(1) [OF assms(1)] by simp
    show ?thesis
    proof (cases "prio (thr ks t) = p \<and> cur = Some t \<or> t \<notin> set (g_ppu ks)")
      case True
      then obtain l f where "ks' = set_prio t p l f ks"
        using assms(4) prio by (auto simp: awake_unlocked_def Let_def unqueue_def split: if_splits)
      then show ?thesis using same True by auto
    next
      case False
      then show ?thesis
        using assms(4) prio tail [OF _ t] by (auto simp: awake_unlocked_def Let_def unqueue_def split: if_splits)
    qed
  next
    case yield
    show ?thesis
    proof (cases "yield_rotate (thr ks) t (g_ppu ks)")
      case None
      then show ?thesis using assms yield by (simp add: awake_unlocked_def)
    next
      case (Some r')
      then obtain q i where qi: "yield_rotate (thr ks) t (g_ppu ks) = Some (q, i)" by (cases r') auto
      note inv = yield_rotate_inv(1) [OF assms(1) qi]
      show ?thesis
      proof (cases "i < ppu_threads ks")
        case True
        then show ?thesis using assms(4) yield qi inv yield_rotate_disp [OF assms(2) qi]
          by (auto simp: awake_unlocked_def)
      next
        case False
        then show ?thesis using assms(4) yield qi
          by (intro tail [of "upd_thr t (\<lambda>p. p\<lparr>start_time := now\<rparr>) (ks\<lparr>g_ppu := q\<rparr>)"])
             (auto simp: awake_unlocked_def intro!: sched_inv_upd inv)
      qed
    qed
  next
    case other
    then show ?thesis using tail [of ks] assms(1,4) by simp
  qed
qed

section \<open>Dispatching\<close>

lemma resume_fold_frame [simp]:
  "g_ppu (fold resume_thread ts ks) = g_ppu ks" "ppu_threads (fold resume_thread ts ks) = ppu_threads ks"
  "fault (fold resume_thread ts ks) = fault ks" "g_waiting (fold resume_thread ts ks) = g_waiting ks"
  "g_to_awake (fold resume_thread ts ks) = g_to_awake ks" "g_pending (fold resume_thread ts ks) = g_pending ks"
  by (induction ts arbitrary: ks) (simp_all add: resume_thread_def)

lemma resume_thread_inv:
  assumes "sched_inv ks" and "g_pending ks = 0"
  shows "sched_inv (resume_thread t ks)"
proof -
  have "acks (thr ks) = {}" using pending_zero_iff [OF assms(1)] assms(2) by simp
  then have "\<forall>s. \<not> ack_suspend (thr ks s)" by (auto simp: acks_def)
  then show ?thesis using assms(1)
    by (auto simp: resume_thread_def sched_inv_def upd_thread_sel Let_def)
qed

lemma resume_fold_inv: "sched_inv ks \<Longrightarrow> g_pending ks = 0 \<Longrightarrow> sched_inv (fold resume_thread ts ks)"
proof (induction ts arbitrary: ks)
  case (Cons t ts)
  have "g_pending (resume_thread t ks) = 0" using Cons.prems(2) by (simp add: resume_thread_def)
  then show ?case using Cons resume_thread_inv by simp
qed simp

lemma resume_fold_suspend:
  "F_suspend \<in> state (thr (fold resume_thread ts ks) t) \<longleftrightarrow> t \<notin> set ts \<and> F_suspend \<in> state (thr ks t)"
  by (induction ts arbitrary: ks) (auto simp: resume_thread_def upd_thread_sel Let_def)

lemma expire_timeouts_inv:
  assumes "sched_inv (ks\<lparr>g_waiting := xs\<rparr>)"
  shows "sched_inv (expire_timeouts cur now xs ks) \<and> fault (expire_timeouts cur now xs ks) = fault ks"
  using assms
proof (induction cur now xs ks rule: expire_timeouts.induct)
  case (2 cur now w t xs ks)
  have nt: "F_notify \<notin> state (thr ks t)" using sched_invD(6) [OF "2.prems"] by simp
  have rest: "sched_inv (ks\<lparr>g_waiting := xs\<rparr>)"
    using sched_invD [OF "2.prems"] unfolding sched_inv_def by auto
  have "sched_inv ((upd_thr t (with_flag F_notify) (ensure True ks))\<lparr>g_waiting := xs\<rparr>)"
    using sched_invD [OF "2.prems"] unfolding sched_inv_def by (auto simp: upd_thread_sel)
  with 2 nt rest show ?case by (auto simp: ensure_def)
qed simp

lemma expire_timeouts_frame:
  "g_ppu (expire_timeouts cur now xs ks) = g_ppu ks"
  "ppu_threads (expire_timeouts cur now xs ks) = ppu_threads ks"
  "g_to_awake (expire_timeouts cur now xs ks) = g_to_awake ks"
  "F_suspend \<in> state (thr (expire_timeouts cur now xs ks) t) \<longleftrightarrow> F_suspend \<in> state (thr ks t)"
  by (induction cur now xs ks rule: expire_timeouts.induct) (auto simp: upd_thread_sel)

lemma schedule_preempt_inv:
  "sched_inv ks \<Longrightarrow> sched_inv (schedule_preempt ks cur tsc)"
  by (auto simp: schedule_preempt_def intro!: sched_inv_upd split: option.splits)

lemma schedule_preempt_frame [simp]:
  "g_ppu (schedule_preempt ks cur tsc) = g_ppu ks" "fault (schedule_preempt ks cur tsc) = fault ks"
  "ppu_threads (schedule_preempt ks cur tsc) = ppu_threads ks"
  "g_to_awake (schedule_preempt ks cur tsc) = g_to_awake ks"
  "F_suspend \<in> state (thr (schedule_preempt ks cur tsc) t) \<longleftrightarrow> F_suspend \<in> state (thr ks t)"
  by (auto simp: schedule_preempt_def upd_thread_sel split: option.splits)

lemma schedule_all_frame [simp]:
  "g_ppu (schedule_all ks cur now tsc) = g_ppu ks" "ppu_threads (schedule_all ks cur now tsc) = ppu_threads ks"
  "g_to_awake (schedule_all ks cur now tsc) = g_to_awake ks"
  by (simp_all add: schedule_all_def Let_def expire_timeouts_frame)

lemma schedule_all_suspend:
  "F_suspend \<in> state (thr (schedule_all ks cur now tsc) t) \<longleftrightarrow>
     F_suspend \<in> state (thr ks t) \<and>
     \<not> (g_pending ks = 0 \<and> g_scheduler_ready ks \<and> t \<in> set (take (ppu_threads ks) (g_ppu ks)))"
  by (auto simp: schedule_all_def Let_def expire_timeouts_frame resume_fold_suspend)

lemma schedule_all_inv:
  assumes "sched_inv ks"
  shows "sched_inv (schedule_all ks cur now tsc) \<and> fault (schedule_all ks cur now tsc) = fault ks"
proof -
  define ks1 where "ks1 = (if g_pending ks = 0 \<and> g_scheduler_ready ks
    then fold resume_thread (take (ppu_threads ks) (g_ppu ks)) ks else ks)"
  have i: "sched_inv ks1" "fault ks1 = fault ks" using assms by (auto simp: ks1_def resume_fold_inv)
  then have "sched_inv (ks1\<lparr>g_waiting := g_waiting ks1\<rparr>)" by simp
  then show ?thesis
    using i expire_timeouts_inv [where ks = ks1 and xs = "g_waiting ks1"]
    unfolding schedule_all_def ks1_def [symmetric] Let_def by (auto intro: schedule_preempt_inv)
qed

lemma schedule_all_disp:
  assumes "sched_inv ks" and "disp_inv ks"
  shows "disp_inv (schedule_all ks cur now tsc)"
proof -
  have "distinct (take n (g_ppu ks) @ drop n (g_ppu ks))" for n
    using sched_invD(1) [OF assms(1)] by simp
  then have "t \<notin> set (take (ppu_threads ks) (g_ppu ks))" if "t \<in> set (drop (ppu_threads ks) (g_ppu ks))" for t
    using that unfolding distinct_append by blast
  then show ?thesis using assms(2) by (auto simp: disp_inv_def schedule_all_suspend)
qed

section \<open>The entry points\<close>

text \<open>
  What a thread that goes to sleep with a timeout must satisfy: a notification raised by an
  earlier timeout has been consumed.
\<close>

definition sleep_ok :: "kstate \<Rightarrow> tid \<Rightarrow> u64 \<Rightarrow> bool" where
  "sleep_ok ks t timeout \<longleftrightarrow> (timeout = 0 \<or> F_notify \<notin> state (thr ks t))"

lemma sched_inv_sleep_wait:
  assumes "sched_inv ks" and "t \<in> set (g_ppu ks)" and "F_notify \<notin> state (thr ks t)"
  shows "sched_inv (ks\<lparr>g_ppu := remove1 t (g_ppu ks), g_waiting := register_timeout w t (g_waiting ks)\<rparr>)"
proof -
  note d = sched_invD [OF assms(1)]
  have t: "t \<notin> snd ` set (g_waiting ks)" using d(5) assms(2) by blast
  have dj: "snd ` set (register_timeout w t (g_waiting ks)) \<inter> set (remove1 t (g_ppu ks)) = {}"
    using d(1,5) by (auto simp: register_timeout_set)
  show ?thesis
    using d(1-4,6-11) dj t assms(3) unfolding sched_inv_def
    by (auto simp: ppu_sorted_remove1 register_timeout_sorted register_timeout_distinct register_timeout_set
        dest: notin_set_remove1)
qed

lemma sleep_unlocked_inv:
  assumes "sched_inv ks" and "disp_inv ks" and "sleep_ok ks t timeout"
    and "sleep_unlocked ks t timeout now = (ks', r)"
  shows "sched_inv ks' \<and> disp_inv ks' \<and> fault ks' = fault ks \<and> g_to_awake ks' = g_to_awake ks \<and>
    ppu_threads ks' = ppu_threads ks"
proof (cases "t_class (thr ks t) = Class_ppu")
  case False
  then show ?thesis using assms by (auto simp: sleep_unlocked_def split: if_splits)
next
  case True
  define ks1 where "ks1 = (if ack_suspend (thr ks t)
    then (upd_thr t (\<lambda>p. p\<lparr>ack_suspend := False\<rparr>) ks)\<lparr>g_pending := g_pending ks - 1\<rparr> else ks)"
  define ks2 where "ks2 = upd_thr t (\<lambda>p. p\<lparr>cancel_sleep := 0\<rparr>) ks1"
  define ks3 where "ks3 = ensure (timeout = 0 \<or> F_notify \<notin> state (thr ks2 t)) (upd_thr t (with_flag F_suspend) ks2)"
  define st where "st p = p\<lparr>raddr := 0, start_time := now,
    end_time := (if timeout \<noteq> 0 then wait_until now timeout else - 1)\<rparr>" for p :: ppu_thread
  have f2: "g_ppu ks2 = g_ppu ks" "state (thr ks2 t) = state (thr ks t)" "fault ks2 = fault ks"
    "g_to_awake ks2 = g_to_awake ks" "ppu_threads ks2 = ppu_threads ks"
    by (simp_all add: ks2_def ks1_def upd_thread_sel)
  have i1: "sched_inv ks1"
    using sched_inv_clear_ack(1) [OF assms(1), of t "\<lambda>p. p\<lparr>ack_suspend := False\<rparr>"] assms(1) by (simp add: ks1_def)
  then have i2: "sched_inv ks2" by (auto simp: ks2_def intro!: sched_inv_upd)
  have d2: "disp_inv ks2" using assms(2) by (auto simp: ks2_def ks1_def intro!: disp_inv_upd)
  have i3: "sched_inv ks3" unfolding ks3_def sched_inv_fields by (rule sched_inv_upd [OF i2]) auto
  have d3: "disp_inv ks3" unfolding ks3_def disp_inv_fields by (rule disp_inv_upd [OF d2]) auto
  have f3: "fault ks3 = fault ks" "g_ppu ks3 = g_ppu ks" "g_to_awake ks3 = g_to_awake ks"
    "ppu_threads ks3 = ppu_threads ks" "timeout = 0 \<or> F_notify \<notin> state (thr ks3 t)"
    using f2 assms(3) by (auto simp: ks3_def sleep_ok_def upd_thread_sel)
  define ks4 where "ks4 = upd_thr t st ks3"
  have i4: "sched_inv ks4" unfolding ks4_def by (rule sched_inv_upd [OF i3]) (auto simp: st_def)
  have d4: "disp_inv ks4" unfolding ks4_def by (rule disp_inv_upd [OF d3]) (auto simp: st_def)
  have f4: "fault ks4 = fault ks" "g_ppu ks4 = g_ppu ks" "g_to_awake ks4 = g_to_awake ks"
    "ppu_threads ks4 = ppu_threads ks" "timeout = 0 \<or> F_notify \<notin> state (thr ks4 t)"
    using f3 by (auto simp: ks4_def st_def upd_thread_sel)
  have w: "sched_inv (ks4\<lparr>g_ppu := remove1 t (g_ppu ks), g_waiting := register_timeout v t (g_waiting ks4)\<rparr>)"
    if "timeout \<noteq> 0" "t \<in> set (g_ppu ks)" for v
    using sched_inv_sleep_wait [OF i4, of t v] that f4 by simp
  have r4: "sched_inv (ks4\<lparr>g_ppu := remove1 t (g_ppu ks)\<rparr>)" "disp_inv (ks4\<lparr>g_ppu := remove1 t (g_ppu ks)\<rparr>)"
    using sched_inv_remove [OF i4, of t] disp_inv_remove [OF d4, of t] f4 by simp_all
  have "disp_inv (ks4\<lparr>g_ppu := q, g_waiting := v\<rparr>) = disp_inv (ks4\<lparr>g_ppu := q\<rparr>)" for q v
    by (simp add: disp_inv_def)
  have c: "upd_thr t st (ks3\<lparr>g_ppu := q\<rparr>) = ks4\<lparr>g_ppu := q\<rparr>" for q
    by (simp add: ks4_def upd_thr_def)
  have ks': "ks' = ks2 \<or> ks' = ks3 \<or> (\<exists>ts. ks' = upd_thr t (\<lambda>p. p\<lparr>start_time := now\<rparr>) (ks3\<lparr>g_to_sleep := ts\<rparr>)) \<or>
     t \<in> set (g_ppu ks) \<and> (ks' = ks4\<lparr>g_ppu := remove1 t (g_ppu ks)\<rparr> \<or> timeout \<noteq> 0 \<and>
       ks' = ks4\<lparr>g_ppu := remove1 t (g_ppu ks), g_waiting := register_timeout (wait_until now timeout) t (g_waiting ks4)\<rparr>)"
    using assms(4) True f3(2)
    unfolding sleep_unlocked_def Let_def ks1_def [symmetric] ks2_def [symmetric] ks3_def [symmetric]
      st_def [abs_def, symmetric] c unqueue_def
    by (auto simp: ks4_def split: if_splits)
  then show ?thesis
    apply (elim disjE exE conjE)
    subgoal using i2 d2 f2 by simp
    subgoal using i3 d3 f3 by simp
    subgoal using i3 d3 f3 by (auto intro!: sched_inv_upd disp_inv_upd)
    subgoal using r4 f4 by simp
    subgoal using w r4 f4 \<open>\<And>q v. disp_inv (ks4\<lparr>g_ppu := q, g_waiting := v\<rparr>) = _\<close> by simp
    done
qed

definition kernel_ok :: "kstate \<Rightarrow> bool" where
  "kernel_ok ks \<longleftrightarrow> sched_inv ks \<and> disp_inv ks \<and> \<not> fault ks"

lemma awake_unlocked_ok:
  "kernel_ok ks \<Longrightarrow> cpu \<noteq> Some 0 \<Longrightarrow> kernel_ok (fst (awake_unlocked ks cpu cmd cur now))"
  using awake_unlocked_inv [of ks cpu cmd cur now] unfolding kernel_ok_def by (metis prod.collapse)

lemma schedule_all_ok: "kernel_ok ks \<Longrightarrow> kernel_ok (schedule_all ks cur now tsc)"
  using schedule_all_inv schedule_all_disp by (simp add: kernel_ok_def)

lemma kernel_ok_clear_awake: "kernel_ok ks \<Longrightarrow> kernel_ok (ks\<lparr>g_to_awake := []\<rparr>)"
  by (auto simp: kernel_ok_def sched_inv_def)

lemma lv2_awake_ok [lv2_inv]:
  "kernel_ok ks \<Longrightarrow> cpu \<noteq> Some 0 \<Longrightarrow> kernel_ok (fst (lv2_awake ks cpu cmd cur now tsc))"
  using awake_unlocked_ok schedule_all_ok by (simp add: lv2_awake_def case_prod_beta)

lemma awake_all_ok [lv2_inv]: "kernel_ok ks \<Longrightarrow> kernel_ok (awake_all ks cur now tsc)"
  by (simp add: awake_all_def lv2_awake_ok kernel_ok_clear_awake)

lemma lv2_append_ok [lv2_inv]: "kernel_ok ks \<Longrightarrow> t \<noteq> 0 \<Longrightarrow> kernel_ok (lv2_append t ks)"
  by (auto simp: kernel_ok_def sched_inv_def lv2_append_def disp_inv_def)

lemma lv2_sleep_ok [lv2_inv]:
  assumes "kernel_ok ks" and "sleep_ok ks t timeout"
  shows "kernel_ok (fst (lv2_sleep ks t timeout cur now tsc))"
proof -
  obtain k1 r where s: "sleep_unlocked ks t timeout now = (k1, r)" by fastforce
  have "kernel_ok k1"
    using sleep_unlocked_inv [OF _ _ assms(2) s] assms(1) by (simp add: kernel_ok_def)
  then show ?thesis
    by (simp add: lv2_sleep_def s Let_def kernel_ok_clear_awake schedule_all_ok awake_unlocked_ok)
qed

lemma kernel_ok_upd:
  assumes "kernel_ok ks" and "\<And>p. prio (f p) = prio p" and "\<And>p. ack_suspend (f p) = ack_suspend p"
    and "\<And>p. F_notify \<in> state (f p) \<Longrightarrow> F_notify \<in> state p"
    and "\<And>p. F_suspend \<in> state p \<Longrightarrow> F_suspend \<in> state (f p)"
  shows "kernel_ok (upd_thr t f ks)"
  using assms unfolding kernel_ok_def by (auto intro: sched_inv_upd disp_inv_upd)

lemma lv2_yield_ok [lv2_inv]:
  assumes "kernel_ok ks" and "t \<noteq> 0"
  shows "kernel_ok (fst (lv2_yield ks t cur now tsc))"
proof -
  have "kernel_ok (upd_thr t (\<lambda>p. p\<lparr>raddr := 0\<rparr>) ks)" by (rule kernel_ok_upd [OF assms(1)]) simp_all
  then show ?thesis using assms by (simp add: lv2_yield_def Let_def lv2_awake_ok)
qed

lemma set_priority_ok [lv2_inv]:
  assumes "kernel_ok ks" and "t \<noteq> 0" and "- 512 \<le> p" and "p < 3200"
  shows "kernel_ok (set_priority ks t p cur now tsc)"
proof -
  have "ensure (u32_of_int (p + 512) < 3712) ks = ks"
    using assms(3,4) by (simp add: ensure_def u32_of_int_id)
  then show ?thesis using assms by (simp add: set_priority_def lv2_awake_ok)
qed

section \<open>What the synchronisation objects may rely on\<close>

text \<open>
  The scheduler keeps every field that the sleep queues and the system calls read of a thread:
  its scheduling key, its registers and its \<^verbatim>\<open>again\<close> flag.
\<close>

definition keeps :: "threads \<Rightarrow> threads \<Rightarrow> bool" where
  "keeps a b \<longleftrightarrow> (\<forall>t. prio (a t) = prio (b t) \<and> order (a t) = order (b t) \<and> gpr (a t) = gpr (b t) \<and>
     preserve_bit (a t) = preserve_bit (b t) \<and> t_class (a t) = t_class (b t) \<and> has_again a t = has_again b t)"

lemma keeps_refl [simp]: "keeps a a"
  by (simp add: keeps_def)

lemma keeps_trans: "keeps a b \<Longrightarrow> keeps b c \<Longrightarrow> keeps a c"
  by (simp add: keeps_def)

lemma keeps_upd:
  assumes "\<And>p. prio (f p) = prio p \<and> order (f p) = order p \<and> gpr (f p) = gpr p \<and>
    preserve_bit (f p) = preserve_bit p \<and> t_class (f p) = t_class p \<and> (F_again \<in> state (f p) \<longleftrightarrow> F_again \<in> state p)"
  shows "keeps (upd_thread t f tab) tab"
  using assms by (simp add: keeps_def upd_thread_def)

lemma keeps_fold:
  assumes "\<And>t ks. keeps (thr (f t ks)) (thr ks)"
  shows "keeps (thr (fold f ts ks)) (thr ks)"
  by (induction ts arbitrary: ks) (auto intro: keeps_trans assms)

lemma keeps_emplace: "keeps (thr (fst (emplace_thread t ks))) (thr ks)"
  by (auto simp: emplace_thread_def intro!: keeps_upd split: option.splits)

lemma keeps_emplace_fold: "keeps (thr (fst (fold emplace_step ts (ks, c)))) (thr ks)"
proof (induction ts arbitrary: ks c)
  case (Cons t ts)
  obtain c1 where "emplace_step t (ks, c) = (fst (emplace_thread t ks), c1)"
    by (cases c; cases "emplace_thread t ks"; cases "snd (emplace_thread t ks)") (auto simp: emplace_step_def)
  then show ?case using keeps_trans [OF Cons.IH [of "fst (emplace_thread t ks)" c1] keeps_emplace] by simp
qed simp

lemma keeps_suspend: "keeps (thr (suspend_thread t ks)) (thr ks)"
  by (auto simp: suspend_thread_def intro!: keeps_upd)

lemma keeps_resume: "keeps (thr (resume_thread t ks)) (thr ks)"
  by (auto simp: resume_thread_def Let_def intro!: keeps_upd)

lemma keeps_awake_tail: "keeps (thr (fst (awake_tail ks cpu cmd cur))) (thr ks)"
proof -
  define s where "s = fold emplace_step (awake_targets ks cpu cmd) (ks, cmd = Yield_cmd, smax32)"
  define k2 where "k2 = fold suspend_thread (drop (ppu_threads (fst s)) (g_ppu (fst s))) (fst s)"
  have k2: "keeps (thr k2) (thr ks)"
    unfolding k2_def s_def by (rule keeps_trans [OF keeps_fold keeps_emplace_fold]) (rule keeps_suspend)
  have hd: "keeps (thr k) (thr ks) \<Longrightarrow> keeps (thr (hw_delay c k)) (thr ks)" for c k
    by (erule keeps_trans [rotated]) (auto simp: hw_delay_def Let_def intro!: keeps_upd)
  have ak: "keeps (upd_thread c (\<lambda>p. p\<lparr>ack_suspend := False\<rparr>) (thr k2)) (thr ks)" for c
    by (rule keeps_trans [OF keeps_upd k2]) simp
  show ?thesis
    unfolding awake_tail_def awake_targets_def [symmetric] s_def [symmetric] Let_def case_prod_beta k2_def [symmetric]
    using k2 by (auto intro!: hd ak split: option.splits)
qed

lemma keeps_expire: "keeps (thr (expire_timeouts cur now xs ks)) (thr ks)"
proof (induction cur now xs ks rule: expire_timeouts.induct)
  case (2 cur now w t xs ks)
  have "keeps (thr (upd_thr t (with_flag F_notify) (ensure b ks))) (thr ks)" for b
    by (simp, rule keeps_upd) simp
  with 2 show ?case by (auto intro: keeps_trans)
qed simp

lemma keeps_schedule_all: "keeps (thr (schedule_all ks cur now tsc)) (thr ks)"
proof -
  have p: "keeps (thr (schedule_preempt k cur tsc)) (thr k)" for k
    by (auto simp: schedule_preempt_def intro!: keeps_upd split: option.splits)
  show ?thesis
    unfolding schedule_all_def Let_def
    by (rule keeps_trans [OF p keeps_trans [OF keeps_expire]]) (auto intro: keeps_fold keeps_resume)
qed

lemma keeps_awake [sched_simps]:
  assumes "\<And>p. cmd \<noteq> Set_prio p"
  shows "keeps (thr (fst (lv2_awake ks cpu cmd cur now tsc))) (thr ks)"
proof -
  have "keeps (upd_thread t (\<lambda>p. p\<lparr>start_time := now\<rparr>) tab) tab" for t tab
    by (rule keeps_upd) simp
  then have "keeps (thr (fst (awake_unlocked ks cpu cmd cur now))) (thr ks)"
    using assms keeps_awake_tail
    by (auto simp: awake_unlocked_def Let_def split: awake_cmd.splits option.splits prod.splits
        intro!: keeps_trans [OF keeps_awake_tail])
  then show ?thesis
    by (simp add: lv2_awake_def case_prod_beta keeps_trans [OF keeps_schedule_all])
qed

lemma keeps_awake_all [sched_simps]: "keeps (thr (awake_all ks cur now tsc)) (thr ks)"
  by (simp add: awake_all_def keeps_awake)

lemma keeps_sleep [sched_simps]: "keeps (thr (fst (lv2_sleep ks t timeout cur now tsc))) (thr ks)"
proof -
  have "keeps (thr (fst (sleep_unlocked ks t timeout now))) (thr ks)"
    by (auto simp: sleep_unlocked_def Let_def keeps_def upd_thread_def split: option.splits prod.splits)
  moreover have "keeps (thr (fst (awake_unlocked k None Enqueue_cmd cur now))) (thr k)" for k
    by (simp add: awake_unlocked_def keeps_awake_tail)
  ultimately show ?thesis
    by (auto simp: lv2_sleep_def Let_def case_prod_beta intro: keeps_trans keeps_schedule_all)
qed

end
