(* ===== verification/Lv2_Wait.thy ===== *)
theory Lv2_Wait
  imports Scheduler_Inv
begin

text \<open>
  What the waiting system calls share. A host step \<open>host\<close> carries the inputs that the emulated
  program does not control: the guest time, the time stamp counter, and whether a
  compare-and-swap attempt meets interference. A thread is \<open>parked\<close> when it is out of the run
  queue and carries no signal; the lemmas show that only a waker of that thread unparks it, which is
  what every wait loop of the synchronisation objects relies on when it takes
  \<^verbatim>\<open>cpu_flag::signal\<close> as the proof that it was taken out of the object's queue.
\<close>

record host =
  h_now :: u64
  h_tsc :: u64
  h_cas :: bool

section \<open>Calls into the scheduler\<close>

definition sleep_self :: "host \<Rightarrow> tid \<Rightarrow> u64 \<Rightarrow> kstate \<Rightarrow> kstate \<times> bool" where
  "sleep_self h t timeout ks = lv2_sleep ks t timeout (Some t) (h_now h) (h_tsc h)"

definition awake_one :: "host \<Rightarrow> tid \<Rightarrow> tid \<Rightarrow> kstate \<Rightarrow> kstate" where
  "awake_one h c t ks = fst (lv2_awake ks (Some t) Enqueue_cmd (Some c) (h_now h) (h_tsc h))"

definition awake_list :: "host \<Rightarrow> tid \<Rightarrow> tid list \<Rightarrow> kstate \<Rightarrow> kstate" where
  "awake_list h c ts ks = awake_all (fold lv2_append ts ks) (Some c) (h_now h) (h_tsc h)"

definition emplace_sq :: "tid \<Rightarrow> tid list \<Rightarrow> kstate \<Rightarrow> kstate \<times> tid list" where
  "emplace_sq t q ks =
     (case emplace (thr ks) (order_tag ks) q t of (tab, tag, q') \<Rightarrow> (ks\<lparr>thr := tab, order_tag := tag\<rparr>, q'))"

definition set_reg :: "tid \<Rightarrow> nat \<Rightarrow> u64 \<Rightarrow> kstate \<Rightarrow> kstate" where
  "set_reg t n v = upd_thr t (\<lambda>p. p\<lparr>gpr := (gpr p)(n := v)\<rparr>)"

definition set_cancel :: "tid \<Rightarrow> nat \<Rightarrow> kstate \<Rightarrow> kstate" where
  "set_cancel t n = upd_thr t (\<lambda>p. p\<lparr>cancel_sleep := n\<rparr>)"

definition raise :: "tid \<Rightarrow> cpu_flag \<Rightarrow> kstate \<Rightarrow> kstate" where
  "raise t f = upd_thr t (with_flag f)"

definition lower :: "tid \<Rightarrow> cpu_flag \<Rightarrow> kstate \<Rightarrow> kstate" where
  "lower t f = upd_thr t (without_flags {f})"

text \<open>The value of register 3 as the result of a system call.\<close>

definition gpr3 :: "kstate \<Rightarrow> tid \<Rightarrow> u64" where
  "gpr3 ks t = gpr (thr ks t) 3"

definition errval :: "CellError \<Rightarrow> u64" where
  "errval e = ucast (cell_error_code e)"

text \<open>
  The head of every wait loop: a signal ends the wait, a stop request freezes a thread that is
  still queued (it restarts the call after the savestate is loaded) and ends the wait otherwise.
\<close>

datatype wait_res = Keep_waiting | Woken | Frozen

definition wait_poll :: "tid \<Rightarrow> tid list \<Rightarrow> kstate \<Rightarrow> kstate \<times> wait_res" where
  "wait_poll t q ks =
     (if F_signal \<in> state (thr ks t) then (lower t F_signal ks, Woken)
      else if is_stopped (state (thr ks t)) then
        (if t \<in> set q then (raise t F_again ks, Frozen) else (ks, Woken))
      else (ks, Keep_waiting))"

section \<open>Parked threads\<close>

definition parked :: "kstate \<Rightarrow> tid \<Rightarrow> bool" where
  "parked ks t \<longleftrightarrow> t \<notin> set (g_ppu ks) \<and> F_signal \<notin> state (thr ks t)"

lemma signal_suspend_fold [simp]:
  "F_signal \<in> state (thr (fold suspend_thread ts ks) t) \<longleftrightarrow> F_signal \<in> state (thr ks t)"
  by (simp add: suspend_fold_state)

lemma signal_emplace_thread: "F_signal \<in> state (thr (fst (emplace_thread s ks)) t) \<longleftrightarrow> F_signal \<in> state (thr ks t)"
  by (simp add: emplace_thread_def upd_thread_sel split: option.splits)

lemma signal_emplace_fold:
  "F_signal \<in> state (thr (fst (fold emplace_step ts (ks, c))) t) \<longleftrightarrow> F_signal \<in> state (thr ks t)"
proof (induction ts arbitrary: ks c)
  case (Cons s ts)
  obtain c1 where "emplace_step s (ks, c) = (fst (emplace_thread s ks), c1)"
    by (cases c; cases "emplace_thread s ks"; cases "snd (emplace_thread s ks)") (auto simp: emplace_step_def)
  then show ?case using Cons.IH [of "fst (emplace_thread s ks)" c1] signal_emplace_thread [of s ks t] by simp
qed simp

lemma signal_awake_tail:
  "F_signal \<in> state (thr (fst (awake_tail ks cpu cmd cur)) t) \<longleftrightarrow> F_signal \<in> state (thr ks t)"
proof -
  define s where "s = fold emplace_step (awake_targets ks cpu cmd) (ks, cmd = Yield_cmd, smax32)"
  define k2 where "k2 = fold suspend_thread (drop (ppu_threads (fst s)) (g_ppu (fst s))) (fst s)"
  have k2: "F_signal \<in> state (thr k2 t) \<longleftrightarrow> F_signal \<in> state (thr ks t)"
    by (simp add: k2_def s_def signal_emplace_fold)
  show ?thesis
    unfolding awake_tail_def awake_targets_def [symmetric] s_def [symmetric] Let_def case_prod_beta k2_def [symmetric]
    using k2 by (auto simp: hw_delay_def Let_def upd_thread_sel split: option.splits)
qed

lemma signal_schedule_all:
  "F_signal \<in> state (thr (schedule_all ks cur now tsc) t) \<Longrightarrow>
     F_signal \<in> state (thr ks t) \<or> t \<in> set (g_ppu ks)"
proof -
  have r: "F_signal \<in> state (thr (fold resume_thread ts k) t) \<Longrightarrow> F_signal \<in> state (thr k t) \<or> t \<in> set ts" for ts k
    by (induction ts arbitrary: k) (fastforce simp: resume_thread_def upd_thread_sel Let_def split: if_splits)+
  have e: "F_signal \<in> state (thr (expire_timeouts cur now xs k) t) \<longleftrightarrow> F_signal \<in> state (thr k t)" for xs k
    by (induction cur now xs k rule: expire_timeouts.induct) (auto simp: upd_thread_sel)
  have p: "F_signal \<in> state (thr (schedule_preempt k cur tsc) t) \<longleftrightarrow> F_signal \<in> state (thr k t)" for k
    by (auto simp: schedule_preempt_def upd_thread_sel split: option.splits)
  assume "F_signal \<in> state (thr (schedule_all ks cur now tsc) t)"
  then show ?thesis
    using r [of "take (ppu_threads ks) (g_ppu ks)" ks] in_set_takeD
    by (fastforce simp: schedule_all_def Let_def e p split: if_splits)
qed

lemma parked_schedule_all: "parked ks t \<Longrightarrow> parked (schedule_all ks cur now tsc) t"
  by (auto simp: parked_def dest: signal_schedule_all)

lemma awake_unlocked_ppu:
  assumes "kernel_ok ks" and "cpu \<noteq> Some 0" and "cmd = Enqueue_cmd"
  shows "set (g_ppu (fst (awake_unlocked ks cpu cmd cur now))) = set (awake_targets ks cpu cmd) \<union> set (g_ppu ks)"
proof -
  have "0 \<notin> set (awake_targets ks cpu cmd)"
    using assms sched_invD(11) by (auto simp: awake_targets_def kernel_ok_def split: option.splits)
  then show ?thesis
    using assms awake_tail_inv(4) [of ks cpu cmd cur] by (simp add: awake_unlocked_def kernel_ok_def prod_eq_iff)
qed

lemma parked_awake_unlocked:
  assumes "kernel_ok ks" and "parked ks t" and "cpu \<noteq> Some 0" and "t \<notin> set (awake_targets ks cpu Enqueue_cmd)"
  shows "parked (fst (awake_unlocked ks cpu Enqueue_cmd cur now)) t"
  using assms awake_unlocked_ppu [OF assms(1,3)] signal_awake_tail
  by (auto simp: parked_def awake_unlocked_def)

lemma awake_one_ppu:
  assumes "kernel_ok ks" and "t \<noteq> 0"
  shows "set (g_ppu (awake_one h c t ks)) = insert t (set (g_ppu ks))"
  using awake_unlocked_ppu [of ks "Some t" Enqueue_cmd] assms
  by (simp add: awake_one_def lv2_awake_def case_prod_beta awake_targets_def)

lemma parked_awake_one:
  assumes "kernel_ok ks" and "t \<noteq> 0" and "s \<noteq> t" and "parked ks s"
  shows "parked (awake_one h c t ks) s"
  using assms by (simp add: awake_one_def lv2_awake_def case_prod_beta parked_schedule_all
      parked_awake_unlocked awake_targets_def)

lemma append_fold [simp]:
  "fold lv2_append ts ks = ks\<lparr>g_to_awake := g_to_awake ks @ ts\<rparr>"
  by (induction ts arbitrary: ks) (simp_all add: lv2_append_def)

lemma append_ok: "kernel_ok ks \<Longrightarrow> 0 \<notin> set ts \<Longrightarrow> kernel_ok (ks\<lparr>g_to_awake := g_to_awake ks @ ts\<rparr>)"
  by (auto simp: kernel_ok_def sched_inv_def)

lemma awake_list_ok [lv2_inv]: "kernel_ok ks \<Longrightarrow> 0 \<notin> set ts \<Longrightarrow> kernel_ok (awake_list h c ts ks)"
  by (simp add: awake_list_def awake_all_ok append_ok)

lemma awake_one_ok [lv2_inv]: "kernel_ok ks \<Longrightarrow> t \<noteq> 0 \<Longrightarrow> kernel_ok (awake_one h c t ks)"
  by (simp add: awake_one_def lv2_awake_ok)

lemma sleep_self_ok [lv2_inv]:
  "kernel_ok ks \<Longrightarrow> sleep_ok ks t timeout \<Longrightarrow> kernel_ok (fst (sleep_self h t timeout ks))"
  by (simp add: sleep_self_def lv2_sleep_ok)

lemma awake_list_ppu:
  assumes "kernel_ok ks" and "g_to_awake ks = []" and "0 \<notin> set ts"
  shows "set (g_ppu (awake_list h c ts ks)) = set ts \<union> set (g_ppu ks)"
  using awake_unlocked_ppu [OF append_ok [OF assms(1,3)], of None Enqueue_cmd] assms(2)
  by (simp add: awake_list_def awake_all_def lv2_awake_def case_prod_beta awake_targets_def)

lemma parked_awake_list:
  assumes "kernel_ok ks" and "g_to_awake ks = []" and "0 \<notin> set ts" and "s \<notin> set ts" and "parked ks s"
  shows "parked (awake_list h c ts ks) s"
proof -
  let ?k = "ks\<lparr>g_to_awake := g_to_awake ks @ ts\<rparr>"
  have "parked (fst (awake_unlocked ?k None Enqueue_cmd (Some c) (h_now h))) s"
    using assms append_ok [OF assms(1,3)]
    by (intro parked_awake_unlocked) (auto simp: awake_targets_def parked_def)
  from parked_schedule_all [OF this] show ?thesis
    by (simp add: awake_list_def awake_all_def lv2_awake_def case_prod_beta parked_def)
qed

lemma awake_clears [simp]:
  "g_to_awake (awake_list h c ts ks) = []" "g_to_awake (fst (sleep_self h t timeout ks)) = []"
  by (simp_all add: awake_list_def awake_all_def sleep_self_def lv2_sleep_def Let_def case_prod_beta)

lemma awake_one_to_awake:
  "kernel_ok ks \<Longrightarrow> t \<noteq> 0 \<Longrightarrow> g_to_awake (awake_one h c t ks) = g_to_awake ks"
  using awake_unlocked_inv [of ks "Some t" Enqueue_cmd "Some c" "h_now h"]
  by (simp add: awake_one_def lv2_awake_def case_prod_beta kernel_ok_def prod_eq_iff)

lemma sleep_unlocked_ppu:
  assumes "distinct (g_ppu ks)"
  shows "set (g_ppu (fst (sleep_unlocked ks t timeout now))) \<subseteq> set (g_ppu ks)"
    and "t_class (thr ks t) = Class_ppu \<Longrightarrow> F_signal \<notin> state (thr ks t) \<Longrightarrow>
      t \<notin> set (g_ppu (fst (sleep_unlocked ks t timeout now)))"
    and "F_signal \<in> state (thr (fst (sleep_unlocked ks t timeout now)) s) \<longleftrightarrow> F_signal \<in> state (thr ks s)"
  using assms
  by (auto simp: sleep_unlocked_def Let_def unqueue_def upd_thread_sel dest: notin_set_remove1
      split: option.splits prod.splits if_splits)

lemma sleep_self_step:
  assumes "kernel_ok ks" and "sleep_ok ks t timeout" and "g_to_awake ks = []"
  shows "fst (sleep_self h t timeout ks) =
    (schedule_all (fst (sleep_unlocked ks t timeout (h_now h))) (Some t) (h_now h) (h_tsc h))\<lparr>g_to_awake := []\<rparr>"
proof -
  obtain k1 r where s: "sleep_unlocked ks t timeout (h_now h) = (k1, r)" by fastforce
  have "g_to_awake k1 = []"
    using sleep_unlocked_inv [OF _ _ assms(2) s] assms(1,3) by (simp add: kernel_ok_def)
  then show ?thesis by (simp add: sleep_self_def lv2_sleep_def s Let_def)
qed

lemma sleep_self_parks:
  assumes "kernel_ok ks" and "sleep_ok ks t timeout" and "g_to_awake ks = []"
    and "t_class (thr ks t) = Class_ppu" and "F_signal \<notin> state (thr ks t)"
  shows "parked (fst (sleep_self h t timeout ks)) t"
proof -
  have d: "distinct (g_ppu ks)" using assms(1) sched_invD(1) by (simp add: kernel_ok_def)
  have "parked (fst (sleep_unlocked ks t timeout (h_now h))) t"
    using sleep_unlocked_ppu(2,3) [OF d] assms(4,5) by (simp add: parked_def)
  from parked_schedule_all [OF this] show ?thesis
    by (simp add: sleep_self_step [OF assms(1-3)] parked_def)
qed

lemma parked_sleep_self:
  assumes "kernel_ok ks" and "sleep_ok ks t timeout" and "g_to_awake ks = []" and "parked ks s"
  shows "parked (fst (sleep_self h t timeout ks)) s"
proof -
  have d: "distinct (g_ppu ks)" using assms(1) sched_invD(1) by (simp add: kernel_ok_def)
  have "parked (fst (sleep_unlocked ks t timeout (h_now h))) s"
    using sleep_unlocked_ppu(1,3) [OF d] assms(4) by (auto simp: parked_def)
  from parked_schedule_all [OF this] show ?thesis
    by (simp add: sleep_self_step [OF assms(1-3)] parked_def)
qed

section \<open>Frame facts of the wrappers\<close>

lemma set_reg_simps [simp]:
  "g_ppu (set_reg t n v ks) = g_ppu ks" "g_to_awake (set_reg t n v ks) = g_to_awake ks"
  "state (thr (set_reg t n v ks) s) = state (thr ks s)" "fault (set_reg t n v ks) = fault ks"
  "t_class (thr (set_reg t n v ks) s) = t_class (thr ks s)" "order_tag (set_reg t n v ks) = order_tag ks"
  "prio (thr (set_reg t n v ks) s) = prio (thr ks s)" "order (thr (set_reg t n v ks) s) = order (thr ks s)"
  by (simp_all add: set_reg_def upd_thread_def)

lemma gpr3_set_reg [simp]: "gpr3 (set_reg t 3 v ks) s = (if s = t then v else gpr3 ks s)"
  by (simp add: gpr3_def set_reg_def upd_thread_def)

lemma flag_step_simps [simp]:
  "g_ppu (raise t f ks) = g_ppu ks" "g_to_awake (raise t f ks) = g_to_awake ks" "fault (raise t f ks) = fault ks"
  "g_ppu (lower t f ks) = g_ppu ks" "g_to_awake (lower t f ks) = g_to_awake ks" "fault (lower t f ks) = fault ks"
  "t_class (thr (raise t f ks) s) = t_class (thr ks s)" "t_class (thr (lower t f ks) s) = t_class (thr ks s)"
  "gpr (thr (raise t f ks) s) = gpr (thr ks s)" "gpr (thr (lower t f ks) s) = gpr (thr ks s)"
  by (simp_all add: raise_def lower_def upd_thread_def with_flag_def without_flags_def)

lemma flag_step_state:
  "state (thr (raise t f ks) s) = (if s = t then insert f (state (thr ks s)) else state (thr ks s))"
  "state (thr (lower t f ks) s) = (if s = t then state (thr ks s) - {f} else state (thr ks s))"
  by (simp_all add: raise_def lower_def upd_thread_def with_flag_def without_flags_def)

lemma kernel_ok_set_reg [lv2_inv]: "kernel_ok ks \<Longrightarrow> kernel_ok (set_reg t n v ks)"
  unfolding set_reg_def by (rule kernel_ok_upd) simp_all

lemma kernel_ok_raise [lv2_inv]: "kernel_ok ks \<Longrightarrow> f \<noteq> F_notify \<Longrightarrow> kernel_ok (raise t f ks)"
  unfolding raise_def by (rule kernel_ok_upd) auto

lemma kernel_ok_lower [lv2_inv]: "kernel_ok ks \<Longrightarrow> f \<noteq> F_suspend \<Longrightarrow> kernel_ok (lower t f ks)"
  unfolding lower_def by (rule kernel_ok_upd) (auto simp: without_flags_def)

lemma parked_set_reg [simp]: "parked (set_reg t n v ks) s = parked ks s"
  by (simp add: parked_def)

lemma parked_raise: "parked ks s \<Longrightarrow> f \<noteq> F_signal \<Longrightarrow> parked (raise t f ks) s"
  by (auto simp: parked_def flag_step_state split: if_splits)

lemma parked_lower: "parked ks s \<Longrightarrow> parked (lower t f ks) s"
  by (auto simp: parked_def flag_step_state split: if_splits)

lemma emplace_sq_queue [simp]: "snd (emplace_sq t q ks) = t # q"
  by (simp add: emplace_sq_def emplace_def)

lemma emplace_sq_simps [simp]:
  "g_ppu (fst (emplace_sq t q ks)) = g_ppu ks" "g_to_awake (fst (emplace_sq t q ks)) = g_to_awake ks"
  "state (thr (fst (emplace_sq t q ks)) s) = state (thr ks s)" "fault (fst (emplace_sq t q ks)) = fault ks"
  "t_class (thr (fst (emplace_sq t q ks)) s) = t_class (thr ks s)"
  "prio (thr (fst (emplace_sq t q ks)) s) = prio (thr ks s)" "gpr (thr (fst (emplace_sq t q ks)) s) = gpr (thr ks s)"
  by (simp_all add: emplace_sq_def emplace_def stamp_order_def upd_thread_def)

lemma kernel_ok_order_tag [simp]: "kernel_ok (ks\<lparr>order_tag := v\<rparr>) = kernel_ok ks"
  by (simp add: kernel_ok_def)

lemma kernel_ok_emplace_sq [lv2_inv]:
  assumes "kernel_ok ks"
  shows "kernel_ok (fst (emplace_sq t q ks))"
proof -
  have "\<exists>f. fst (emplace_sq t q ks) = (upd_thr t f ks)\<lparr>order_tag := order_tag ks + 1\<rparr> \<and>
      (\<forall>p. prio (f p) = prio p \<and> ack_suspend (f p) = ack_suspend p \<and> state (f p) = state p)"
    by (rule exI [of _ "\<lambda>p. if preserve_bit (thr ks t) then p\<lparr>preserve_bit := False\<rparr>
          else p\<lparr>order := bf_order (uint (order_tag ks + 1))\<rparr>"])
       (simp add: emplace_sq_def emplace_def stamp_order_def upd_thr_def)
  then obtain f where f: "fst (emplace_sq t q ks) = (upd_thr t f ks)\<lparr>order_tag := order_tag ks + 1\<rparr>"
    "\<And>p. prio (f p) = prio p" "\<And>p. ack_suspend (f p) = ack_suspend p" "\<And>p. state (f p) = state p" by auto
  show ?thesis
    unfolding f(1) kernel_ok_order_tag by (rule kernel_ok_upd [OF assms]) (simp_all add: f)
qed

lemma parked_emplace_sq [simp]: "parked (fst (emplace_sq t q ks)) s = parked ks s"
  by (simp add: parked_def)

lemma wait_poll_ok [lv2_inv]: "kernel_ok ks \<Longrightarrow> kernel_ok (fst (wait_poll t q ks))"
  by (simp add: wait_poll_def kernel_ok_lower kernel_ok_raise)

text \<open>A parked thread that polls goes on waiting, unless the emulation is being stopped.\<close>

lemma wait_poll_parked:
  "parked ks t \<Longrightarrow> snd (wait_poll t q ks) = Woken \<Longrightarrow> is_stopped (state (thr ks t)) \<and> t \<notin> set q"
  by (auto simp: wait_poll_def parked_def split: if_splits)

section \<open>Running threads\<close>

text \<open>
  A thread executes code (its own, or a system call) when it is in the run queue, has consumed its
  signal, and has not acknowledged a suspension. The scheduler resumes nobody while an
  acknowledgement is missing, so no signal can reach a running thread: this is why a thread that is
  asked to suspend in the middle of a system call does not take the later signal for a wake-up.
\<close>

definition running :: "kstate \<Rightarrow> tid \<Rightarrow> bool" where
  "running ks t \<longleftrightarrow> t \<in> set (g_ppu ks) \<and> F_signal \<notin> state (thr ks t) \<and>
     (F_suspend \<in> state (thr ks t) \<longrightarrow> ack_suspend (thr ks t))"

lemma running_not_parked: "running ks t \<Longrightarrow> \<not> parked ks t"
  by (simp add: running_def parked_def)

lemma ack_resume_fold [simp]: "ack_suspend (thr (fold resume_thread ts ks) t) = ack_suspend (thr ks t)"
  by (induction ts arbitrary: ks) (auto simp: resume_thread_def upd_thread_sel Let_def)

lemma state_resume_fold:
  "F_suspend \<notin> state (thr ks t) \<Longrightarrow> state (thr (fold resume_thread ts ks) t) = state (thr ks t)"
  by (induction ts arbitrary: ks) (auto simp: resume_thread_def upd_thread_sel)

lemma running_schedule_all:
  assumes "sched_inv ks" and "running ks t"
  shows "running (schedule_all ks cur now tsc) t"
proof -
  define ks1 where "ks1 = (if g_pending ks = 0 \<and> g_scheduler_ready ks
    then fold resume_thread (take (ppu_threads ks) (g_ppu ks)) ks else ks)"
  have "F_suspend \<notin> state (thr ks t)" if "g_pending ks = 0"
    using that pending_zero_iff [OF assms(1)] assms(2) by (auto simp: running_def acks_def)
  then have r1: "running ks1 t"
    using assms(2) by (auto simp: running_def ks1_def state_resume_fold)
  have e: "running (expire_timeouts cur now xs k) t = running k t" for xs k
    by (induction cur now xs k rule: expire_timeouts.induct) (auto simp: running_def upd_thread_sel)
  have p: "running (schedule_preempt k cur tsc) t = running k t" for k
    by (auto simp: schedule_preempt_def running_def upd_thread_sel split: option.splits)
  show ?thesis
    unfolding schedule_all_def Let_def ks1_def [symmetric] by (simp add: e p r1)
qed

lemma running_suspend_fold: "running ks t \<Longrightarrow> running (fold suspend_thread ts ks) t"
proof (induction ts arbitrary: ks)
  case (Cons u ts)
  have "running (suspend_thread u ks) t"
    using Cons.prems by (auto simp: suspend_thread_def running_def upd_thread_sel)
  then show ?case using Cons.IH by simp
qed simp

lemma running_emplace_fold:
  assumes "kernel_ok ks" and "0 \<notin> set ts" and "running ks t"
  shows "running (fst (fold emplace_step ts (ks, c))) t"
proof -
  have e: "F_suspend \<in> state (thr (fst (emplace_thread u k)) t) \<longleftrightarrow> F_suspend \<in> state (thr k t)"
    "ack_suspend (thr (fst (emplace_thread u k)) t) = ack_suspend (thr k t)" for u k
    by (simp_all add: emplace_thread_def upd_thread_sel split: option.splits)
  have f: "(F_suspend \<in> state (thr (fst (fold emplace_step ts (k, c))) t) \<longleftrightarrow> F_suspend \<in> state (thr k t)) \<and>
      ack_suspend (thr (fst (fold emplace_step ts (k, c))) t) = ack_suspend (thr k t)" for k c
  proof (induction ts arbitrary: k c)
    case (Cons s ts)
    obtain c1 where "emplace_step s (k, c) = (fst (emplace_thread s k), c1)"
      by (cases c; cases "emplace_thread s k"; cases "snd (emplace_thread s k)") (auto simp: emplace_step_def)
    then show ?case using Cons.IH [of "fst (emplace_thread s k)" c1] e by simp
  qed simp
  obtain k1 c1 l1 where k1: "fold emplace_step ts (ks, c) = (k1, c1, l1)" using prod_cases3 by blast
  have "set (g_ppu k1) = set ts \<union> set (g_ppu ks)"
    using emplace_fold_inv [OF _ assms(2), of ks "fst c" "snd c" k1 c1 l1] assms(1) k1 by (simp add: kernel_ok_def)
  then show ?thesis
    using assms(3) f [of ks c] signal_emplace_fold [of ts ks c t] k1 by (simp add: running_def)
qed

lemma running_awake_tail:
  assumes "kernel_ok ks" and "0 \<notin> set (awake_targets ks cpu cmd)" and "running ks t" and "cur \<noteq> Some t"
  shows "running (fst (awake_tail ks cpu cmd cur)) t"
proof -
  define s where "s = fold emplace_step (awake_targets ks cpu cmd) (ks, cmd = Yield_cmd, smax32)"
  define k2 where "k2 = fold suspend_thread (drop (ppu_threads (fst s)) (g_ppu (fst s))) (fst s)"
  have k2: "running k2 t"
    unfolding k2_def s_def by (rule running_suspend_fold, rule running_emplace_fold [OF assms(1-3)])
  show ?thesis
    unfolding awake_tail_def awake_targets_def [symmetric] s_def [symmetric] Let_def case_prod_beta k2_def [symmetric]
    using k2 assms(4) by (auto simp: running_def hw_delay_def Let_def upd_thread_sel split: option.splits)
qed

lemma running_awake_one:
  assumes "kernel_ok ks" and "s \<noteq> 0" and "running ks t" and "c \<noteq> t"
  shows "running (awake_one h c s ks) t"
proof -
  have "running (fst (awake_unlocked ks (Some s) Enqueue_cmd (Some c) (h_now h))) t"
    using running_awake_tail [OF assms(1) _ assms(3)] assms(2,4) by (simp add: awake_unlocked_def awake_targets_def)
  moreover have "sched_inv (fst (awake_unlocked ks (Some s) Enqueue_cmd (Some c) (h_now h)))"
    using awake_unlocked_ok [OF assms(1), of "Some s"] assms(2) by (simp add: kernel_ok_def)
  ultimately show ?thesis by (simp add: awake_one_def lv2_awake_def case_prod_beta running_schedule_all)
qed

lemma running_awake_list:
  assumes "kernel_ok ks" and "g_to_awake ks = []" and "0 \<notin> set ts" and "running ks t" and "c \<noteq> t"
  shows "running (awake_list h c ts ks) t"
proof -
  let ?k = "ks\<lparr>g_to_awake := ts\<rparr>"
  have k: "kernel_ok ?k" using append_ok [OF assms(1,3)] assms(2) by simp
  have "running (fst (awake_unlocked ?k None Enqueue_cmd (Some c) (h_now h))) t"
    using running_awake_tail [OF k, of None Enqueue_cmd t "Some c"] assms(3-5)
    by (simp add: awake_unlocked_def awake_targets_def running_def)
  moreover have "sched_inv (fst (awake_unlocked ?k None Enqueue_cmd (Some c) (h_now h)))"
    using awake_unlocked_ok [OF k, of None] by (simp add: kernel_ok_def)
  ultimately have "running (schedule_all (fst (awake_unlocked ?k None Enqueue_cmd (Some c) (h_now h))) (Some c) (h_now h) (h_tsc h)) t"
    by (rule running_schedule_all [rotated])
  then show ?thesis
    by (simp add: awake_list_def awake_all_def lv2_awake_def case_prod_beta running_def assms(2))
qed

lemma running_sleep_self:
  assumes "kernel_ok ks" and "sleep_ok ks s timeout" and "g_to_awake ks = []" and "running ks t" and "s \<noteq> t"
  shows "running (fst (sleep_self h s timeout ks)) t"
proof -
  obtain k1 r where s: "sleep_unlocked ks s timeout (h_now h) = (k1, r)" by fastforce
  have i: "sched_inv k1" using sleep_unlocked_inv [OF _ _ assms(2) s] assms(1) by (simp add: kernel_ok_def)
  have "running k1 t"
    using s assms(4,5)
    by (auto simp: sleep_unlocked_def Let_def running_def unqueue_def upd_thread_sel split: if_splits)
  from running_schedule_all [OF i this] show ?thesis
    by (simp add: sleep_self_step [OF assms(1-3)] s running_def)
qed

text \<open>A running thread that goes to sleep leaves the run queue; the call reports a cancelled sleep.\<close>

lemma sleep_self_result:
  assumes "running ks t" and "t_class (thr ks t) = Class_ppu"
  shows "snd (sleep_self h t timeout ks) \<longleftrightarrow> cancel_sleep (thr ks t) \<noteq> 2"
  using assms
  by (auto simp: sleep_self_def lv2_sleep_def sleep_unlocked_def Let_def running_def unqueue_def upd_thread_def
      split: prod.splits if_splits)

section \<open>Cancelled sleeps\<close>

lemma cancel_schedule_all [simp]: "cancel_sleep (thr (schedule_all ks cur now tsc) t) = cancel_sleep (thr ks t)"
proof -
  have r: "cancel_sleep (thr (fold resume_thread ts k) t) = cancel_sleep (thr k t)" for ts k
    by (induction ts arbitrary: k) (auto simp: resume_thread_def upd_thread_def Let_def)
  have e: "cancel_sleep (thr (expire_timeouts cur now xs k) t) = cancel_sleep (thr k t)" for xs k
    by (induction cur now xs k rule: expire_timeouts.induct) (auto simp: upd_thread_def with_flag_def)
  have p: "cancel_sleep (thr (schedule_preempt k cur tsc) t) = cancel_sleep (thr k t)" for k
    by (auto simp: schedule_preempt_def upd_thread_def with_flag_def split: option.splits)
  show ?thesis by (simp add: schedule_all_def Let_def r e p)
qed

lemma cancel_awake_tail:
  "cancel_sleep (thr (fst (awake_tail ks cpu cmd cur)) t) =
    cancel_sleep (thr (fst (fold emplace_step (awake_targets ks cpu cmd) (ks, cmd = Yield_cmd, smax32))) t)"
proof -
  define s where "s = fold emplace_step (awake_targets ks cpu cmd) (ks, cmd = Yield_cmd, smax32)"
  have f: "cancel_sleep (thr (fold suspend_thread ts k) t) = cancel_sleep (thr k t)" for ts k
    by (induction ts arbitrary: k) (auto simp: suspend_thread_def upd_thread_def with_flag_def)
  have h: "cancel_sleep (thr (hw_delay c k) t) = cancel_sleep (thr k t)" for c k
    by (auto simp: hw_delay_def Let_def upd_thread_def with_flag_def)
  show ?thesis
    unfolding awake_tail_def awake_targets_def [symmetric] s_def [symmetric] Let_def case_prod_beta
    by (auto simp: f h upd_thread_def split: option.splits)
qed

lemma cancel_emplace:
  assumes "sched_inv ks"
  shows "cancel_sleep (thr (fst (emplace_thread s ks)) t) =
    (if s = t \<and> t \<in> set (g_ppu ks) \<and> cancel_sleep (thr ks t) = 1 then 2 else cancel_sleep (thr ks t))"
  using ppu_insert_None [OF sched_invD(2) [OF assms], of s]
  by (auto simp: emplace_thread_def upd_thread_def split: option.splits)

lemma fst_emplace_step: "fst (emplace_step s (k, c)) = fst (emplace_thread s k)"
  by (cases c; cases "emplace_thread s k"; cases "snd (emplace_thread s k)") (auto simp: emplace_step_def)

lemma cancel_awake_one:
  assumes "kernel_ok ks"
  shows "cancel_sleep (thr (awake_one h c s ks) t) =
    (if s = t \<and> t \<in> set (g_ppu ks) \<and> cancel_sleep (thr ks t) = 1 then 2 else cancel_sleep (thr ks t))"
  using assms cancel_emplace [of ks s t]
  by (simp add: awake_one_def lv2_awake_def case_prod_beta awake_unlocked_def cancel_awake_tail awake_targets_def
      fst_emplace_step kernel_ok_def)

lemma cancel_sleep_self:
  assumes "kernel_ok ks" and "sleep_ok ks s timeout" and "g_to_awake ks = []" and "s \<noteq> t"
  shows "cancel_sleep (thr (fst (sleep_self h s timeout ks)) t) = cancel_sleep (thr ks t)"
  unfolding sleep_self_step [OF assms(1-3)]
  using assms(4) by (auto simp: sleep_unlocked_def Let_def unqueue_def upd_thread_def with_flag_def split: if_splits)

section \<open>Any sequence of scheduler calls\<close>

text \<open>The state at the start of an emulation: a thread table and empty queues.\<close>

definition boot_ks :: "threads \<Rightarrow> nat \<Rightarrow> kstate" where
  "boot_ks tab n =
     \<lparr>thr = tab, order_tag = 0, g_ppu = [], g_waiting = [], g_pending = 0, g_to_sleep = [], g_to_awake = [],
      g_scheduler_ready = False, ppu_threads = n, all_timers = False, yield_frequency = 0, max_yield_tsc = 0,
      last_yield_tsc = 0, preempts_taken = 0, fault = False\<rparr>"

definition fresh_threads :: "threads \<Rightarrow> bool" where
  "fresh_threads tab \<longleftrightarrow> (\<forall>t. bf_prio (prio (tab t)) = prio (tab t) \<and> \<not> ack_suspend (tab t))"

text \<open>
  The calls of the scheduler and the changes the rest of the emulator makes to the flags of a thread. The scheduler alone
  raises \<^verbatim>\<open>notify\<close> (\<^verbatim>\<open>schedule_all\<close>) and clears \<^verbatim>\<open>suspend\<close>; the threads that are named exist, which
  is what \<^term>\<open>t \<noteq> 0\<close> stands for.
\<close>

datatype kcall =
    K_sleep tid u64
  | K_awake tid
  | K_yield tid
  | K_priority tid int
  | K_append tid
  | K_awake_all
  | K_ready
  | K_raise tid cpu_flag
  | K_lower tid cpu_flag

fun kernel_do :: "kcall \<Rightarrow> tid option \<Rightarrow> u64 \<Rightarrow> u64 \<Rightarrow> kstate \<Rightarrow> kstate" where
  "kernel_do (K_sleep t timeout) cur now tsc ks = fst (lv2_sleep ks t timeout cur now tsc)"
| "kernel_do (K_awake t) cur now tsc ks = fst (lv2_awake ks (Some t) Enqueue_cmd cur now tsc)"
| "kernel_do (K_yield t) cur now tsc ks = fst (lv2_yield ks t cur now tsc)"
| "kernel_do (K_priority t p) cur now tsc ks = set_priority ks t p cur now tsc"
| "kernel_do (K_append t) cur now tsc ks = lv2_append t ks"
| "kernel_do K_awake_all cur now tsc ks = awake_all ks cur now tsc"
| "kernel_do K_ready cur now tsc ks = make_scheduler_ready ks cur now tsc"
| "kernel_do (K_raise t f) cur now tsc ks = raise t f ks"
| "kernel_do (K_lower t f) cur now tsc ks = lower t f ks"

fun kcall_ok :: "kcall \<Rightarrow> bool" where
  "kcall_ok (K_sleep t timeout) = True"
| "kcall_ok (K_awake t) = (t \<noteq> 0)"
| "kcall_ok (K_yield t) = (t \<noteq> 0)"
| "kcall_ok (K_priority t p) = (t \<noteq> 0)"
| "kcall_ok (K_append t) = (t \<noteq> 0)"
| "kcall_ok K_awake_all = True"
| "kcall_ok K_ready = True"
| "kcall_ok (K_raise t f) = (f \<noteq> F_notify)"
| "kcall_ok (K_lower t f) = (f \<noteq> F_suspend)"

text \<open>
  Two \<^verbatim>\<open>ensure\<close> of the scheduler test what the caller passed: a thread that is about to sleep with a timeout has
  consumed the notification of an earlier timeout, and a priority is in the range of the kernel.
\<close>

fun misuse :: "kcall \<Rightarrow> kstate \<Rightarrow> bool" where
  "misuse (K_sleep t timeout) ks =
     (t_class (thr ks t) = Class_ppu \<and> F_signal \<notin> state (thr ks t) \<and> timeout \<noteq> 0 \<and> F_notify \<in> state (thr ks t))"
| "misuse (K_priority t p) ks = (u32_of_int (p + 512) \<ge> 3712)"
| "misuse c ks = False"

text \<open>A failed \<^verbatim>\<open>ensure\<close> ends the emulation.\<close>

inductive kernel_step :: "kstate \<Rightarrow> kstate \<Rightarrow> bool" where
  "\<not> fault ks \<Longrightarrow> kcall_ok c \<Longrightarrow> kernel_step ks (kernel_do c cur now tsc ks)"

lemma boot_ok: "fresh_threads tab \<Longrightarrow> kernel_ok (boot_ks tab n)"
  by (auto simp: kernel_ok_def sched_inv_def disp_inv_def boot_ks_def fresh_threads_def ppu_sorted_def acks_def)

lemma kernel_ok_ready: "kernel_ok ks \<Longrightarrow> kernel_ok (ks\<lparr>g_scheduler_ready := b\<rparr>)"
  by (simp add: kernel_ok_def disp_inv_def)

text \<open>A failure stays recorded.\<close>

lemma fault_ensure: "fault (ensure b ks) \<longleftrightarrow> fault ks \<or> \<not> b"
  by (simp add: ensure_def)

lemma fault_awake_tail: "fault ks \<Longrightarrow> fault (fst (awake_tail ks cpu cmd cur))"
proof -
  assume f: "fault ks"
  have e: "fault (fst (emplace_step t s)) = fault (fst s)" for t s
    by (cases s) (auto simp: emplace_step_def emplace_thread_def split: option.splits)
  have "fault (fst (fold emplace_step ts s)) = fault (fst s)" for ts s by (induction ts arbitrary: s) (auto simp: e)
  moreover have "fault (fold suspend_thread ts k) = fault k" for ts k
    by (induction ts arbitrary: k) (auto simp: suspend_thread_def)
  moreover have "fault (hw_delay c k) = fault k" for c k by (simp add: hw_delay_def Let_def)
  ultimately show ?thesis
    using f by (auto simp: awake_tail_def Let_def case_prod_beta fault_ensure split: option.splits)
qed

lemma fault_schedule_all: "fault ks \<Longrightarrow> fault (schedule_all ks cur now tsc)"
proof -
  have "fault (fold resume_thread ts k) = fault k" for ts k
    by (induction ts arbitrary: k) (auto simp: resume_thread_def)
  moreover have "fault k \<Longrightarrow> fault (expire_timeouts cur now xs k)" for xs k
    by (induction cur now xs k rule: expire_timeouts.induct) (auto simp: fault_ensure)
  moreover have "fault (schedule_preempt k cur tsc) = fault k" for k
    by (auto simp: schedule_preempt_def split: option.splits)
  ultimately show "fault ks \<Longrightarrow> fault (schedule_all ks cur now tsc)" by (simp add: schedule_all_def Let_def)
qed

lemma fault_awake: "fault ks \<Longrightarrow> fault (fst (awake_unlocked ks cpu cmd cur now))"
proof -
  have "fault (set_prio t p a b k) = fault k" for t p a b k by (simp add: set_prio_def Let_def)
  then show "fault ks \<Longrightarrow> fault (fst (awake_unlocked ks cpu cmd cur now))"
    by (auto simp: awake_unlocked_def Let_def fault_awake_tail split: awake_cmd.splits option.splits prod.splits)
qed

lemma misuse_fault:
  assumes "misuse c ks"
  shows "fault (kernel_do c cur now tsc ks)"
proof (cases c)
  case (K_sleep t timeout)
  have "fault (fst (sleep_unlocked ks t timeout now))"
    using assms K_sleep by (auto simp: sleep_unlocked_def Let_def fault_ensure upd_thread_sel unqueue_def)
  then show ?thesis
    using K_sleep by (auto simp: lv2_sleep_def Let_def case_prod_beta fault_schedule_all fault_awake)
next
  case (K_priority t p)
  then show ?thesis
    using assms by (simp add: set_priority_def lv2_awake_def case_prod_beta fault_schedule_all fault_awake fault_ensure)
qed (use assms in auto)

lemma kernel_do_ok:
  assumes "kernel_ok ks" and "kcall_ok c" and "\<not> misuse c ks"
  shows "kernel_ok (kernel_do c cur now tsc ks)"
proof (cases c)
  case (K_sleep t timeout)
  show ?thesis
  proof (cases "sleep_ok ks t timeout")
    case False
    then have "t_class (thr ks t) \<noteq> Class_ppu \<or> F_signal \<in> state (thr ks t)"
      using assms(3) K_sleep by (auto simp: sleep_ok_def)
    then have "sleep_unlocked ks t timeout now = sleep_unlocked ks t 0 now"
      by (auto simp: sleep_unlocked_def Let_def upd_thread_sel)
    then have "lv2_sleep ks t timeout cur now tsc = lv2_sleep ks t 0 cur now tsc" by (simp add: lv2_sleep_def)
    then show ?thesis using lv2_sleep_ok [OF assms(1), of t 0] K_sleep by (simp add: sleep_ok_def)
  qed (use assms K_sleep lv2_sleep_ok in simp)
next
  case (K_priority t p)
  then have "kernel_ok (ensure (u32_of_int (p + 512) < 3712) ks)" using assms by (simp add: ensure_def)
  then show ?thesis using K_priority assms(2) by (simp add: set_priority_def lv2_awake_ok)
qed (use assms in \<open>simp_all add: lv2_inv make_scheduler_ready_def kernel_ok_ready\<close>)

lemma kernel_step_ok: "kernel_step ks ks' \<Longrightarrow> kernel_ok ks \<Longrightarrow> kernel_ok ks' \<or> fault ks'"
  by (erule kernel_step.cases) (metis kernel_do_ok misuse_fault)

lemma kernel_reachable_ok:
  assumes "kernel_step\<^sup>*\<^sup>* ks ks'" and "kernel_ok ks"
  shows "kernel_ok ks' \<or> fault ks'"
  using assms
proof (induction rule: rtranclp_induct)
  case (step k k')
  then have "\<not> fault k" by (auto elim: kernel_step.cases)
  then show ?case using step kernel_step_ok by blast
qed simp

lemma onproc_bound:
  assumes "kernel_ok ks"
  shows "card {t \<in> set (g_ppu ks). F_suspend \<notin> state (thr ks t)} \<le> ppu_threads ks"
proof -
  let ?n = "ppu_threads ks"
  have "set (g_ppu ks) = set (take ?n (g_ppu ks)) \<union> set (drop ?n (g_ppu ks))"
    by (metis append_take_drop_id set_append)
  then have "{t \<in> set (g_ppu ks). F_suspend \<notin> state (thr ks t)} \<subseteq> set (take ?n (g_ppu ks))"
    using assms by (auto simp: kernel_ok_def disp_inv_def)
  then have "card {t \<in> set (g_ppu ks). F_suspend \<notin> state (thr ks t)} \<le> card (set (take ?n (g_ppu ks)))"
    by (rule card_mono [rotated]) simp
  also have "\<dots> \<le> ?n" using card_length [of "take ?n (g_ppu ks)"] by simp
  finally show ?thesis .
qed

text \<open>
  C3: Along every sequence of scheduler calls from the start of the emulation (sleep, awake, yield, change of priority,
  batched wake-ups, flag changes) that names existing threads and leaves \<^verbatim>\<open>notify\<close> and the clearing of
  \<^verbatim>\<open>suspend\<close> to the scheduler: as long as no \<^verbatim>\<open>ensure\<close> has failed, the run queue is duplicate-free
  and sorted by priority and at most \<^verbatim>\<open>ppu_threads\<close> of its threads are not suspended; and the next call, whatever
  it is, fails an \<^verbatim>\<open>ensure\<close> exactly when the caller misuses it, by sleeping with a timeout on an unconsumed
  notification or by a priority outside the range. The \<^verbatim>\<open>ensure\<close> on the state of the scheduler itself never fail.
\<close>

theorem scheduler_safe:
  assumes "fresh_threads tab" and "kernel_step\<^sup>*\<^sup>* (boot_ks tab n) ks" and "\<not> fault ks"
  shows "distinct (g_ppu ks) \<and> ppu_sorted (thr ks) (g_ppu ks)
    \<and> card {t \<in> set (g_ppu ks). F_suspend \<notin> state (thr ks t)} \<le> ppu_threads ks
    \<and> (\<forall>c cur now tsc. kcall_ok c \<longrightarrow> fault (kernel_do c cur now tsc ks) = misuse c ks)"
proof -
  have ok: "kernel_ok ks" using kernel_reachable_ok [OF assms(2)] boot_ok [OF assms(1)] assms(3) by simp
  then have "fault (kernel_do c cur now tsc ks) = misuse c ks" if "kcall_ok c" for c cur now tsc
    using kernel_do_ok [OF ok that] misuse_fault by (auto simp: kernel_ok_def)
  then show ?thesis using onproc_bound [OF ok] sched_invD(1,2) ok by (simp add: kernel_ok_def)
qed

text \<open>A thread table for the examples: all threads are fresh, odd ones have the better priority.\<close>

definition demo_threads :: threads where
  "demo_threads t = new_thread (if bit t 0 then 100 else 200)"

lemma demo_fresh: "fresh_threads demo_threads"
  by (simp add: fresh_threads_def demo_threads_def new_thread_def)

fun kernel_run :: "kcall list \<Rightarrow> kstate \<Rightarrow> kstate option" where
  "kernel_run [] ks = Some ks"
| "kernel_run (c # cs) ks = (if fault ks \<or> \<not> kcall_ok c then None else kernel_run cs (kernel_do c None 0 0 ks))"

lemma kernel_run_reach: "kernel_run cs ks = Some ks' \<Longrightarrow> kernel_step\<^sup>*\<^sup>* ks ks'"
  by (induction cs ks rule: kernel_run.induct)
    (auto intro: converse_rtranclp_into_rtranclp kernel_step.intros split: if_splits)

text \<open>
  Three threads are woken and one of them goes to sleep with a timeout and is woken again, on two hardware threads; a
  priority of 4000 is a misuse, one of 50 is not.
\<close>

definition demo_calls :: "kcall list" where
  "demo_calls = [K_ready, K_awake 1, K_awake 2, K_awake 3, K_sleep 1 5, K_awake 1]"

theorem scheduler_safe_witness:
  "\<exists>ks. kernel_run demo_calls (boot_ks demo_threads 2) = Some ks \<and> g_ppu ks = [3, 1, 2]
     \<and> card {t \<in> set (g_ppu ks). F_suspend \<notin> state (thr ks t)} \<le> 2
     \<and> fault (kernel_do (K_priority 1 4000) None 0 0 ks) \<and> \<not> fault (kernel_do (K_priority 1 50) None 0 0 ks)"
proof -
  have "(case kernel_run demo_calls (boot_ks demo_threads 2) of None \<Rightarrow> False
     | Some ks \<Rightarrow> \<not> fault ks \<and> g_ppu ks = [3, 1, 2] \<and> ppu_threads ks = 2)"
    by code_simp
  then obtain ks where r: "kernel_run demo_calls (boot_ks demo_threads 2) = Some ks" "\<not> fault ks" "g_ppu ks = [3, 1, 2]"
    "ppu_threads ks = 2" by (auto split: option.splits)
  note safe = scheduler_safe [OF demo_fresh kernel_run_reach [OF r(1)] r(2)]
  then have f: "kcall_ok c \<Longrightarrow> fault (kernel_do c None 0 0 ks) = misuse c ks" for c by blast
  have "fault (kernel_do (K_priority 1 4000) None 0 0 ks) \<and> \<not> fault (kernel_do (K_priority 1 50) None 0 0 ks)"
    using f [of "K_priority 1 4000"] f [of "K_priority 1 50"] by (simp add: u32_of_int_def)
  then show ?thesis using safe r by simp
qed

end
