(* ===== verification/Scheduler_Props.thy ===== *)
theory Scheduler_Props
  imports Lv2_Wait
begin

text \<open>
  The functional properties of the scheduler: which threads run after a wake-up, the order of the run
  queue, the effect of yielding, and the expiry of timeouts.
\<close>

section \<open>Dispatching\<close>

lemma ready_emplace_fold: "g_scheduler_ready (fst (fold emplace_step ts (ks, c))) = g_scheduler_ready ks"
proof (induction ts arbitrary: ks c)
  case (Cons s ts)
  obtain c1 where "emplace_step s (ks, c) = (fst (emplace_thread s ks), c1)"
    using fst_emplace_step [of s ks c] by (metis prod.collapse)
  then show ?case using Cons.IH [of "fst (emplace_thread s ks)" c1]
    by (simp add: emplace_thread_def split: option.splits)
qed simp

lemma ready_awake_tail: "g_scheduler_ready (fst (awake_tail ks cpu cmd cur)) = g_scheduler_ready ks"
proof -
  have f: "g_scheduler_ready (fold suspend_thread ts k) = g_scheduler_ready k" for ts k
    by (induction ts arbitrary: k) (simp_all add: suspend_thread_def)
  have h: "g_scheduler_ready (hw_delay c k) = g_scheduler_ready k" for c k
    by (simp add: hw_delay_def Let_def)
  show ?thesis
    unfolding awake_tail_def awake_targets_def [symmetric] Let_def case_prod_beta
    by (auto simp: f h ready_emplace_fold split: option.splits)
qed

lemma pending_schedule_all: "g_pending (schedule_all ks cur now tsc) = g_pending ks"
proof -
  have e: "g_pending (expire_timeouts cur now xs k) = g_pending k" for xs k
    by (induction cur now xs k rule: expire_timeouts.induct) auto
  have p: "g_pending (schedule_preempt k cur tsc) = g_pending k" for k
    by (auto simp: schedule_preempt_def split: option.splits)
  show ?thesis by (simp add: schedule_all_def Let_def e p)
qed

text \<open>
  C4: Waking a thread puts it into the run queue; the queue is sorted by priority, every thread
  behind the first \<^verbatim>\<open>ppu_threads\<close> is suspended, and once no acknowledgement is missing the first
  \<^verbatim>\<open>ppu_threads\<close> threads, the ones of best priority, all run.
\<close>

theorem awake_dispatch:
  assumes "kernel_ok ks" and "t \<noteq> 0" and "g_scheduler_ready ks"
    and "ks' = fst (lv2_awake ks (Some t) Enqueue_cmd cur now tsc)"
  shows "t \<in> set (g_ppu ks') \<and> ppu_sorted (thr ks') (g_ppu ks') \<and>
    (\<forall>u \<in> set (drop (ppu_threads ks') (g_ppu ks')). F_suspend \<in> state (thr ks' u)) \<and>
    (g_pending ks' = 0 \<longrightarrow> (\<forall>u \<in> set (take (ppu_threads ks') (g_ppu ks')). F_suspend \<notin> state (thr ks' u)))"
proof -
  let ?k = "fst (awake_unlocked ks (Some t) Enqueue_cmd cur now)"
  have ks': "ks' = schedule_all ?k cur now tsc" using assms(4) by (simp add: lv2_awake_def case_prod_beta)
  have ok: "kernel_ok ks'" using lv2_awake_ok [OF assms(1)] assms(2,4) by simp
  have rdy: "g_scheduler_ready ?k" using assms(3) by (simp add: awake_unlocked_def ready_awake_tail)
  have "t \<in> set (g_ppu ks')"
    using awake_unlocked_ppu [OF assms(1), of "Some t"] assms(2) by (simp add: ks' awake_targets_def)
  moreover have "\<forall>u \<in> set (take (ppu_threads ks') (g_ppu ks')). F_suspend \<notin> state (thr ks' u)" if "g_pending ks' = 0"
    using that rdy by (auto simp: ks' schedule_all_suspend pending_schedule_all)
  ultimately show ?thesis
    using ok sched_invD(2) by (auto simp: kernel_ok_def disp_inv_def)
qed

theorem awake_dispatch_witness:
  "1 \<in> set (g_ppu (fst (lv2_awake ((boot_ks demo_threads 2)\<lparr>g_scheduler_ready := True\<rparr>) (Some 1) Enqueue_cmd None 0 0)))"
proof -
  let ?k = "(boot_ks demo_threads 2)\<lparr>g_scheduler_ready := True\<rparr>"
  have "kernel_ok ?k" using kernel_ok_ready [OF boot_ok [OF demo_fresh]] by simp
  moreover have "g_scheduler_ready ?k" by simp
  ultimately show ?thesis using awake_dispatch [of ?k 1 _ None 0 0] by simp
qed

section \<open>The order of the run queue\<close>

text \<open>
  A thread that becomes runnable is inserted behind all threads of better or equal priority
  and before all threads of worse priority: the run queue is first-in first-out within a priority, and the
  relative order of the threads that were already there does not change.
\<close>

lemma run_queue_fifo:
  assumes "kernel_ok ks" and "t \<notin> set (g_ppu ks)"
  shows "\<exists>us vs. g_ppu ks = us @ vs \<and> g_ppu (fst (emplace_thread t ks)) = us @ t # vs \<and>
    (\<forall>u \<in> set us. prio (thr ks u) \<le> prio (thr ks t)) \<and> (\<forall>v \<in> set vs. prio (thr ks t) < prio (thr ks v))"
proof -
  have srt: "ppu_sorted (thr ks) (g_ppu ks)" using assms(1) sched_invD(2) by (simp add: kernel_ok_def)
  then obtain q where q: "ppu_insert (thr ks) t (g_ppu ks) = Some q"
    using ppu_insert_None [OF srt, of t] assms(2) by auto
  then show ?thesis using ppu_insert_fifo [OF q srt] by (simp add: emplace_thread_def)
qed

lemma sorted_tail:
  assumes "ppu_sorted tab (t # vs)" and "vs \<noteq> [] \<Longrightarrow> prio (tab (hd vs)) \<noteq> prio (tab t)"
  shows "\<forall>u \<in> set vs. prio (tab t) < prio (tab u)"
  using assms by (cases vs) (auto simp: ppu_sorted_def)

text \<open>
  Yielding moves the caller behind every thread of its own priority and changes nothing else in the
  queue; with no such thread it does nothing.
\<close>

lemma yield_rotates:
  assumes "sched_inv ks" and "t \<in> set (g_ppu ks)"
  shows "\<exists>us same rest. g_ppu ks = us @ t # same @ rest \<and>
    (\<forall>u \<in> set same. prio (thr ks u) = prio (thr ks t)) \<and> (\<forall>u \<in> set rest. prio (thr ks t) < prio (thr ks u)) \<and>
    (case yield_rotate (thr ks) t (g_ppu ks) of
       None \<Rightarrow> same = []
     | Some (q, i) \<Rightarrow> q = us @ same @ t # rest \<and> i = length us + length same)"
proof (cases "yield_rotate (thr ks) t (g_ppu ks)")
  case None
  obtain us vs where q: "g_ppu ks = us @ t # vs" "t \<notin> set us" using assms(2) by (meson split_list_first)
  have s: "ppu_sorted (thr ks) (t # vs)" using sched_invD(2) [OF assms(1)] q by (simp add: ppu_sorted_def sorted_wrt_append)
  have "takeWhile (\<lambda>x. x \<noteq> t) (us @ t # vs) = us" using q(2) by (induction us) auto
  then have "takeWhile (\<lambda>x. prio (thr ks x) = prio (thr ks t)) vs = []"
    using None q assms(2) by (auto simp: yield_rotate_def Let_def split: if_splits)
  then have "vs \<noteq> [] \<Longrightarrow> prio (thr ks (hd vs)) \<noteq> prio (thr ks t)" by (cases vs) (auto split: if_splits)
  then have "\<forall>u \<in> set vs. prio (thr ks t) < prio (thr ks u)" by (rule sorted_tail [OF s])
  then show ?thesis using q None by (intro exI [of _ us] exI [of _ "[]"] exI [of _ vs]) simp
next
  case (Some qi)
  obtain q i where qi: "qi = (q, i)" by fastforce
  obtain us same rest where
    d: "g_ppu ks = us @ t # same @ rest" "q = us @ same @ t # rest" "t \<notin> set us"
      "\<forall>x \<in> set same. prio (thr ks x) = prio (thr ks t)" "same \<noteq> []"
      "rest \<noteq> [] \<Longrightarrow> prio (thr ks (hd rest)) \<noteq> prio (thr ks t)" "i = length us + length same"
    by (rule yield_rotate_SomeD [OF Some [unfolded qi]]) (rule that)
  have "ppu_sorted (thr ks) (t # rest)"
    using sched_invD(2) [OF assms(1)] unfolding d(1) by (simp add: ppu_sorted_def sorted_wrt_append)
  then have "\<forall>u \<in> set rest. prio (thr ks t) < prio (thr ks u)" by (rule sorted_tail) (rule d(6))
  then show ?thesis using d Some qi by (intro exI [of _ us] exI [of _ same] exI [of _ rest]) simp
qed

definition demo_ks :: kstate where
  "demo_ks = (boot_ks demo_threads 2)\<lparr>g_ppu := [1, 3], g_scheduler_ready := True\<rparr>"

lemma demo_ks_ok: "kernel_ok demo_ks"
  using boot_ok [OF demo_fresh, of 2]
  by (auto simp: kernel_ok_def sched_inv_def boot_ks_def ppu_sorted_def demo_ks_def disp_inv_def demo_threads_def)

section \<open>Timeouts\<close>

lemma expire_exact:
  assumes "sorted (map fst xs)" and "distinct (map snd xs)"
  shows "g_waiting (expire_timeouts cur now xs ks) = filter (\<lambda>p. now < fst p) xs \<and>
    (F_notify \<in> state (thr (expire_timeouts cur now xs ks) t) \<longleftrightarrow>
       F_notify \<in> state (thr ks t) \<or> cur \<noteq> Some t \<and> (\<exists>w. (w, t) \<in> set xs \<and> w \<le> now))"
  using assms
proof (induction cur now xs ks rule: expire_timeouts.induct)
  case (2 cur now w u xs ks)
  show ?case
  proof (cases "w \<le> now")
    case True
    then show ?thesis using "2.IH" [OF True] "2.prems"
      by (auto simp: upd_thread_sel)
  next
    case False
    then have "\<forall>p \<in> set xs. now < fst p" using "2.prems" by (auto simp: not_le)
    then show ?thesis using False by (auto simp: not_le filter_id_conv)
  qed
qed simp

text \<open>
  C25: A pass of the scheduler expires exactly the timeouts that are due: every other thread whose
  deadline is not later than the current time is notified and leaves the timeout queue, and no other thread
  is notified.
\<close>

theorem timeouts_exact:
  assumes "kernel_ok ks"
  shows "g_waiting (schedule_all ks cur now tsc) = filter (\<lambda>p. now < fst p) (g_waiting ks) \<and>
    (F_notify \<in> state (thr (schedule_all ks cur now tsc) t) \<longleftrightarrow>
       F_notify \<in> state (thr ks t) \<or> cur \<noteq> Some t \<and> (\<exists>w. (w, t) \<in> set (g_waiting ks) \<and> w \<le> now))"
proof -
  have s: "sorted (map fst (g_waiting ks))" "distinct (map snd (g_waiting ks))"
    using assms sched_invD(3,4) by (auto simp: kernel_ok_def)
  have r: "F_notify \<in> state (thr (fold resume_thread ts k) t) \<longleftrightarrow> F_notify \<in> state (thr k t)" for ts k
    by (induction ts arbitrary: k) (auto simp: resume_thread_def upd_thread_sel Let_def)
  have p: "g_waiting (schedule_preempt k cur tsc) = g_waiting k"
    "F_notify \<in> state (thr (schedule_preempt k cur tsc) t) \<longleftrightarrow> F_notify \<in> state (thr k t)" for k
    by (auto simp: schedule_preempt_def upd_thread_sel split: option.splits)
  show ?thesis by (simp add: schedule_all_def Let_def p r expire_exact [OF s])
qed

theorem timeouts_exact_witness:
  "g_waiting (schedule_all (boot_ks demo_threads 2) None 7 0) = []"
  using timeouts_exact [OF boot_ok [OF demo_fresh], of 2 None 7 0 1] by (simp add: boot_ks_def)

end
