(* ===== verification/Id_Manager.thy ===== *)
theory Id_Manager
  imports Prelude
begin

text \<open>
  The object manager of the emulated process, \<^verbatim>\<open>rpcs3/Emu/IdManager.h\<close> and
  \<^verbatim>\<open>rpcs3/Emu/IdManager.cpp\<close>: the arithmetic of identifiers, the allocation of a slot with its
  invalidation counter, and the lookup, creation and removal of objects. The arrays of
  \<^verbatim>\<open>id_map\<close> are functions on the slot index; an index in range is below \<^verbatim>\<open>id_count\<close>. The types that
  share a container differ in their base only, and the base is their type id.
\<close>

record id_traits =
  tr_step :: u32
  tr_count :: u32
  tr_lowest :: bool
  tr_invl :: "nat \<times> nat"

record id_key =
  k_value :: u32
  k_type :: u32

definition no_type :: u32 where
  "no_type = - 1"

definition empty_key :: id_key where
  "empty_key = \<lparr>k_value = 0, k_type = no_type\<rparr>"

record 'a id_map =
  vec_data :: "nat \<Rightarrow> 'a option"
  vec_keys :: "nat \<Rightarrow> id_key"
  highest_index :: u32
  g_id :: u32

definition empty_map :: "'a id_map" where
  "empty_map = \<lparr>vec_data = (\<lambda>_. None), vec_keys = (\<lambda>_. empty_key), highest_index = 0, g_id = 0\<rparr>"

section \<open>Identifiers\<close>

definition invl_mask :: "nat \<times> nat \<Rightarrow> u32" where
  "invl_mask r = push_bit (fst r) (push_bit (snd r) 1 - 1)"

definition get_index :: "u32 \<Rightarrow> u32 \<Rightarrow> id_traits \<Rightarrow> u32" where
  "get_index uid base tr =
     (let diff = (uid AND NOT (invl_mask (tr_invl tr))) - base
      in if diff mod tr_step tr \<noteq> 0 then tr_count tr else diff div tr_step tr)"

definition invalid_id :: "u32 \<Rightarrow> u32" where
  "invalid_id base = (if base = 0 then - 1 else 0)"

section \<open>Allocation\<close>

datatype alloc = Alloc_fault | Alloc_none | Alloc nat

definition next_id :: "u32 \<Rightarrow> id_traits \<Rightarrow> nat \<Rightarrow> u32" where
  "next_id base tr i = base + tr_step tr * of_nat i"

text \<open>The identifier of a reused slot: the invalidation counter of the old one is advanced.\<close>

definition reuse_id :: "u32 \<Rightarrow> id_traits \<Rightarrow> nat \<Rightarrow> u32 \<Rightarrow> u32" where
  "reuse_id base tr i old =
     next_id base tr i OR
       ((old + push_bit (fst (tr_invl tr)) 1) AND (if snd (tr_invl tr) \<noteq> 0 then invl_mask (tr_invl tr) else 0))"

definition put_key :: "nat \<Rightarrow> u32 \<Rightarrow> u32 \<Rightarrow> 'a id_map \<Rightarrow> 'a id_map" where
  "put_key i uid type_id m = m\<lparr>vec_keys := (vec_keys m)(i := \<lparr>k_value = uid, k_type = type_id\<rparr>), g_id := uid\<rparr>"

definition allocate_id :: "'a id_map \<Rightarrow> u32 \<Rightarrow> u32 \<Rightarrow> id_traits \<Rightarrow> 'a id_map \<times> alloc" where
  "allocate_id m base dst_id tr =
     (if dst_id \<noteq> invalid_id base then
        let index = get_index dst_id base tr
        in if index \<ge> tr_count tr then (m, Alloc_fault)
           else
             let m1 = m\<lparr>highest_index := max (highest_index m) (index + 1)\<rparr>
             in if k_type (vec_keys m (unat index)) \<noteq> no_type then (m1, Alloc_none)
                else (put_key (unat index) dst_id base m1, Alloc (unat index))
      else if \<not> tr_lowest tr \<and> highest_index m < tr_count tr then
        let i = unat (highest_index m)
        in (put_key i (next_id base tr i) base (m\<lparr>highest_index := highest_index m + 1\<rparr>), Alloc i)
      else
        let m1 = (if tr_lowest tr then m\<lparr>highest_index := tr_count tr\<rparr> else m)
        in case find (\<lambda>i. k_type (vec_keys m1 i) = no_type) [0..<unat (tr_count tr)] of
             Some i \<Rightarrow> (put_key i (reuse_id base tr i (k_value (vec_keys m1 i))) base m1, Alloc i)
           | None \<Rightarrow> (m1, Alloc_none))"

section \<open>Lookup, creation, removal\<close>

definition find_index :: "'a id_map \<Rightarrow> u32 \<Rightarrow> u32 \<Rightarrow> u32 \<Rightarrow> id_traits \<Rightarrow> 'a option" where
  "find_index m index uid base tr =
     (if index \<ge> highest_index m then None
      else case vec_data m (unat index) of
             None \<Rightarrow> None
           | Some obj \<Rightarrow>
               if k_type (vec_keys m (unat index)) = base \<and>
                  (snd (tr_invl tr) = 0 \<or> k_value (vec_keys m (unat index)) = uid)
               then Some obj else None)"

definition idm_check :: "'a id_map \<Rightarrow> u32 \<Rightarrow> u32 \<Rightarrow> id_traits \<Rightarrow> 'a option" where
  "idm_check m uid base tr =
     (let index = get_index uid base tr
      in if index \<ge> tr_count tr then None else find_index m index uid base tr)"

text \<open>The provider runs under the lock of the manager; it may fail and it may change other state.\<close>

definition create_id ::
    "('s \<Rightarrow> 'a option \<times> 's) \<Rightarrow> u32 \<Rightarrow> id_traits \<Rightarrow> 'a id_map \<Rightarrow> 's \<Rightarrow> 'a id_map \<times> 's \<times> 'a option" where
  "create_id provider base tr m st =
     (case allocate_id m base (invalid_id base) tr of
        (m1, Alloc i) \<Rightarrow>
          (case provider st of
             (Some obj, st') \<Rightarrow> (m1\<lparr>vec_data := (vec_data m1)(i := Some obj)\<rparr>, st', Some obj)
           | (None, st') \<Rightarrow> (m1\<lparr>vec_keys := (vec_keys m1)(i := empty_key)\<rparr>, st', None))
      | (m1, _) \<Rightarrow> (m1, st, None))"

definition last_id :: "'a id_map \<Rightarrow> u32 \<Rightarrow> id_traits \<Rightarrow> u32 option" where
  "last_id m base tr = (if get_index (g_id m) base tr \<ge> tr_count tr then None else Some (g_id m))"

definition clear_slot :: "nat \<Rightarrow> 'a id_map \<Rightarrow> 'a id_map" where
  "clear_slot i m =
     m\<lparr>vec_data := (vec_data m)(i := None),
       vec_keys := (vec_keys m)(i := (vec_keys m i)\<lparr>k_type := no_type\<rparr>)\<rparr>"

definition idm_remove :: "'a id_map \<Rightarrow> u32 \<Rightarrow> u32 \<Rightarrow> id_traits \<Rightarrow> 'a id_map \<times> bool" where
  "idm_remove m uid base tr =
     (case idm_check m uid base tr of
        None \<Rightarrow> (m, False)
      | Some _ \<Rightarrow> (clear_slot (unat (get_index uid base tr)) m, True))"

text \<open>
  \<^verbatim>\<open>withdraw\<close> with a callback: the object stays when the callback returns an error.
\<close>

definition idm_withdraw ::
    "('a \<Rightarrow> 's \<Rightarrow> 'e option \<times> 's) \<Rightarrow> 'a id_map \<Rightarrow> u32 \<Rightarrow> u32 \<Rightarrow> id_traits \<Rightarrow> 's \<Rightarrow>
      'a id_map \<times> 's \<times> ('a \<times> 'e option) option" where
  "idm_withdraw func m uid base tr st =
     (case idm_check m uid base tr of
        None \<Rightarrow> (m, st, None)
      | Some obj \<Rightarrow>
          (case func obj st of
             (Some e, st') \<Rightarrow> (m, st', Some (obj, Some e))
           | (None, st') \<Rightarrow> (clear_slot (unat (get_index uid base tr)) m, st', Some (obj, None))))"

definition idm_clear :: "'a id_map \<Rightarrow> 'a id_map" where
  "idm_clear m = m\<lparr>vec_data := (\<lambda>_. None), vec_keys := (\<lambda>i. (vec_keys m i)\<lparr>k_type := no_type\<rparr>)\<rparr>"

section \<open>Well-formedness\<close>

text \<open>
  The static assertions on the traits of a type, and the alignment of the identifiers to the
  invalidation range, which the types of the kernel satisfy.
\<close>

definition traits_ok :: "u32 \<Rightarrow> id_traits \<Rightarrow> bool" where
  "traits_ok base tr \<longleftrightarrow>
     tr_count tr \<noteq> 0 \<and> tr_step tr \<noteq> 0 \<and> base \<noteq> no_type \<and>
     unat (tr_step tr) * (unat (tr_count tr) - 1) + unat base < 2 ^ 32 - 1 + (if base \<noteq> 0 then 1 else 0) \<and>
     fst (tr_invl tr) + snd (tr_invl tr) \<le> 32 \<and>
     (snd (tr_invl tr) \<noteq> 0 \<longrightarrow>
        take_bit (fst (tr_invl tr) + snd (tr_invl tr)) (tr_step tr) = 0 \<and>
        take_bit (fst (tr_invl tr) + snd (tr_invl tr)) base = 0)"

text \<open>The traits of the objects derived from \<^verbatim>\<open>lv2_obj\<close>.\<close>

definition lv2_traits :: id_traits where
  "lv2_traits = \<lparr>tr_step = 0x100, tr_count = 8192, tr_lowest = False, tr_invl = (0, 8)\<rparr>"

text \<open>
  The invariant of a container: slots at and above the high-water mark are free, a slot holds an
  object exactly when its key has a type, and the identifier of an occupied slot leads back to it.
\<close>

definition idm_inv :: "id_traits \<Rightarrow> 'a id_map \<Rightarrow> bool" where
  "idm_inv tr m \<longleftrightarrow>
     highest_index m \<le> tr_count tr \<and>
     (\<forall>i \<ge> unat (highest_index m). vec_data m i = None \<and> k_type (vec_keys m i) = no_type) \<and>
     (\<forall>i. vec_data m i = None \<longleftrightarrow> k_type (vec_keys m i) = no_type) \<and>
     (\<forall>i. k_type (vec_keys m i) \<noteq> no_type \<longrightarrow>
        get_index (k_value (vec_keys m i)) (k_type (vec_keys m i)) tr = of_nat i)"

section \<open>Identifier arithmetic\<close>

lemma invl_mask_mask: "invl_mask r = push_bit (fst r) (mask (snd r))"
  by (simp add: invl_mask_def mask_eq_exp_minus_1 push_bit_eq_mult)

lemma masked_off:
  fixes a c :: u32
  assumes "2 ^ (f + n) dvd a" and "c AND push_bit f (mask n) = c"
  shows "(a OR c) AND NOT (push_bit f (mask n)) = a"
proof (rule bit_eqI)
  fix k assume k: "possible_bit TYPE(u32) k"
  have a: "\<not> bit a k" if "k < f + n"
    using assms(1) that by (metis bit_take_bit_iff bit_0_eq bot_apply bot_bool_def take_bit_eq_0_iff)
  have c: "f \<le> k \<and> k < f + n" if "bit c k"
    using that assms(2) by (metis bit_and_iff bit_mask_iff bit_push_bit_iff less_diff_conv2 add.commute)
  show "bit ((a OR c) AND NOT (push_bit f (mask n))) k = bit a k"
    using a c k by (cases "f \<le> k \<and> k < f + n") (auto simp: bit_simps)
qed

lemma u32_unat_less: "unat (w :: u32) < 2 ^ 32"
  using unsigned_less [of w] by simp

lemma next_id_aligned:
  assumes "traits_ok base tr" and "snd (tr_invl tr) \<noteq> 0"
  shows "2 ^ (fst (tr_invl tr) + snd (tr_invl tr)) dvd next_id base tr i"
  using assms by (simp add: traits_ok_def next_id_def take_bit_eq_0_iff)

lemma step_mult:
  assumes "traits_ok base tr" and "i < unat (tr_count tr)"
  shows "unat (tr_step tr * of_nat i) = unat (tr_step tr) * i"
    and "unat (tr_step tr) * i + unat base < 2 ^ 32"
proof -
  have "i \<le> unat (tr_count tr) - 1" using assms(2) by linarith
  then have "unat (tr_step tr) * i \<le> unat (tr_step tr) * (unat (tr_count tr) - 1)" by (rule mult_le_mono2)
  moreover have "unat (tr_step tr) * (unat (tr_count tr) - 1) + unat base < 2 ^ 32"
    using assms(1) unfolding traits_ok_def by (elim conjE) (auto split: if_splits)
  ultimately show b: "unat (tr_step tr) * i + unat base < 2 ^ 32" by linarith
  have "i < 2 ^ 32" using assms(2) u32_unat_less [of "tr_count tr"] by linarith
  then show "unat (tr_step tr * of_nat i) = unat (tr_step tr) * i"
    using b by (simp add: unat_word_ariths unat_of_nat)
qed

lemma get_index_id:
  assumes "traits_ok base tr" and "i < unat (tr_count tr)"
    and "uid AND NOT (invl_mask (tr_invl tr)) = next_id base tr i"
  shows "get_index uid base tr = of_nat i"
proof -
  let ?d = "tr_step tr * of_nat i"
  have d: "(uid AND NOT (invl_mask (tr_invl tr))) - base = ?d" by (simp add: assms(3) next_id_def)
  have s: "0 < unat (tr_step tr)" using assms(1) by (simp add: traits_ok_def unat_gt_0)
  have i: "i < 2 ^ 32" using assms(2) u32_unat_less [of "tr_count tr"] by linarith
  have "unat (?d mod tr_step tr) = 0" using step_mult(1) [OF assms(1,2)] by (simp add: unat_mod_distrib)
  moreover have "unat (?d div tr_step tr) = i"
    using step_mult(1) [OF assms(1,2)] s by (simp add: unat_div_distrib)
  ultimately show ?thesis
    using i by (simp add: get_index_def d Let_def word_unat_eq_iff unat_of_nat)
qed

lemma get_index_inverse:
  assumes "get_index uid base tr < tr_count tr"
  shows "uid AND NOT (invl_mask (tr_invl tr)) = next_id base tr (unat (get_index uid base tr))"
proof -
  let ?d = "(uid AND NOT (invl_mask (tr_invl tr))) - base"
  have "?d mod tr_step tr = 0" and g: "get_index uid base tr = ?d div tr_step tr"
    using assms by (auto simp: get_index_def Let_def split: if_splits)
  then have "?d = tr_step tr * (?d div tr_step tr)" by (metis add_0 mod_mult_div_eq)
  then show ?thesis by (simp add: next_id_def g algebra_simps)
qed

lemma get_index_below:
  assumes "traits_ok base tr" and "(uid AND NOT (invl_mask (tr_invl tr))) < base"
  shows "tr_count tr \<le> get_index uid base tr"
proof (rule ccontr)
  assume "\<not> ?thesis"
  then have l: "get_index uid base tr < tr_count tr" by simp
  define i where "i = unat (get_index uid base tr)"
  have i: "i < unat (tr_count tr)" using l by (simp add: i_def word_less_nat_alt)
  have "unat (next_id base tr i) = unat base + unat (tr_step tr) * i"
    unfolding next_id_def unat_word_ariths(1) step_mult(1) [OF assms(1) i]
    using step_mult(2) [OF assms(1) i] by simp
  then show False
    using assms(2) get_index_inverse [OF l] by (simp add: word_less_nat_alt i_def)
qed

lemma get_index_reuse:
  assumes "traits_ok base tr" and "i < unat (tr_count tr)"
  shows "get_index (reuse_id base tr i old) base tr = of_nat i"
    and "get_index (next_id base tr i) base tr = of_nat i"
proof -
  have "reuse_id base tr i old AND NOT (invl_mask (tr_invl tr)) = next_id base tr i"
  proof (cases "snd (tr_invl tr) = 0")
    case True
    then show ?thesis by (simp add: reuse_id_def invl_mask_mask)
  next
    case False
    then show ?thesis
      using masked_off [OF next_id_aligned [OF assms(1)]]
      by (simp add: reuse_id_def invl_mask_mask and.assoc)
  qed
  then show "get_index (reuse_id base tr i old) base tr = of_nat i" by (rule get_index_id [OF assms])
  have "next_id base tr i AND NOT (invl_mask (tr_invl tr)) = next_id base tr i"
  proof (cases "snd (tr_invl tr) = 0")
    case False
    then show ?thesis
      using masked_off [OF next_id_aligned [OF assms(1)], where c = 0] by (simp add: invl_mask_mask)
  qed (simp add: invl_mask_mask)
  then show "get_index (next_id base tr i) base tr = of_nat i" by (rule get_index_id [OF assms])
qed

text \<open>The counter moves: its lowest bit flips, so a reused slot never keeps its identifier.\<close>

lemma bit_add_exp:
  fixes a :: u32
  assumes "f < 32"
  shows "bit (a + push_bit f 1) f \<longleftrightarrow> \<not> bit a f"
proof -
  have "(2 :: int) ^ f < 2 ^ 32" using assms by (intro power_strict_increasing) simp_all
  then have "uint (word_of_int (2 ^ f) :: u32) = 2 ^ f"
    by (simp add: uint_word_of_int del: word_of_int_2p of_int_power of_int_numeral)
  then have p: "uint (push_bit f 1 :: u32) = 2 ^ f"
    by (simp add: push_bit_eq_mult)
  have u: "uint (a + push_bit f 1) = take_bit 32 (uint a + 2 ^ f)"
    by (simp only: uint_word_ariths(1) p take_bit_eq_mod) simp
  have "bit (a + push_bit f 1) f \<longleftrightarrow> bit (uint (a + push_bit f 1)) f"
    by (simp only: bit_uint_iff) (use assms in simp)
  also have "\<dots> \<longleftrightarrow> bit (uint a + 2 ^ f) f"
    unfolding u using assms by (simp add: bit_take_bit_iff)
  also have "\<dots> \<longleftrightarrow> \<not> bit (uint a) f"
    by (simp add: bit_iff_odd div_add_self2)
  finally show ?thesis by (simp add: bit_uint_iff assms)
qed

lemma reuse_id_fresh:
  assumes "traits_ok base tr" and "snd (tr_invl tr) \<noteq> 0"
  shows "reuse_id base tr i old \<noteq> old"
proof
  assume e: "reuse_id base tr i old = old"
  let ?f = "fst (tr_invl tr)"
  have f: "?f < 32" using assms by (auto simp: traits_ok_def)
  have "\<not> bit (next_id base tr i) ?f"
    using next_id_aligned [OF assms] assms(2)
    by (metis bit_take_bit_iff bit_0_eq bot_apply bot_bool_def less_add_same_cancel1 neq0_conv take_bit_eq_0_iff)
  moreover have "bit (invl_mask (tr_invl tr)) ?f"
    using f assms(2) by (simp add: invl_mask_mask bit_simps)
  ultimately have "bit (reuse_id base tr i old) ?f \<longleftrightarrow> bit (old + push_bit ?f 1) ?f"
    using assms(2) by (simp add: reuse_id_def bit_or_iff bit_and_iff)
  then show False using e bit_add_exp [OF f, of old] by simp
qed

section \<open>The contract of the operations\<close>

lemma idm_check_iff:
  assumes "idm_inv tr m"
  shows "idm_check m uid base tr = Some obj \<longleftrightarrow>
    vec_data m (unat (get_index uid base tr)) = Some obj \<and>
    k_type (vec_keys m (unat (get_index uid base tr))) = base \<and>
    (snd (tr_invl tr) = 0 \<or> k_value (vec_keys m (unat (get_index uid base tr))) = uid)"
proof -
  let ?i = "get_index uid base tr"
  have "?i < highest_index m" if "vec_data m (unat ?i) \<noteq> None"
    using assms that by (force simp: idm_inv_def word_less_nat_alt not_le)
  moreover have "highest_index m \<le> tr_count tr" using assms by (simp add: idm_inv_def)
  ultimately show ?thesis
    by (fastforce simp: idm_check_def find_index_def Let_def not_le split: option.splits if_splits)
qed

lemma allocate_idD:
  assumes "idm_inv tr m" and "traits_ok base tr" and "allocate_id m base (invalid_id base) tr = (m1, r)"
  shows "r \<noteq> Alloc_fault"
    and "r = Alloc_none \<Longrightarrow> (\<forall>i < unat (tr_count tr). vec_data m i \<noteq> None) \<and> idm_inv tr m1 \<and>
      vec_data m1 = vec_data m \<and> vec_keys m1 = vec_keys m"
    and "r = Alloc i \<Longrightarrow> i < unat (tr_count tr) \<and> vec_data m i = None \<and> vec_data m1 = vec_data m \<and>
      vec_keys m1 = (vec_keys m)(i := \<lparr>k_value = g_id m1, k_type = base\<rparr>) \<and>
      get_index (g_id m1) base tr = of_nat i \<and> i < unat (highest_index m1) \<and>
      highest_index m \<le> highest_index m1 \<and> highest_index m1 \<le> tr_count tr \<and>
      (i < unat (highest_index m) \<longrightarrow> g_id m1 = reuse_id base tr i (k_value (vec_keys m i)))"
proof -
  have inv: "highest_index m \<le> tr_count tr" "\<And>i. i \<ge> unat (highest_index m) \<Longrightarrow> vec_data m i = None"
    "\<And>i. vec_data m i = None \<longleftrightarrow> k_type (vec_keys m i) = no_type"
    using assms(1) by (auto simp: idm_inv_def)
  show "r \<noteq> Alloc_fault"
    using assms(3) by (auto simp: allocate_id_def Let_def split: if_splits option.splits)
  show "r = Alloc_none \<Longrightarrow> (\<forall>i < unat (tr_count tr). vec_data m i \<noteq> None) \<and> idm_inv tr m1 \<and>
      vec_data m1 = vec_data m \<and> vec_keys m1 = vec_keys m"
    using assms(1,3) inv(1,3)
    by (auto simp: allocate_id_def Let_def find_None_iff idm_inv_def word_le_nat_alt split: if_splits option.splits)
  assume r: "r = Alloc i"
  show "i < unat (tr_count tr) \<and> vec_data m i = None \<and> vec_data m1 = vec_data m \<and>
      vec_keys m1 = (vec_keys m)(i := \<lparr>k_value = g_id m1, k_type = base\<rparr>) \<and>
      get_index (g_id m1) base tr = of_nat i \<and> i < unat (highest_index m1) \<and>
      highest_index m \<le> highest_index m1 \<and> highest_index m1 \<le> tr_count tr \<and>
      (i < unat (highest_index m) \<longrightarrow> g_id m1 = reuse_id base tr i (k_value (vec_keys m i)))"
  proof (cases "\<not> tr_lowest tr \<and> highest_index m < tr_count tr")
    case True
    then have lt: "unat (highest_index m) < unat (tr_count tr)" by (simp add: word_less_nat_alt)
    then have sc: "unat (highest_index m + 1) = Suc (unat (highest_index m))"
      using u32_unat_less [of "tr_count tr"] by (simp add: unat_word_ariths)
    show ?thesis
      using True r assms(3) lt sc inv get_index_reuse(2) [OF assms(2) lt]
      by (auto simp: allocate_id_def Let_def put_key_def word_le_nat_alt word_less_nat_alt)
  next
    case False
    define m0 where "m0 = (if tr_lowest tr then m\<lparr>highest_index := tr_count tr\<rparr> else m)"
    have m0: "vec_data m0 = vec_data m" "vec_keys m0 = vec_keys m" "highest_index m0 = tr_count tr"
      using False inv(1) by (auto simp: m0_def)
    from False r assms(3) have fi: "find (\<lambda>i. k_type (vec_keys m0 i) = no_type) [0..<unat (tr_count tr)] = Some i"
      and m1: "m1 = put_key i (reuse_id base tr i (k_value (vec_keys m0 i))) base m0"
      by (auto simp: allocate_id_def Let_def m0_def split: option.splits if_splits)
    from fi have "i < unat (tr_count tr)" "k_type (vec_keys m i) = no_type"
      by (auto simp: find_Some_iff m0)
    then show ?thesis
      using m1 m0 inv get_index_reuse(1) [OF assms(2)] by (auto simp: put_key_def)
  qed
qed

lemma idm_inv_slot:
  assumes "idm_inv tr m" and "traits_ok base tr" and "allocate_id m base (invalid_id base) tr = (m1, Alloc i)"
  shows "idm_inv tr (m1\<lparr>vec_data := (vec_data m1)(i := Some obj)\<rparr>)"
    and "idm_inv tr (m1\<lparr>vec_keys := (vec_keys m1)(i := empty_key)\<rparr>)"
proof -
  note a = allocate_idD(3) [OF assms refl]
  have base: "base \<noteq> no_type" using assms(2) by (simp add: traits_ok_def)
  have hi: "unat (highest_index m) \<le> unat (highest_index m1)" using a by (simp add: word_le_nat_alt)
  show "idm_inv tr (m1\<lparr>vec_data := (vec_data m1)(i := Some obj)\<rparr>)"
    using assms(1) a base hi by (auto simp: idm_inv_def)
  show "idm_inv tr (m1\<lparr>vec_keys := (vec_keys m1)(i := empty_key)\<rparr>)"
    using assms(1) a hi by (auto simp: idm_inv_def empty_key_def)
qed

lemma create_id_None:
  assumes "idm_inv tr m" and "traits_ok base tr" and "create_id provider base tr m st = (m', st', None)"
  shows "idm_inv tr m'" and "idm_check m' uid' base' tr = idm_check m uid' base' tr"
    and "provider st = (None, st') \<or> st' = st \<and> (\<forall>i < unat (tr_count tr). vec_data m i \<noteq> None)"
    and "vec_data m' = vec_data m"
proof -
  obtain m1 a where al: "allocate_id m base (invalid_id base) tr = (m1, a)" by fastforce
  note d = allocate_idD [OF assms(1,2) al]
  have *: "idm_inv tr m' \<and> vec_data m' = vec_data m \<and> (\<forall>i. vec_data m i \<noteq> None \<longrightarrow> vec_keys m' i = vec_keys m i) \<and>
    (provider st = (None, st') \<or> st' = st \<and> (\<forall>i < unat (tr_count tr). vec_data m i \<noteq> None))"
  proof (cases a)
    case (Alloc i)
    obtain o' st1 where p: "provider st = (o', st1)" by fastforce
    have "o' = None" "st' = st1" "m' = m1\<lparr>vec_keys := (vec_keys m1)(i := empty_key)\<rparr>"
      using assms(3) al Alloc p by (auto simp: create_id_def split: option.splits)
    then show ?thesis using d(3) [OF Alloc] idm_inv_slot(2) [OF assms(1,2) al [unfolded Alloc]] p by auto
  qed (use d assms(3) al in \<open>auto simp: create_id_def\<close>)
  then show "idm_inv tr m'" "vec_data m' = vec_data m"
    "provider st = (None, st') \<or> st' = st \<and> (\<forall>i < unat (tr_count tr). vec_data m i \<noteq> None)" by auto
  have "idm_check m' uid' base' tr = Some x \<longleftrightarrow> idm_check m uid' base' tr = Some x" for x
    using * by (auto simp: idm_check_iff assms(1))
  then show "idm_check m' uid' base' tr = idm_check m uid' base' tr"
    by (cases "idm_check m uid' base' tr"; cases "idm_check m' uid' base' tr") auto
qed

lemma create_id_Some:
  assumes "idm_inv tr m" and "traits_ok base tr" and "create_id provider base tr m st = (m', st', Some obj)"
  shows "idm_inv tr m'" and "provider st = (Some obj, st')" and "last_id m' base tr = Some (g_id m')"
    and "idm_check m (g_id m') base tr = None" and "idm_check m' (g_id m') base tr = Some obj"
    and "idm_check m uid' base' tr = Some obj' \<Longrightarrow> idm_check m' uid' base' tr = Some obj'"
    and "snd (tr_invl tr) \<noteq> 0 \<Longrightarrow> (uid', base') \<noteq> (g_id m', base) \<Longrightarrow>
      idm_check m' uid' base' tr = idm_check m uid' base' tr"
    and "\<exists>i. vec_data m i = None \<and> vec_data m' = (vec_data m)(i := Some obj)"
proof -
  obtain m1 a where al: "allocate_id m base (invalid_id base) tr = (m1, a)" by fastforce
  obtain i where i: "a = Alloc i" and p: "provider st = (Some obj, st')"
    and m': "m' = m1\<lparr>vec_data := (vec_data m1)(i := Some obj)\<rparr>"
    using assms(3) al by (auto simp: create_id_def split: alloc.splits option.splits prod.splits)
  note d = allocate_idD(3) [OF assms(1,2) al i]
  show inv': "idm_inv tr m'" using idm_inv_slot(1) [OF assms(1,2) al [unfolded i]] m' by simp
  show "provider st = (Some obj, st')" by (rule p)
  show "\<exists>i. vec_data m i = None \<and> vec_data m' = (vec_data m)(i := Some obj)" using d m' by auto
  have "i < 2 ^ 32" using d u32_unat_less [of "tr_count tr"] by linarith
  then have ix: "unat (get_index (g_id m') base tr) = i" using d m' by (simp add: unat_of_nat)
  then show "last_id m' base tr = Some (g_id m')"
    using d m' by (auto simp: last_id_def not_le word_less_nat_alt)
  show "idm_check m' (g_id m') base tr = Some obj"
    unfolding idm_check_iff [OF inv'] ix using d m' by simp
  have "idm_check m (g_id m') base tr \<noteq> Some x" for x
    unfolding idm_check_iff [OF assms(1)] ix using d by simp
  then show "idm_check m (g_id m') base tr = None" by (cases "idm_check m (g_id m') base tr") auto
  have data: "vec_data m' j = (if j = i then Some obj else vec_data m j)" for j using d m' by auto
  have keys: "vec_keys m' j = (if j = i then \<lparr>k_value = g_id m', k_type = base\<rparr> else vec_keys m j)" for j
    using d m' by auto
  show "idm_check m uid' base' tr = Some obj' \<Longrightarrow> idm_check m' uid' base' tr = Some obj'"
    unfolding idm_check_iff [OF inv'] idm_check_iff [OF assms(1)] data keys using d by auto
  assume s: "snd (tr_invl tr) \<noteq> 0" and ne: "(uid', base') \<noteq> (g_id m', base)"
  have "idm_check m' uid' base' tr = Some x \<longleftrightarrow> idm_check m uid' base' tr = Some x" for x
    unfolding idm_check_iff [OF inv'] idm_check_iff [OF assms(1)] data keys using d s ne by auto
  then show "idm_check m' uid' base' tr = idm_check m uid' base' tr"
    by (cases "idm_check m uid' base' tr"; cases "idm_check m' uid' base' tr") auto
qed

text \<open>A removal frees exactly the slot of the identifier.\<close>

lemma clear_slot_check:
  assumes "idm_inv tr m" and "idm_check m uid base tr = Some obj"
  shows "idm_inv tr (clear_slot (unat (get_index uid base tr)) m)"
    and "idm_check (clear_slot (unat (get_index uid base tr)) m) uid base tr = None"
    and "snd (tr_invl tr) \<noteq> 0 \<Longrightarrow> (uid', base') \<noteq> (uid, base) \<Longrightarrow>
      idm_check (clear_slot (unat (get_index uid base tr)) m) uid' base' tr = idm_check m uid' base' tr"
proof -
  let ?i = "unat (get_index uid base tr)" and ?m = "clear_slot (unat (get_index uid base tr)) m"
  show inv': "idm_inv tr ?m" using assms(1) by (auto simp: idm_inv_def clear_slot_def)
  have "idm_check ?m uid base tr \<noteq> Some x" for x
    unfolding idm_check_iff [OF inv'] by (simp add: clear_slot_def)
  then show "idm_check ?m uid base tr = None" by (cases "idm_check ?m uid base tr") auto
  assume s: "snd (tr_invl tr) \<noteq> 0" and d: "(uid', base') \<noteq> (uid, base)"
  have "idm_check ?m uid' base' tr = Some x \<longleftrightarrow> idm_check m uid' base' tr = Some x" for x
    using assms(2) s d unfolding idm_check_iff [OF inv'] idm_check_iff [OF assms(1)]
    by (auto simp: clear_slot_def split: if_splits)
  then show "idm_check ?m uid' base' tr = idm_check m uid' base' tr"
    by (cases "idm_check m uid' base' tr"; cases "idm_check ?m uid' base' tr") auto
qed

text \<open>
  A stale identifier: once the object is withdrawn, creating an object in the same slot gives
  another identifier, so the old one stays invalid.
\<close>

lemma reuse_keeps_stale_invalid:
  assumes "idm_inv tr m" and "traits_ok base tr" and "traits_ok base' tr" and "snd (tr_invl tr) \<noteq> 0"
    and "idm_check m uid base tr = Some obj" and "m1 = clear_slot (unat (get_index uid base tr)) m"
    and "create_id provider base' tr m1 st = (m', st', Some obj')"
  shows "idm_check m' uid base tr = None"
proof -
  note c = clear_slot_check [OF assms(1,5)]
  note inv1 = c(1) [folded assms(6)]
  show ?thesis
  proof (cases "(uid, base) = (g_id m', base')")
    case False
    then show ?thesis using create_id_Some(7) [OF inv1 assms(3,7) assms(4)] c(2) assms(6) by simp
  next
    case True
    define i where "i = unat (get_index uid base tr)"
    have k: "vec_data m i = Some obj" "k_value (vec_keys m i) = uid"
      using assms(4,5) by (auto simp: idm_check_iff [OF assms(1)] i_def)
    obtain m2 a where al: "allocate_id m1 base' (invalid_id base') tr = (m2, a)" by fastforce
    obtain j where j: "a = Alloc j" and m': "m' = m2\<lparr>vec_data := (vec_data m2)(j := Some obj')\<rparr>"
      using assms(7) al by (auto simp: create_id_def split: alloc.splits option.splits prod.splits)
    note d = allocate_idD(3) [OF inv1 assms(3) al j]
    have "j < 2 ^ 32" using d u32_unat_less [of "tr_count tr"] by linarith
    then have ji: "j = i" using d True m' by (simp add: i_def unat_of_nat)
    have "i < unat (highest_index m)" using assms(1) k(1) by (force simp: idm_inv_def not_le)
    then have "g_id m2 = reuse_id base' tr i uid"
      using d ji k by (simp add: assms(6) clear_slot_def i_def)
    then show ?thesis using reuse_id_fresh [OF assms(3,4), of i uid] True m' by simp
  qed
qed

section \<open>The contract as an interface\<close>

text \<open>
  What the system calls rely on: a table of handles in which creation gives a fresh handle and
  changes no other, and deletion removes the given handle only. Over any such table a handle
  denotes the same object until it is deleted, whatever else is created or deleted.
\<close>

datatype ('k, 'a, 'h) table_op = Ins 'k 'a | Del 'h

locale handle_table =
  fixes lookup :: "'m \<Rightarrow> 'h \<Rightarrow> 'a option"
    and ins :: "'k \<Rightarrow> 'a \<Rightarrow> 'm \<Rightarrow> 'm \<times> 'h option"
    and del :: "'h \<Rightarrow> 'm \<Rightarrow> 'm"
    and wf :: "'m \<Rightarrow> bool"
    and kind_ok :: "'k \<Rightarrow> bool"
  assumes ins_wf: "wf m \<Longrightarrow> kind_ok k \<Longrightarrow> wf (fst (ins k a m))"
    and del_wf: "wf m \<Longrightarrow> wf (del h m)"
    and ins_fresh: "wf m \<Longrightarrow> kind_ok k \<Longrightarrow> ins k a m = (m', Some h) \<Longrightarrow>
      lookup m h = None \<and> lookup m' = (lookup m)(h := Some a)"
    and ins_full: "wf m \<Longrightarrow> kind_ok k \<Longrightarrow> ins k a m = (m', None) \<Longrightarrow> lookup m' = lookup m"
    and del_one: "wf m \<Longrightarrow> lookup (del h m) = (lookup m)(h := None)"
begin

primrec apply_op :: "('k, 'a, 'h) table_op \<Rightarrow> 'm \<Rightarrow> 'm" where
  "apply_op (Ins k a) m = fst (ins k a m)"
| "apply_op (Del h) m = del h m"

primrec op_ok :: "('k, 'a, 'h) table_op \<Rightarrow> bool" where
  "op_ok (Ins k a) = kind_ok k"
| "op_ok (Del h) = True"

lemma apply_op_keeps:
  assumes "wf m" and "op_ok p" and "lookup m h = Some a" and "p \<noteq> Del h"
  shows "wf (apply_op p m) \<and> lookup (apply_op p m) h = Some a"
proof (cases p)
  case (Ins k b)
  obtain m' r where i: "ins k b m = (m', r)" by fastforce
  show ?thesis
    using Ins i assms ins_wf [of m k b] ins_fresh [of m k b m'] ins_full [of m k b m'] by (cases r) auto
next
  case (Del g)
  then show ?thesis using assms del_wf del_one by simp
qed

lemma handle_stable:
  assumes "wf m" and "lookup m h = Some a" and "\<forall>p \<in> set ps. op_ok p \<and> p \<noteq> Del h"
  shows "wf (fold apply_op ps m) \<and> lookup (fold apply_op ps m) h = Some a"
  using assms by (induction ps arbitrary: m) (auto simp: apply_op_keeps)

end

definition idm_ins :: "u32 \<Rightarrow> 'a \<Rightarrow> 'a id_map \<Rightarrow> 'a id_map \<times> (u32 \<times> u32) option" where
  "idm_ins base obj m =
     (case create_id (\<lambda>s. (Some obj, s)) base lv2_traits m () of
        (m', _, r) \<Rightarrow> (m', map_option (\<lambda>_. (g_id m', base)) r))"

definition idm_del :: "u32 \<times> u32 \<Rightarrow> 'a id_map \<Rightarrow> 'a id_map" where
  "idm_del h m = fst (idm_remove m (fst h) (snd h) lv2_traits)"

interpretation ht: handle_table "\<lambda>m h. idm_check m (fst h) (snd h) lv2_traits" idm_ins idm_del
  "idm_inv lv2_traits" "\<lambda>base. traits_ok base lv2_traits"
proof unfold_locales
  fix m m' :: "'a id_map" and k a h
  assume inv: "idm_inv lv2_traits m"
  have nz: "snd (tr_invl lv2_traits) \<noteq> 0" by (simp add: lv2_traits_def)
  {
    assume ok: "traits_ok k lv2_traits"
    obtain m1 s r where c: "create_id (\<lambda>s. (Some a, s)) k lv2_traits m () = (m1, s, r)" using prod_cases3 by blast
    show "idm_inv lv2_traits (fst (idm_ins k a m))"
      using c create_id_None(1) [OF inv ok] create_id_Some(1) [OF inv ok] by (cases r) (auto simp: idm_ins_def)
    show "idm_ins k a m = (m', None) \<Longrightarrow>
      (\<lambda>h. idm_check m' (fst h) (snd h) lv2_traits) = (\<lambda>h. idm_check m (fst h) (snd h) lv2_traits)"
      using c create_id_None(2) [OF inv ok, of _ "()" m1] by (auto simp: idm_ins_def)
    assume i: "idm_ins k a m = (m', Some h)"
    then have r: "r = Some a" "m' = m1" "h = (g_id m1, k)"
      using c create_id_Some(2) [OF inv ok, of _ "()" m1] by (auto simp: idm_ins_def)
    note cs = create_id_Some [OF inv ok c [unfolded r(1)]]
    show "idm_check m (fst h) (snd h) lv2_traits = None \<and>
      (\<lambda>h. idm_check m' (fst h) (snd h) lv2_traits) = (\<lambda>h. idm_check m (fst h) (snd h) lv2_traits)(h := Some a)"
      using cs(4,5) cs(7) [OF nz] r by (auto simp: fun_eq_iff)
  }
  show "idm_inv lv2_traits (idm_del h m)"
    using inv clear_slot_check(1) [OF inv, of "fst h" "snd h"]
    by (auto simp: idm_del_def idm_remove_def split: option.splits)
  show "(\<lambda>g. idm_check (idm_del h m) (fst g) (snd g) lv2_traits) =
      (\<lambda>h. idm_check m (fst h) (snd h) lv2_traits)(h := None)"
  proof (cases "idm_check m (fst h) (snd h) lv2_traits")
    case None
    then show ?thesis by (auto simp: idm_del_def idm_remove_def fun_eq_iff)
  next
    case (Some x)
    note cl = clear_slot_check(2,3) [OF inv Some]
    show ?thesis
      using Some cl(1) cl(2) [OF nz] by (auto simp: idm_del_def idm_remove_def fun_eq_iff)
  qed
qed

end
