(* ===== verification/Id_Props.thy ===== *)
theory Id_Props
  imports Id_Manager
begin

text \<open>
  The properties of the object manager: identifiers and slots determine each other, creation is
  exact, an identifier denotes its object until it is withdrawn, and for how long a withdrawn one stays invalid.
\<close>

text \<open>
  Identifiers and slots determine each other. The identifier given to a slot, fresh or with an
  advanced invalidation counter, leads back to the slot; an identifier that leads to a slot is, up to its
  invalidation bits, the one given to that slot; one below the base of the type leads to none.
\<close>

lemma id_index_roundtrip:
  assumes "traits_ok base tr" and "i < unat (tr_count tr)"
  shows "get_index (next_id base tr i) base tr = of_nat i \<and> get_index (reuse_id base tr i old) base tr = of_nat i \<and>
    (get_index uid base tr < tr_count tr \<longrightarrow>
       uid AND NOT (invl_mask (tr_invl tr)) = next_id base tr (unat (get_index uid base tr))) \<and>
    (uid AND NOT (invl_mask (tr_invl tr)) < base \<longrightarrow> tr_count tr \<le> get_index uid base tr)"
  using get_index_reuse [OF assms] get_index_inverse [of uid base tr] get_index_below [OF assms(1), of uid] by simp

lemma tr_count_lv2 [simp]: "tr_count lv2_traits = 8192"
  by (simp add: lv2_traits_def)

lemma lv2_traits_ok [simp]: "traits_ok 0x85000000 lv2_traits" "traits_ok 0x96000000 lv2_traits"
  by (simp_all add: traits_ok_def lv2_traits_def no_type_def take_bit_eq_mask mask_eq_exp_minus_1)

text \<open>
  C34: Creation is exact. If it succeeds, the new identifier was invalid, now denotes the provided
  object, and every other identifier denotes what it did. If it fails, no identifier changes its
  meaning, and it fails only because the provider failed or every slot is taken.
\<close>

theorem create_id_exact:
  assumes "idm_inv tr m" and "traits_ok base tr" and "snd (tr_invl tr) \<noteq> 0"
    and "create_id provider base tr m st = (m', st', r)"
  shows "idm_inv tr m' \<and>
    (case r of
       Some obj \<Rightarrow>
         provider st = (Some obj, st') \<and> last_id m' base tr = Some (g_id m') \<and>
         idm_check m (g_id m') base tr = None \<and>
         (\<forall>uid b. idm_check m' uid b tr = (if (uid, b) = (g_id m', base) then Some obj else idm_check m uid b tr))
     | None \<Rightarrow>
         (\<forall>uid b. idm_check m' uid b tr = idm_check m uid b tr) \<and>
         (provider st = (None, st') \<or> st' = st \<and> (\<forall>i < unat (tr_count tr). vec_data m i \<noteq> None)))"
proof (cases r)
  case None
  then show ?thesis using create_id_None [OF assms(1,2) assms(4) [unfolded None]] by auto
next
  case (Some obj)
  note c = create_id_Some [OF assms(1,2) assms(4) [unfolded Some]]
  show ?thesis using Some c(1-5) c(7) [OF assms(3)] by auto
qed

lemma idm_inv_empty [simp]: "idm_inv tr empty_map"
  by (simp add: idm_inv_def empty_map_def empty_key_def)

theorem create_id_exact_witness:
  "\<exists>m'. create_id (\<lambda>s. (Some ''a'', s)) 0x85000000 lv2_traits empty_map () = (m', (), Some ''a'') \<and>
     idm_check m' 0x85000000 0x85000000 lv2_traits = Some ''a'' \<and> idm_check m' 0x85000100 0x85000000 lv2_traits = None"
proof -
  have n: "snd (tr_invl lv2_traits) \<noteq> 0" by (simp add: lv2_traits_def)
  have e: "idm_check empty_map uid b lv2_traits = None" for uid b
    by (simp add: idm_check_def find_index_def empty_map_def Let_def)
  let ?c = "create_id (\<lambda>s. (Some ''a'', s)) 0x85000000 lv2_traits empty_map ()"
  have c: "fst (snd ?c) = ()" "snd (snd ?c) = Some ''a''" "g_id (fst ?c) = 0x85000000"
    by (simp_all add: create_id_def allocate_id_def empty_map_def invalid_id_def lv2_traits_def put_key_def next_id_def Let_def)
  then have "?c = (fst ?c, (), Some ''a'')" by (metis prod.collapse)
  from create_id_exact [OF idm_inv_empty lv2_traits_ok(1) n this] c(3) e this show ?thesis
    by (intro exI [of _ "fst ?c"]) simp
qed

section \<open>Sequences of operations\<close>

primrec idm_op :: "(u32, 'a, u32 \<times> u32) table_op \<Rightarrow> 'a id_map \<Rightarrow> 'a id_map" where
  "idm_op (Ins base a) m = fst (idm_ins base a m)"
| "idm_op (Del h) m = idm_del h m"

primrec idm_op_ok :: "(u32, 'a, u32 \<times> u32) table_op \<Rightarrow> bool" where
  "idm_op_ok (Ins base a) = traits_ok base lv2_traits"
| "idm_op_ok (Del h) = True"

lemma idm_op_ht: "idm_op p m = ht.apply_op p m" "idm_op_ok p = ht.op_ok p"
  by (cases p; simp)+

text \<open>
  C32: An identifier denotes its object through every sequence of creations, of any kinds, and removals of
  other identifiers.
\<close>

theorem handle_denotes:
  assumes "idm_inv lv2_traits m" and "idm_check m (fst h) (snd h) lv2_traits = Some a"
    and "\<forall>p \<in> set ps. idm_op_ok p \<and> p \<noteq> Del h"
  shows "idm_check (fold idm_op ps m) (fst h) (snd h) lv2_traits = Some a"
  using ht.handle_stable [of m h a ps] assms by (simp add: idm_op_ht [abs_def])

lemma demo_handle: "idm_check (fst (idm_ins 0x85000000 CHR ''x'' empty_map)) 0x85000000 0x85000000 lv2_traits = Some CHR ''x''"
  by (simp add: idm_ins_def create_id_def allocate_id_def empty_map_def invalid_id_def lv2_traits_def put_key_def next_id_def
      idm_check_def find_index_def get_index_def invl_mask_def Let_def)

theorem handle_denotes_witness:
  "idm_check (fold idm_op [Ins 0x96000000 CHR ''y'', Del (0x96000100, 0x96000000)] (fst (idm_ins 0x85000000 CHR ''x'' empty_map)))
     0x85000000 0x85000000 lv2_traits = Some CHR ''x''"
proof -
  let ?m = "fst (idm_ins 0x85000000 CHR ''x'' empty_map)"
  have "idm_inv lv2_traits ?m" by (rule ht.ins_wf) simp_all
  with demo_handle show ?thesis
    using handle_denotes [of ?m "(0x85000000, 0x85000000)" "CHR ''x''" "[Ins 0x96000000 CHR ''y'', Del (0x96000100, 0x96000000)]"] by simp
qed

section \<open>Stale identifiers\<close>

lemma reuse_id_counter:
  assumes "traits_ok base lv2_traits"
  shows "take_bit 8 (reuse_id base lv2_traits i old) = take_bit 8 (old + 1)"
proof -
  have "2 ^ (fst (tr_invl lv2_traits) + snd (tr_invl lv2_traits)) dvd next_id base lv2_traits i"
    by (rule next_id_aligned [OF assms]) (simp add: lv2_traits_def)
  then have "take_bit 8 (next_id base lv2_traits i) = 0" by (simp add: lv2_traits_def take_bit_eq_0_iff)
  moreover have "invl_mask (0, 8) = mask 8" by (simp add: invl_mask_mask)
  ultimately show ?thesis
    by (simp add: reuse_id_def lv2_traits_def take_bit_or take_bit_and flip: take_bit_eq_mask)
qed

text \<open>
  \<open>age uid i m\<close> is the number of times, modulo 256, that slot \<open>i\<close> was given away after \<open>uid\<close>. While at
  most \<open>n\<close> creations follow the removal, the age is at most \<open>n\<close>, and not zero if the slot is taken.
\<close>

definition age :: "u32 \<Rightarrow> nat \<Rightarrow> 'a id_map \<Rightarrow> nat" where
  "age uid i m = unat (take_bit 8 (k_value (vec_keys m i) - uid))"

definition stale :: "u32 \<Rightarrow> nat \<Rightarrow> nat \<Rightarrow> 'a id_map \<Rightarrow> bool" where
  "stale uid i n m \<longleftrightarrow> idm_inv lv2_traits m \<and> i < unat (highest_index m) \<and> age uid i m \<le> n \<and>
     (vec_data m i \<noteq> None \<longrightarrow> 0 < age uid i m)"

lemma take_bit_minus_word: "take_bit n (take_bit n a - take_bit n b) = take_bit n (a - b :: u32)"
  by transfer (simp add: take_bit_diff min_def)

lemma take_bit_plus_word: "take_bit n (take_bit n a + take_bit n b) = take_bit n (a + b :: u32)"
  by transfer (simp add: take_bit_add min_def)

lemma age_step:
  assumes "take_bit 8 new = take_bit 8 (old + 1)" and "unat (take_bit 8 (old - uid)) < 255"
  shows "unat (take_bit 8 (new - uid)) = Suc (unat (take_bit 8 (old - uid :: u32)))"
proof -
  let ?a = "take_bit 8 (old - uid)"
  have "take_bit 8 (new - uid) = take_bit 8 (take_bit 8 (old + 1) - take_bit 8 uid)"
    unfolding assms(1) [symmetric] take_bit_minus_word ..
  also have "\<dots> = take_bit 8 ((old - uid) + 1)" unfolding take_bit_minus_word by (simp add: algebra_simps)
  also have "\<dots> = take_bit 8 (?a + 1)" using take_bit_plus_word [of 8 "old - uid" 1] by simp
  finally have e: "take_bit 8 (new - uid) = take_bit 8 (?a + 1)" .
  have "unat (?a + 1) = unat ?a + 1" using assms(2) by (simp add: unat_word_ariths)
  then show ?thesis unfolding e unsigned_take_bit_eq using assms(2) by (simp add: take_bit_nat_eq_self unsigned_take_bit_eq)
qed

lemma idm_ins_keys:
  assumes "idm_inv lv2_traits m" and "traits_ok base lv2_traits" and "fst (idm_ins base a m) = m'"
  shows "vec_data m' = vec_data m \<and> vec_keys m' = vec_keys m \<and> highest_index m \<le> highest_index m' \<or>
    (\<exists>i. vec_data m i = None \<and> vec_data m' = (vec_data m)(i := Some a) \<and> highest_index m \<le> highest_index m' \<and>
       vec_keys m' = (vec_keys m)(i := \<lparr>k_value = g_id m', k_type = base\<rparr>) \<and>
       (i < unat (highest_index m) \<longrightarrow> g_id m' = reuse_id base lv2_traits i (k_value (vec_keys m i))))"
proof -
  obtain m1 r where al: "allocate_id m base (invalid_id base) lv2_traits = (m1, r)" by fastforce
  note d = allocate_idD [OF assms(1,2) al]
  have h: "highest_index m \<le> highest_index m1" if "r = Alloc_none"
    using al that by (auto simp: allocate_id_def lv2_traits_def Let_def split: if_splits option.splits)
  show ?thesis
  proof (cases r)
    case (Alloc i)
    then have "m' = m1\<lparr>vec_data := (vec_data m1)(i := Some a)\<rparr>" using al assms(3) by (auto simp: idm_ins_def create_id_def)
    then show ?thesis using d(3) [OF Alloc] by (intro disjI2 exI [of _ i]) auto
  next
    case Alloc_none
    then show ?thesis using al assms(3) d(2) h by (auto simp: idm_ins_def create_id_def)
  qed (use d(1) in simp)
qed

lemma stale_ins:
  assumes "stale uid i n m" and "traits_ok base lv2_traits" and "n < 255"
  shows "stale uid i (Suc n) (fst (idm_ins base a m))"
proof -
  let ?m = "fst (idm_ins base a m)"
  have inv: "idm_inv lv2_traits m" and i: "i < unat (highest_index m)" and ag: "age uid i m \<le> n"
    and occ: "vec_data m i \<noteq> None \<Longrightarrow> 0 < age uid i m" using assms(1) by (auto simp: stale_def)
  have inv': "idm_inv lv2_traits ?m" by (rule ht.ins_wf [OF inv assms(2)])
  from idm_ins_keys [OF inv assms(2) refl, of a] show ?thesis
  proof (elim disjE exE conjE)
    assume "vec_data ?m = vec_data m" "vec_keys ?m = vec_keys m" "highest_index m \<le> highest_index ?m"
    then show ?thesis using inv' i ag occ by (auto simp: stale_def age_def word_le_nat_alt)
  next
    fix j assume j: "vec_data m j = None" "vec_data ?m = (vec_data m)(j := Some a)" "highest_index m \<le> highest_index ?m"
      "vec_keys ?m = (vec_keys m)(j := \<lparr>k_value = g_id ?m, k_type = base\<rparr>)"
      "j < unat (highest_index m) \<longrightarrow> g_id ?m = reuse_id base lv2_traits j (k_value (vec_keys m j))"
    show ?thesis
    proof (cases "j = i")
      case True
      then have "age uid i ?m = Suc (age uid i m)"
        using j(4,5) i ag assms(3) age_step [OF reuse_id_counter [OF assms(2), of i "k_value (vec_keys m i)"], of uid]
        by (simp add: age_def)
      then show ?thesis using inv' i ag j(3) by (auto simp: stale_def word_le_nat_alt)
    next
      case False
      then show ?thesis using inv' i ag occ j by (auto simp: stale_def age_def word_le_nat_alt)
    qed
  qed
qed

lemma stale_del:
  assumes "stale uid i n m"
  shows "stale uid i n (idm_del h m)"
proof -
  have "idm_inv lv2_traits (idm_del h m)" using assms by (intro ht.del_wf) (simp add: stale_def)
  then show ?thesis using assms
    by (auto simp: stale_def age_def idm_del_def idm_remove_def clear_slot_def split: option.splits)
qed

primrec is_ins :: "('k, 'a, 'h) table_op \<Rightarrow> bool" where
  "is_ins (Ins k a) = True"
| "is_ins (Del h) = False"

lemma stale_run:
  assumes "stale uid i n m" and "\<forall>p \<in> set ps. idm_op_ok p" and "n + length (filter is_ins ps) \<le> 255"
  shows "stale uid i (n + length (filter is_ins ps)) (fold idm_op ps m)"
  using assms
proof (induction ps arbitrary: n m)
  case (Cons p ps)
  show ?case
  proof (cases p)
    case (Ins base a)
    then show ?thesis using Cons.prems Cons.IH [OF stale_ins [OF Cons.prems(1)]] by simp
  next
    case (Del g)
    then show ?thesis using Cons.prems Cons.IH [OF stale_del [OF Cons.prems(1)]] by simp
  qed
qed simp

text \<open>
  C33: A withdrawn identifier stays invalid through every sequence of removals and of at most 255 creations, as long as
  every creation succeeds in constructing its object (the invalidation counter has 8 bits). A creation whose constructor
  fails forgets the counter of its slot; \<open>failed_create_revives\<close> shows an identifier that becomes valid again after one.
\<close>

theorem stale_handle_bound:
  assumes "idm_inv lv2_traits m" and "idm_check m (fst h) (snd h) lv2_traits = Some a"
    and "\<forall>p \<in> set ps. idm_op_ok p" and "length (filter is_ins ps) \<le> 255"
  shows "idm_check (fold idm_op ps (idm_del h m)) (fst h) (snd h) lv2_traits = None"
proof (rule ccontr)
  let ?m = "fold idm_op ps (idm_del h m)"
  let ?i = "unat (get_index (fst h) (snd h) lv2_traits)"
  note chk = idm_check_iff [where tr = lv2_traits and uid = "fst h" and base = "snd h"]
  have nz: "snd (tr_invl lv2_traits) \<noteq> 0" by (simp add: lv2_traits_def)
  have k: "vec_data m ?i = Some a" "k_value (vec_keys m ?i) = fst h" using assms(2) chk [OF assms(1)] nz by auto
  moreover have "?i < unat (highest_index m)" using assms(1) k(1) by (force simp: idm_inv_def not_le)
  moreover have "idm_inv lv2_traits (idm_del h m)" by (rule ht.del_wf [OF assms(1)])
  ultimately have "stale (fst h) ?i 0 (idm_del h m)"
    using assms(2) by (simp add: stale_def age_def idm_del_def idm_remove_def clear_slot_def)
  from stale_run [OF this assms(3)] assms(4)
  have s: "idm_inv lv2_traits ?m" "vec_data ?m ?i \<noteq> None \<Longrightarrow> 0 < age (fst h) ?i ?m" by (simp_all add: stale_def)
  assume "idm_check ?m (fst h) (snd h) lv2_traits \<noteq> None"
  then show False using chk [OF s(1)] s(2) nz by (auto simp: age_def)
qed

theorem stale_handle_bound_witness:
  "idm_check (fold idm_op [Ins 0x85000000 CHR ''y''] (idm_del (0x85000000, 0x85000000) (fst (idm_ins 0x85000000 CHR ''x'' empty_map))))
     0x85000000 0x85000000 lv2_traits = None"
proof -
  let ?m = "fst (idm_ins 0x85000000 CHR ''x'' empty_map)"
  have "idm_inv lv2_traits ?m" by (rule ht.ins_wf) simp_all
  with demo_handle show ?thesis
    using stale_handle_bound [of ?m "(0x85000000, 0x85000000)" "CHR ''x''" "[Ins 0x85000000 CHR ''y'']"] by simp
qed

text \<open>
  A creation whose provider fails forgets the invalidation counter of the slot it had taken: with every other
  slot taken, an identifier whose counter is 1 becomes valid again after one failed and one successful
  creation.
\<close>

lemma failed_create_revives:
  assumes "idm_inv lv2_traits m" and "traits_ok base lv2_traits" and "highest_index m = tr_count lv2_traits"
    and "\<forall>i < unat (tr_count lv2_traits). vec_data m i \<noteq> None"
    and "idm_check m uid base lv2_traits = Some a" and "take_bit 8 uid = 1"
    and "create_id (\<lambda>s. (None, s)) base lv2_traits (fst (idm_remove m uid base lv2_traits)) () = (m1, s1, r1)"
    and "create_id (\<lambda>s. (Some b, s)) base lv2_traits m1 () = (m2, s2, r2)"
  shows "idm_check m2 uid base lv2_traits = Some b"
proof -
  let ?i = "unat (get_index uid base lv2_traits)" and ?m = "clear_slot (unat (get_index uid base lv2_traits)) m"
  have m: "fst (idm_remove m uid base lv2_traits) = ?m" using assms(5) by (simp add: idm_remove_def)
  have free: "\<And>i. i < unat (tr_count lv2_traits) \<Longrightarrow> vec_data ?m i = None \<Longrightarrow> i = ?i"
    using assms(4) by (auto simp: clear_slot_def split: if_splits)
  have gi: "get_index uid base lv2_traits < tr_count lv2_traits" using assms(5) by (auto simp: idm_check_def Let_def not_le split: if_splits)
  then have il: "?i < unat (tr_count lv2_traits)" by (simp add: word_less_nat_alt)
  have f: "vec_data ?m ?i = None" by (simp add: clear_slot_def)
  have inv: "idm_inv lv2_traits ?m" by (rule clear_slot_check(1) [OF assms(1,5)])
  obtain x a1 where al: "allocate_id ?m base (invalid_id base) lv2_traits = (x, a1)" by fastforce
  note d = allocate_idD [OF inv assms(2) al]
  have a1: "a1 = Alloc ?i" using d free f il by (cases a1) auto
  then have m1: "m1 = x\<lparr>vec_keys := (vec_keys x)(?i := empty_key)\<rparr>" using assms(7) al m by (simp add: create_id_def)
  have inv1: "idm_inv lv2_traits m1" using idm_inv_slot(2) [OF inv assms(2) al [unfolded a1]] m1 by simp
  have v1: "vec_data m1 = vec_data ?m" "highest_index m1 = tr_count lv2_traits"
    using d(3) [OF a1] m1 assms(3) by (auto simp: clear_slot_def)
  obtain y a2 where al2: "allocate_id m1 base (invalid_id base) lv2_traits = (y, a2)" by fastforce
  note d2 = allocate_idD [OF inv1 assms(2) al2]
  have a2: "a2 = Alloc ?i" using d2 free f il v1 by (cases a2) auto
  then have m2: "m2 = y\<lparr>vec_data := (vec_data y)(?i := Some b)\<rparr>" using assms(8) al2 by (auto simp: create_id_def)
  have inv2: "idm_inv lv2_traits m2" using idm_inv_slot(1) [OF inv1 assms(2) al2 [unfolded a2]] m2 by simp
  have g: "g_id y = reuse_id base lv2_traits ?i 0" using d2(3) [OF a2] v1(2) il m1 by (simp add: empty_key_def)
  have "uid = take_bit 8 uid OR (uid AND NOT (mask 8))" by (simp add: take_bit_eq_mask flip: bit.conj_disj_distrib)
  also have "uid AND NOT (mask 8) = next_id base lv2_traits ?i"
    using get_index_inverse [OF gi] by (simp add: invl_mask_mask lv2_traits_def)
  finally have "uid = g_id y" using g assms(6) by (simp add: reuse_id_def lv2_traits_def invl_mask_def or.commute)
  then show ?thesis using d2(3) [OF a2] m2 idm_check_iff [OF inv2] by simp
qed

end
