(* ===== verification/Lv2_Create.thy ===== *)
theory Lv2_Create
  imports Id_Manager
begin

text \<open>
  The life cycle of the kernel objects: the IPC manager of \<^verbatim>\<open>rpcs3/Emu/IPC.h\<close> and the functions
  \<^verbatim>\<open>lv2_obj::create\<close> and \<^verbatim>\<open>lv2_obj::on_id_destroy\<close> of \<^verbatim>\<open>rpcs3/Emu/Cell/lv2/sys_sync.h\<close>. Several
  identifiers may denote one object, so the identifier table holds addresses into an object store; the
  field \<^verbatim>\<open>exists\<close> of the base class is the table \<open>w_exists\<close>. There is one IPC manager per object
  type: its keys are pairs of the type and the key. An entry of the manager may hold a null pointer.
\<close>

record 'o obj_world =
  w_objs :: "nat \<Rightarrow> 'o option"
  w_next :: nat
  w_exists :: "nat \<Rightarrow> u32"
  w_ipc :: "u32 \<times> u64 \<Rightarrow> nat option option"

definition SYS_SYNC_PROCESS_SHARED :: u32 where
  "SYS_SYNC_PROCESS_SHARED = 0x100"

definition SYS_SYNC_NOT_PROCESS_SHARED :: u32 where
  "SYS_SYNC_NOT_PROCESS_SHARED = 0x200"

definition SYS_SYNC_NEWLY_CREATED :: int where
  "SYS_SYNC_NEWLY_CREATED = 1"

definition SYS_SYNC_NOT_CREATE :: int where
  "SYS_SYNC_NOT_CREATE = 2"

definition SYS_SYNC_NOT_CARE :: int where
  "SYS_SYNC_NOT_CARE = 3"

lemmas sync_consts = SYS_SYNC_PROCESS_SHARED_def SYS_SYNC_NOT_PROCESS_SHARED_def
  SYS_SYNC_NEWLY_CREATED_def SYS_SYNC_NOT_CREATE_def SYS_SYNC_NOT_CARE_def

section \<open>The IPC manager\<close>

definition ipc_add ::
    "u32 \<times> u64 \<Rightarrow> ('o obj_world \<times> 'e \<Rightarrow> nat option \<times> 'o obj_world \<times> 'e) \<Rightarrow> bool \<Rightarrow>
      'o obj_world \<times> 'e \<Rightarrow> (bool \<times> nat option) \<times> 'o obj_world \<times> 'e" where
  "ipc_add k provider peek_ptr s =
     (let (w, e) = s;
          ptr = (case w_ipc w k of Some p \<Rightarrow> p | None \<Rightarrow> None);
          w1 = w\<lparr>w_ipc := (w_ipc w)(k := Some ptr)\<rparr>
      in case ptr of
           Some a \<Rightarrow> ((False, if peek_ptr then Some a else None), w1, e)
         | None \<Rightarrow>
             (let (p, w2, e2) = provider (w1, e);
                  w3 = w2\<lparr>w_ipc := (w_ipc w2)(k := Some p)\<rparr>;
                  added = (p \<noteq> None)
              in ((added, if peek_ptr \<or> added then p else None), w3, e2)))"

definition ipc_remove :: "u32 \<times> u64 \<Rightarrow> 'o obj_world \<Rightarrow> 'o obj_world \<times> bool" where
  "ipc_remove k w = (w\<lparr>w_ipc := (w_ipc w)(k := None)\<rparr>, w_ipc w k \<noteq> None)"

definition ipc_get :: "u32 \<times> u64 \<Rightarrow> 'o obj_world \<Rightarrow> nat option" where
  "ipc_get k w = (case w_ipc w k of Some p \<Rightarrow> p | None \<Rightarrow> None)"

definition ipc_check :: "u32 \<times> u64 \<Rightarrow> 'o obj_world \<Rightarrow> bool" where
  "ipc_check k w \<longleftrightarrow> w_ipc w k \<noteq> None"

section \<open>Creation\<close>

text \<open>\<^verbatim>\<open>make\<close> allocates; the default \<^verbatim>\<open>on_id_create\<close> counts one more identifier.\<close>

definition alloc_obj :: "'o \<Rightarrow> 'o obj_world \<Rightarrow> nat \<times> 'o obj_world" where
  "alloc_obj x w =
     (w_next w, w\<lparr>w_objs := (w_objs w)(w_next w := Some x), w_next := Suc (w_next w),
                 w_exists := (w_exists w)(w_next w := 0)\<rparr>)"

type_synonym 'o id_create_hook = "nat \<Rightarrow> 'o obj_world \<Rightarrow> CellError option \<times> 'o obj_world"

definition on_id_create :: "'o id_create_hook" where
  "on_id_create a w = (None, w\<lparr>w_exists := (w_exists w)(a := w_exists w a + 1)\<rparr>)"

definition finalize_construct ::
    "'o id_create_hook \<Rightarrow> nat \<Rightarrow> 'o obj_world \<times> CellError option \<Rightarrow>
      nat option \<times> 'o obj_world \<times> CellError option" where
  "finalize_construct hook a s =
     (case hook a (fst s) of (e, w) \<Rightarrow> (if e = None then Some a else None, w, e))"

definition create_provider ::
    "u32 \<Rightarrow> 'o id_create_hook \<Rightarrow> 'o \<Rightarrow> u32 \<Rightarrow> u64 \<Rightarrow> int \<Rightarrow> 'o obj_world \<times> CellError option \<Rightarrow>
      nat option \<times> 'o obj_world \<times> CellError option" where
  "create_provider base hook x pshared ipc_key flags s =
     (let (a, w) = alloc_obj x (fst s); s1 = (w, snd s)
      in if pshared \<noteq> SYS_SYNC_PROCESS_SHARED then finalize_construct hook a s1
         else if flags = SYS_SYNC_NOT_CREATE then
           (case ipc_get (base, ipc_key) w of
              None \<Rightarrow> (None, w, Some CELL_ESRCH)
            | Some b \<Rightarrow> finalize_construct hook b s1)
         else
           let ((added, result), w2, err) =
                 ipc_add (base, ipc_key) (finalize_construct hook a) (flags \<noteq> SYS_SYNC_NEWLY_CREATED) s1
           in if err \<noteq> None then (None, w2, err)
              else if \<not> added then
                (if flags = SYS_SYNC_NEWLY_CREATED then (result, w2, Some CELL_EEXIST)
                 else case result of
                        Some b \<Rightarrow> finalize_construct hook b (w2, err)
                      | None \<Rightarrow> (None, w2, err))
              else (result, w2, err))"

definition lv2_create ::
    "u32 \<Rightarrow> 'o id_create_hook \<Rightarrow> u32 \<Rightarrow> u64 \<Rightarrow> int \<Rightarrow> 'o \<Rightarrow> bool \<Rightarrow> nat id_map \<Rightarrow> 'o obj_world \<Rightarrow>
      nat id_map \<times> 'o obj_world \<times> CellError option" where
  "lv2_create base hook pshared ipc_key flags x key_not_zero m w =
     (if (pshared = SYS_SYNC_PROCESS_SHARED \<and>
            ((key_not_zero \<and> ipc_key = 0) \<or>
             flags \<notin> {SYS_SYNC_NEWLY_CREATED, SYS_SYNC_NOT_CARE, SYS_SYNC_NOT_CREATE})) \<or>
         (pshared \<noteq> SYS_SYNC_PROCESS_SHARED \<and> pshared \<noteq> SYS_SYNC_NOT_PROCESS_SHARED)
      then (m, w, Some CELL_EINVAL)
      else case create_id (create_provider base hook x pshared ipc_key flags) base lv2_traits m (w, None) of
             (m', (w', err), Some _) \<Rightarrow> (m', w', None)
           | (m', (w', err), None) \<Rightarrow> (m', w', Some (case err of Some e \<Rightarrow> e | None \<Rightarrow> CELL_EAGAIN)))"

definition get_key :: "u32 \<Rightarrow> u64 \<Rightarrow> u64" where
  "get_key pshared ipc_key = (if pshared = SYS_SYNC_PROCESS_SHARED then ipc_key else 0)"

definition on_id_destroy :: "u32 \<Rightarrow> nat \<Rightarrow> u64 \<Rightarrow> bool option \<Rightarrow> 'o obj_world \<Rightarrow> 'o obj_world" where
  "on_id_destroy base a ipc_key pshared w =
     (let shared = (case pshared of None \<Rightarrow> ipc_key \<noteq> 0 | Some b \<Rightarrow> b);
          w1 = w\<lparr>w_exists := (w_exists w)(a := w_exists w a - 1)\<rparr>
      in if w_exists w a = 1 \<and> shared then fst (ipc_remove (base, ipc_key) w1) else w1)"

section \<open>Reference counting\<close>

text \<open>
  \<open>R a\<close> is the set of slots of the identifier table that hold the object \<open>a\<close>. The invariant: the
  \<^verbatim>\<open>exists\<close> field of an object is the number of its identifiers, and the IPC manager only knows
  objects that have one. \<open>okey\<close> and \<open>obase\<close> read the IPC key and the type of an object.
\<close>

definition winv :: "('o \<Rightarrow> u64) \<Rightarrow> ('o \<Rightarrow> u32) \<Rightarrow> (nat \<Rightarrow> nat set) \<Rightarrow> 'o obj_world \<Rightarrow> bool" where
  "winv okey obase R w \<longleftrightarrow>
     (\<forall>a. finite (R a) \<and> w_exists w a = of_nat (card (R a))) \<and>
     (\<forall>a \<ge> w_next w. w_objs w a = None \<and> R a = {}) \<and>
     (\<forall>b k a. w_ipc w (b, k) = Some (Some a) \<longrightarrow>
        k \<noteq> 0 \<and> R a \<noteq> {} \<and> (\<exists>x. w_objs w a = Some x \<and> okey x = k \<and> obase x = b))"

definition slots :: "nat id_map \<Rightarrow> nat \<Rightarrow> nat set" where
  "slots m a = {i. vec_data m i = Some a}"

definition world_inv :: "('o \<Rightarrow> u64) \<Rightarrow> ('o \<Rightarrow> u32) \<Rightarrow> nat id_map \<Rightarrow> 'o obj_world \<Rightarrow> bool" where
  "world_inv okey obase m w \<longleftrightarrow> idm_inv lv2_traits m \<and> winv okey obase (slots m) w"

lemma winv_alloc:
  assumes "winv okey obase R w"
  shows "winv okey obase R (snd (alloc_obj x w))"
  using assms by (auto simp: winv_def alloc_obj_def le_Suc_eq)

lemma winv_bump:
  assumes "winv okey obase R w" and "i \<notin> R a" and "a < w_next w"
  shows "winv okey obase (R(a := insert i (R a))) (snd (on_id_create a w))"
  using assms by (auto simp: winv_def on_id_create_def)

lemma winv_ipc:
  assumes "winv okey obase R w" and "w_objs w a = Some x" and "okey x = k" and "obase x = b" and "k \<noteq> 0" and "R a \<noteq> {}"
  shows "winv okey obase R (w\<lparr>w_ipc := (w_ipc w)((b, k) := Some (Some a))\<rparr>)"
  using assms by (auto simp: winv_def)

lemma winv_ipc_same:
  assumes "winv okey obase R w" and "w_ipc w k = Some p \<or> w_ipc w k = None \<and> p = None"
  shows "winv okey obase R (w\<lparr>w_ipc := (w_ipc w)(k := Some p)\<rparr>)"
proof (cases "w_ipc w k = Some p")
  case True
  then have "(w_ipc w)(k := Some p) = w_ipc w" by auto
  then show ?thesis using assms(1) by simp
next
  case False
  then show ?thesis using assms by (auto simp: winv_def)
qed

lemma ipc_entry_alive:
  assumes "winv okey obase R w" and "ipc_get (b, k) w = Some a"
  shows "a < w_next w" and "R a \<noteq> {}" and "\<exists>x. w_objs w a = Some x \<and> okey x = k \<and> obase x = b"
  using assms by (auto simp: winv_def ipc_get_def not_le [symmetric] split: option.splits)

lemma finalize_spec:
  "finalize_construct on_id_create a s = (Some a, snd (on_id_create a (fst s)), None)"
  by (simp add: finalize_construct_def on_id_create_def)

lemma create_provider_inv:
  assumes w: "winv okey obase R w"
    and sh: "pshared = SYS_SYNC_PROCESS_SHARED \<Longrightarrow> okey x = key \<and> obase x = base \<and> key \<noteq> 0"
    and p: "create_provider base on_id_create x pshared key flags (w, None) = (r, w', e)"
  shows "r = None \<Longrightarrow> winv okey obase R w' \<and> e \<noteq> None"
    and "r = Some a \<Longrightarrow> i \<notin> R a \<Longrightarrow> winv okey obase (R(a := insert i (R a))) w' \<and> e = None"
proof -
  obtain c w1 where al: "alloc_obj x w = (c, w1)" by fastforce
  have w1: "winv okey obase R w1" using winv_alloc [OF w, of x] al by simp
  have c: "c < w_next w1" "w_objs w1 c = Some x" "R c = {}" using al w by (auto simp: alloc_obj_def winv_def)
  let ?k = "(base, key)"
  have bump: "winv okey obase (R(b := insert i (R b))) (snd (on_id_create b w1))" if "b < w_next w1" "i \<notin> R b" for b
    by (rule winv_bump [OF w1 that(2,1)])
  consider (plain) "pshared \<noteq> SYS_SYNC_PROCESS_SHARED" "r = Some c" "w' = snd (on_id_create c w1)" "e = None"
    | (missing) "r = None" "w' = w1" "e \<noteq> None"
    | (old) b where "ipc_get ?k w1 = Some b" "r = Some b" "w' = snd (on_id_create b w1)" "e = None"
    | (old_add) b where "ipc_get ?k w1 = Some b" "r = Some b" "e = None"
        "w' = snd (on_id_create b (w1\<lparr>w_ipc := (w_ipc w1)(?k := Some (Some b))\<rparr>))"
    | (clash) b where "ipc_get ?k w1 = Some b" "r = None" "e \<noteq> None" "w' = w1\<lparr>w_ipc := (w_ipc w1)(?k := Some (Some b))\<rparr>"
    | (new) "pshared = SYS_SYNC_PROCESS_SHARED" "r = Some c" "e = None"
        "w' = (snd (on_id_create c w1))\<lparr>w_ipc := (w_ipc w1)(?k := Some (Some c))\<rparr>"
    using p al
    by (auto simp: create_provider_def finalize_spec ipc_add_def ipc_get_def Let_def on_id_create_def
        split: if_splits option.splits)
  note cases = this
  have same: "winv okey obase R (w1\<lparr>w_ipc := (w_ipc w1)(?k := Some (Some b))\<rparr>)" if "ipc_get ?k w1 = Some b" for b
    using that by (intro winv_ipc_same [OF w1]) (auto simp: ipc_get_def split: option.splits)
  show "r = None \<Longrightarrow> winv okey obase R w' \<and> e \<noteq> None"
    using cases same w1 by (cases) auto
  assume r: "r = Some a" and i: "i \<notin> R a"
  show "winv okey obase (R(a := insert i (R a))) w' \<and> e = None"
    using cases
  proof cases
    case plain
    then show ?thesis using r i bump [of c] c by simp
  next
    case (old b)
    then show ?thesis using r i bump ipc_entry_alive(1) [OF w1 old(1)] by simp
  next
    case (old_add b)
    then show ?thesis using r i winv_bump [OF same [OF old_add(1)], of i b] ipc_entry_alive(1) [OF w1 old_add(1)] by simp
  next
    case new
    have "winv okey obase (R(c := insert i (R c))) (snd (on_id_create c w1))" using bump [of c] c i new r by simp
    then have "winv okey obase (R(c := insert i (R c)))
        ((snd (on_id_create c w1))\<lparr>w_ipc := (w_ipc (snd (on_id_create c w1)))(?k := Some (Some c))\<rparr>)"
      by (rule winv_ipc [where x = x]) (use c sh new in \<open>auto simp: on_id_create_def\<close>)
    then show ?thesis using new r by (simp add: on_id_create_def)
  qed (use r in auto)
qed

lemma slots_insert:
  "vec_data m i = None \<Longrightarrow> vec_data m' = (vec_data m)(i := Some a) \<Longrightarrow>
     slots m' = (slots m)(a := insert i (slots m a)) \<and> i \<notin> slots m a"
  by (auto simp: slots_def fun_eq_iff)

text \<open>Creating an object keeps the counts, whatever the sharing mode and the outcome.\<close>

lemma lv2_create_inv:
  assumes inv: "world_inv okey obase m w" and ok: "traits_ok base lv2_traits"
    and x: "pshared = SYS_SYNC_PROCESS_SHARED \<Longrightarrow> okey x = key" "obase x = base"
    and c: "lv2_create base on_id_create pshared key flags x True m w = (m', w', r)"
  shows "world_inv okey obase m' w'"
proof (cases "m' = m \<and> w' = w")
  case False
  let ?prov = "create_provider base on_id_create x pshared key flags"
  from c False have key: "pshared = SYS_SYNC_PROCESS_SHARED \<Longrightarrow> key \<noteq> 0"
    by (auto simp: lv2_create_def split: if_splits)
  have i: "idm_inv lv2_traits m" and v: "winv okey obase (slots m) w" using inv by (auto simp: world_inv_def)
  obtain e r' where cr: "create_id ?prov base lv2_traits m (w, None) = (m', (w', e), r')"
    using c False by (auto simp: lv2_create_def split: if_splits prod.splits option.splits)
  show ?thesis
  proof (cases r')
    case None
    note n = create_id_None [OF i ok cr [unfolded None]]
    have "slots m' = slots m" using n(4) by (simp add: slots_def fun_eq_iff)
    moreover have "winv okey obase (slots m) w'"
      using n(3) v create_provider_inv(1) [OF v, of pshared x key base flags None w' e] x key by auto
    ultimately show ?thesis using n(1) by (simp add: world_inv_def)
  next
    case (Some a)
    note n = create_id_Some [OF i ok cr [unfolded Some]]
    from n(8) obtain j where "vec_data m j = None" "vec_data m' = (vec_data m)(j := Some a)" by auto
    from slots_insert [OF this] create_provider_inv(2) [OF v _ n(2), of a j] x key n(1)
    show ?thesis by (auto simp: world_inv_def)
  qed
qed (use inv in simp)

text \<open>Withdrawing an identifier keeps the counts; the last one takes the object out of the IPC manager.\<close>

lemma slots_card_bound:
  assumes "idm_inv lv2_traits m"
  shows "finite (slots m a)" and "card (slots m a) \<le> 8192"
proof -
  have h: "unat (highest_index m) \<le> 8192"
    using assms by (auto simp: idm_inv_def lv2_traits_def word_le_nat_alt)
  have sub: "slots m a \<subseteq> {..<unat (highest_index m)}"
    using assms by (force simp: slots_def idm_inv_def not_le [symmetric])
  then show "finite (slots m a)" by (rule finite_subset) simp
  show "card (slots m a) \<le> 8192" using card_mono [OF _ sub] h by simp
qed

lemma lv2_destroy_inv:
  assumes inv: "world_inv okey obase m w" and chk: "idm_check m uid base lv2_traits = Some a"
    and x: "w_objs w a = Some x" "obase x = base"
  shows "world_inv okey obase (clear_slot (unat (get_index uid base lv2_traits)) m) (on_id_destroy base a (okey x) None w)"
proof -
  let ?i = "unat (get_index uid base lv2_traits)"
  have i: "idm_inv lv2_traits m" and v: "winv okey obase (slots m) w" using inv by (auto simp: world_inv_def)
  have mem: "?i \<in> slots m a" using chk by (simp add: idm_check_iff [OF i] slots_def)
  have sl: "slots (clear_slot ?i m) = (slots m)(a := slots m a - {?i})"
    using mem by (auto simp: slots_def clear_slot_def fun_eq_iff)
  have cd: "card (slots m a) = Suc (card (slots m a - {?i}))"
    using mem slots_card_bound(1) [OF i] by (metis card_Suc_Diff1)
  have one: "w_exists w a = 1 \<longleftrightarrow> slots m a - {?i} = {}"
  proof -
    have "w_exists w a = of_nat (card (slots m a))" using v by (simp add: winv_def)
    moreover have "unat (of_nat (card (slots m a)) :: u32) = card (slots m a)"
      using slots_card_bound(2) [OF i, of a] by (simp add: unat_of_nat)
    ultimately have "w_exists w a = 1 \<longleftrightarrow> card (slots m a) = 1" by (metis unat_1 word_unat_eq_iff)
    then show ?thesis using cd slots_card_bound(1) [OF i, of a] by simp
  qed
  have dec: "w_exists w a - 1 = of_nat (card (slots m a - {?i}))" using v cd by (simp add: winv_def)
  have "winv okey obase ((slots m)(a := slots m a - {?i})) (on_id_destroy base a (okey x) None w)"
  proof (cases "w_exists w a = 1")
    case True
    then have "slots m a - {?i} = {}" using one by simp
    then show ?thesis using v dec True x
      by (auto simp: winv_def on_id_destroy_def Let_def ipc_remove_def) (metis option.inject)+
  next
    case False
    then have "slots m a - {?i} \<noteq> {}" using one by simp
    then show ?thesis using v dec False by (auto simp: winv_def on_id_destroy_def Let_def)
  qed
  then show ?thesis using clear_slot_check(1) [OF i chk] by (simp add: world_inv_def sl)
qed

end
