(* ===== verification/Sys_Mutex.thy ===== *)
theory Sys_Mutex
  imports Lv2_Wait
begin

text \<open>
  The mutex of \<^verbatim>\<open>rpcs3/Emu/Cell/lv2/sys_mutex.h\<close> and \<^verbatim>\<open>sys_mutex.cpp\<close>. The record \<open>lv2_mutex\<close> is
  the class, with the fields of \<^verbatim>\<open>control_data_t\<close> inlined. Each definition is one atomic step of a
  system call: an operation on the atomic \<^verbatim>\<open>control\<close> word or a section under the mutex of the
  object. A compare-and-swap that meets interference fails; the host step says whether it does. The call
  \<^verbatim>\<open>sys_mutex_lock\<close> is split where other threads can intervene: the attempt that ends in the queue,
  the sleep, the polls of the wait loop, and the timeout.
\<close>

record lv2_mutex =
  mx_protocol :: lv2_protocol
  mx_recursive :: u32
  mx_adaptive :: u32
  mx_key :: u64
  mx_name :: u64
  mx_cond_count :: u32
  mx_lock_count :: u32
  mx_owner :: tid
  mx_sq :: "tid list"

definition SYS_SYNC_RECURSIVE :: u32 where
  "SYS_SYNC_RECURSIVE = 0x10"

definition SYS_SYNC_NOT_RECURSIVE :: u32 where
  "SYS_SYNC_NOT_RECURSIVE = 0x20"

section \<open>Operations on the control word\<close>

definition mutex_try_lock :: "bool \<Rightarrow> lv2_mutex \<Rightarrow> tid \<Rightarrow> lv2_mutex \<times> CellError option" where
  "mutex_try_lock cas m t =
     (if mx_owner m = 0 then (if cas then (m\<lparr>mx_owner := t\<rparr>, None) else (m, Some CELL_EBUSY))
      else if mx_owner m = t then
        (if mx_recursive m = SYS_SYNC_RECURSIVE then
           (if mx_lock_count m = 0xffffffff then (m, Some CELL_EKRESOURCE)
            else (m\<lparr>mx_lock_count := mx_lock_count m + 1\<rparr>, None))
         else (m, Some CELL_EDEADLK))
      else (m, Some CELL_EBUSY))"

text \<open>\<^verbatim>\<open>try_own\<close> stamps the thread with the next order and pushes it, or takes the mutex.\<close>

definition mutex_try_own :: "kstate \<Rightarrow> lv2_mutex \<Rightarrow> tid \<Rightarrow> kstate \<times> lv2_mutex \<times> bool" where
  "mutex_try_own ks m t =
     (if mx_owner m \<noteq> 0
      then (ks\<lparr>thr := stamp_order (order_tag ks + 1) t (thr ks), order_tag := order_tag ks + 1\<rparr>,
            m\<lparr>mx_sq := t # mx_sq m\<rparr>, False)
      else (ks, m\<lparr>mx_owner := t\<rparr>, True))"

definition mutex_try_unlock :: "bool \<Rightarrow> lv2_mutex \<Rightarrow> tid \<Rightarrow> lv2_mutex \<times> CellError option" where
  "mutex_try_unlock cas m t =
     (if mx_owner m \<noteq> t then (m, Some CELL_EPERM)
      else if mx_lock_count m \<noteq> 0 then (m\<lparr>mx_lock_count := mx_lock_count m - 1\<rparr>, None)
      else if mx_sq m = [] \<and> cas then (m\<lparr>mx_owner := 0\<rparr>, None)
      else (m, Some CELL_EBUSY))"

definition mutex_reown :: "threads \<Rightarrow> lv2_mutex \<Rightarrow> lv2_mutex \<times> tid option" where
  "mutex_reown tab m =
     (case schedule tab (mx_protocol m) (mx_sq m) of
        (None, _) \<Rightarrow> (m\<lparr>mx_owner := 0\<rparr>, None)
      | (Some t, q) \<Rightarrow> (if has_again tab t then m else m\<lparr>mx_owner := t, mx_sq := q\<rparr>, Some t))"

section \<open>The system calls\<close>

record sys_mutex_attribute =
  ma_protocol :: u32
  ma_recursive :: u32
  ma_pshared :: u32
  ma_adaptive :: u32
  ma_ipc_key :: u64
  ma_flags :: int
  ma_name :: u64

text \<open>The validation of the attributes, and the object that is made from them.\<close>

definition sys_mutex_make :: "u64 \<Rightarrow> sys_mutex_attribute \<Rightarrow> CellError + lv2_mutex" where
  "sys_mutex_make ipc_key attr =
     (case protocol_of (ma_protocol attr) of
        None \<Rightarrow> Inl CELL_EINVAL
      | Some SYS_SYNC_RETRY \<Rightarrow> Inl CELL_EINVAL
      | Some p \<Rightarrow>
          if ma_recursive attr \<noteq> SYS_SYNC_RECURSIVE \<and> ma_recursive attr \<noteq> SYS_SYNC_NOT_RECURSIVE
          then Inl CELL_EINVAL
          else Inr \<lparr>mx_protocol = p, mx_recursive = ma_recursive attr, mx_adaptive = ma_adaptive attr,
                     mx_key = ipc_key, mx_name = ma_name attr, mx_cond_count = 0, mx_lock_count = 0,
                     mx_owner = 0, mx_sq = []\<rparr>)"

definition mutex_destroy_check :: "lv2_mutex \<Rightarrow> CellError option" where
  "mutex_destroy_check m =
     (if mx_owner m \<noteq> 0 then Some CELL_EBUSY
      else if mx_cond_count m \<noteq> 0 then Some CELL_EPERM
      else None)"

text \<open>
  The attempt of \<^verbatim>\<open>sys_mutex_lock\<close>: \<open>None\<close> when the thread is queued and has to sleep. The
  busy-waiting loop only repeats \<^verbatim>\<open>try_lock\<close>, which changes nothing when it fails.
\<close>

definition mutex_lock_begin :: "bool \<Rightarrow> kstate \<Rightarrow> lv2_mutex \<Rightarrow> tid \<Rightarrow> kstate \<times> lv2_mutex \<times> sysres option" where
  "mutex_lock_begin cas ks m t =
     (case mutex_try_lock cas m t of
        (m1, None) \<Rightarrow> (ks, m1, Some Ok)
      | (m1, Some e) \<Rightarrow>
          if e \<noteq> CELL_EBUSY then (ks, m1, Some (Err e))
          else case mutex_try_own (set_cancel t 1 ks) m1 t of
                 (ks2, m2, True) \<Rightarrow> (set_cancel t 0 ks2, m2, Some Ok)
               | (ks2, m2, False) \<Rightarrow> (ks2, m2, None))"

definition mutex_lock_sleep :: "host \<Rightarrow> kstate \<Rightarrow> tid \<Rightarrow> u64 \<Rightarrow> kstate \<times> sysres" where
  "mutex_lock_sleep h ks t timeout =
     (case sleep_self h t timeout ks of
        (ks1, False) \<Rightarrow> (set_cancel t 0 ks1, Ok)
      | (ks1, True) \<Rightarrow> (set_reg t 3 0 (set_cancel t 0 ks1), Blocked))"

definition sys_mutex_lock :: "host \<Rightarrow> kstate \<Rightarrow> lv2_mutex \<Rightarrow> tid \<Rightarrow> u64 \<Rightarrow> kstate \<times> lv2_mutex \<times> sysres" where
  "sys_mutex_lock h ks m t timeout =
     (case mutex_lock_begin (h_cas h) ks m t of
        (ks1, m1, Some r) \<Rightarrow> (ks1, m1, r)
      | (ks1, m1, None) \<Rightarrow> (case mutex_lock_sleep h ks1 t timeout of (ks2, r) \<Rightarrow> (ks2, m1, r)))"

text \<open>What the loop does once the timeout has passed and the thread is scheduled again.\<close>

definition mutex_lock_timeout :: "kstate \<Rightarrow> lv2_mutex \<Rightarrow> tid \<Rightarrow> kstate \<times> lv2_mutex" where
  "mutex_lock_timeout ks m t =
     (let ks1 = raise t F_wait ks
      in if mx_sq m = [] then (ks1, m)
         else case unqueue t (mx_sq m) of
                (None, _) \<Rightarrow> (ks1, m)
              | (Some _, q) \<Rightarrow> (set_reg t 3 (errval CELL_ETIMEDOUT) ks1, m\<lparr>mx_sq := q\<rparr>))"

definition sys_mutex_trylock :: "bool \<Rightarrow> lv2_mutex \<Rightarrow> tid \<Rightarrow> lv2_mutex \<times> sysres" where
  "sys_mutex_trylock cas m t =
     (case mutex_try_lock cas m t of (m1, None) \<Rightarrow> (m1, Ok) | (m1, Some e) \<Rightarrow> (m1, Err e))"

definition sys_mutex_unlock :: "host \<Rightarrow> kstate \<Rightarrow> lv2_mutex \<Rightarrow> tid \<Rightarrow> kstate \<times> lv2_mutex \<times> sysres" where
  "sys_mutex_unlock h ks m t =
     (case mutex_try_unlock (h_cas h) m t of
        (m1, None) \<Rightarrow> (ks, m1, Ok)
      | (m1, Some e) \<Rightarrow>
          if e \<noteq> CELL_EBUSY then (ks, m1, Err e)
          else case mutex_reown (thr ks) m1 of
                 (m2, None) \<Rightarrow> (ks, m2, Ok)
               | (m2, Some s) \<Rightarrow>
                   if has_again (thr ks) s then (raise t F_again ks, m2, Restart)
                   else (awake_one h t s ks, m2, Ok))"

section \<open>The invariant of a mutex\<close>

definition mutex_inv :: "lv2_mutex \<Rightarrow> bool" where
  "mutex_inv m \<longleftrightarrow>
     distinct (mx_sq m) \<and> 0 \<notin> set (mx_sq m) \<and> mx_owner m \<notin> set (mx_sq m) \<and>
     (mx_owner m = 0 \<longrightarrow> mx_sq m = [] \<and> mx_lock_count m = 0) \<and>
     (mx_recursive m \<noteq> SYS_SYNC_RECURSIVE \<longrightarrow> mx_lock_count m = 0)"

lemma mutex_make_inv: "sys_mutex_make k attr = Inr m \<Longrightarrow> mutex_inv m"
  by (auto simp: sys_mutex_make_def mutex_inv_def split: option.splits lv2_protocol.splits if_splits)

lemma mutex_try_lock_inv:
  "mutex_inv m \<Longrightarrow> t \<notin> set (mx_sq m) \<Longrightarrow> mutex_inv (fst (mutex_try_lock cas m t))"
  by (auto simp: mutex_try_lock_def mutex_inv_def)

lemma mutex_try_unlock_inv: "mutex_inv m \<Longrightarrow> t \<noteq> 0 \<Longrightarrow> mutex_inv (fst (mutex_try_unlock cas m t))"
  by (auto simp: mutex_try_unlock_def mutex_inv_def)

lemma mutex_reown_inv:
  assumes "mutex_inv m" and "mx_lock_count m = 0"
  shows "mutex_inv (fst (mutex_reown tab m))"
proof (cases "schedule tab (mx_protocol m) (mx_sq m)")
  case (Pair r q)
  show ?thesis
  proof (cases r)
    case None
    then have "mx_sq m = []" using Pair by (simp add: schedule_None)
    then show ?thesis using assms Pair None by (auto simp: mutex_reown_def mutex_inv_def)
  next
    case (Some t)
    note d = schedule_SomeD [OF Pair [unfolded Some]]
    have "t \<noteq> 0" using d(1) assms(1) by (auto simp: mutex_inv_def)
    then show ?thesis
      using assms Pair Some d by (auto simp: mutex_reown_def mutex_inv_def dest: notin_set_remove1)
  qed
qed

end
