(* ===== verification/Wait_Object.thy ===== *)
theory Wait_Object
  imports Scheduler_Props
begin

text \<open>
  The synchronisation objects other than the mutex put the calling thread to sleep and into their
  queue inside one critical section. This theory has what they share: the frame of a kernel step, the effect
  of a system call on the queue of the object and on the scheduler (\<open>op_effect\<close>), and the interleaving
  of the calls of several threads on one object (\<open>wstep\<close>). The locale \<open>wait_object\<close> states what an object
  must promise of its calls and proves once that no wake-up is lost and that the scheduler and the object stay
  consistent; each object is an interpretation.
\<close>

text \<open>\<^verbatim>\<open>ppu_thread::cpu_sleep\<close>: a suspended thread asks to be scheduled again.\<close>

definition cpu_sleep :: "host \<Rightarrow> tid \<Rightarrow> kstate \<Rightarrow> kstate" where
  "cpu_sleep h t ks =
     awake_one h t t (upd_thr t (\<lambda>p. p\<lparr>raddr := 0, hw_sleep_time := 0, state := state p \<union> {F_wait, F_memory}\<rparr>) ks)"

text \<open>
  The frame of a kernel step: what it keeps of every thread outside \<open>T\<close>. A step of the scheduler
  parks and resumes no such thread.
\<close>

definition sched_frame :: "tid set \<Rightarrow> kstate \<Rightarrow> kstate \<Rightarrow> bool" where
  "sched_frame T ks ks' \<longleftrightarrow>
     (\<forall>s. s \<notin> T \<longrightarrow>
        (running ks s \<longrightarrow> running ks' s) \<and> (parked ks s \<longrightarrow> parked ks' s) \<and>
        cancel_sleep (thr ks' s) = cancel_sleep (thr ks s) \<and> (s \<in> set (g_ppu ks) \<longrightarrow> s \<in> set (g_ppu ks')))"

definition frame_except :: "tid set \<Rightarrow> kstate \<Rightarrow> kstate \<Rightarrow> bool" where
  "frame_except T ks ks' \<longleftrightarrow> sched_frame T ks ks' \<and> (\<forall>s. s \<notin> T \<longrightarrow> gpr (thr ks' s) = gpr (thr ks s))"

lemma frame_sched: "frame_except T ks ks' \<Longrightarrow> sched_frame T ks ks'"
  by (simp add: frame_except_def)

lemma sched_frame_refl [simp]: "sched_frame T ks ks"
  by (simp add: sched_frame_def)

lemma sched_frame_trans: "sched_frame T a b \<Longrightarrow> sched_frame T b c \<Longrightarrow> sched_frame T a c"
  by (auto simp: sched_frame_def)

lemma frame_trans: "frame_except T a b \<Longrightarrow> frame_except T b c \<Longrightarrow> frame_except T a c"
  by (auto simp: frame_except_def sched_frame_def)

lemma frame_upd: "frame_except {t} ks (upd_thr t f ks)"
  by (auto simp: frame_except_def sched_frame_def running_def parked_def)

lemma frame_order: "frame_except T ks (ks\<lparr>order_tag := n\<rparr>)"
  by (auto simp: frame_except_def sched_frame_def running_def parked_def)

lemma frame_awake_one:
  assumes "kernel_ok ks" and "t \<noteq> 0"
  shows "frame_except {c, t} ks (awake_one h c t ks)"
proof -
  have "keeps (thr (awake_one h c t ks)) (thr ks)" by (simp add: awake_one_def keeps_awake)
  then have "gpr (thr (awake_one h c t ks) s) = gpr (thr ks s)" for s by (simp add: keeps_def)
  then show ?thesis
    using assms by (auto simp: frame_except_def sched_frame_def running_awake_one parked_awake_one awake_one_ppu cancel_awake_one)
qed

lemma frame_sleep_self:
  assumes "kernel_ok ks" and "sleep_ok ks t timeout" and "g_to_awake ks = []"
  shows "frame_except {t} ks (fst (sleep_self h t timeout ks))"
proof -
  have "keeps (thr (fst (sleep_self h t timeout ks))) (thr ks)" by (simp add: sleep_self_def keeps_sleep)
  then have "gpr (thr (fst (sleep_self h t timeout ks)) s) = gpr (thr ks s)" for s by (simp add: keeps_def)
  moreover have "s \<in> set (g_ppu (fst (sleep_self h t timeout ks)))" if "s \<in> set (g_ppu ks)" "s \<noteq> t" for s
    using that unfolding sleep_self_step [OF assms]
    by (auto simp: sleep_unlocked_def Let_def unqueue_def split: if_splits)
  ultimately show ?thesis
    using assms by (auto simp: frame_except_def sched_frame_def running_sleep_self parked_sleep_self cancel_sleep_self)
qed

lemma keeps_class_again:
  "keeps a b \<Longrightarrow> t_class (a t) = t_class (b t) \<and> has_again a t = has_again b t"
  by (simp add: keeps_def)

lemma lower_again [simp]: "f \<noteq> F_again \<Longrightarrow> has_again (thr (lower u f ks)) t = has_again (thr ks) t"
  by (simp add: flag_step_state)

lemma frame_lower: "frame_except {t} ks (lower t f ks)"
  unfolding lower_def by (rule frame_upd)

lemma frame_raise: "frame_except {t} ks (raise t f ks)"
  unfolding raise_def by (rule frame_upd)

lemma gpr3_flag [simp]: "gpr3 (lower t f ks) s = gpr3 ks s" "gpr3 (raise t f ks) s = gpr3 ks s"
  by (simp_all add: gpr3_def)

lemma cpu_sleep_step:
  assumes "kernel_ok ks" and "t \<noteq> 0" and "g_to_awake ks = []"
  shows "kernel_ok (cpu_sleep h t ks)" and "g_to_awake (cpu_sleep h t ks) = []"
    and "frame_except {t} ks (cpu_sleep h t ks)" and "gpr (thr (cpu_sleep h t ks) s) = gpr (thr ks s)"
    and "t_class (thr (cpu_sleep h t ks) s) = t_class (thr ks s) \<and> has_again (thr (cpu_sleep h t ks)) s = has_again (thr ks) s"
proof -
  define k where "k = upd_thr t (\<lambda>p. p\<lparr>raddr := 0, hw_sleep_time := 0, state := state p \<union> {F_wait, F_memory}\<rparr>) ks"
  have k: "kernel_ok k" unfolding k_def by (rule kernel_ok_upd [OF assms(1)]) auto
  have e: "cpu_sleep h t ks = awake_one h t t k" by (simp add: cpu_sleep_def k_def)
  have kp: "keeps (thr (awake_one h t t k)) (thr k)" by (simp add: awake_one_def keeps_awake)
  show "kernel_ok (cpu_sleep h t ks)" by (simp add: e awake_one_ok k assms(2))
  show "g_to_awake (cpu_sleep h t ks) = []"
    using awake_one_to_awake [OF k assms(2)] assms(3) by (simp add: e k_def)
  have "frame_except {t} ks k" unfolding k_def by (rule frame_upd)
  moreover have "frame_except {t} k (awake_one h t t k)" using frame_awake_one [OF k assms(2), of t h] by simp
  ultimately show "frame_except {t} ks (cpu_sleep h t ks)" unfolding e by (rule frame_trans)
  have "gpr (thr k s) = gpr (thr ks s)" by (simp add: k_def upd_thread_def)
  then show "gpr (thr (cpu_sleep h t ks) s) = gpr (thr ks s)" using kp by (simp add: e keeps_def)
  have "t_class (thr k s) = t_class (thr ks s) \<and> has_again (thr k) s = has_again (thr ks) s"
    by (simp add: k_def upd_thread_def)
  then show "t_class (thr (cpu_sleep h t ks) s) = t_class (thr ks s) \<and> has_again (thr (cpu_sleep h t ks)) s = has_again (thr ks) s"
    using keeps_class_again [OF kp] by (simp add: e)
qed

lemma set_cancel_simps [simp]:
  "kernel_ok ks \<Longrightarrow> kernel_ok (set_cancel t n ks)" "g_to_awake (set_cancel t n ks) = g_to_awake ks"
  "g_ppu (set_cancel t n ks) = g_ppu ks" "state (thr (set_cancel t n ks) s) = state (thr ks s)"
  "t_class (thr (set_cancel t n ks) s) = t_class (thr ks s)" "gpr (thr (set_cancel t n ks) s) = gpr (thr ks s)"
  "ack_suspend (thr (set_cancel t n ks) s) = ack_suspend (thr ks s)"
  "cancel_sleep (thr (set_cancel t n ks) s) = (if s = t then n else cancel_sleep (thr ks s))"
  by (auto simp: set_cancel_def upd_thread_def intro!: kernel_ok_upd)

definition stamp_ks :: "tid \<Rightarrow> kstate \<Rightarrow> kstate" where
  "stamp_ks t ks = ks\<lparr>thr := stamp_order (order_tag ks + 1) t (thr ks), order_tag := order_tag ks + 1\<rparr>"

lemma stamp_ks_upd: "stamp_ks t ks = (upd_thr t (\<lambda>p. p\<lparr>order := bf_order (uint (order_tag ks + 1))\<rparr>) ks)\<lparr>order_tag := order_tag ks + 1\<rparr>"
  by (simp add: stamp_ks_def stamp_order_def upd_thr_def)

lemma stamp_ks_simps [simp]:
  "kernel_ok ks \<Longrightarrow> kernel_ok (stamp_ks t ks)" "g_to_awake (stamp_ks t ks) = g_to_awake ks"
  "g_ppu (stamp_ks t ks) = g_ppu ks" "state (thr (stamp_ks t ks) s) = state (thr ks s)"
  "t_class (thr (stamp_ks t ks) s) = t_class (thr ks s)" "gpr (thr (stamp_ks t ks) s) = gpr (thr ks s)"
  "ack_suspend (thr (stamp_ks t ks) s) = ack_suspend (thr ks s)"
  "cancel_sleep (thr (stamp_ks t ks) s) = cancel_sleep (thr ks s)"
  unfolding stamp_ks_upd by (auto simp: upd_thread_def intro!: kernel_ok_upd)

lemma frame_stamp: "frame_except {t} ks (stamp_ks t ks)"
  unfolding stamp_ks_upd by (rule frame_trans [OF frame_upd frame_order])

section \<open>The effect of a call\<close>

text \<open>
  The state in which a thread makes a call: the scheduler is consistent, no savestate is being
  taken, and the caller runs.
\<close>

definition kernel_calm :: "kstate \<Rightarrow> bool" where
  "kernel_calm ks \<longleftrightarrow> kernel_ok ks \<and> g_to_awake ks = [] \<and>
     (\<forall>u. t_class (thr ks u) = Class_ppu \<and> \<not> has_again (thr ks) u)"

definition may_call :: "kstate \<Rightarrow> tid \<Rightarrow> bool" where
  "may_call ks t \<longleftrightarrow> t \<noteq> 0 \<and> running ks t \<and> F_notify \<notin> state (thr ks t)"

text \<open>
  \<open>wphase\<close> is what a thread is doing with the object: nothing; queued but not yet asleep
  (\<open>Entering\<close>); waiting inside a call; or being rescheduled after its timeout passed. A thread that is queued
  before it sleeps has set \<^verbatim>\<open>cancel_sleep\<close>, and a wake-up in between cancels the sleep. A waiting thread
  is parked while it is queued and runnable once it is not.
\<close>

datatype wphase = Idle | Entering | Waiting | Resched

definition wthread :: "kstate \<Rightarrow> tid list \<Rightarrow> tid \<Rightarrow> wphase \<Rightarrow> bool" where
  "wthread ks q t ph \<longleftrightarrow>
     (case ph of Idle \<Rightarrow> t \<notin> set q
      | Entering \<Rightarrow> t \<noteq> 0 \<and> running ks t \<and> cancel_sleep (thr ks t) \<in> {1, 2} \<and> (cancel_sleep (thr ks t) = 2 \<longleftrightarrow> t \<notin> set q)
      | Waiting \<Rightarrow> t \<noteq> 0 \<and> (if t \<in> set q then parked ks t else t \<in> set (g_ppu ks))
      | Resched \<Rightarrow> t \<noteq> 0)"

fun phase_of :: "sysres \<Rightarrow> wphase" where
  "phase_of Blocked = Waiting"
| "phase_of Enqueued = Entering"
| "phase_of _ = Idle"

text \<open>
  A call of \<open>t\<close> turns the queue \<open>q\<close> into \<open>q'\<close> and leaves \<open>t\<close> in phase \<open>ph\<close>: some other
  waiters leave the queue and become runnable, or have their sleep cancelled if they were still running;
  no other thread is affected.
\<close>

definition op_effect :: "tid \<Rightarrow> tid list \<Rightarrow> tid list \<Rightarrow> kstate \<Rightarrow> kstate \<Rightarrow> wphase \<Rightarrow> bool" where
  "op_effect t q q' ks ks' ph \<longleftrightarrow>
     kernel_calm ks' \<and> wthread ks' q' t ph \<and>
     (\<exists>W \<subseteq> set q - {t}. set q' - {t} = set q - {t} - W \<and> W \<subseteq> set (g_ppu ks') \<and>
        (\<forall>w \<in> W. running ks w \<and> cancel_sleep (thr ks w) = 1 \<longrightarrow> running ks' w \<and> cancel_sleep (thr ks' w) = 2) \<and>
        sched_frame (insert t W) ks ks')"

lemma kernel_calmD:
  assumes "kernel_calm ks"
  shows "kernel_ok ks" "g_to_awake ks = []" "t_class (thr ks u) = Class_ppu" "\<not> has_again (thr ks) u"
  using assms by (simp_all add: kernel_calm_def)

lemma sleep_ok_calm: "may_call ks t \<Longrightarrow> sleep_ok ks t timeout"
  by (simp add: may_call_def sleep_ok_def)

lemma kernel_calm_keeps:
  assumes "kernel_calm ks" and "keeps (thr ks') (thr ks)" and "kernel_ok ks'" and "g_to_awake ks' = []"
  shows "kernel_calm ks'"
  using assms keeps_class_again [OF assms(2)] by (simp add: kernel_calm_def)

lemma kernel_calm_own:
  assumes "kernel_calm ks"
  shows "kernel_calm (set_reg t n v ks)" and "f \<notin> {F_notify, F_again} \<Longrightarrow> kernel_calm (raise t f ks)"
    and "f \<noteq> F_suspend \<Longrightarrow> kernel_calm (lower t f ks)" and "kernel_calm (fst (emplace_sq t q ks))"
  using assms
  by (auto simp: kernel_calm_def kernel_ok_set_reg kernel_ok_raise kernel_ok_lower kernel_ok_emplace_sq flag_step_state)

lemma frame_refl [simp]: "frame_except T ks ks"
  by (simp add: frame_except_def sched_frame_def)

lemma frame_mono: "frame_except S ks ks' \<Longrightarrow> S \<subseteq> T \<Longrightarrow> frame_except T ks ks'"
  by (auto simp: frame_except_def sched_frame_def)

lemma frame_set_reg: "frame_except {t} ks (set_reg t n v ks)"
  unfolding set_reg_def by (rule frame_upd)

lemma frame_emplace_sq: "frame_except {t} ks (fst (emplace_sq t q ks))"
  by (auto simp: frame_except_def sched_frame_def running_def parked_def emplace_sq_def emplace_def stamp_order_def)

text \<open>A call that neither blocks nor wakes anybody, and may change the caller's own state.\<close>

lemma op_effect_none:
  "kernel_calm ks' \<Longrightarrow> t \<notin> set q' \<Longrightarrow> set q' - {t} = set q - {t} \<Longrightarrow> sched_frame {t} ks ks' \<Longrightarrow> op_effect t q q' ks ks' Idle"
  unfolding op_effect_def by (intro conjI exI [of _ "{}"]) (auto simp: wthread_def)

text \<open>A call that blocks: the caller sleeps, then enters the queue.\<close>

definition block_sq :: "host \<Rightarrow> tid \<Rightarrow> u64 \<Rightarrow> tid list \<Rightarrow> kstate \<Rightarrow> kstate \<times> tid list" where
  "block_sq h t timeout q ks = emplace_sq t q (fst (sleep_self h t timeout ks))"

definition block_self :: "host \<Rightarrow> tid \<Rightarrow> u64 \<Rightarrow> tid list \<Rightarrow> kstate \<Rightarrow> kstate \<times> tid list" where
  "block_self h t timeout q ks = (case block_sq h t timeout q ks of (ks1, q1) \<Rightarrow> (set_reg t 3 0 ks1, q1))"

lemma block_queue [simp]:
  "snd (block_sq h t timeout q ks) = t # q" "snd (block_self h t timeout q ks) = t # q"
  by (simp_all add: block_sq_def block_self_def case_prod_beta)

lemma block_sq_effect:
  assumes "kernel_calm ks" and "may_call ks t"
  shows "kernel_calm (fst (block_sq h t timeout q ks))" and "parked (fst (block_sq h t timeout q ks)) t"
    and "frame_except {t} ks (fst (block_sq h t timeout q ks))"
    and "gpr (thr (fst (block_sq h t timeout q ks)) u) = gpr (thr ks u)"
proof -
  note d = kernel_calmD [OF assms(1)] and sok = sleep_ok_calm [OF assms(2), of timeout]
  let ?k = "fst (sleep_self h t timeout ks)" and ?b = "fst (block_sq h t timeout q ks)"
  have b: "?b = fst (emplace_sq t q ?k)" by (simp add: block_sq_def)
  have kp: "keeps (thr ?k) (thr ks)" by (simp add: sleep_self_def keeps_sleep)
  then have "kernel_calm ?k" using kernel_calm_keeps [OF assms(1)] sleep_self_ok [OF d(1) sok] by simp
  then show "kernel_calm ?b" by (simp add: b kernel_calm_own)
  show "parked ?b t"
    using sleep_self_parks [OF d(1) sok d(2,3)] assms(2) by (simp add: b may_call_def running_def)
  show "frame_except {t} ks ?b"
    unfolding b by (rule frame_trans [OF frame_sleep_self [OF d(1) sok d(2)] frame_emplace_sq])
  show "gpr (thr ?b u) = gpr (thr ks u)"
    using kp by (simp add: b keeps_def emplace_sq_def emplace_def stamp_order_def upd_thread_def)
qed

lemma op_effect_block_sq:
  assumes "kernel_calm k" and "may_call k t" and "sched_frame {t} ks k" and "set q' = insert t (set q)" and "t \<notin> set q"
  shows "op_effect t q q' ks (fst (block_sq h t timeout q0 k)) Waiting"
  using block_sq_effect [OF assms(1,2), where h = h and timeout = timeout and q = q0] assms unfolding op_effect_def
  by (intro conjI exI [of _ "{}"]) (auto simp: wthread_def may_call_def intro: sched_frame_trans frame_sched)

lemma op_effect_block:
  assumes "kernel_calm ks" and "may_call ks t" and "set q' = insert t (set q)" and "t \<notin> set q"
  shows "op_effect t q q' ks (fst (block_self h t timeout q0 ks)) Waiting"
proof -
  let ?b = "fst (block_sq h t timeout q0 ks)"
  note b = block_sq_effect [OF assms(1,2), where h = h and timeout = timeout and q = q0]
  have "fst (block_self h t timeout q0 ks) = set_reg t 3 0 ?b" by (simp add: block_self_def case_prod_beta)
  then show ?thesis
    using b assms frame_sched [OF frame_trans [OF b(3) frame_set_reg]] kernel_calm_own(1) [OF b(1)] unfolding op_effect_def
    by (intro conjI exI [of _ "{}"]) (auto simp: wthread_def may_call_def)
qed

text \<open>A call that wakes a list of waiters.\<close>

lemma cancel_fold:
  assumes "sched_inv k" and "0 \<notin> set us" and "s \<in> set us \<longrightarrow> s \<in> set (g_ppu k)"
  shows "cancel_sleep (thr (fst (fold emplace_step us (k, c0))) s) =
    (if s \<in> set us \<and> cancel_sleep (thr k s) = 1 then 2 else cancel_sleep (thr k s))"
  using assms
proof (induction us arbitrary: k c0)
  case (Cons u us)
  obtain c1 where e: "emplace_step u (k, c0) = (fst (emplace_thread u k), c1)"
    using fst_emplace_step [of u k c0] by (metis prod.collapse)
  note i = emplace_thread_inv [OF Cons.prems(1), of u "fst (emplace_thread u k)" "snd (emplace_thread u k)"]
  have "sched_inv (fst (emplace_thread u k))" "set (g_ppu (fst (emplace_thread u k))) = insert u (set (g_ppu k))"
    using i(1,2) Cons.prems(2) by simp_all
  then show ?case
    using Cons.IH [of "fst (emplace_thread u k)" c1] Cons.prems cancel_emplace [OF Cons.prems(1), of u s] by (auto simp: e)
qed simp

lemma awake_list_effect:
  assumes "kernel_calm ks" and "0 \<notin> set ts"
  shows "kernel_calm (awake_list h c ts ks)" and "set ts \<subseteq> set (g_ppu (awake_list h c ts ks))"
    and "frame_except (insert c (set ts)) ks (awake_list h c ts ks)"
    and "w \<in> set ts \<Longrightarrow> w \<noteq> c \<Longrightarrow> running ks w \<Longrightarrow> cancel_sleep (thr ks w) = 1 \<Longrightarrow>
      running (awake_list h c ts ks) w \<and> cancel_sleep (thr (awake_list h c ts ks) w) = 2"
proof -
  note d = kernel_calmD [OF assms(1)]
  have kp: "keeps (thr (awake_list h c ts ks)) (thr ks)"
    using keeps_awake_all [of "fold lv2_append ts ks" "Some c" "h_now h" "h_tsc h"] by (simp add: awake_list_def)
  show "kernel_calm (awake_list h c ts ks)"
    by (rule kernel_calm_keeps [OF assms(1) kp]) (simp_all add: awake_list_ok d assms(2))
  show "set ts \<subseteq> set (g_ppu (awake_list h c ts ks))" using awake_list_ppu [OF d(1,2) assms(2)] by simp
  have cs: "cancel_sleep (thr (awake_list h c ts ks) s) =
      (if s \<in> set ts \<and> cancel_sleep (thr ks s) = 1 then 2 else cancel_sleep (thr ks s))" if "s \<in> set ts \<longrightarrow> s \<in> set (g_ppu ks)" for s
  proof -
    have "sched_inv (ks\<lparr>g_to_awake := ts\<rparr>)"
      using append_ok [OF d(1) assms(2)] d(2) by (simp add: kernel_ok_def)
    from cancel_fold [OF this assms(2), of s] that show ?thesis
      by (simp add: awake_list_def awake_all_def lv2_awake_def case_prod_beta awake_unlocked_def cancel_awake_tail
          awake_targets_def d(2))
  qed
  have "gpr (thr (awake_list h c ts ks) s) = gpr (thr ks s)" for s using kp by (simp add: keeps_def)
  then show "frame_except (insert c (set ts)) ks (awake_list h c ts ks)"
    using cs running_awake_list [OF d(1,2) assms(2)] parked_awake_list [OF d(1,2) assms(2)] awake_list_ppu [OF d(1,2) assms(2)]
    by (auto simp: frame_except_def sched_frame_def)
  show "w \<in> set ts \<Longrightarrow> w \<noteq> c \<Longrightarrow> running ks w \<Longrightarrow> cancel_sleep (thr ks w) = 1 \<Longrightarrow>
      running (awake_list h c ts ks) w \<and> cancel_sleep (thr (awake_list h c ts ks) w) = 2"
    using cs [of w] running_awake_list [OF d(1,2) assms(2), of w c h] by (auto simp: running_def)
qed

lemma awake_one_effect:
  assumes "kernel_calm ks" and "u \<noteq> 0"
  shows "kernel_calm (awake_one h c u ks)" and "u \<in> set (g_ppu (awake_one h c u ks))"
    and "frame_except {c, u} ks (awake_one h c u ks)"
    and "u \<noteq> c \<Longrightarrow> running ks u \<Longrightarrow> cancel_sleep (thr ks u) = 1 \<Longrightarrow>
      running (awake_one h c u ks) u \<and> cancel_sleep (thr (awake_one h c u ks) u) = 2"
proof -
  note d = kernel_calmD [OF assms(1)]
  have kp: "keeps (thr (awake_one h c u ks)) (thr ks)" by (simp add: awake_one_def keeps_awake)
  show "kernel_calm (awake_one h c u ks)"
    by (rule kernel_calm_keeps [OF assms(1) kp]) (simp_all add: awake_one_ok awake_one_to_awake d assms(2))
  show "u \<in> set (g_ppu (awake_one h c u ks))" using awake_one_ppu [OF d(1) assms(2)] by simp
  show "frame_except {c, u} ks (awake_one h c u ks)" by (rule frame_awake_one [OF d(1) assms(2)])
  show "u \<noteq> c \<Longrightarrow> running ks u \<Longrightarrow> cancel_sleep (thr ks u) = 1 \<Longrightarrow>
      running (awake_one h c u ks) u \<and> cancel_sleep (thr (awake_one h c u ks) u) = 2"
    using cancel_awake_one [OF d(1), of h c u u] running_awake_one [OF d(1) assms(2), of u c h] by (auto simp: running_def)
qed

lemma op_effect_wake:
  assumes "kernel_calm ks" and "0 \<notin> set ts" and "t \<notin> set q'" and "set ts \<subseteq> set q - {t}"
    and "set q' = set q - {t} - set ts"
  shows "op_effect t q q' ks (awake_list h t ts ks) Idle"
  using awake_list_effect [OF assms(1,2), where h = h and c = t] assms(3-5)
  unfolding op_effect_def by (intro conjI exI [of _ "set ts"]) (auto simp: wthread_def intro: frame_sched)

lemma op_effect_wake_one:
  assumes "kernel_calm ks" and "u \<noteq> 0" and "t \<notin> set q'" and "u \<in> set q - {t}" and "set q' = set q - {t} - {u}"
  shows "op_effect t q q' ks (awake_one h t u ks) Idle"
  using awake_one_effect [OF assms(1,2), where h = h and c = t] assms(3-5)
  unfolding op_effect_def by (intro conjI exI [of _ "{u}"]) (auto simp: wthread_def intro: frame_sched)

lemma schedule_n_split:
  assumes "\<forall>u. \<not> has_again tab u" and "distinct q" and "n \<le> length q" and "schedule_n tab p n q = (ts, q')"
  shows "length ts = n" and "length q' = length q - n" and "distinct q'" and "set q' = set q - set ts" and "set ts \<subseteq> set q"
proof -
  have e: "length ts = n" "mset q = mset (ts @ q')" using schedule_n_exact [OF assms(3) _ assms(4)] assms(1) by auto
  then have d: "distinct (ts @ q')" using distinct_mset_eq assms(2) by blast
  have "set q = set ts \<union> set q'" using e(2) by (metis mset_eq_setD set_append)
  then show "set q' = set q - set ts" "set ts \<subseteq> set q" "distinct q'" using d by auto
  have "length q = length ts + length q'" using e(2) by (metis length_append size_mset)
  then show "length ts = n" "length q' = length q - n" using e(1) by simp_all
qed

text \<open>A timeout: a thread that is still queued leaves the queue with an error in its result register.\<close>

lemma op_effect_same: "kernel_calm ks \<Longrightarrow> t \<notin> set q \<Longrightarrow> op_effect t q q ks ks Idle"
  by (rule op_effect_none) auto

lemma op_effect_leave:
  assumes "kernel_calm ks" and "distinct q"
  shows "op_effect t q (remove1 t q) ks (set_reg t n v ks) Idle"
  using assms frame_sched [OF frame_set_reg] by (intro op_effect_none) (auto simp: kernel_calm_own)

text \<open>Registers of the caller and of the woken threads may be written on the way.\<close>

lemma op_effect_set_reg:
  assumes "op_effect t q q' ks ks' Idle" and "u = t \<or> u \<in> set q - set q'"
  shows "op_effect t q q' ks (set_reg u n v ks') Idle"
proof -
  obtain W where W: "W \<subseteq> set q - {t}" "set q' - {t} = set q - {t} - W" "W \<subseteq> set (g_ppu ks')"
    "\<forall>w \<in> W. running ks w \<and> cancel_sleep (thr ks w) = 1 \<longrightarrow> running ks' w \<and> cancel_sleep (thr ks' w) = 2"
    "sched_frame (insert t W) ks ks'"
    using assms(1) unfolding op_effect_def by blast
  have k: "kernel_calm ks'" "t \<notin> set q'" using assms(1) by (auto simp: op_effect_def wthread_def)
  have "u \<in> insert t W" using assms(2) W(1,2) k(2) by blast
  then have "sched_frame (insert t W) ks (set_reg u n v ks')"
    by (intro sched_frame_trans [OF W(5) frame_sched [OF frame_mono [OF frame_set_reg]]]) simp
  moreover have "running (set_reg u n v ks') w = running ks' w" "cancel_sleep (thr (set_reg u n v ks') w) = cancel_sleep (thr ks' w)" for w
    by (simp_all add: running_def set_reg_def upd_thread_def)
  ultimately show ?thesis
    using W k kernel_calm_own(1) unfolding op_effect_def by (intro conjI exI [of _ W]) (auto simp: wthread_def)
qed

lemma op_effect_pre:
  assumes "sched_frame {} ks k" and "op_effect t q q' k ks' ph"
  shows "op_effect t q q' ks ks' ph"
proof -
  obtain W where W: "W \<subseteq> set q - {t}" "set q' - {t} = set q - {t} - W" "W \<subseteq> set (g_ppu ks')"
    "\<forall>w \<in> W. running k w \<and> cancel_sleep (thr k w) = 1 \<longrightarrow> running ks' w \<and> cancel_sleep (thr ks' w) = 2"
    "sched_frame (insert t W) k ks'"
    using assms(2) unfolding op_effect_def by blast
  have "sched_frame (insert t W) ks k" using assms(1) by (simp add: sched_frame_def)
  from sched_frame_trans [OF this W(5)] show ?thesis
    using assms W(1-4) unfolding op_effect_def by (intro conjI exI [of _ W]) (auto simp: sched_frame_def)
qed

lemma gpr_awake [simp]:
  "gpr (thr (awake_list h c ts ks) u) = gpr (thr ks u)" "gpr (thr (awake_one h c s ks) u) = gpr (thr ks u)"
proof -
  have "keeps (thr (awake_list h c ts ks)) (thr ks)"
    using keeps_awake_all [of "fold lv2_append ts ks" "Some c" "h_now h" "h_tsc h"] by (simp add: awake_list_def)
  then show "gpr (thr (awake_list h c ts ks) u) = gpr (thr ks u)" by (simp add: keeps_def)
  have "keeps (thr (awake_one h c s ks)) (thr ks)" by (simp add: awake_one_def keeps_awake)
  then show "gpr (thr (awake_one h c s ks) u) = gpr (thr ks u)" by (simp add: keeps_def)
qed

text \<open>
  A call that puts the caller to sleep and wakes a waiter in the same scheduler pass: the waiter is
  appended to the pending list, then the caller sleeps.
\<close>

lemma sleep_unlocked_append:
  "sleep_unlocked (ks\<lparr>g_to_awake := x\<rparr>) t timeout now =
     (case sleep_unlocked ks t timeout now of (k, r) \<Rightarrow> (k\<lparr>g_to_awake := x\<rparr>, r))"
  by (simp add: sleep_unlocked_def Let_def upd_thr_def ensure_def unqueue_def)

lemma sleep_unlocked_effect:
  assumes "kernel_calm ks" and "running ks t" and "sleep_ok ks t timeout"
  shows "kernel_calm (fst (sleep_unlocked ks t timeout now))" and "parked (fst (sleep_unlocked ks t timeout now)) t"
    and "frame_except {t} ks (fst (sleep_unlocked ks t timeout now))"
    and "gpr (thr (fst (sleep_unlocked ks t timeout now)) w) = gpr (thr ks w)"
proof -
  let ?k = "fst (sleep_unlocked ks t timeout now)"
  note d = kernel_calmD [OF assms(1)]
  have ds: "distinct (g_ppu ks)" using d(1) sched_invD(1) by (simp add: kernel_ok_def)
  have i: "kernel_ok ?k" "g_to_awake ?k = []"
    using sleep_unlocked_inv [OF _ _ assms(3), of now ?k "snd (sleep_unlocked ks t timeout now)"] d(1,2) by (auto simp: kernel_ok_def)
  have kp: "t_class (thr ?k u) = t_class (thr ks u) \<and> has_again (thr ?k) u = has_again (thr ks) u \<and> gpr (thr ?k u) = gpr (thr ks u)" for u
    by (auto simp: sleep_unlocked_def Let_def unqueue_def upd_thread_def with_flag_def split: if_splits)
  show "kernel_calm ?k" using i kp assms(1) by (simp add: kernel_calm_def)
  show "gpr (thr ?k w) = gpr (thr ks w)" using kp by simp
  show "parked ?k t"
    using sleep_unlocked_ppu(2,3) [OF ds] d(3) assms(2) by (simp add: parked_def running_def)
  have "s \<noteq> t \<longrightarrow> (running ks s \<longrightarrow> running ?k s) \<and> cancel_sleep (thr ?k s) = cancel_sleep (thr ks s) \<and>
      (s \<in> set (g_ppu ks) \<longrightarrow> s \<in> set (g_ppu ?k))" for s
    by (auto simp: sleep_unlocked_def Let_def running_def unqueue_def upd_thread_sel split: if_splits)
  moreover have "parked ks s \<longrightarrow> parked ?k s" for s
    using sleep_unlocked_ppu(1,3) [OF ds] by (auto simp: parked_def)
  ultimately show "frame_except {t} ks ?k" using kp by (auto simp: frame_except_def sched_frame_def)
qed

lemma sleep_wake_effect:
  assumes "kernel_calm ks" and "running ks t" and "sleep_ok ks t timeout" and "u \<noteq> 0" and "u \<noteq> t"
    and K: "K = fst (sleep_self h t timeout (lv2_append u ks))"
  shows "kernel_calm K" and "parked K t" and "u \<in> set (g_ppu K)" and "frame_except {t, u} ks K"
    and "running ks u \<Longrightarrow> cancel_sleep (thr ks u) = 1 \<Longrightarrow> running K u \<and> cancel_sleep (thr K u) = 2"
    and "gpr (thr K w) = gpr (thr ks w)"
proof -
  let ?k = "fst (sleep_unlocked ks t timeout (h_now h))"
  note d = kernel_calmD [OF assms(1)] and s = sleep_unlocked_effect [OF assms(1-3), of "h_now h"]
  have e: "K = awake_list h t [u] ?k"
    using d(2) kernel_calmD(2) [OF s(1)]
    by (simp add: K sleep_self_def lv2_append_def lv2_sleep_def sleep_unlocked_append case_prod_beta Let_def awake_list_def
        awake_all_def lv2_awake_def)
  have z: "0 \<notin> set [u]" using assms(4) by simp
  note a = awake_list_effect [OF s(1) z, where h = h and c = t, folded e]
  show "kernel_calm K" "u \<in> set (g_ppu K)" using a by simp_all
  show "parked K t" using parked_awake_list [OF kernel_calmD(1,2) [OF s(1)] z, of t h t] s(2) assms(5) by (simp add: e)
  show "frame_except {t, u} ks K" using frame_trans [OF frame_mono [OF s(3), of "{t, u}"]] a(3) by simp
  show "gpr (thr K w) = gpr (thr ks w)" using s(4) by (simp add: e)
  assume "running ks u" "cancel_sleep (thr ks u) = 1"
  then show "running K u \<and> cancel_sleep (thr K u) = 2"
    using a(4) [of u] s(3) assms(5) by (auto simp: frame_except_def sched_frame_def)
qed

lemma op_effect_sleep_wake:
  assumes "kernel_calm k" and "running k t" and "sleep_ok k t timeout" and "t \<noteq> 0" and "u \<noteq> 0" and "frame_except {t} ks k"
    and "u \<in> set q - {t}" and "t \<in> set q'" and "set q' - {t} = set q - {t} - {u}"
  shows "op_effect t q q' ks (fst (sleep_self h t timeout (lv2_append u k))) Waiting"
proof -
  have ut: "u \<noteq> t" using assms(7) by simp
  note s = sleep_wake_effect [OF assms(1-3,5) ut refl, where h = h]
  have "frame_except {t, u} ks (fst (sleep_self h t timeout (lv2_append u k)))"
    using frame_trans [OF frame_mono [OF assms(6), of "{t, u}"] s(4)] by simp
  moreover have "running ks u \<Longrightarrow> cancel_sleep (thr ks u) = 1 \<Longrightarrow> running k u \<and> cancel_sleep (thr k u) = 1"
    using assms(6) ut by (auto simp: frame_except_def sched_frame_def)
  ultimately show ?thesis
    using s assms(4,7-9) unfolding op_effect_def
    by (intro conjI exI [of _ "{u}"]) (auto simp: wthread_def intro: frame_sched)
qed

text \<open>A call that puts the caller to sleep only; the queue was changed before.\<close>

lemma sleep_self_effect:
  assumes "kernel_calm k" and "running k t" and "sleep_ok k t timeout"
  shows "kernel_calm (fst (sleep_self h t timeout k))" and "parked (fst (sleep_self h t timeout k)) t"
    and "frame_except {t} k (fst (sleep_self h t timeout k))"
    and "gpr (thr (fst (sleep_self h t timeout k)) w) = gpr (thr k w)"
proof -
  note d = kernel_calmD [OF assms(1)]
  have kp: "keeps (thr (fst (sleep_self h t timeout k))) (thr k)" by (simp add: sleep_self_def keeps_sleep)
  then show "kernel_calm (fst (sleep_self h t timeout k))"
    using kernel_calm_keeps [OF assms(1)] sleep_self_ok [OF d(1) assms(3)] by simp
  show "parked (fst (sleep_self h t timeout k)) t"
    using sleep_self_parks [OF d(1) assms(3) d(2,3)] assms(2) by (simp add: running_def)
  show "frame_except {t} k (fst (sleep_self h t timeout k))" by (rule frame_sleep_self [OF d(1) assms(3) d(2)])
  show "gpr (thr (fst (sleep_self h t timeout k)) w) = gpr (thr k w)" using kp by (simp add: keeps_def)
qed

lemma op_effect_sleep:
  assumes "kernel_calm k" and "running k t" and "sleep_ok k t timeout" and "t \<noteq> 0" and "frame_except {t} ks k"
    and "t \<in> set q'" and "set q' - {t} = set q - {t}"
  shows "op_effect t q q' ks (fst (sleep_self h t timeout k)) Waiting"
  using sleep_self_effect [OF assms(1-3), where h = h] assms(4-7) unfolding op_effect_def
  by (intro conjI exI [of _ "{}"]) (auto simp: wthread_def intro: sched_frame_trans frame_sched)

text \<open>A call that queues the caller and lets it sleep later.\<close>

lemma op_effect_enter:
  assumes "kernel_calm ks'" and "t \<noteq> 0" and "running ks' t" and "cancel_sleep (thr ks' t) = 1" and "frame_except {t} ks ks'"
    and "t \<in> set q'" and "set q' - {t} = set q - {t}"
  shows "op_effect t q q' ks ks' Entering"
  using assms unfolding op_effect_def by (intro conjI exI [of _ "{}"]) (auto simp: wthread_def intro: frame_sched)

lemma frame_set_cancel: "frame_except {t} ks (set_cancel t n ks)"
  unfolding set_cancel_def by (rule frame_upd)

lemma kernel_calm_enter: "kernel_calm ks \<Longrightarrow> kernel_calm (stamp_ks t (set_cancel t n ks))" "kernel_calm ks \<Longrightarrow> kernel_calm (stamp_ks t ks)"
  "kernel_calm ks \<Longrightarrow> kernel_calm (set_cancel t n ks)"
  by (simp_all add: kernel_calm_def)

lemma running_own [simp]: "running (set_reg t n v ks) s = running ks s" "running (stamp_ks t ks) s = running ks s"
  "running (set_cancel t n ks) s = running ks s" "f \<notin> {F_signal, F_suspend} \<Longrightarrow> running (raise t f ks) s = running ks s"
  by (auto simp: running_def flag_step_state set_reg_def raise_def upd_thread_def)

section \<open>Interleaved calls on one object\<close>

text \<open>
  The relation is parameterised by the object: its queue, the condition under which a call is made,
  the calls, and the part of the wait loop that runs once a timeout has passed and the thread runs again; its
  result says whether the thread goes on waiting. A stop request is not part of the relation.
\<close>

record 'o wsys =
  ws_ks :: kstate
  ws_obj :: 'o
  ws_ph :: "tid \<Rightarrow> wphase"

inductive wstep ::
    "('o \<Rightarrow> tid list) \<Rightarrow> ('c \<Rightarrow> tid \<Rightarrow> kstate \<Rightarrow> 'o \<Rightarrow> bool) \<Rightarrow>
     (host \<Rightarrow> 'c \<Rightarrow> tid \<Rightarrow> kstate \<Rightarrow> 'o \<Rightarrow> kstate \<times> 'o \<times> sysres) \<Rightarrow>
     (host \<Rightarrow> tid \<Rightarrow> kstate \<Rightarrow> 'o \<Rightarrow> kstate \<times> 'o \<times> sysres) \<Rightarrow> 'o wsys \<Rightarrow> 'o wsys \<Rightarrow> bool"
  for queue cok call tmo where
  w_call: "ws_ph s t = Idle \<Longrightarrow> may_call (ws_ks s) t \<Longrightarrow> cok c t (ws_ks s) (ws_obj s) \<Longrightarrow>
    call h c t (ws_ks s) (ws_obj s) = (ks', ob', r) \<Longrightarrow>
    wstep queue cok call tmo s
      \<lparr>ws_ks = ks', ws_obj = ob', ws_ph = (ws_ph s)(t := phase_of r)\<rparr>"
| w_sleep: "ws_ph s t = Entering \<Longrightarrow> sleep_ok (ws_ks s) t timeout \<Longrightarrow> sleep_self h t timeout (ws_ks s) = (ks', b) \<Longrightarrow>
    wstep queue cok call tmo s (s\<lparr>ws_ks := ks', ws_ph := (ws_ph s)(t := (if b then Waiting else Idle))\<rparr>)"
| w_signal: "ws_ph s t = Waiting \<Longrightarrow> \<not> is_stopped (state (thr (ws_ks s) t)) \<Longrightarrow>
    wait_poll t (queue (ws_obj s)) (ws_ks s) = (ks', Woken) \<Longrightarrow>
    wstep queue cok call tmo s (s\<lparr>ws_ks := ks', ws_ph := (ws_ph s)(t := Idle)\<rparr>)"
| w_expired: "ws_ph s t = Waiting \<Longrightarrow>
    wstep queue cok call tmo s
      (s\<lparr>ws_ks := (let k = lower t F_notify (ws_ks s) in if F_suspend \<in> state (thr k t) then cpu_sleep h t k else k),
         ws_ph := (ws_ph s)(t := Resched)\<rparr>)"
| w_timeout: "ws_ph s t = Resched \<Longrightarrow> F_signal \<in> state (thr (ws_ks s) t) \<Longrightarrow> running (lower t F_signal (ws_ks s)) t \<Longrightarrow>
    tmo h t (raise t F_wait (lower t F_signal (ws_ks s))) (ws_obj s) = (ks', ob', r) \<Longrightarrow>
    wstep queue cok call tmo s \<lparr>ws_ks = ks', ws_obj = ob', ws_ph = (ws_ph s)(t := phase_of r)\<rparr>"
| w_other_sleep: "ws_ph s t = Idle \<Longrightarrow> sleep_ok (ws_ks s) t timeout \<Longrightarrow>
    wstep queue cok call tmo s (s\<lparr>ws_ks := fst (sleep_self h t timeout (ws_ks s))\<rparr>)"
| w_other_awake: "ws_ph s t = Idle \<Longrightarrow> ws_ph s c = Idle \<Longrightarrow> t \<noteq> 0 \<Longrightarrow>
    wstep queue cok call tmo s (s\<lparr>ws_ks := awake_one h c t (ws_ks s)\<rparr>)"
| w_other_signal: "ws_ph s t = Idle \<Longrightarrow>
    wstep queue cok call tmo s (s\<lparr>ws_ks := lower t F_signal (ws_ks s)\<rparr>)"

text \<open>The timeout of an object that ends the wait.\<close>

definition ends_wait :: "kstate \<times> 'o \<Rightarrow> kstate \<times> 'o \<times> sysres" where
  "ends_wait p = (fst p, snd p, Ok)"

text \<open>
  The invariant of the object may speak of the registers of the threads in its queue: the event
  objects keep the arguments and the result of a wait there.
\<close>

definition winvar :: "(kstate \<Rightarrow> 'o \<Rightarrow> bool) \<Rightarrow> ('o \<Rightarrow> tid list) \<Rightarrow> 'o wsys \<Rightarrow> bool" where
  "winvar oinv queue s \<longleftrightarrow> kernel_calm (ws_ks s) \<and> oinv (ws_ks s) (ws_obj s) \<and>
     (\<forall>t. wthread (ws_ks s) (queue (ws_obj s)) t (ws_ph s t))"

definition wstart :: "(kstate \<Rightarrow> 'o \<Rightarrow> bool) \<Rightarrow> ('o \<Rightarrow> tid list) \<Rightarrow> 'o wsys \<Rightarrow> bool" where
  "wstart oinv queue s \<longleftrightarrow>
     kernel_calm (ws_ks s) \<and> oinv (ws_ks s) (ws_obj s) \<and> queue (ws_obj s) = [] \<and> ws_ph s = (\<lambda>_. Idle)"

lemma wstart_inv: "wstart oinv queue s \<Longrightarrow> winvar oinv queue s"
  by (simp add: wstart_def winvar_def wthread_def)

lemma wthread_frame:
  assumes "sched_frame T ks ks'" and "t \<notin> T" and "t \<in> set q' \<longleftrightarrow> t \<in> set q" and "wthread ks q t ph"
  shows "wthread ks' q' t ph"
  using assms by (auto simp: wthread_def frame_except_def sched_frame_def split: wphase.splits if_splits)

text \<open>The effect of a call keeps what the invariant says of the other threads.\<close>

lemma op_effect_others:
  assumes "op_effect t q q' ks ks' p" and "s \<noteq> t" and "wthread ks q s ph"
  shows "wthread ks' q' s ph"
proof -
  obtain W where W: "W \<subseteq> set q - {t}" "set q' - {t} = set q - {t} - W" "W \<subseteq> set (g_ppu ks')"
    "\<forall>w \<in> W. running ks w \<and> cancel_sleep (thr ks w) = 1 \<longrightarrow> running ks' w \<and> cancel_sleep (thr ks' w) = 2"
    "sched_frame (insert t W) ks ks'"
    using assms(1) unfolding op_effect_def by blast
  show ?thesis
  proof (cases "s \<in> W")
    case True
    then have "s \<in> set q" "s \<notin> set q'" "s \<in> set (g_ppu ks')" using W assms(2) by auto
    then show ?thesis using assms(3) W(4) True by (auto simp: wthread_def split: wphase.splits)
  next
    case False
    then have "s \<in> set q' \<longleftrightarrow> s \<in> set q" using W(2) assms(2) by blast
    then show ?thesis using wthread_frame [OF W(5)] False assms(2,3) by blast
  qed
qed

locale wait_object =
  fixes queue :: "'o \<Rightarrow> tid list"
    and oinv :: "kstate \<Rightarrow> 'o \<Rightarrow> bool"
    and cok :: "'c \<Rightarrow> tid \<Rightarrow> kstate \<Rightarrow> 'o \<Rightarrow> bool"
    and call :: "host \<Rightarrow> 'c \<Rightarrow> tid \<Rightarrow> kstate \<Rightarrow> 'o \<Rightarrow> kstate \<times> 'o \<times> sysres"
    and tmo :: "host \<Rightarrow> tid \<Rightarrow> kstate \<Rightarrow> 'o \<Rightarrow> kstate \<times> 'o \<times> sysres"
  assumes oinv_regs: "oinv ks ob \<Longrightarrow> (\<forall>u \<in> set (queue ob). gpr (thr ks' u) = gpr (thr ks u)) \<Longrightarrow> oinv ks' ob"
    and call_effect: "oinv ks ob \<Longrightarrow> kernel_calm ks \<Longrightarrow> may_call ks t \<Longrightarrow> t \<notin> set (queue ob) \<Longrightarrow> cok c t ks ob \<Longrightarrow>
      call h c t ks ob = (ks', ob', r) \<Longrightarrow> oinv ks' ob' \<and> op_effect t (queue ob) (queue ob') ks ks' (phase_of r)"
    and tmo_effect: "oinv ks ob \<Longrightarrow> kernel_calm ks \<Longrightarrow> t \<noteq> 0 \<Longrightarrow> running ks t \<Longrightarrow> tmo h t ks ob = (ks', ob', r) \<Longrightarrow>
      oinv ks' ob' \<and> op_effect t (queue ob) (queue ob') ks ks' (phase_of r)"
begin

lemma winvar_own_step:
  assumes "winvar oinv queue s" and "kernel_calm ks'" and "frame_except {t} (ws_ks s) ks'"
    and "\<And>u. gpr (thr ks' u) = gpr (thr (ws_ks s) u)" and "wthread ks' (queue (ws_obj s)) t ph"
  shows "winvar oinv queue (s\<lparr>ws_ks := ks', ws_ph := (ws_ph s)(t := ph)\<rparr>)"
  using assms wthread_frame [OF frame_sched [OF assms(3)]] oinv_regs [of "ws_ks s" "ws_obj s" ks'] by (auto simp: winvar_def)

lemma winvar_effect:
  assumes "oinv ks' ob'" and "op_effect t (queue (ws_obj s)) (queue ob') k ks' ph"
    and "\<And>u. u \<noteq> t \<Longrightarrow> wthread k (queue (ws_obj s)) u (ws_ph s u)"
  shows "winvar oinv queue \<lparr>ws_ks = ks', ws_obj = ob', ws_ph = (ws_ph s)(t := ph)\<rparr>"
proof -
  have "wthread ks' (queue ob') t ph" "kernel_calm ks'" using assms(2) by (auto simp: op_effect_def)
  then show ?thesis
    using assms(1) op_effect_others [OF assms(2) _ assms(3)] by (auto simp: winvar_def)
qed

lemma winvar_sleep:
  assumes "winvar oinv queue s" and "sleep_ok (ws_ks s) t timeout"
    and "wthread (fst (sleep_self h t timeout (ws_ks s))) (queue (ws_obj s)) t ph"
  shows "winvar oinv queue (s\<lparr>ws_ks := fst (sleep_self h t timeout (ws_ks s)), ws_ph := (ws_ph s)(t := ph)\<rparr>)"
proof -
  have c: "kernel_calm (ws_ks s)" using assms(1) by (simp add: winvar_def)
  note d = kernel_calmD [OF c]
  have kp: "keeps (thr (fst (sleep_self h t timeout (ws_ks s)))) (thr (ws_ks s))" by (simp add: sleep_self_def keeps_sleep)
  then have "kernel_calm (fst (sleep_self h t timeout (ws_ks s)))"
    using kernel_calm_keeps [OF c] sleep_self_ok [OF d(1) assms(2)] by simp
  then show ?thesis
    using winvar_own_step [OF assms(1) _ frame_sleep_self [OF d(1) assms(2) d(2)] _ assms(3)] kp by (simp add: keeps_def)
qed

lemma wstep_inv:
  assumes "wstep queue cok call tmo s s'" and "winvar oinv queue s"
  shows "winvar oinv queue s'"
  using assms
proof (induction rule: wstep.induct)
  case (w_call s t c h ks' ob' r)
  then have w: "kernel_calm (ws_ks s)" "oinv (ws_ks s) (ws_obj s)" "t \<notin> set (queue (ws_obj s))"
    by (auto simp: winvar_def wthread_def dest: spec [of _ t])
  note e = call_effect [OF w(2,1) w_call.hyps(2) w(3) w_call.hyps(3,4)]
  with winvar_effect [OF conjunct1 [OF e] conjunct2 [OF e]] w_call.prems show ?case
    by (simp add: winvar_def)
next
  case (w_sleep s t timeout h ks' b)
  let ?q = "queue (ws_obj s)"
  have "wthread (ws_ks s) ?q t Entering" using w_sleep.prems w_sleep.hyps(1) by (metis winvar_def)
  then have t: "t \<noteq> 0" "running (ws_ks s) t" "cancel_sleep (thr (ws_ks s) t) = 2 \<longleftrightarrow> t \<notin> set ?q" by (auto simp: wthread_def)
  have c: "kernel_calm (ws_ks s)" using w_sleep.prems by (simp add: winvar_def)
  note d = kernel_calmD [OF c]
  have k: "ks' = fst (sleep_self h t timeout (ws_ks s))" "b \<longleftrightarrow> t \<in> set ?q"
    using w_sleep.hyps(3) sleep_self_result [OF t(2) d(3), of h timeout] t(3) by auto
  have "parked ks' t" using sleep_self_parks [OF d(1) w_sleep.hyps(2) d(2,3)] t(2) by (simp add: k running_def)
  then show ?case
    using winvar_sleep [OF w_sleep.prems w_sleep.hyps(2), of h "if b then Waiting else Idle"] k t(1) by (simp add: wthread_def)
next
  case (w_signal s t ks')
  have "F_signal \<in> state (thr (ws_ks s) t)" and k: "ks' = lower t F_signal (ws_ks s)"
    using w_signal.hyps(2,3) by (auto simp: wait_poll_def split: if_splits)
  moreover have "wthread (ws_ks s) (queue (ws_obj s)) t Waiting"
    using w_signal.prems w_signal.hyps(1) by (metis winvar_def)
  ultimately have "t \<notin> set (queue (ws_obj s))" by (auto simp: wthread_def parked_def split: if_splits)
  moreover have "kernel_calm (ws_ks s)" using w_signal.prems by (simp add: winvar_def)
  ultimately show ?case
    unfolding k using w_signal.prems frame_lower by (intro winvar_own_step) (auto simp: kernel_calm_own wthread_def)
next
  case (w_expired s t h)
  let ?k = "lower t F_notify (ws_ks s)"
  have c: "kernel_calm ?k" using w_expired.prems by (simp add: winvar_def kernel_calm_own)
  have "wthread (ws_ks s) (queue (ws_obj s)) t Waiting" using w_expired by (metis winvar_def)
  then have t: "t \<noteq> 0" by (simp add: wthread_def)
  note cs = cpu_sleep_step [OF kernel_calmD(1) [OF c] t kernel_calmD(2) [OF c], of h]
  have "kernel_calm (cpu_sleep h t ?k)" using c cs by (simp add: kernel_calm_def)
  then show ?case
    using w_expired.prems c t frame_lower frame_trans [OF frame_lower cs(3)] cs(4)
    by (intro winvar_own_step) (auto simp: wthread_def Let_def)
next
  case (w_timeout s t h ks' ob' r)
  let ?k = "raise t F_wait (lower t F_signal (ws_ks s))"
  have w: "kernel_calm (ws_ks s)" "oinv (ws_ks s) (ws_obj s)" "wthread (ws_ks s) (queue (ws_obj s)) t Resched"
    using w_timeout.prems w_timeout.hyps(1) by (auto simp: winvar_def) metis
  have c: "kernel_calm ?k" using w(1) by (simp add: kernel_calm_own)
  have o: "oinv ?k (ws_obj s)" by (rule oinv_regs [OF w(2)]) simp
  have "t \<noteq> 0" using w(3) by (simp add: wthread_def)
  moreover have "running ?k t" using w_timeout.hyps(3) by simp
  ultimately have e: "oinv ks' ob' \<and> op_effect t (queue (ws_obj s)) (queue ob') ?k ks' (phase_of r)"
    using tmo_effect [OF o c _ _ w_timeout.hyps(4)] by simp
  have "sched_frame {t} (ws_ks s) ?k" by (rule frame_sched [OF frame_trans [OF frame_lower frame_raise]])
  then have "wthread ?k (queue (ws_obj s)) u (ws_ph s u)" if "u \<noteq> t" for u
    using w_timeout.prems that wthread_frame by (fastforce simp: winvar_def)
  then show ?case using winvar_effect [OF conjunct1 [OF e] conjunct2 [OF e]] by simp
next
  case (w_other_sleep s t timeout h)
  have "wthread (ws_ks s) (queue (ws_obj s)) t Idle" using w_other_sleep.prems w_other_sleep.hyps(1) by (metis winvar_def)
  then have "winvar oinv queue (s\<lparr>ws_ks := fst (sleep_self h t timeout (ws_ks s)), ws_ph := (ws_ph s)(t := Idle)\<rparr>)"
    using winvar_sleep [OF w_other_sleep.prems w_other_sleep.hyps(2)] by (simp add: wthread_def)
  moreover have "(ws_ph s)(t := Idle) = ws_ph s" using w_other_sleep.hyps(1) by auto
  ultimately show ?case by simp
next
  case (w_other_awake s t c h)
  then have k: "kernel_calm (ws_ks s)" by (simp add: winvar_def)
  note e = awake_one_effect [OF k w_other_awake.hyps(3), where h = h and c = c]
  have "keeps (thr (awake_one h c t (ws_ks s))) (thr (ws_ks s))" by (simp add: awake_one_def keeps_awake)
  then have o: "oinv (awake_one h c t (ws_ks s)) (ws_obj s)"
    using w_other_awake.prems oinv_regs [of "ws_ks s"] by (simp add: winvar_def keeps_def)
  have "wthread (awake_one h c t (ws_ks s)) (queue (ws_obj s)) u (ws_ph s u)" for u
  proof (cases "u \<in> {c, t}")
    case True
    then show ?thesis using w_other_awake by (auto simp: winvar_def wthread_def dest: spec [of _ u])
  next
    case False
    then show ?thesis using wthread_frame [OF frame_sched [OF e(3)]] w_other_awake.prems by (auto simp: winvar_def)
  qed
  then show ?case using e o by (simp add: winvar_def)
next
  case (w_other_signal s t)
  then have "winvar oinv queue (s\<lparr>ws_ks := lower t F_signal (ws_ks s), ws_ph := (ws_ph s)(t := Idle)\<rparr>)"
    using frame_lower by (intro winvar_own_step) (auto simp: winvar_def wthread_def kernel_calm_own dest: spec [of _ t])
  moreover have "(ws_ph s)(t := Idle) = ws_ph s" using w_other_signal.hyps(1) by auto
  ultimately show ?case by simp
qed

lemma reachable_inv:
  "(wstep queue cok call tmo)\<^sup>*\<^sup>* s0 s \<Longrightarrow> wstart oinv queue s0 \<Longrightarrow> winvar oinv queue s"
  by (induction rule: rtranclp_induct) (auto intro: wstart_inv wstep_inv)

end

text \<open>
  What the invariant means for the threads: no \<^verbatim>\<open>ensure\<close> has failed, and a waiting thread is either
  queued on the object and parked, or has been handed its result and is runnable.
\<close>

definition waiters_safe :: "('o \<Rightarrow> tid list) \<Rightarrow> 'o wsys \<Rightarrow> bool" where
  "waiters_safe queue s \<longleftrightarrow> \<not> fault (ws_ks s) \<and>
    (\<forall>t. ws_ph s t = Waiting \<longrightarrow>
       (if t \<in> set (queue (ws_obj s)) then parked (ws_ks s) t else t \<in> set (g_ppu (ws_ks s))))"

lemma winvar_safe:
  assumes "winvar oinv queue s"
  shows "oinv (ws_ks s) (ws_obj s)" and "waiters_safe queue s"
proof -
  have "wthread (ws_ks s) (queue (ws_obj s)) t (ws_ph s t)" for t using assms by (simp add: winvar_def)
  then have "if t \<in> set (queue (ws_obj s)) then parked (ws_ks s) t else t \<in> set (g_ppu (ws_ks s))"
    if "ws_ph s t = Waiting" for t using that by (metis wphase.simps(15) wthread_def)
  then show "oinv (ws_ks s) (ws_obj s)" "waiters_safe queue s"
    using assms by (auto simp: winvar_def waiters_safe_def kernel_calm_def kernel_ok_def)
qed

section \<open>Queues of several objects\<close>

text \<open>Objects that work together, such as a mutex and its condition variables, have one queue in the relation above.\<close>

lemma concat_map_update:
  assumes "i < length cs"
  shows "mset (concat (map f (cs[i := c]))) + mset (f (cs ! i)) = mset (concat (map f cs)) + mset (f c)"
proof -
  have "cs = take i cs @ cs ! i # drop (Suc i) cs" using assms by (simp add: id_take_nth_drop)
  then have "concat (map f cs) = concat (map f (take i cs)) @ f (cs ! i) @ concat (map f (drop (Suc i) cs))"
    by (metis concat.simps(2) concat_append list.simps(9) map_append)
  moreover have "cs[i := c] = take i cs @ c # drop (Suc i) cs" using assms by (simp add: upd_conv_take_nth_drop)
  ultimately show ?thesis by simp
qed

text \<open>The ways in which such a queue changes.\<close>

lemma queue_enter:
  assumes "distinct q" and "t \<notin> set q" and "mset q' = add_mset t (mset q)"
  shows "distinct q'" and "set q' = insert t (set q)"
proof -
  have "mset q' = mset (t # q)" using assms(3) by simp
  then show "distinct q'" "set q' = insert t (set q)"
    using assms(1,2) mset_eq_imp_distinct_iff [of q' "t # q"] mset_eq_setD [of q' "t # q"] by auto
qed

lemma queue_leave:
  assumes "distinct q" and "mset q = add_mset t (mset q')"
  shows "distinct q'" and "t \<in> set q" and "set q' = set q - {t}"
proof -
  have m: "mset q = mset (t # q')" using assms(2) by simp
  then have "distinct (t # q')" using assms(1) mset_eq_imp_distinct_iff [of q "t # q'"] by simp
  then show "distinct q'" "t \<in> set q" "set q' = set q - {t}" using mset_eq_setD [OF m] by auto
qed

lemma queue_move:
  assumes "distinct q" and "mset q' = mset q"
  shows "distinct q'" and "set q' = set q"
  using assms mset_eq_imp_distinct_iff [OF assms(2)] mset_eq_setD [OF assms(2)] by auto

text \<open>A queue holds fewer than \<open>2 ^ 32\<close> threads, so the count does not wrap.\<close>

lemma tid_list_length: "distinct (q :: tid list) \<Longrightarrow> 0 \<notin> set q \<Longrightarrow> length q < 2 ^ 32"
proof -
  assume d: "distinct q" "0 \<notin> set q"
  have "length q = card (set q)" using d(1) by (simp add: distinct_card)
  also have "\<dots> \<le> card (UNIV - {0 :: tid})" using d(2) by (intro card_mono) auto
  also have "\<dots> < 2 ^ 32" by (simp add: card_Diff_singleton card_word)
  finally show ?thesis .
qed

lemma sched_frame_set_reg [simp]: "sched_frame T ks (set_reg u n v ks)"
  by (auto simp: sched_frame_def running_def parked_def set_reg_def upd_thread_def)

lemma set_reg_append: "set_reg u n v (lv2_append w ks) = lv2_append w (set_reg u n v ks)"
  by (simp add: lv2_append_def set_reg_def upd_thr_def)

lemma fold_set_reg_append:
  "fold (\<lambda>u. set_reg u n v) us (lv2_append w ks) = lv2_append w (fold (\<lambda>u. set_reg u n v) us ks)"
  by (induction us arbitrary: ks) (simp_all add: set_reg_append)

lemma sched_frame_stamp [simp]: "sched_frame T ks (stamp_ks t ks)"
  by (auto simp: sched_frame_def running_def parked_def)

text \<open>A loop whose steps change only what the scheduler does not read.\<close>

lemma fold_frame:
  assumes "\<And>u ks. kernel_calm ks \<Longrightarrow> kernel_calm (f u ks) \<and> sched_frame {} ks (f u ks)" and "kernel_calm ks"
  shows "kernel_calm (fold f ts ks) \<and> sched_frame {} ks (fold f ts ks)"
  using assms(2)
proof (induction ts arbitrary: ks)
  case (Cons u ts)
  from assms(1) [OF Cons.prems, of u] Cons.IH [of "f u ks"] show ?case by (auto intro: sched_frame_trans)
qed simp

lemma fold_stamp_effect:
  assumes "kernel_calm ks"
  shows "kernel_calm (fold stamp_ks ts ks)" and "sched_frame {} ks (fold stamp_ks ts ks)"
  using fold_frame [of stamp_ks ks ts] assms kernel_calm_enter(2) by auto

lemma fold_set_reg_effect:
  assumes "kernel_calm ks"
  shows "kernel_calm (fold (\<lambda>u. set_reg u n v) ts ks)" and "sched_frame {} ks (fold (\<lambda>u. set_reg u n v) ts ks)"
  using fold_frame [of "\<lambda>u. set_reg u n v" ks ts] assms kernel_calm_own(1) by auto

lemma may_call_queued:
  assumes "kernel_calm ks" and "may_call ks t"
  shows "kernel_calm (fst (emplace_sq t q (set_reg t n v ks)))" and "may_call (fst (emplace_sq t q (set_reg t n v ks))) t"
    and "frame_except {t} ks (fst (emplace_sq t q (set_reg t n v ks)))"
proof -
  show "kernel_calm (fst (emplace_sq t q (set_reg t n v ks)))" by (intro kernel_calm_own assms(1))
  show "frame_except {t} ks (fst (emplace_sq t q (set_reg t n v ks)))" by (rule frame_trans [OF frame_set_reg frame_emplace_sq])
  show "may_call (fst (emplace_sq t q (set_reg t n v ks))) t"
    using assms(2) by (auto simp: may_call_def running_def emplace_sq_def emplace_def stamp_order_def set_reg_def upd_thread_def)
qed

text \<open>A thread that sleeps without being queued: it waits for the threads that wait on the object it destroys.\<close>

lemma op_effect_sleep_idle:
  assumes "kernel_calm ks" and "running ks t" and "t \<notin> set q"
  shows "op_effect t q q ks (fst (sleep_self h t 0 ks)) Idle"
  using sleep_self_effect [OF assms(1,2), of 0 h] assms(3) frame_sched by (intro op_effect_none) (auto simp: sleep_ok_def)

section \<open>A system for the examples\<close>

definition demo_host :: host where
  "demo_host = \<lparr>h_now = 0, h_tsc = 0, h_cas = True\<rparr>"

definition demo_wsys :: "'o \<Rightarrow> 'o wsys" where
  "demo_wsys ob = \<lparr>ws_ks = demo_ks, ws_obj = ob, ws_ph = (\<lambda>_. Idle)\<rparr>"

lemma demo_calm: "kernel_calm demo_ks"
  using demo_ks_ok by (simp add: kernel_calm_def demo_ks_def boot_ks_def demo_threads_def new_thread_def)

lemma demo_may_call: "may_call demo_ks 1" "may_call demo_ks 3"
  by (simp_all add: may_call_def running_def demo_ks_def boot_ks_def demo_threads_def new_thread_def)

lemma demo_wstart: "oinv demo_ks ob \<Longrightarrow> queue ob = [] \<Longrightarrow> wstart oinv queue (demo_wsys ob)"
  by (simp add: wstart_def demo_wsys_def demo_calm)

lemma demo_call:
  assumes "cok c 1 demo_ks ob" and "call h c 1 demo_ks ob = (ks', ob', r)"
  shows "wstep queue cok call tmo (demo_wsys ob)
    \<lparr>ws_ks = ks', ws_obj = ob', ws_ph = (\<lambda>_. Idle)(1 := phase_of r)\<rparr>"
  using wstep.w_call [of "demo_wsys ob" 1 cok c call h ks' ob' r queue tmo] assms demo_may_call(1)
  by (simp add: demo_wsys_def)

end
