(* ===== verification/Mutex_System.thy ===== *)
theory Mutex_System
  imports Sys_Mutex Wait_Object Scheduler_Props
begin

text \<open>
  The mutex under the scheduler, with the calls of several threads interleaved at the points where
  the code lets them. \<open>phase\<close> is what a thread knows from the results of its calls: it holds the mutex when a
  lock call returned \<^verbatim>\<open>CELL_OK\<close> and no unlock call gave it away. Between the attempt and the sleep
  (\<open>Queued\<close>), while it is asleep (\<open>Asleep\<close>), and while it is rescheduled after a timeout (\<open>Resuming\<close>)
  any other thread may run. The environment rules cover the other activity of the kernel: threads
  sleep on and are woken from other objects, and acknowledge their signals. A shutdown of the emulation (a stop request
  during the wait) is not part of the relation.
\<close>

datatype phase = Out | Held | Queued | Asleep | Resuming

record msys =
  ms_ks :: kstate
  ms_m :: lv2_mutex
  ms_ph :: "tid \<Rightarrow> phase"

definition after_call :: "sysres \<Rightarrow> phase \<Rightarrow> phase" where
  "after_call r old = (if r = Ok then Held else old)"

definition after_wait :: "u64 \<Rightarrow> phase" where
  "after_wait v = (if v = 0 then Held else Out)"

inductive mutex_step :: "msys \<Rightarrow> msys \<Rightarrow> bool" where
  lock_begin: "mutex_step s s'"
    if "t \<noteq> 0" "ms_ph s t \<in> {Out, Held}" "running (ms_ks s) t"
      "mutex_lock_begin cas (ms_ks s) (ms_m s) t = (ks', m', r)"
      "s' = \<lparr>ms_ks = ks', ms_m = m',
        ms_ph = (ms_ph s)(t := (case r of None \<Rightarrow> Queued | Some x \<Rightarrow> after_call x (ms_ph s t)))\<rparr>"
| lock_sleep: "mutex_step s s'"
    if "ms_ph s t = Queued" "sleep_ok (ms_ks s) t timeout"
      "mutex_lock_sleep h (ms_ks s) t timeout = (ks', r)"
      "s' = s\<lparr>ms_ks := ks', ms_ph := (ms_ph s)(t := (if r = Ok then Held else Asleep))\<rparr>"
| wait_signal: "mutex_step s s'"
    if "ms_ph s t = Asleep" "\<not> is_stopped (state (thr (ms_ks s) t))"
      "wait_poll t (mx_sq (ms_m s)) (ms_ks s) = (ks', Woken)"
      "s' = s\<lparr>ms_ks := ks', ms_ph := (ms_ph s)(t := after_wait (gpr3 ks' t))\<rparr>"
| wait_expired: "mutex_step s s'"
    if "ms_ph s t = Asleep"
      "s' = s\<lparr>ms_ks := (let k = lower t F_notify (ms_ks s)
                           in if F_suspend \<in> state (thr k t) then cpu_sleep h t k else k),
              ms_ph := (ms_ph s)(t := Resuming)\<rparr>"
| wait_timeout: "mutex_step s s'"
    if "ms_ph s t = Resuming" "F_signal \<in> state (thr (ms_ks s) t)"
      "mutex_lock_timeout (lower t F_signal (ms_ks s)) (ms_m s) t = (ks', m')"
      "s' = \<lparr>ms_ks = ks', ms_m = m', ms_ph = (ms_ph s)(t := after_wait (gpr3 ks' t))\<rparr>"
| trylock: "mutex_step s s'"
    if "t \<noteq> 0" "ms_ph s t \<in> {Out, Held}" "sys_mutex_trylock cas (ms_m s) t = (m', r)"
      "s' = s\<lparr>ms_m := m', ms_ph := (ms_ph s)(t := after_call r (ms_ph s t))\<rparr>"
| unlock: "mutex_step s s'"
    if "t \<noteq> 0" "ms_ph s t \<in> {Out, Held}" "mx_lock_count (ms_m s) = lc"
      "sys_mutex_unlock h (ms_ks s) (ms_m s) t = (ks', m', r)"
      "s' = \<lparr>ms_ks = ks', ms_m = m',
        ms_ph = (ms_ph s)(t := (if r = Ok \<and> lc = 0 then Out else ms_ph s t))\<rparr>"
| other_sleep: "mutex_step s (s\<lparr>ms_ks := fst (sleep_self h t timeout (ms_ks s))\<rparr>)"
    if "ms_ph s t \<in> {Out, Held}" "sleep_ok (ms_ks s) t timeout"
| other_awake: "mutex_step s (s\<lparr>ms_ks := awake_one h c t (ms_ks s)\<rparr>)"
    if "t \<noteq> 0" "ms_ph s t \<in> {Out, Held}" "ms_ph s c \<in> {Out, Held}"
| other_signal: "mutex_step s (s\<lparr>ms_ks := lower t F_signal (ms_ks s)\<rparr>)"
    if "ms_ph s t \<in> {Out, Held}"

definition msys_init :: "kstate \<Rightarrow> lv2_mutex \<Rightarrow> msys \<Rightarrow> bool" where
  "msys_init ks m s \<longleftrightarrow>
     kernel_ok ks \<and> g_to_awake ks = [] \<and> mutex_inv m \<and> mx_owner m = 0 \<and>
     (\<forall>t. t_class (thr ks t) = Class_ppu \<and> \<not> has_again (thr ks) t) \<and>
     s = \<lparr>ms_ks = ks, ms_m = m, ms_ph = (\<lambda>_. Out)\<rparr>"

section \<open>The invariant\<close>

text \<open>What the invariant says of one thread \<open>t\<close> in phase \<open>ph\<close>.\<close>

definition thread_inv :: "kstate \<Rightarrow> lv2_mutex \<Rightarrow> tid \<Rightarrow> phase \<Rightarrow> bool" where
  "thread_inv ks m t ph \<longleftrightarrow>
     (case ph of
        Out \<Rightarrow> t \<notin> set (mx_sq m) \<and> (t \<noteq> 0 \<longrightarrow> mx_owner m \<noteq> t)
      | Held \<Rightarrow> t \<notin> set (mx_sq m) \<and> mx_owner m = t \<and> t \<noteq> 0
      | Queued \<Rightarrow> t \<noteq> 0 \<and> (t \<in> set (mx_sq m) \<longleftrightarrow> mx_owner m \<noteq> t) \<and> running ks t \<and>
          cancel_sleep (thr ks t) \<in> {1, 2} \<and> (cancel_sleep (thr ks t) = 2 \<longleftrightarrow> t \<notin> set (mx_sq m))
      | Asleep \<Rightarrow> t \<noteq> 0 \<and> (t \<in> set (mx_sq m) \<longleftrightarrow> mx_owner m \<noteq> t) \<and> gpr3 ks t = 0 \<and>
          (if t \<in> set (mx_sq m) then parked ks t else t \<in> set (g_ppu ks))
      | Resuming \<Rightarrow> t \<noteq> 0 \<and> (t \<in> set (mx_sq m) \<longleftrightarrow> mx_owner m \<noteq> t) \<and> gpr3 ks t = 0)"

definition msys_inv :: "msys \<Rightarrow> bool" where
  "msys_inv s \<longleftrightarrow>
     kernel_ok (ms_ks s) \<and> g_to_awake (ms_ks s) = [] \<and> mutex_inv (ms_m s) \<and>
     (\<forall>t. t_class (thr (ms_ks s) t) = Class_ppu \<and> \<not> has_again (thr (ms_ks s)) t) \<and>
     (\<forall>t. thread_inv (ms_ks s) (ms_m s) t (ms_ph s t))"

lemma msys_init_inv: "msys_init ks m s \<Longrightarrow> msys_inv s"
  by (auto simp: msys_init_def msys_inv_def thread_inv_def mutex_inv_def)

definition same_access :: "tid set \<Rightarrow> lv2_mutex \<Rightarrow> lv2_mutex \<Rightarrow> bool" where
  "same_access T m m' \<longleftrightarrow>
     (\<forall>s. s \<notin> T \<longrightarrow> (s \<in> set (mx_sq m') \<longleftrightarrow> s \<in> set (mx_sq m)) \<and> (s \<noteq> 0 \<longrightarrow> (mx_owner m' = s \<longleftrightarrow> mx_owner m = s)))"

lemma thread_inv_frame:
  assumes "frame_except T ks ks'" and "same_access T m m'" and "s \<notin> T" and "thread_inv ks m s ph"
  shows "thread_inv ks' m' s ph"
  using assms by (auto simp: frame_except_def sched_frame_def same_access_def thread_inv_def gpr3_def split: phase.splits)

lemma msys_invI:
  assumes "msys_inv s" and "kernel_ok (ms_ks s')" and "g_to_awake (ms_ks s') = []" and "mutex_inv (ms_m s')"
    and "\<And>t. t_class (thr (ms_ks s') t) = t_class (thr (ms_ks s) t) \<and> has_again (thr (ms_ks s')) t = has_again (thr (ms_ks s)) t"
    and "frame_except T (ms_ks s) (ms_ks s')" and "same_access T (ms_m s) (ms_m s')"
    and "\<And>t. t \<notin> T \<Longrightarrow> ms_ph s' t = ms_ph s t"
    and "\<And>t. t \<in> T \<Longrightarrow> thread_inv (ms_ks s') (ms_m s') t (ms_ph s' t)"
  shows "msys_inv s'"
proof -
  have "thread_inv (ms_ks s') (ms_m s') t (ms_ph s' t)" for t
    using assms(1,8,9) thread_inv_frame [OF assms(6,7)] by (cases "t \<in> T") (auto simp: msys_inv_def)
  then show ?thesis using assms(1-5) by (simp add: msys_inv_def)
qed

lemma msys_invD:
  assumes "msys_inv s"
  shows "kernel_ok (ms_ks s)" "g_to_awake (ms_ks s) = []" "mutex_inv (ms_m s)"
    "t_class (thr (ms_ks s) t) = Class_ppu" "\<not> has_again (thr (ms_ks s)) t"
    "thread_inv (ms_ks s) (ms_m s) t (ms_ph s t)"
  using assms by (simp_all add: msys_inv_def)

section \<open>Preservation\<close>

lemma mutex_lock_begin_cases:
  assumes "mutex_lock_begin cas ks m t = (ks', m', r)" and "t \<noteq> 0"
  obtains (got) "r = Some Ok" "ks' = ks \<or> ks' = set_cancel t 0 (set_cancel t 1 ks)" "mx_owner m = 0" "m' = m\<lparr>mx_owner := t\<rparr>"
  | (rec) "r = Some Ok" "ks' = ks" "mx_owner m = t" "mx_recursive m = SYS_SYNC_RECURSIVE"
      "m' = m\<lparr>mx_lock_count := mx_lock_count m + 1\<rparr>"
  | (err) e where "r = Some (Err e)" "ks' = ks" "m' = m"
  | (queued) "r = None" "ks' = stamp_ks t (set_cancel t 1 ks)" "mx_owner m \<noteq> 0" "mx_owner m \<noteq> t"
      "m' = m\<lparr>mx_sq := t # mx_sq m\<rparr>"
  using assms
  by (auto simp: mutex_lock_begin_def mutex_try_lock_def mutex_try_own_def stamp_ks_def split: if_splits)

lemma step_lock_begin:
  assumes inv: "msys_inv s" and t: "t \<noteq> 0" "ms_ph s t \<in> {Out, Held}" "running (ms_ks s) t"
    and b: "mutex_lock_begin cas (ms_ks s) (ms_m s) t = (ks', m', r)"
  shows "msys_inv \<lparr>ms_ks = ks', ms_m = m',
    ms_ph = (ms_ph s)(t := (case r of None \<Rightarrow> Queued | Some x \<Rightarrow> after_call x (ms_ph s t)))\<rparr>"
proof -
  note d = msys_invD [OF inv]
  have sq: "t \<notin> set (mx_sq (ms_m s))" using d(6) [of t] t(2) by (auto simp: thread_inv_def)
  have fc: "frame_except {t} (ms_ks s) (set_cancel t n (ms_ks s))" for n
    unfolding set_cancel_def by (rule frame_upd)
  have fc2: "frame_except {t} (ms_ks s) (set_cancel t k (set_cancel t n (ms_ks s)))" for n k
    unfolding set_cancel_def by (rule frame_trans [OF frame_upd frame_upd])
  have refl: "frame_except {t} k k" for k by (simp add: frame_except_def sched_frame_def)
  from b t(1) show ?thesis
  proof (cases rule: mutex_lock_begin_cases)
    case got
    then show ?thesis using d sq t fc2 refl
      by (intro msys_invI [OF inv, of _ "{t}"])
         (auto simp: mutex_inv_def same_access_def thread_inv_def after_call_def)
  next
    case rec
    then show ?thesis using d sq t refl
      by (intro msys_invI [OF inv, of _ "{t}"])
         (auto simp: mutex_inv_def same_access_def thread_inv_def after_call_def)
  next
    case err
    then show ?thesis using d(1-3) d(6) [of t] refl
      by (intro msys_invI [OF inv, of _ "{t}"]) (auto simp: same_access_def after_call_def)
  next
    case queued
    have "running (stamp_ks t (set_cancel t 1 (ms_ks s))) t" using t(3) by (simp add: running_def)
    then show ?thesis using d sq t queued
      by (intro msys_invI [OF inv, of _ "{t}"])
         (auto simp: mutex_inv_def same_access_def thread_inv_def intro: frame_trans [OF fc frame_stamp])
  qed
qed

lemma step_lock_sleep:
  assumes inv: "msys_inv s" and t: "ms_ph s t = Queued" "sleep_ok (ms_ks s) t timeout"
    and b: "mutex_lock_sleep h (ms_ks s) t timeout = (ks', r)"
  shows "msys_inv (s\<lparr>ms_ks := ks', ms_ph := (ms_ph s)(t := (if r = Ok then Held else Asleep))\<rparr>)"
proof -
  note d = msys_invD [OF inv]
  let ?k = "fst (sleep_self h t timeout (ms_ks s))"
  have ti: "t \<noteq> 0" "t \<in> set (mx_sq (ms_m s)) \<longleftrightarrow> mx_owner (ms_m s) \<noteq> t" "running (ms_ks s) t"
    "cancel_sleep (thr (ms_ks s) t) = 2 \<longleftrightarrow> t \<notin> set (mx_sq (ms_m s))"
    using d(6) [of t] t(1) by (auto simp: thread_inv_def)
  have res: "snd (sleep_self h t timeout (ms_ks s)) \<longleftrightarrow> t \<in> set (mx_sq (ms_m s))"
    using sleep_self_result [OF ti(3) d(4), of h timeout] ti(4) by simp
  have k: "kernel_ok ?k" "g_to_awake ?k = []" by (simp_all add: sleep_self_ok d(1) t(2))
  have kp: "keeps (thr ?k) (thr (ms_ks s))" by (simp add: sleep_self_def keeps_sleep)
  have f: "frame_except {t} (ms_ks s) ?k" by (rule frame_sleep_self [OF d(1) t(2) d(2)])
  have pk: "parked ?k t"
    using sleep_self_parks [OF d(1) t(2) d(2,4)] ti(3) by (simp add: running_def)
  have fs: "frame_except {t} ?k (set_cancel t 0 ?k)" "frame_except {t} (set_cancel t 0 ?k) (set_reg t 3 0 (set_cancel t 0 ?k))"
    by (simp_all add: set_cancel_def set_reg_def frame_upd)
  show ?thesis
  proof (cases "t \<in> set (mx_sq (ms_m s))")
    case True
    then have e: "r = Blocked" "ks' = set_reg t 3 0 (set_cancel t 0 ?k)"
      using b res by (auto simp: mutex_lock_sleep_def split: prod.splits bool.splits)
    show ?thesis
      using e True d(3) ti k pk keeps_class_again [OF kp] frame_trans [OF frame_trans [OF f fs(1)] fs(2)]
      by (intro msys_invI [OF inv, of _ "{t}"])
         (auto simp: same_access_def thread_inv_def parked_def kernel_ok_set_reg)
  next
    case False
    then have e: "r = Ok" "ks' = set_cancel t 0 ?k"
      using b res by (auto simp: mutex_lock_sleep_def split: prod.splits bool.splits)
    show ?thesis
      using e False d(3) ti k keeps_class_again [OF kp] frame_trans [OF f fs(1)]
      by (intro msys_invI [OF inv, of _ "{t}"]) (auto simp: same_access_def thread_inv_def)
  qed
qed

lemma step_wait_signal:
  assumes inv: "msys_inv s" and t: "ms_ph s t = Asleep" "\<not> is_stopped (state (thr (ms_ks s) t))"
    and b: "wait_poll t (mx_sq (ms_m s)) (ms_ks s) = (ks', Woken)"
  shows "msys_inv (s\<lparr>ms_ks := ks', ms_ph := (ms_ph s)(t := after_wait (gpr3 ks' t))\<rparr>)"
proof -
  note d = msys_invD [OF inv]
  have sig: "F_signal \<in> state (thr (ms_ks s) t)" and ks': "ks' = lower t F_signal (ms_ks s)"
    using b t(2) by (auto simp: wait_poll_def split: if_splits)
  have ti: "t \<noteq> 0" "t \<in> set (mx_sq (ms_m s)) \<longleftrightarrow> mx_owner (ms_m s) \<noteq> t" "gpr3 (ms_ks s) t = 0"
    "t \<notin> set (mx_sq (ms_m s))"
    using d(6) [of t] t(1) sig by (auto simp: thread_inv_def parked_def split: if_splits)
  show ?thesis
    using ks' ti d(1-3) frame_lower
    by (intro msys_invI [OF inv, of _ "{t}"])
       (auto simp: same_access_def thread_inv_def after_wait_def kernel_ok_lower)
qed

lemma step_wait_expired:
  assumes inv: "msys_inv s" and t: "ms_ph s t = Asleep"
  shows "msys_inv (s\<lparr>ms_ks := (let k = lower t F_notify (ms_ks s)
      in if F_suspend \<in> state (thr k t) then cpu_sleep h t k else k), ms_ph := (ms_ph s)(t := Resuming)\<rparr>)"
proof -
  note d = msys_invD [OF inv]
  have ti: "t \<noteq> 0" "t \<in> set (mx_sq (ms_m s)) \<longleftrightarrow> mx_owner (ms_m s) \<noteq> t" "gpr3 (ms_ks s) t = 0"
    using d(6) [of t] t by (auto simp: thread_inv_def)
  let ?k = "lower t F_notify (ms_ks s)"
  have k: "kernel_ok ?k" "g_to_awake ?k = []" by (simp_all add: d kernel_ok_lower)
  note c = cpu_sleep_step [OF k(1) ti(1) k(2), of h]
  have "gpr3 (cpu_sleep h t ?k) t = 0" using c(4) [of t] ti(3) by (simp add: gpr3_def)
  then show ?thesis
    using k c ti d(3) frame_lower frame_trans [OF frame_lower c(3)]
    by (intro msys_invI [OF inv, of _ "{t}"]) (auto simp: same_access_def thread_inv_def Let_def)
qed

lemma step_wait_timeout:
  assumes inv: "msys_inv s" and t: "ms_ph s t = Resuming"
    and b: "mutex_lock_timeout (lower t F_signal (ms_ks s)) (ms_m s) t = (ks', m')"
  shows "msys_inv \<lparr>ms_ks = ks', ms_m = m', ms_ph = (ms_ph s)(t := after_wait (gpr3 ks' t))\<rparr>"
proof -
  note d = msys_invD [OF inv]
  have ti: "t \<noteq> 0" "t \<in> set (mx_sq (ms_m s)) \<longleftrightarrow> mx_owner (ms_m s) \<noteq> t" "gpr3 (ms_ks s) t = 0"
    using d(6) [of t] t by (auto simp: thread_inv_def)
  let ?k = "raise t F_wait (lower t F_signal (ms_ks s))"
  have k: "kernel_ok ?k" "g_to_awake ?k = []" by (simp_all add: d kernel_ok_lower kernel_ok_raise)
  have f: "frame_except {t} (ms_ks s) ?k" by (rule frame_trans [OF frame_lower frame_raise])
  have f': "frame_except {t} (ms_ks s) (set_reg t 3 v ?k)" for v
    by (rule frame_trans [OF f]) (simp add: set_reg_def frame_upd)
  have ca: "t_class (thr ?k u) = t_class (thr (ms_ks s) u) \<and> has_again (thr ?k) u = has_again (thr (ms_ks s)) u" for u
    by (simp add: flag_step_state)
  have tmo: "errval CELL_ETIMEDOUT \<noteq> 0" by (simp add: errval_def)
  show ?thesis
  proof (cases "t \<in> set (mx_sq (ms_m s))")
    case True
    then have e: "ks' = set_reg t 3 (errval CELL_ETIMEDOUT) ?k" "m' = (ms_m s)\<lparr>mx_sq := remove1 t (mx_sq (ms_m s))\<rparr>"
      using b by (auto simp: mutex_lock_timeout_def Let_def unqueue_def split: if_splits)
    have "mutex_inv m'" using d(3) e(2) by (auto simp: mutex_inv_def dest: notin_set_remove1)
    then show ?thesis
      using e True d(3) ti k f' ca tmo
      by (intro msys_invI [OF inv, of _ "{t}"])
         (auto simp: same_access_def thread_inv_def after_wait_def kernel_ok_set_reg mutex_inv_def)
  next
    case False
    then have e: "ks' = ?k" "m' = ms_m s"
      using b by (auto simp: mutex_lock_timeout_def Let_def unqueue_def split: if_splits)
    show ?thesis
      using e False d(3) ti k f ca
      by (intro msys_invI [OF inv, of _ "{t}"]) (auto simp: same_access_def thread_inv_def after_wait_def)
  qed
qed

lemma step_trylock:
  assumes inv: "msys_inv s" and t: "t \<noteq> 0" "ms_ph s t \<in> {Out, Held}"
    and b: "sys_mutex_trylock cas (ms_m s) t = (m', r)"
  shows "msys_inv (s\<lparr>ms_m := m', ms_ph := (ms_ph s)(t := after_call r (ms_ph s t))\<rparr>)"
proof -
  note d = msys_invD [OF inv]
  have sq: "t \<notin> set (mx_sq (ms_m s))" using d(6) [of t] t(2) by (auto simp: thread_inv_def)
  have refl: "frame_except {t} (ms_ks s) (ms_ks s)" by (simp add: frame_except_def sched_frame_def)
  show ?thesis
    using b d(1-3) d(6) [of t] sq t refl
    by (intro msys_invI [OF inv, of _ "{t}"])
       (auto simp: sys_mutex_trylock_def mutex_try_lock_def mutex_inv_def same_access_def thread_inv_def after_call_def
         split: if_splits)
qed

lemma sys_mutex_unlock_cases:
  assumes "sys_mutex_unlock h ks m t = (ks', m', r)" and "\<And>s. \<not> has_again (thr ks) s"
  obtains (err) e where "r = Err e" "ks' = ks" "m' = m"
  | (rec) "r = Ok" "ks' = ks" "mx_owner m = t" "mx_lock_count m \<noteq> 0" "m' = m\<lparr>mx_lock_count := mx_lock_count m - 1\<rparr>"
  | (free) "r = Ok" "ks' = ks" "mx_owner m = t" "mx_lock_count m = 0" "m' = m\<lparr>mx_owner := 0\<rparr>" "mx_sq m = []"
  | (pass) u where "r = Ok" "ks' = awake_one h t u ks" "mx_owner m = t" "mx_lock_count m = 0"
      "u \<in> set (mx_sq m)" "m' = m\<lparr>mx_owner := u, mx_sq := remove1 u (mx_sq m)\<rparr>"
proof (cases "mutex_try_unlock (h_cas h) m t")
  case (Pair m1 e)
  show thesis
  proof (cases "e = Some CELL_EBUSY")
    case False
    then show ?thesis
      using assms(1) Pair that
      by (auto simp: sys_mutex_unlock_def mutex_try_unlock_def split: if_splits)
  next
    case True
    then have m1: "m1 = m" "mx_owner m = t" "mx_lock_count m = 0"
      using Pair by (auto simp: mutex_try_unlock_def split: if_splits)
    obtain o' q where sc: "schedule (thr ks) (mx_protocol m) (mx_sq m) = (o', q)" by fastforce
    show ?thesis
    proof (cases o')
      case None
      then show ?thesis
        using sc assms(1) Pair True m1 that(3) by (auto simp: sys_mutex_unlock_def mutex_reown_def schedule_None)
    next
      case (Some u)
      note su = schedule_SomeD [OF sc [unfolded Some]]
      then show ?thesis
        using sc Some assms Pair True m1 by (intro that(4)) (auto simp: sys_mutex_unlock_def mutex_reown_def)
    qed
  qed
qed

lemma step_unlock:
  assumes inv: "msys_inv s" and t: "t \<noteq> 0" "ms_ph s t \<in> {Out, Held}"
    and b: "sys_mutex_unlock h (ms_ks s) (ms_m s) t = (ks', m', r)"
  shows "msys_inv \<lparr>ms_ks = ks', ms_m = m',
    ms_ph = (ms_ph s)(t := (if r = Ok \<and> mx_lock_count (ms_m s) = 0 then Out else ms_ph s t))\<rparr>"
proof -
  note d = msys_invD [OF inv]
  have sq: "t \<notin> set (mx_sq (ms_m s))" using d(6) [of t] t(2) by (auto simp: thread_inv_def)
  have refl: "frame_except {t} (ms_ks s) (ms_ks s)" by (simp add: frame_except_def sched_frame_def)
  from b d(5) show ?thesis
  proof (cases rule: sys_mutex_unlock_cases)
    case err
    then show ?thesis using d(1-3) d(6) [of t] refl
      by (intro msys_invI [OF inv, of _ "{t}"]) (auto simp: same_access_def)
  next
    case rec
    then show ?thesis using d(1-3) d(6) [of t] t refl
      by (intro msys_invI [OF inv, of _ "{t}"]) (auto simp: same_access_def mutex_inv_def thread_inv_def)
  next
    case free
    then show ?thesis using d(1-3) t sq refl
      by (intro msys_invI [OF inv, of _ "{t}"]) (auto simp: same_access_def mutex_inv_def thread_inv_def)
  next
    case (pass u)
    have u: "u \<noteq> 0" "u \<noteq> t" using pass(5) d(3) sq by (auto simp: mutex_inv_def)
    have m': "mutex_inv m'" using d(3) pass u by (auto simp: mutex_inv_def dest: notin_set_remove1)
    have kp: "keeps (thr (awake_one h t u (ms_ks s))) (thr (ms_ks s))" by (simp add: awake_one_def keeps_awake)
    have g3: "gpr3 (awake_one h t u (ms_ks s)) u = gpr3 (ms_ks s) u" using kp by (simp add: keeps_def gpr3_def)
    have nq: "u \<notin> set (mx_sq m')" "mx_owner m' = u" using pass(5,6) d(3) by (auto simp: mutex_inv_def)
    have "ms_ph s u \<noteq> Out" "ms_ph s u \<noteq> Held" using d(6) [of u] pass(5) by (auto simp: thread_inv_def)
    then have tu: "thread_inv ks' m' u (ms_ph s u)"
      using d(6) [of u] nq u pass(2,5) g3 running_awake_one [OF d(1) u(1), of u t h] awake_one_ppu [OF d(1) u(1), of h t]
        cancel_awake_one [OF d(1), of h t u u]
      by (cases "ms_ph s u") (auto simp: thread_inv_def running_def)
    have tt: "thread_inv ks' m' t Out" using pass u sq by (auto simp: thread_inv_def dest: notin_set_remove1)
    have sa: "same_access {t, u} (ms_m s) m'"
      using pass d(3) by (auto simp: same_access_def mutex_inv_def)
    show ?thesis
      using pass(1-4) m' sa tu tt u d(1,2) awake_one_to_awake [OF d(1) u(1)] keeps_class_again [OF kp]
        frame_awake_one [OF d(1) u(1), of t h]
      by (intro msys_invI [OF inv, of _ "{t, u}"]) (auto simp: awake_one_ok)
  qed
qed

lemma step_other:
  assumes inv: "msys_inv s" and t: "ms_ph s t \<in> {Out, Held}"
  shows "sleep_ok (ms_ks s) t timeout \<Longrightarrow> msys_inv (s\<lparr>ms_ks := fst (sleep_self h t timeout (ms_ks s))\<rparr>)"
    and "t \<noteq> 0 \<Longrightarrow> ms_ph s c \<in> {Out, Held} \<Longrightarrow> msys_inv (s\<lparr>ms_ks := awake_one h c t (ms_ks s)\<rparr>)"
    and "msys_inv (s\<lparr>ms_ks := lower t F_signal (ms_ks s)\<rparr>)"
proof -
  note d = msys_invD [OF inv]
  have static: "thread_inv k (ms_m s) u (ms_ph s u)" if "ms_ph s u \<in> {Out, Held}" for u k
    using d(6) [of u] that by (auto simp: thread_inv_def)
  have refl: "same_access T (ms_m s) (ms_m s)" for T by (simp add: same_access_def)
  show "msys_inv (s\<lparr>ms_ks := fst (sleep_self h t timeout (ms_ks s))\<rparr>)" if ok: "sleep_ok (ms_ks s) t timeout"
  proof -
    have kp: "keeps (thr (fst (sleep_self h t timeout (ms_ks s)))) (thr (ms_ks s))" by (simp add: sleep_self_def keeps_sleep)
    show ?thesis
      using d(1-3) t ok static refl frame_sleep_self [OF d(1) ok d(2)] keeps_class_again [OF kp]
      by (intro msys_invI [OF inv, of _ "{t}"]) (auto simp: sleep_self_ok)
  qed
  show "msys_inv (s\<lparr>ms_ks := awake_one h c t (ms_ks s)\<rparr>)" if "t \<noteq> 0" "ms_ph s c \<in> {Out, Held}"
  proof -
    have kp: "keeps (thr (awake_one h c t (ms_ks s))) (thr (ms_ks s))" by (simp add: awake_one_def keeps_awake)
    show ?thesis
      using d(1-3) t that static refl frame_awake_one [OF d(1) that(1), of c h] keeps_class_again [OF kp]
        awake_one_to_awake [OF d(1) that(1)]
      by (intro msys_invI [OF inv, of _ "{c, t}"]) (auto simp: awake_one_ok)
  qed
  show "msys_inv (s\<lparr>ms_ks := lower t F_signal (ms_ks s)\<rparr>)"
    using d(1-3) t static refl frame_lower
    by (intro msys_invI [OF inv, of _ "{t}"]) (auto simp: kernel_ok_lower)
qed

lemma mutex_step_inv: "mutex_step s s' \<Longrightarrow> msys_inv s \<Longrightarrow> msys_inv s'"
proof (induction rule: mutex_step.induct)
  case (unlock t s lc h ks' m' r s')
  then show ?case using step_unlock [of s t h ks' m' r] by simp
qed (simp_all add: step_lock_begin step_lock_sleep step_wait_signal step_wait_expired step_wait_timeout
    step_trylock step_other)

lemma msys_reachable_inv: "mutex_step\<^sup>*\<^sup>* s0 s \<Longrightarrow> msys_init ks m s0 \<Longrightarrow> msys_inv s"
  by (induction rule: rtranclp_induct) (auto intro: msys_init_inv mutex_step_inv)

section \<open>Properties\<close>

text \<open>
  C1: Mutual exclusion. In every state that the interleaved calls of any number of threads reach, at
  most one thread believes that it holds the mutex, and that thread is the recorded owner.
\<close>

theorem mutex_mutual_exclusion:
  assumes "msys_init ks m s0" and "mutex_step\<^sup>*\<^sup>* s0 s" and "ms_ph s a = Held" and "ms_ph s b = Held"
  shows "a = b \<and> mx_owner (ms_m s) = a"
proof -
  have "msys_inv s" using msys_reachable_inv [OF assms(2,1)] .
  then show ?thesis using msys_invD(6) [of s a] msys_invD(6) [of s b] assms(3,4) by (simp add: thread_inv_def)
qed

definition demo_mutex :: lv2_mutex where
  "demo_mutex = \<lparr>mx_protocol = SYS_SYNC_PRIORITY, mx_recursive = SYS_SYNC_NOT_RECURSIVE, mx_adaptive = 0x2000,
     mx_key = 0, mx_name = 0, mx_cond_count = 0, mx_lock_count = 0, mx_owner = 0, mx_sq = []\<rparr>"

definition demo_msys :: "tid \<Rightarrow> phase \<Rightarrow> msys" where
  "demo_msys t ph = \<lparr>ms_ks = demo_ks, ms_m = demo_mutex\<lparr>mx_owner := t\<rparr>, ms_ph = (\<lambda>_. Out)(1 := ph)\<rparr>"

lemma demo_msys_init: "msys_init demo_ks demo_mutex (demo_msys 0 Out)"
  using demo_ks_ok
  by (auto simp: msys_init_def demo_msys_def demo_mutex_def mutex_inv_def demo_ks_def boot_ks_def demo_threads_def
      new_thread_def fun_eq_iff)

lemma demo_msys_step: "mutex_step (demo_msys 0 Out) (demo_msys 1 Held)"
  by (rule mutex_step.lock_begin [where t = 1 and cas = True and ks' = demo_ks and r = "Some Ok"
        and m' = "demo_mutex\<lparr>mx_owner := 1\<rparr>"])
     (auto simp: demo_msys_def running_def demo_ks_def boot_ks_def demo_threads_def new_thread_def mutex_lock_begin_def
       mutex_try_lock_def demo_mutex_def after_call_def)

theorem mutex_mutual_exclusion_witness: "mx_owner (ms_m (demo_msys 1 Held)) = 1"
  using mutex_mutual_exclusion [OF demo_msys_init r_into_rtranclp [of mutex_step, OF demo_msys_step], of 1 1]
  by (simp add: demo_msys_def)

text \<open>
  C2: No wake-up is lost. A thread that waits for the mutex is either still queued, and then parked
  (out of the run queue, without a signal), or it has been made the owner, and then it is runnable and the call
  will return \<^verbatim>\<open>CELL_OK\<close>.
\<close>

theorem mutex_no_lost_wakeup:
  assumes "msys_init ks m s0" and "mutex_step\<^sup>*\<^sup>* s0 s" and "ms_ph s t = Asleep"
  shows "gpr3 (ms_ks s) t = 0 \<and>
    (t \<in> set (mx_sq (ms_m s)) \<and> parked (ms_ks s) t \<or>
     t \<notin> set (mx_sq (ms_m s)) \<and> mx_owner (ms_m s) = t \<and> t \<in> set (g_ppu (ms_ks s)))"
proof -
  have "msys_inv s" using msys_reachable_inv [OF assms(2,1)] .
  then show ?thesis using msys_invD(6) [of s t] assms(3) by (auto simp: thread_inv_def split: if_splits)
qed

definition demo_queued :: msys where
  "demo_queued = \<lparr>ms_ks = stamp_ks 3 (set_cancel 3 1 demo_ks), ms_m = demo_mutex\<lparr>mx_owner := 1, mx_sq := [3]\<rparr>,
     ms_ph = (\<lambda>_. Out)(1 := Held, 3 := Queued)\<rparr>"

definition demo_waiting :: msys where
  "demo_waiting = \<lparr>ms_ks = set_reg 3 3 0 (set_cancel 3 0 (fst (sleep_self demo_host 3 0 (ms_ks demo_queued)))),
     ms_m = demo_mutex\<lparr>mx_owner := 1, mx_sq := [3]\<rparr>, ms_ph = (\<lambda>_. Out)(1 := Held, 3 := Asleep)\<rparr>"

lemma demo_running: "running demo_ks 3" "running (ms_ks demo_queued) 3"
  by (auto simp: running_def demo_queued_def demo_ks_def boot_ks_def demo_threads_def new_thread_def)

lemma demo_wait_steps: "mutex_step\<^sup>*\<^sup>* (demo_msys 0 Out) demo_waiting"
proof -
  have b: "mutex_lock_begin True demo_ks (demo_mutex\<lparr>mx_owner := 1\<rparr>) 3 =
      (stamp_ks 3 (set_cancel 3 1 demo_ks), demo_mutex\<lparr>mx_owner := 1, mx_sq := [3]\<rparr>, None)"
    by (simp add: mutex_lock_begin_def mutex_try_lock_def mutex_try_own_def demo_mutex_def stamp_ks_def)
  have 1: "mutex_step (demo_msys 1 Held) demo_queued"
    by (rule mutex_step.lock_begin [where t = 3 and cas = True and r = None
          and ks' = "stamp_ks 3 (set_cancel 3 1 demo_ks)" and m' = "demo_mutex\<lparr>mx_owner := 1, mx_sq := [3]\<rparr>"])
       (auto simp: demo_msys_def demo_queued_def demo_running b)
  have "snd (sleep_self demo_host 3 0 (ms_ks demo_queued))"
    by (subst sleep_self_result [OF demo_running(2)])
       (auto simp: demo_queued_def demo_ks_def boot_ks_def demo_threads_def new_thread_def)
  then have s: "mutex_lock_sleep demo_host (ms_ks demo_queued) 3 0 = (ms_ks demo_waiting, Blocked)"
    by (auto simp: mutex_lock_sleep_def demo_waiting_def split: prod.splits bool.splits)
  have 2: "mutex_step demo_queued demo_waiting"
    by (rule mutex_step.lock_sleep [OF _ _ s])
       (auto simp: demo_queued_def demo_waiting_def sleep_ok_def fun_eq_iff)
  from 1 2 demo_msys_step show ?thesis by (meson converse_rtranclp_into_rtranclp rtranclp.rtrancl_refl)
qed

theorem mutex_no_lost_wakeup_witness: "parked (ms_ks demo_waiting) 3"
  using mutex_no_lost_wakeup [OF demo_msys_init demo_wait_steps, of 3] by (simp add: demo_waiting_def demo_mutex_def)

text \<open>
  C24: Unlocking a mutex with waiters gives it to the waiter that the protocol selects (the oldest one
  under FIFO, otherwise the one of best priority and, among those, the one that queued first), takes that waiter out
  of the queue and makes it runnable.
\<close>

theorem mutex_unlock_hands_over:
  assumes "mutex_inv m" and "kernel_ok ks" and "mx_owner m = t" and "mx_lock_count m = 0" and "mx_sq m \<noteq> []"
    and "\<forall>u. \<not> has_again (thr ks) u" and "sys_mutex_unlock h ks m t = (ks', m', r)"
  shows "\<exists>u \<in> set (mx_sq m). r = Ok \<and> mx_owner m' = u \<and> mx_sq m' = remove1 u (mx_sq m) \<and> u \<in> set (g_ppu ks') \<and>
    (if mx_protocol m = SYS_SYNC_FIFO then u = last (mx_sq m) else \<forall>v \<in> set (mx_sq m). \<not> sched_before (thr ks) v u)"
proof -
  obtain u q where sc: "schedule (thr ks) (mx_protocol m) (mx_sq m) = (Some u, q)"
    using schedule_nonempty [OF assms(5)] by blast
  note d = schedule_SomeD [OF sc]
  have "u \<noteq> 0" using d(1) assms(1) by (auto simp: mutex_inv_def)
  then have ppu: "u \<in> set (g_ppu (awake_one h t u ks))" using awake_one_ppu [OF assms(2)] by simp
  have ks': "ks' = awake_one h t u ks" "m' = m\<lparr>mx_owner := u, mx_sq := q\<rparr>" "r = Ok"
    using assms(3-7) sc
    by (auto simp: sys_mutex_unlock_def mutex_try_unlock_def mutex_reown_def split: if_splits)
  have "if mx_protocol m = SYS_SYNC_FIFO then u = last (mx_sq m) else \<forall>v \<in> set (mx_sq m). \<not> sched_before (thr ks) v u"
    using d(2) sched_find_min by (auto simp: sched_pick_def split: list.splits if_splits)
  then show ?thesis using d(1,3) ks' ppu assms(6) by (intro bexI [of _ u]) auto
qed

theorem mutex_unlock_hands_over_witness:
  "mx_owner (fst (snd (sys_mutex_unlock demo_host (ms_ks demo_waiting) (ms_m demo_waiting) 1))) = 3"
proof -
  have "msys_inv demo_waiting" by (rule msys_reachable_inv [OF demo_wait_steps demo_msys_init])
  note d = msys_invD [OF this]
  obtain ks' m' r where u: "sys_mutex_unlock demo_host (ms_ks demo_waiting) (ms_m demo_waiting) 1 = (ks', m', r)"
    using prod_cases3 by blast
  have "mx_owner (ms_m demo_waiting) = 1" "mx_lock_count (ms_m demo_waiting) = 0" "mx_sq (ms_m demo_waiting) = [3]"
    by (simp_all add: demo_waiting_def demo_mutex_def)
  with mutex_unlock_hands_over [OF d(3,1) _ _ _ _ u] d(5) show ?thesis by (simp add: u)
qed

end
