(* ===== verification/Sys_Semaphore.thy ===== *)
theory Sys_Semaphore
  imports Wait_Object
begin

text \<open>
  The semaphore of \<^verbatim>\<open>rpcs3/Emu/Cell/lv2/sys_semaphore.h\<close> and \<^verbatim>\<open>sys_semaphore.cpp\<close>. A negative
  value counts the waiting threads. Each call has a lock-free attempt on the atomic value, which meets
  interference when the host step says so, and a section under the mutex of the object. Arithmetic on the 32-bit
  value is written with its wrap-around; the invariant shows that it never wraps.
\<close>

record lv2_sema =
  sm_protocol :: lv2_protocol
  sm_key :: u64
  sm_name :: u64
  sm_max :: int
  sm_val :: int
  sm_sq :: "tid list"

record sys_semaphore_attribute =
  sa_protocol :: u32
  sa_pshared :: u32
  sa_ipc_key :: u64
  sa_flags :: int
  sa_name :: u64

section \<open>The system calls\<close>

definition sys_semaphore_make :: "u64 \<Rightarrow> sys_semaphore_attribute \<Rightarrow> int \<Rightarrow> int \<Rightarrow> CellError + lv2_sema" where
  "sys_semaphore_make ipc_key attr initial_val max_val =
     (if max_val \<le> 0 \<or> initial_val > max_val \<or> initial_val < 0 then Inl CELL_EINVAL
      else case protocol_of (sa_protocol attr) of
             Some p \<Rightarrow>
               if p = SYS_SYNC_FIFO \<or> p = SYS_SYNC_PRIORITY
               then Inr \<lparr>sm_protocol = p, sm_key = ipc_key, sm_name = sa_name attr, sm_max = max_val,
                          sm_val = initial_val, sm_sq = []\<rparr>
               else Inl CELL_EINVAL
           | None \<Rightarrow> Inl CELL_EINVAL)"

definition sema_destroy_check :: "lv2_sema \<Rightarrow> CellError option" where
  "sema_destroy_check s = (if sm_val s < 0 then Some CELL_EBUSY else None)"

definition sema_wait_fast :: "bool \<Rightarrow> lv2_sema \<Rightarrow> lv2_sema option" where
  "sema_wait_fast cas s = (if sm_val s > 0 \<and> cas then Some (s\<lparr>sm_val := sm_val s - 1\<rparr>) else None)"

definition sys_semaphore_wait :: "host \<Rightarrow> kstate \<Rightarrow> lv2_sema \<Rightarrow> tid \<Rightarrow> u64 \<Rightarrow> kstate \<times> lv2_sema \<times> sysres" where
  "sys_semaphore_wait h ks s t timeout =
     (case sema_wait_fast (h_cas h) s of
        Some s1 \<Rightarrow> (ks, s1, Ok)
      | None \<Rightarrow>
          let s1 = s\<lparr>sm_val := s32 (sm_val s - 1)\<rparr>
          in if sm_val s \<le> 0
             then case block_self h t timeout (sm_sq s) ks of (ks1, q) \<Rightarrow> (ks1, s1\<lparr>sm_sq := q\<rparr>, Blocked)
             else (ks, s1, Ok))"

text \<open>After a timeout: a thread that is still queued gives up its place.\<close>

definition sema_wait_timeout :: "kstate \<Rightarrow> lv2_sema \<Rightarrow> tid \<Rightarrow> kstate \<times> lv2_sema" where
  "sema_wait_timeout ks s t =
     (case unqueue t (sm_sq s) of
        (None, _) \<Rightarrow> (ks, s)
      | (Some _, q) \<Rightarrow>
          (set_reg t 3 (errval CELL_ETIMEDOUT) (ensure (0 > sm_val s) ks),
           s\<lparr>sm_sq := q, sm_val := (if sm_val s < 0 then sm_val s + 1 else sm_val s)\<rparr>))"

definition sys_semaphore_trywait :: "lv2_sema \<Rightarrow> lv2_sema \<times> sysres" where
  "sys_semaphore_trywait s =
     (if sm_val s > 0 then (s\<lparr>sm_val := sm_val s - 1\<rparr>, Ok) else (s, Err CELL_EBUSY))"

definition sema_post_fast :: "bool \<Rightarrow> lv2_sema \<Rightarrow> int \<Rightarrow> lv2_sema option" where
  "sema_post_fast cas s cnt =
     (if sm_val s \<ge> 0 \<and> cnt > 0 \<and> cnt \<le> sm_max s - sm_val s \<and> cas
      then Some (s\<lparr>sm_val := sm_val s + cnt\<rparr>) else None)"

text \<open>The waking loop: an empty queue would fail the \<^verbatim>\<open>ensure\<close>.\<close>

fun sema_wake :: "nat \<Rightarrow> lv2_protocol \<Rightarrow> tid list \<Rightarrow> kstate \<Rightarrow> kstate \<times> tid list" where
  "sema_wake 0 p q ks = (ks, q)"
| "sema_wake (Suc n) p q ks =
     (case schedule (thr ks) p q of
        (None, q1) \<Rightarrow> sema_wake n p q1 (ensure False ks)
      | (Some t, q1) \<Rightarrow> sema_wake n p q1 (lv2_append t ks))"

definition sys_semaphore_post :: "host \<Rightarrow> kstate \<Rightarrow> lv2_sema \<Rightarrow> tid \<Rightarrow> int \<Rightarrow> kstate \<times> lv2_sema \<times> sysres" where
  "sys_semaphore_post h ks s t cnt =
     (case sema_post_fast (h_cas h) s cnt of
        Some s1 \<Rightarrow> (ks, s1, Ok)
      | None \<Rightarrow>
          if cnt \<le> 0 then (ks, s, Err CELL_EINVAL)
          else if \<exists>u \<in> set (sm_sq s). has_again (thr ks) u then (raise t F_again ks, s, Restart)
          else if u32_of_int cnt \<le> u32_of_int (sm_max s - sm_val s) then
            let s1 = s\<lparr>sm_val := s32 (sm_val s + cnt)\<rparr>;
                to_awake = min (- (min (sm_val s) 0)) cnt;
                (ks1, q) = sema_wake (nat to_awake) (sm_protocol s) (sm_sq s) ks
            in ((if to_awake > 0 then awake_all ks1 (Some t) (h_now h) (h_tsc h) else ks1), s1\<lparr>sm_sq := q\<rparr>, Ok)
          else (ks, s, Err CELL_EBUSY))"

definition sys_semaphore_get_value :: "lv2_sema \<Rightarrow> int" where
  "sys_semaphore_get_value s = max 0 (sm_val s)"

section \<open>The invariant\<close>

definition sema_inv :: "lv2_sema \<Rightarrow> bool" where
  "sema_inv s \<longleftrightarrow>
     0 < sm_max s \<and> sm_max s < 2 ^ 31 \<and> sm_val s \<le> sm_max s \<and> distinct (sm_sq s) \<and> 0 \<notin> set (sm_sq s) \<and>
     int (length (sm_sq s)) = - (min (sm_val s) 0) \<and> int (length (sm_sq s)) < 2 ^ 31"

lemma sema_make_inv: "sys_semaphore_make k attr i m = Inr s \<Longrightarrow> m < 2 ^ 31 \<Longrightarrow> sema_inv s"
  by (auto simp: sys_semaphore_make_def sema_inv_def split: if_splits option.splits)

lemma sema_wake_spec:
  assumes "\<forall>u. \<not> has_again (thr ks) u" and "n \<le> length q"
  shows "sema_wake n p q ks = (fold lv2_append (fst (schedule_n (thr ks) p n q)) ks, snd (schedule_n (thr ks) p n q))"
  using assms
proof (induction n arbitrary: q ks)
  case (Suc n)
  then obtain t q1 where sc: "schedule (thr ks) p q = (Some t, q1)"
    using schedule_nonempty [of q "thr ks" p] by (cases q) auto
  have "q1 = remove1 t q" "t \<in> set q" using schedule_SomeD [OF sc] Suc.prems(1) by auto
  then have "n \<le> length q1" using Suc.prems(2) length_remove1_member [of t q] by simp
  then show ?case using Suc.IH [of "lv2_append t ks" q1] Suc.prems sc
    by (simp add: lv2_append_def case_prod_beta Let_def del: append_fold)
qed simp

text \<open>What a post does when the lock-free attempt fails, in terms of the list of woken threads.\<close>

lemma sema_post_slow:
  assumes "sema_inv s" and "\<forall>u. \<not> has_again (thr ks) u" and "0 < cnt" and "cnt \<le> sm_max s - sm_val s"
    and "sema_post_fast (h_cas h) s cnt = None"
    and "schedule_n (thr ks) (sm_protocol s) (nat (min (int (length (sm_sq s))) cnt)) (sm_sq s) = (ts, q)"
  shows "sys_semaphore_post h ks s t cnt =
    ((if ts = [] then ks else awake_list h t ts ks), s\<lparr>sm_val := sm_val s + cnt, sm_sq := q\<rparr>, Ok)"
    and "length ts = nat (min (int (length (sm_sq s))) cnt)"
proof -
  have b: "sm_max s < 2 ^ 31" "sm_val s \<le> sm_max s" "int (length (sm_sq s)) = - (min (sm_val s) 0)" "distinct (sm_sq s)"
    "int (length (sm_sq s)) < 2 ^ 31" using assms(1) by (auto simp: sema_inv_def)
  have lo: "- (2 ^ 31) < sm_val s" using b(3,5) by simp
  let ?n = "nat (min (int (length (sm_sq s))) cnt)"
  have n: "?n \<le> length (sm_sq s)" by linarith
  show len: "length ts = ?n" using schedule_n_split(1) [OF assms(2) b(4) n assms(6)] .
  have w: "sema_wake ?n (sm_protocol s) (sm_sq s) ks = (fold lv2_append ts ks, q)"
    using sema_wake_spec [OF assms(2) n] assms(6) by simp
  have u: "u32_of_int cnt = cnt" "u32_of_int (sm_max s - sm_val s) = sm_max s - sm_val s"
    using assms(3,4) b lo by (auto intro!: u32_of_int_id)
  have v: "s32 (sm_val s + cnt) = sm_val s + cnt" using assms(3,4) b lo by (intro s32_id) auto
  have aw: "- (min (sm_val s) 0) = int (length (sm_sq s))" using b(3) by simp
  have nil: "ts = [] \<longleftrightarrow> \<not> 0 < min (int (length (sm_sq s))) cnt"
    by (metis len length_0_conv nat_0_iff not_less)
  show "sys_semaphore_post h ks s t cnt =
    ((if ts = [] then ks else awake_list h t ts ks), s\<lparr>sm_val := sm_val s + cnt, sm_sq := q\<rparr>, Ok)"
    using assms(2-5) nil unfolding sys_semaphore_post_def aw
    by (simp add: u v w Let_def awake_list_def)
qed

section \<open>The semaphore as a waiting object\<close>

datatype sema_op = Sem_wait u64 | Sem_trywait | Sem_post int | Sem_get_value

fun sema_call :: "host \<Rightarrow> sema_op \<Rightarrow> tid \<Rightarrow> kstate \<Rightarrow> lv2_sema \<Rightarrow> kstate \<times> lv2_sema \<times> sysres" where
  "sema_call h (Sem_wait timeout) t ks s = sys_semaphore_wait h ks s t timeout"
| "sema_call h Sem_trywait t ks s = (case sys_semaphore_trywait s of (s', r) \<Rightarrow> (ks, s', r))"
| "sema_call h (Sem_post n) t ks s = sys_semaphore_post h ks s t n"
| "sema_call h Sem_get_value t ks s = (ks, s, Value (word_of_int (sys_semaphore_get_value s)))"

text \<open>The argument of a post is a 32-bit integer and there are fewer threads than \<open>2 ^ 31\<close>.\<close>

definition sema_call_ok :: "sema_op \<Rightarrow> tid \<Rightarrow> kstate \<Rightarrow> lv2_sema \<Rightarrow> bool" where
  "sema_call_ok c t ks s \<longleftrightarrow>
     int (length (sm_sq s)) + 1 < 2 ^ 31 \<and> (case c of Sem_post n \<Rightarrow> - (2 ^ 31) \<le> n \<and> n < 2 ^ 31 | _ \<Rightarrow> True)"

lemma sema_post_effect:
  assumes inv: "sema_inv s" and calm: "kernel_calm ks" and t: "t \<notin> set (sm_sq s)" and n: "n < 2 ^ 31"
    and c: "sys_semaphore_post h ks s t n = (ks', s', r)"
  shows "sema_inv s' \<and> op_effect t (sm_sq s) (sm_sq s') ks ks' (phase_of r)"
proof -
  have ag: "\<forall>u. \<not> has_again (thr ks) u" using kernel_calmD(4) [OF calm] by blast
  have same: "op_effect t (sm_sq s) (sm_sq s) ks ks Idle" using calm t by (intro op_effect_none) auto
  show ?thesis
  proof (cases "sema_post_fast (h_cas h) s n")
    case (Some s1)
    then show ?thesis using c inv same
      by (auto simp: sys_semaphore_post_def sema_post_fast_def sema_inv_def split: if_splits)
  next
    case None
    show ?thesis
    proof (cases "0 < n \<and> n \<le> sm_max s - sm_val s")
      case True
      let ?n = "nat (min (int (length (sm_sq s))) n)"
      obtain ts q where sn: "schedule_n (thr ks) (sm_protocol s) ?n (sm_sq s) = (ts, q)" by fastforce
      note sl = sema_post_slow [OF inv ag _ _ None sn]
      have d: "distinct (sm_sq s)" "?n \<le> length (sm_sq s)" "0 \<notin> set (sm_sq s)" using inv by (auto simp: sema_inv_def)
      note sp = schedule_n_split [OF ag d(1,2) sn]
      have e: "ks' = (if ts = [] then ks else awake_list h t ts ks)" "s' = s\<lparr>sm_val := sm_val s + n, sm_sq := q\<rparr>" "r = Ok"
        using sl(1) [of t] True c by auto
      have "int (length q) = int (length (sm_sq s)) - min (int (length (sm_sq s))) n" using sp(2) True d(2) by linarith
      then have "sema_inv s'" using inv sp True e(2) by (auto simp: sema_inv_def)
      moreover have "op_effect t (sm_sq s) q ks ks' Idle"
      proof (cases "ts = []")
        case True
        then show ?thesis using e(1) sp(4) same calm t by (intro op_effect_none) auto
      next
        case False
        then show ?thesis using e(1) sp d t calm by (auto intro!: op_effect_wake)
      qed
      ultimately show ?thesis using e by simp
    next
      case False
      have "\<not> u32_of_int n \<le> u32_of_int (sm_max s - sm_val s)" if "0 < n"
      proof -
        have "u32_of_int (sm_max s - sm_val s) = sm_max s - sm_val s"
          using inv by (intro u32_of_int_id) (auto simp: sema_inv_def)
        moreover have "u32_of_int n = n" using that n by (intro u32_of_int_id) auto
        ultimately show ?thesis using that False by simp
      qed
      then have "ks' = ks \<and> s' = s \<and> phase_of r = Idle"
        using c None ag by (auto simp: sys_semaphore_post_def split: if_splits)
      then show ?thesis using inv same by simp
    qed
  qed
qed

lemma sema_wait_effect:
  assumes inv: "sema_inv s" and calm: "kernel_calm ks" and t: "may_call ks t" "t \<notin> set (sm_sq s)"
    and len: "int (length (sm_sq s)) + 1 < 2 ^ 31"
    and c: "sys_semaphore_wait h ks s t timeout = (ks', s', r)"
  shows "sema_inv s' \<and> op_effect t (sm_sq s) (sm_sq s') ks ks' (phase_of r)"
proof -
  have same: "op_effect t (sm_sq s) (sm_sq s) ks ks Idle" using calm t by (intro op_effect_none) auto
  have "- (2 ^ 31) \<le> sm_val s - 1" using inv len by (simp add: sema_inv_def)
  then have v: "s32 (sm_val s - 1) = sm_val s - 1" using inv by (intro s32_id) (auto simp: sema_inv_def)
  show ?thesis
  proof (cases "0 < sm_val s")
    case True
    then have "ks' = ks" "s' = s\<lparr>sm_val := sm_val s - 1\<rparr>" "r = Ok"
      using c v by (auto simp: sys_semaphore_wait_def sema_wait_fast_def Let_def split: if_splits)
    then show ?thesis using True inv same by (auto simp: sema_inv_def)
  next
    case False
    then have e: "ks' = fst (block_self h t timeout (sm_sq s) ks)" "s' = s\<lparr>sm_val := sm_val s - 1, sm_sq := t # sm_sq s\<rparr>" "r = Blocked"
      using c v by (auto simp: sys_semaphore_wait_def sema_wait_fast_def Let_def case_prod_beta)
    have "t \<noteq> 0" using t(1) by (simp add: may_call_def)
    then show ?thesis
      using e False inv t len op_effect_block [OF calm t(1), of "t # sm_sq s" "sm_sq s"] by (auto simp: sema_inv_def)
  qed
qed

lemma sema_timeout_effect:
  assumes inv: "sema_inv s" and calm: "kernel_calm ks" and c: "sema_wait_timeout ks s t = (ks', s')"
  shows "sema_inv s' \<and> op_effect t (sm_sq s) (sm_sq s') ks ks' Idle"
proof (cases "t \<in> set (sm_sq s)")
  case True
  then have "0 < length (sm_sq s)" by (rule length_pos_if_in_set)
  then have neg: "sm_val s < 0" using inv unfolding sema_inv_def by linarith
  have e: "ks' = set_reg t 3 (errval CELL_ETIMEDOUT) ks" "s' = s\<lparr>sm_sq := remove1 t (sm_sq s), sm_val := sm_val s + 1\<rparr>"
    using c True neg by (auto simp: sema_wait_timeout_def unqueue_def ensure_def)
  have d: "distinct (sm_sq s)" using inv by (simp add: sema_inv_def)
  have "int (length (remove1 t (sm_sq s))) = - (min (sm_val s + 1) 0)"
    using length_remove1_member [OF True] inv neg by (auto simp: sema_inv_def)
  then have "sema_inv s'" using e inv neg by (auto simp: sema_inv_def dest: notin_set_remove1)
  moreover have "op_effect t (sm_sq s) (remove1 t (sm_sq s)) ks ks' Idle"
    using calm d e frame_sched [OF frame_set_reg] by (intro op_effect_none) (auto simp: kernel_calm_own)
  ultimately show ?thesis using e by simp
next
  case False
  then have "ks' = ks" "s' = s" using c by (auto simp: sema_wait_timeout_def unqueue_def)
  then show ?thesis using inv calm False by (auto intro!: op_effect_none)
qed

definition sema_tmo :: "host \<Rightarrow> tid \<Rightarrow> kstate \<Rightarrow> lv2_sema \<Rightarrow> kstate \<times> lv2_sema \<times> sysres" where
  "sema_tmo h t ks s = ends_wait (sema_wait_timeout ks s t)"

interpretation sem: wait_object sm_sq "\<lambda>_. sema_inv" sema_call_ok sema_call sema_tmo
proof unfold_locales
  fix ob ks t c h ks' ob' r
  assume inv: "sema_inv ob" and calm: "kernel_calm ks" and t: "may_call ks t" "t \<notin> set (sm_sq ob)"
    and ok: "sema_call_ok c t ks ob" and c: "sema_call h c t ks ob = (ks', ob', r)"
  have same: "op_effect t (sm_sq ob) (sm_sq ob) ks ks Idle" using calm t by (intro op_effect_none) auto
  show "sema_inv ob' \<and> op_effect t (sm_sq ob) (sm_sq ob') ks ks' (phase_of r)"
  proof (cases c)
    case (Sem_wait timeout)
    then show ?thesis using sema_wait_effect [OF inv calm t] ok c by (simp add: sema_call_ok_def)
  next
    case Sem_trywait
    then show ?thesis using c inv same by (auto simp: sys_semaphore_trywait_def sema_inv_def split: if_splits)
  next
    case (Sem_post n)
    then show ?thesis using sema_post_effect [OF inv calm t(2), of n h ks' ob' r] ok c by (simp add: sema_call_ok_def)
  next
    case Sem_get_value
    then show ?thesis using c inv same by auto
  qed
next
  fix ob ks t h ks' ob' r
  assume a: "sema_inv ob" "kernel_calm ks" and "sema_tmo h t ks ob = (ks', ob', r)"
  then have "sema_wait_timeout ks ob t = (ks', ob')" "r = Ok" by (auto simp: sema_tmo_def ends_wait_def)
  then show "sema_inv ob' \<and> op_effect t (sm_sq ob) (sm_sq ob') ks ks' (phase_of r)" using sema_timeout_effect [OF a] by simp
qed

section \<open>Properties\<close>

text \<open>
  C15: In every state that interleaved semaphore calls reach, the value is at most the maximum, a
  negative value is exactly the number of queued threads, no \<^verbatim>\<open>ensure\<close> of the semaphore or of the scheduler has
  failed, and a waiting thread is either queued and parked or runnable.
\<close>

theorem semaphore_safe:
  assumes "wstart (\<lambda>_. sema_inv) sm_sq s0"
    and "(wstep sm_sq sema_call_ok sema_call sema_tmo)\<^sup>*\<^sup>* s0 s"
  shows "sm_val (ws_obj s) \<le> sm_max (ws_obj s) \<and> int (length (sm_sq (ws_obj s))) = - (min (sm_val (ws_obj s)) 0) \<and>
    waiters_safe sm_sq s"
  using winvar_safe [OF sem.reachable_inv [OF assms(2,1)]] by (simp add: sema_inv_def)

definition demo_sema :: lv2_sema where
  "demo_sema = \<lparr>sm_protocol = SYS_SYNC_FIFO, sm_key = 0, sm_name = 0, sm_max = 5, sm_val = 0, sm_sq = []\<rparr>"

lemma demo_sema_inv: "sema_inv demo_sema"
  by (simp add: sema_inv_def demo_sema_def)

theorem semaphore_safe_witness:
  "\<exists>s. (wstep sm_sq sema_call_ok sema_call sema_tmo)\<^sup>*\<^sup>* (demo_wsys demo_sema) s \<and>
     sm_val (ws_obj s) = - 1 \<and> length (sm_sq (ws_obj s)) = 1"
proof -
  let ?ob = "demo_sema\<lparr>sm_val := - 1, sm_sq := [1]\<rparr>"
  let ?step = "wstep sm_sq sema_call_ok sema_call sema_tmo"
  have "sema_call demo_host (Sem_wait 0) 1 demo_ks demo_sema = (fst (block_self demo_host 1 0 [] demo_ks), ?ob, Blocked)"
    by (simp add: sys_semaphore_wait_def sema_wait_fast_def demo_sema_def Let_def case_prod_beta s32_id)
  from demo_call [where cok = sema_call_ok and call = sema_call, OF _ this] obtain s where s: "?step (demo_wsys demo_sema) s" "ws_obj s = ?ob"
    by (fastforce simp: sema_call_ok_def demo_sema_def)
  then show ?thesis
    using semaphore_safe [OF demo_wstart [of "\<lambda>_. sema_inv", OF demo_sema_inv] r_into_rtranclp [of ?step, OF s(1)]]
    by (intro exI [of _ s]) (auto simp: demo_sema_def)
qed

text \<open>
  C16: A post is refused with \<^verbatim>\<open>CELL_EINVAL\<close> when its count is not positive and with \<^verbatim>\<open>CELL_EBUSY\<close>
  exactly when the value would exceed the maximum, and then changes nothing. Otherwise the value grows by the count
  and exactly as many waiters as there are tokens for leave the queue, in the order of the protocol, and become runnable.
\<close>

theorem semaphore_post:
  assumes "sema_inv s" and "kernel_calm ks" and "t \<notin> set (sm_sq s)" and "cnt < 2 ^ 31"
    and "sys_semaphore_post h ks s t cnt = (ks', s', r)"
  shows "(cnt \<le> 0 \<longrightarrow> r = Err CELL_EINVAL \<and> s' = s \<and> ks' = ks) \<and>
    (0 < cnt \<longrightarrow> sm_max s < sm_val s + cnt \<longrightarrow> r = Err CELL_EBUSY \<and> s' = s \<and> ks' = ks) \<and>
    (0 < cnt \<longrightarrow> sm_val s + cnt \<le> sm_max s \<longrightarrow> r = Ok \<and> sm_val s' = sm_val s + cnt \<and>
       (\<exists>ts. schedule_n (thr ks) (sm_protocol s) (nat (min (int (length (sm_sq s))) cnt)) (sm_sq s) = (ts, sm_sq s') \<and>
          length ts = nat (min (int (length (sm_sq s))) cnt) \<and> set ts \<subseteq> set (g_ppu ks')))"
proof (intro conjI impI)
  have ag: "\<forall>u. \<not> has_again (thr ks) u" using kernel_calmD(4) [OF assms(2)] by blast
  have u: "u32_of_int (sm_max s - sm_val s) = sm_max s - sm_val s"
    using assms(1) by (intro u32_of_int_id) (auto simp: sema_inv_def)
  have un: "u32_of_int cnt = cnt" if "0 < cnt" using that assms(4) by (intro u32_of_int_id) auto
  show "r = Err CELL_EINVAL" "s' = s" "ks' = ks" if "cnt \<le> 0"
    using assms(5) that by (auto simp: sys_semaphore_post_def sema_post_fast_def)
  show "r = Err CELL_EBUSY" "s' = s" "ks' = ks" if "0 < cnt" "sm_max s < sm_val s + cnt"
    using assms(5) that ag un [OF that(1)] u by (auto simp: sys_semaphore_post_def sema_post_fast_def split: if_splits)
  assume pos: "0 < cnt" and le: "sm_val s + cnt \<le> sm_max s"
  let ?n = "nat (min (int (length (sm_sq s))) cnt)"
  obtain ts q where sn: "schedule_n (thr ks) (sm_protocol s) ?n (sm_sq s) = (ts, q)" by fastforce
  have *: "r = Ok \<and> sm_val s' = sm_val s + cnt \<and> sm_sq s' = q \<and> length ts = ?n \<and> set ts \<subseteq> set (g_ppu ks')"
  proof (cases "sema_post_fast (h_cas h) s cnt")
    case (Some s1)
    then have "0 \<le> sm_val s" "s1 = s\<lparr>sm_val := sm_val s + cnt\<rparr>" by (auto simp: sema_post_fast_def split: if_splits)
    then show ?thesis using assms(1,5) Some sn pos by (auto simp: sys_semaphore_post_def sema_inv_def)
  next
    case None
    have "cnt \<le> sm_max s - sm_val s" using le by simp
    note sl = sema_post_slow [OF assms(1) ag pos this None sn]
    have n: "distinct (sm_sq s)" "?n \<le> length (sm_sq s)" "0 \<notin> set (sm_sq s)" using assms(1) by (auto simp: sema_inv_def)
    have "0 \<notin> set ts" using schedule_n_split(5) [OF ag n(1,2) sn] n(3) by auto
    then show ?thesis using sl(1) [of t] sl(2) assms(5) awake_list_effect(2) [OF assms(2), of ts h t] by auto
  qed
  then show "r = Ok" "sm_val s' = sm_val s + cnt" by auto
  show "\<exists>ts. schedule_n (thr ks) (sm_protocol s) ?n (sm_sq s) = (ts, sm_sq s') \<and> length ts = ?n \<and> set ts \<subseteq> set (g_ppu ks')"
    using * sn by (intro exI [of _ ts]) auto
qed

theorem semaphore_post_witness:
  "\<exists>ks' s'. sys_semaphore_post demo_host demo_ks demo_sema 1 2 = (ks', s', Ok) \<and> sm_val s' = 2"
proof -
  obtain ks' s' r where p: "sys_semaphore_post demo_host demo_ks demo_sema 1 2 = (ks', s', r)" using prod_cases3 by blast
  from semaphore_post [OF demo_sema_inv demo_calm _ _ p] show ?thesis
    unfolding p by (simp add: demo_sema_def)
qed

end
