(* ===== verification/Sys_Rwlock.thy ===== *)
theory Sys_Rwlock
  imports Wait_Object
begin

text \<open>
  The reader-writer lock of \<^verbatim>\<open>rpcs3/Emu/Cell/lv2/sys_rwlock.h\<close> and \<^verbatim>\<open>sys_rwlock.cpp\<close>. The whole
  state of the lock is one signed 64-bit word: zero when free, twice the identifier of the writer, or minus
  twice the number of readers; the lowest bit says that threads wait. Readers and writers wait in separate queues.
  The word does not name the readers, so the lock is also modelled with a ghost record of who holds it, and the
  invariant relates the word to the record. A thread that waits for
  the write lock reads the word twice; only the thread itself could make it name that thread, so the second
  test for a deadlock repeats the first.
\<close>

record lv2_rwlock =
  rw_protocol :: lv2_protocol
  rw_key :: u64
  rw_name :: u64
  rw_owner :: int
  rw_rq :: "tid list"
  rw_wq :: "tid list"

record sys_rwlock_attribute =
  ra_protocol :: u32
  ra_pshared :: u32
  ra_ipc_key :: u64
  ra_flags :: int
  ra_name :: u64

section \<open>The system calls\<close>

definition sys_rwlock_make :: "u64 \<Rightarrow> sys_rwlock_attribute \<Rightarrow> CellError + lv2_rwlock" where
  "sys_rwlock_make ipc_key attr =
     (case protocol_of (ra_protocol attr) of
        Some p \<Rightarrow>
          if p = SYS_SYNC_FIFO \<or> p = SYS_SYNC_PRIORITY
          then Inr \<lparr>rw_protocol = p, rw_key = ipc_key, rw_name = ra_name attr, rw_owner = 0, rw_rq = [], rw_wq = []\<rparr>
          else Inl CELL_EINVAL
      | None \<Rightarrow> Inl CELL_EINVAL)"

definition rwlock_destroy_check :: "lv2_rwlock \<Rightarrow> CellError option" where
  "rwlock_destroy_check rw = (if rw_owner rw \<noteq> 0 then Some CELL_EBUSY else None)"

text \<open>The test \<^verbatim>\<open>val <= 0 && !(val & 1)\<close>: free or held by readers, and nobody waits.\<close>

definition read_free :: "int \<Rightarrow> bool" where
  "read_free val \<longleftrightarrow> val \<le> 0 \<and> val AND 1 = 0"

definition sys_rwlock_rlock :: "host \<Rightarrow> kstate \<Rightarrow> lv2_rwlock \<Rightarrow> tid \<Rightarrow> u64 \<Rightarrow> kstate \<times> lv2_rwlock \<times> sysres" where
  "sys_rwlock_rlock h ks rw t timeout =
     (let val = rw_owner rw in
      if read_free val \<and> h_cas h then (ks, rw\<lparr>rw_owner := s64 (val - 2)\<rparr>, Ok)
      else
        let rw1 = rw\<lparr>rw_owner := (if read_free val then s64 (val - 2) else val OR 1)\<rparr>
        in if val > 0 \<or> val AND 1 \<noteq> 0
           then case block_self h t timeout (rw_rq rw) ks of (ks1, q) \<Rightarrow> (ks1, rw1\<lparr>rw_rq := q\<rparr>, Blocked)
           else (ks, rw1, Ok))"

definition rwlock_rlock_timeout :: "kstate \<Rightarrow> lv2_rwlock \<Rightarrow> tid \<Rightarrow> kstate \<times> lv2_rwlock" where
  "rwlock_rlock_timeout ks rw t =
     (case unqueue t (rw_rq rw) of
        (None, _) \<Rightarrow> (ks, rw)
      | (Some _, q) \<Rightarrow> (set_reg t 3 (errval CELL_ETIMEDOUT) ks, rw\<lparr>rw_rq := q\<rparr>))"

definition sys_rwlock_tryrlock :: "lv2_rwlock \<Rightarrow> lv2_rwlock \<times> sysres" where
  "sys_rwlock_tryrlock rw =
     (if read_free (rw_owner rw) then (rw\<lparr>rw_owner := s64 (rw_owner rw - 2)\<rparr>, Ok) else (rw, Err CELL_EBUSY))"

text \<open>\<^verbatim>\<open>cpu->id << 1 | !!wq | !!rq\<close>, in unsigned 32-bit arithmetic.\<close>

definition rw_word :: "tid \<Rightarrow> tid list \<Rightarrow> tid list \<Rightarrow> int" where
  "rw_word t wq rq = uint (push_bit 1 t OR of_bool (wq \<noteq> []) OR of_bool (rq \<noteq> []))"

definition sys_rwlock_runlock :: "host \<Rightarrow> kstate \<Rightarrow> lv2_rwlock \<Rightarrow> tid \<Rightarrow> kstate \<times> lv2_rwlock \<times> sysres" where
  "sys_rwlock_runlock h ks rw t =
     (let val = rw_owner rw in
      if val < 0 \<and> val AND 1 = 0 \<and> h_cas h then (ks, rw\<lparr>rw_owner := val + 2\<rparr>, Ok)
      else
        let rw1 = rw\<lparr>rw_owner := (if val < - 1 then val + 2 else val)\<rparr>
        in if val \<ge> 0 then (ks, rw1, Err CELL_EPERM)
           else if val = - 1 then
             (case schedule (thr ks) (rw_protocol rw) (rw_wq rw) of
                (Some cpu, wq) \<Rightarrow>
                  if has_again (thr ks) cpu then (raise t F_again ks, rw1\<lparr>rw_wq := wq\<rparr>, Restart)
                  else (awake_one h t cpu ks, rw1\<lparr>rw_wq := wq, rw_owner := rw_word cpu wq (rw_rq rw)\<rparr>, Ok)
              | (None, wq) \<Rightarrow> (ensure (rw_rq rw = []) ks, rw1\<lparr>rw_wq := wq, rw_owner := 0\<rparr>, Ok))
           else (ks, rw1, Ok))"

definition sys_rwlock_wlock :: "host \<Rightarrow> kstate \<Rightarrow> lv2_rwlock \<Rightarrow> tid \<Rightarrow> u64 \<Rightarrow> kstate \<times> lv2_rwlock \<times> sysres" where
  "sys_rwlock_wlock h ks rw t timeout =
     (let val = rw_owner rw in
      if val = 0 \<and> h_cas h then (ks, rw\<lparr>rw_owner := rw_word t [] []\<rparr>, Ok)
      else if val \<noteq> 0 \<and> val div 2 = uint t then (ks, rw, Err CELL_EDEADLK)
      else
        let rw1 = rw\<lparr>rw_owner := (if val = 0 then rw_word t [] [] else val OR 1)\<rparr>
        in if val \<noteq> 0
           then case block_self h t timeout (rw_wq rw) ks of (ks1, q) \<Rightarrow> (ks1, rw1\<lparr>rw_wq := q\<rparr>, Blocked)
           else (ks, rw1, Ok))"

text \<open>
  A writer that gives up lets the blocked readers in when it was the last writer and readers hold
  the lock. \<open>None\<close>: the loop over the readers does not end.
\<close>

definition rwlock_wlock_timeout :: "host \<Rightarrow> kstate \<Rightarrow> lv2_rwlock \<Rightarrow> tid \<Rightarrow> (kstate \<times> lv2_rwlock) option" where
  "rwlock_wlock_timeout h ks rw t =
     (case unqueue t (rw_wq rw) of
        (None, _) \<Rightarrow> Some (ks, rw)
      | (Some _, wq) \<Rightarrow>
          map_option (\<lambda>(ks1, rw1). (set_reg t 3 (errval CELL_ETIMEDOUT) ks1, rw1))
            (if rw_rq rw \<noteq> [] \<and> wq = [] \<and> rw_owner rw < 0 then
               map_option
                 (\<lambda>ts. (awake_all (fold lv2_append ts ks) (Some t) (h_now h) (h_tsc h),
                         rw\<lparr>rw_wq := wq, rw_rq := [], rw_owner := s64 (rw_owner rw - 2 * int (length ts)) AND - 2\<rparr>))
                 (schedule_loop (thr ks) SYS_SYNC_FIFO (rw_rq rw))
             else if rw_rq rw = [] \<and> wq = [] then Some (ks, rw\<lparr>rw_wq := wq, rw_owner := rw_owner rw AND - 2\<rparr>)
             else Some (ks, rw\<lparr>rw_wq := wq\<rparr>)))"

definition sys_rwlock_trywlock :: "lv2_rwlock \<Rightarrow> tid \<Rightarrow> lv2_rwlock \<times> sysres" where
  "sys_rwlock_trywlock rw t =
     (let val = rw_owner rw in
      if val \<noteq> 0 then (rw, if val div 2 = uint t then Err CELL_EDEADLK else Err CELL_EBUSY)
      else (rw\<lparr>rw_owner := rw_word t [] []\<rparr>, Ok))"

definition sys_rwlock_wunlock :: "host \<Rightarrow> kstate \<Rightarrow> lv2_rwlock \<Rightarrow> tid \<Rightarrow> (kstate \<times> lv2_rwlock \<times> sysres) option" where
  "sys_rwlock_wunlock h ks rw t =
     (let val = rw_owner rw; rw1 = (if val = rw_word t [] [] then rw\<lparr>rw_owner := 0\<rparr> else rw)
      in if val div 2 \<noteq> uint t then Some (ks, rw1, Err CELL_EPERM)
         else if val AND 1 \<noteq> 0 then
           (case schedule (thr ks) (rw_protocol rw) (rw_wq rw) of
              (Some cpu, wq) \<Rightarrow>
                Some (if has_again (thr ks) cpu then (raise t F_again ks, rw1\<lparr>rw_wq := wq\<rparr>, Restart)
                      else (awake_one h t cpu ks, rw1\<lparr>rw_wq := wq, rw_owner := rw_word cpu wq (rw_rq rw)\<rparr>, Ok))
            | (None, wq) \<Rightarrow>
                if rw_rq rw \<noteq> [] then
                  if \<exists>u \<in> set (rw_rq rw). has_again (thr ks) u then Some (raise t F_again ks, rw1\<lparr>rw_wq := wq\<rparr>, Restart)
                  else map_option
                    (\<lambda>ts. (awake_all (fold lv2_append ts ks) (Some t) (h_now h) (h_tsc h),
                            rw1\<lparr>rw_wq := wq, rw_rq := [], rw_owner := - 2 * int (length ts)\<rparr>, Ok))
                    (schedule_loop (thr ks) SYS_SYNC_FIFO (rw_rq rw))
                else Some (ks, rw1\<lparr>rw_wq := wq, rw_owner := 0\<rparr>, Ok))
         else Some (ks, rw1, Ok))"

section \<open>The invariant\<close>

text \<open>How many readers the word counts.\<close>

definition rw_readers :: "lv2_rwlock \<Rightarrow> int" where
  "rw_readers rw = (if rw_owner rw \<le> 0 then - (rw_owner rw div 2) else 0)"

definition rw_inv :: "lv2_rwlock \<Rightarrow> bool" where
  "rw_inv rw \<longleftrightarrow>
     distinct (rw_rq rw @ rw_wq rw) \<and> (\<forall>u \<in> set (rw_rq rw @ rw_wq rw). u \<noteq> 0 \<and> uint u < 2 ^ 31) \<and>
     (even (rw_owner rw) \<longrightarrow> rw_rq rw = [] \<and> rw_wq rw = []) \<and>
     (rw_owner rw < 0 \<longrightarrow> odd (rw_owner rw) \<longrightarrow> rw_wq rw \<noteq> []) \<and>
     (0 < rw_owner rw \<longrightarrow> 2 \<le> rw_owner rw \<and> rw_owner rw < 2 ^ 32) \<and>
     rw_readers rw + int (length (rw_rq rw)) < 2 ^ 60"

text \<open>
  The ghost record of the holders: every thread that took the lock, for reading or for writing, and has not released it.
  It is updated from what a call returns to its thread and from who leaves a queue without a timeout, not from the word.
\<close>

record rw_ghost =
  rg_rw :: lv2_rwlock
  rg_readers :: "tid multiset"
  rg_writers :: "tid multiset"

datatype rw_op = Rlock u64 | Tryrlock | Runlock | Wlock u64 | Trywlock | Wunlock

definition rg_woken :: "tid \<Rightarrow> tid list \<Rightarrow> tid list \<Rightarrow> tid list" where
  "rg_woken t q q' = filter (\<lambda>u. u \<noteq> t \<and> u \<notin> set q') q"

definition rg_grant :: "tid \<Rightarrow> lv2_rwlock \<Rightarrow> rw_ghost \<Rightarrow> rw_ghost" where
  "rg_grant t rw' g =
     g\<lparr>rg_rw := rw', rg_readers := rg_readers g + mset (rg_woken t (rw_rq (rg_rw g)) (rw_rq rw')),
       rg_writers := rg_writers g + mset (rg_woken t (rw_wq (rg_rw g)) (rw_wq rw'))\<rparr>"

fun rg_own :: "rw_op \<Rightarrow> tid \<Rightarrow> sysres \<Rightarrow> rw_ghost \<Rightarrow> rw_ghost" where
  "rg_own (Rlock _) t r g = (if r = Ok then g\<lparr>rg_readers := add_mset t (rg_readers g)\<rparr> else g)"
| "rg_own Tryrlock t r g = (if r = Ok then g\<lparr>rg_readers := add_mset t (rg_readers g)\<rparr> else g)"
| "rg_own Runlock t r g = (if r = Ok then g\<lparr>rg_readers := rg_readers g - {#t#}\<rparr> else g)"
| "rg_own (Wlock _) t r g = (if r = Ok then g\<lparr>rg_writers := add_mset t (rg_writers g)\<rparr> else g)"
| "rg_own Trywlock t r g = (if r = Ok then g\<lparr>rg_writers := add_mset t (rg_writers g)\<rparr> else g)"
| "rg_own Wunlock t r g = (if r = Ok then g\<lparr>rg_writers := rg_writers g - {#t#}\<rparr> else g)"

fun rwlock_call :: "host \<Rightarrow> rw_op \<Rightarrow> tid \<Rightarrow> kstate \<Rightarrow> lv2_rwlock \<Rightarrow> (kstate \<times> lv2_rwlock \<times> sysres) option" where
  "rwlock_call h (Rlock timeout) t ks rw = Some (sys_rwlock_rlock h ks rw t timeout)"
| "rwlock_call h Tryrlock t ks rw = Some (case sys_rwlock_tryrlock rw of (rw', r) \<Rightarrow> (ks, rw', r))"
| "rwlock_call h Runlock t ks rw = Some (sys_rwlock_runlock h ks rw t)"
| "rwlock_call h (Wlock timeout) t ks rw = Some (sys_rwlock_wlock h ks rw t timeout)"
| "rwlock_call h Trywlock t ks rw = Some (case sys_rwlock_trywlock rw t of (rw', r) \<Rightarrow> (ks, rw', r))"
| "rwlock_call h Wunlock t ks rw = sys_rwlock_wunlock h ks rw t"

definition rg_call :: "host \<Rightarrow> rw_op \<Rightarrow> tid \<Rightarrow> kstate \<Rightarrow> rw_ghost \<Rightarrow> kstate \<times> rw_ghost \<times> sysres" where
  "rg_call h c t ks g =
     (case rwlock_call h c t ks (rg_rw g) of
        None \<Rightarrow> (ks, g, Restart)
      | Some (ks', rw', r) \<Rightarrow> (ks', rg_grant t rw' (rg_own c t r g), r))"

definition rwlock_timeout :: "host \<Rightarrow> tid \<Rightarrow> kstate \<Rightarrow> lv2_rwlock \<Rightarrow> (kstate \<times> lv2_rwlock) option" where
  "rwlock_timeout h t ks rw =
     (if t \<in> set (rw_wq rw) then rwlock_wlock_timeout h ks rw t else Some (rwlock_rlock_timeout ks rw t))"

definition rg_timeout :: "host \<Rightarrow> tid \<Rightarrow> kstate \<Rightarrow> rw_ghost \<Rightarrow> kstate \<times> rw_ghost \<times> sysres" where
  "rg_timeout h t ks g =
     (case rwlock_timeout h t ks (rg_rw g) of None \<Rightarrow> (ks, g, Ok) | Some (ks', rw') \<Rightarrow> (ks', rg_grant t rw' g, Ok))"

definition rg_inv :: "rw_ghost \<Rightarrow> bool" where
  "rg_inv g \<longleftrightarrow> rw_inv (rg_rw g) \<and> int (size (rg_readers g)) = rw_readers (rg_rw g) \<and>
     (if rg_writers g = {#} then rw_owner (rg_rw g) \<le> 0
      else \<exists>w. rg_writers g = {#w#} \<and> 0 < uint w \<and> rw_owner (rg_rw g) div 2 = uint w)"

text \<open>
  A thread identifier has 31 bits. The lock does not record its readers: a thread that releases a
  read lock holds one, or nobody does.
\<close>

definition rg_call_ok :: "rw_op \<Rightarrow> tid \<Rightarrow> kstate \<Rightarrow> rw_ghost \<Rightarrow> bool" where
  "rg_call_ok c t ks g \<longleftrightarrow>
     uint t < 2 ^ 31 \<and> (c = Runlock \<longrightarrow> t \<in># rg_readers g \<or> rg_readers g = {#}) \<and>
     rw_readers (rg_rw g) + int (length (rw_rq (rg_rw g))) + 1 < 2 ^ 60"

section \<open>Every call keeps the invariant\<close>

lemma and_1_iff [simp]: "(k :: int) AND 1 = 0 \<longleftrightarrow> even k"
  by (simp add: and_one_eq even_iff_mod_2_eq_zero)

lemma read_free_iff: "read_free val \<longleftrightarrow> val \<le> 0 \<and> even val"
  by (simp add: read_free_def)

lemma rw_word_eq: "uint t < 2 ^ 31 \<Longrightarrow> rw_word t wq rq = 2 * uint t + of_bool (wq \<noteq> [] \<or> rq \<noteq> [])"
  unfolding rw_word_def by (rule uint_push_flags)

lemma rg_woken_simps [simp]:
  "rg_woken t q q = []" "rg_woken t q (t # q) = []" "t \<notin> set q \<Longrightarrow> rg_woken t q [] = q"
  "distinct q \<Longrightarrow> rg_woken t q (remove1 t q) = []"
  by (auto simp: rg_woken_def filter_empty_conv filter_id_conv)

lemma rg_woken_remove1:
  assumes "distinct q" and "u \<in> set q" and "t \<noteq> u"
  shows "rg_woken t q (remove1 u q) = [u]"
proof -
  have "rg_woken t q (remove1 u q) = filter (\<lambda>x. x = u) q"
    unfolding rg_woken_def using assms by (intro filter_cong) auto
  also have "\<dots> = [u]" using assms(1,2) by (induction q) (auto simp: filter_empty_conv)
  finally show ?thesis .
qed

lemma rw_rlock_eq:
  assumes "rw_inv rw" and "rw_readers rw + int (length (rw_rq rw)) + 1 < 2 ^ 60"
  shows "sys_rwlock_rlock h ks rw t timeout =
    (if rw_owner rw \<le> 0 \<and> even (rw_owner rw) then (ks, rw\<lparr>rw_owner := rw_owner rw - 2\<rparr>, Ok)
     else (fst (block_self h t timeout (rw_rq rw) ks),
           rw\<lparr>rw_owner := 2 * (rw_owner rw div 2) + 1, rw_rq := t # rw_rq rw\<rparr>, Blocked))"
    and "rw_owner rw \<le> 0 \<Longrightarrow> even (rw_owner rw) \<Longrightarrow> sys_rwlock_tryrlock rw = (rw\<lparr>rw_owner := rw_owner rw - 2\<rparr>, Ok)"
proof -
  have "s64 (rw_owner rw - 2) = rw_owner rw - 2" if "rw_owner rw \<le> 0"
    using that assms(2) by (intro s64_id) (auto simp: rw_readers_def)
  then show "sys_rwlock_rlock h ks rw t timeout =
    (if rw_owner rw \<le> 0 \<and> even (rw_owner rw) then (ks, rw\<lparr>rw_owner := rw_owner rw - 2\<rparr>, Ok)
     else (fst (block_self h t timeout (rw_rq rw) ks),
           rw\<lparr>rw_owner := 2 * (rw_owner rw div 2) + 1, rw_rq := t # rw_rq rw\<rparr>, Blocked))"
    and "rw_owner rw \<le> 0 \<Longrightarrow> even (rw_owner rw) \<Longrightarrow> sys_rwlock_tryrlock rw = (rw\<lparr>rw_owner := rw_owner rw - 2\<rparr>, Ok)"
    by (auto simp: sys_rwlock_rlock_def sys_rwlock_tryrlock_def read_free_iff Let_def case_prod_beta int_or_1)
qed

abbreviation rg_queue :: "rw_ghost \<Rightarrow> tid list" where
  "rg_queue g \<equiv> rw_rq (rg_rw g) @ rw_wq (rg_rw g)"

lemma rg_invD:
  assumes "rg_inv g"
  shows "rw_inv (rg_rw g)" "int (size (rg_readers g)) = rw_readers (rg_rw g)"
    "rg_writers g = {#} \<Longrightarrow> rw_owner (rg_rw g) \<le> 0"
    "rw_owner (rg_rw g) \<le> 0 \<Longrightarrow> rg_writers g = {#}"
    "0 < uint t \<Longrightarrow> rw_owner (rg_rw g) div 2 = uint t \<Longrightarrow> rg_writers g = {#t#}"
    "size (rg_writers g) \<le> 1"
proof -
  show "rw_owner (rg_rw g) \<le> 0 \<Longrightarrow> rg_writers g = {#}" using assms by (force simp: rg_inv_def split: if_splits)
  show "rg_writers g = {#t#}" if "0 < uint t" "rw_owner (rg_rw g) div 2 = uint t"
  proof -
    have "0 < rw_owner (rg_rw g)" using that by linarith
    then show ?thesis using assms that by (auto simp: rg_inv_def word_uint_eq_iff split: if_splits)
  qed
qed (use assms in \<open>auto simp: rg_inv_def split: if_splits\<close>)

lemma low_bit:
  fixes k :: int
  shows "(2 * (k div 2) + 1) div 2 = k div 2" and "2 * (k div 2) + 1 < 0 \<longleftrightarrow> k < 0" and "odd (2 * (k div 2) + 1)"
    and "0 < k \<Longrightarrow> 2 \<le> k \<Longrightarrow> k < 4294967296 \<Longrightarrow> 2 \<le> 2 * (k div 2) + 1 \<and> 2 * (k div 2) + 1 < 4294967296"
    and "2 * (k div 2) + 1 \<le> 0 \<longleftrightarrow> k < 0"
  by presburger+

text \<open>Taking the read lock, or joining the queue of the readers.\<close>

lemma rg_rlock_inv:
  assumes "rg_inv g" and "rw_owner (rg_rw g) \<le> 0" and "even (rw_owner (rg_rw g))"
    and "rw_readers (rg_rw g) + int (length (rw_rq (rg_rw g))) + 1 < 2 ^ 60"
  shows "rg_inv (g\<lparr>rg_rw := (rg_rw g)\<lparr>rw_owner := rw_owner (rg_rw g) - 2\<rparr>, rg_readers := add_mset t (rg_readers g)\<rparr>)"
proof -
  note d = rg_invD [OF assms(1)]
  have "rg_writers g = {#}" using d(4) assms(2) by simp
  then show ?thesis using assms d(1,2) by (auto simp: rg_inv_def rw_inv_def rw_readers_def)
qed

lemma rg_rqueue_inv:
  assumes "rg_inv g" and "\<not> (rw_owner (rg_rw g) \<le> 0 \<and> even (rw_owner (rg_rw g)))" and "t \<noteq> 0" and "uint t < 2 ^ 31"
    and "t \<notin> set (rg_queue g)" and "rw_readers (rg_rw g) + int (length (rw_rq (rg_rw g))) + 1 < 2 ^ 60"
  shows "rg_inv (g\<lparr>rg_rw := (rg_rw g)\<lparr>rw_owner := 2 * (rw_owner (rg_rw g) div 2) + 1, rw_rq := t # rw_rq (rg_rw g)\<rparr>\<rparr>)"
proof -
  note d = rg_invD [OF assms(1)]
  let ?o = "rw_owner (rg_rw g)"
  note o = low_bit [of ?o]
  have "rw_readers ((rg_rw g)\<lparr>rw_owner := 2 * (?o div 2) + 1, rw_rq := t # rw_rq (rg_rw g)\<rparr>) = rw_readers (rg_rw g)"
    using o(1,5) assms(2) by (auto simp: rw_readers_def)
  then show ?thesis using assms d o
    by (auto simp: rg_inv_def rw_inv_def split: if_splits)
qed

text \<open>The lock passes to a queued writer, to every queued reader, or becomes free.\<close>

lemma rw_readers_nonneg: "0 \<le> rw_readers rw"
  by (simp add: rw_readers_def) presburger

lemma rg_writer_inv:
  assumes "rw_inv rw" and "wq = remove1 cpu (rw_wq rw)" and "cpu \<noteq> 0" and "uint cpu < 2 ^ 31"
  shows "rg_inv \<lparr>rg_rw = rw\<lparr>rw_wq := wq, rw_owner := rw_word cpu wq (rw_rq rw)\<rparr>, rg_readers = {#}, rg_writers = {#cpu#}\<rparr>"
proof -
  have "uint cpu \<noteq> 0" using assms(3) by (simp add: unsigned_eq_0_iff)
  then have "0 < uint cpu" using uint_ge_0 [of cpu] by linarith
  then show ?thesis
    using assms rw_readers_nonneg [of rw]
    by (auto simp: rg_inv_def rw_inv_def rw_readers_def rw_word_eq dest: notin_set_remove1)
qed

lemma rw_wq_nil [simp]:
  assumes "rw_wq rw = []"
  shows "rw\<lparr>rw_wq := [], rw_owner := x\<rparr> = rw\<lparr>rw_owner := x\<rparr>"
    and "rw\<lparr>rw_wq := [], rw_rq := y, rw_owner := x\<rparr> = rw\<lparr>rw_rq := y, rw_owner := x\<rparr>"
  using assms by (cases rw, simp)+

lemma rg_readers_inv:
  assumes "rw_inv rw" and "rw_wq rw = []" and "rw_owner rw \<noteq> 0" and "size R = nat (rw_readers rw) + length (rw_rq rw)"
    and "o' = 2 * (if rw_owner rw < 0 then rw_owner rw div 2 else 0) - 2 * int (length (rw_rq rw))"
  shows "rg_inv \<lparr>rg_rw = rw\<lparr>rw_rq := [], rw_owner := o'\<rparr>, rg_readers = R, rg_writers = {#}\<rparr>"
  using assms by (auto simp: rg_inv_def rw_inv_def rw_readers_def)

lemma rg_free_inv:
  assumes "rw_inv rw" and "rw_wq rw = []" and "rw_rq rw = []"
  shows "rg_inv \<lparr>rg_rw = rw\<lparr>rw_owner := 0\<rparr>, rg_readers = {#}, rg_writers = {#}\<rparr>"
  using assms by (auto simp: rg_inv_def rw_inv_def rw_readers_def)

lemma rg_wqueue_inv:
  assumes "rg_inv g" and "rw_owner (rg_rw g) \<noteq> 0" and "t \<noteq> 0" and "uint t < 2 ^ 31" and "t \<notin> set (rg_queue g)"
  shows "rg_inv (g\<lparr>rg_rw := (rg_rw g)\<lparr>rw_owner := 2 * (rw_owner (rg_rw g) div 2) + 1, rw_wq := t # rw_wq (rg_rw g)\<rparr>\<rparr>)"
proof -
  note d = rg_invD [OF assms(1)]
  let ?o = "rw_owner (rg_rw g)"
  note o = low_bit [of ?o]
  have "rw_readers ((rg_rw g)\<lparr>rw_owner := 2 * (?o div 2) + 1, rw_wq := t # rw_wq (rg_rw g)\<rparr>) = rw_readers (rg_rw g)"
    using o(1,5) assms(2) by (auto simp: rw_readers_def)
  then show ?thesis using assms d o
    by (auto simp: rg_inv_def rw_inv_def split: if_splits)
qed

lemma rg_release_inv:
  assumes "rg_inv g" and "rw_owner (rg_rw g) < - 1" and "t \<in># rg_readers g"
  shows "rg_inv (g\<lparr>rg_rw := (rg_rw g)\<lparr>rw_owner := rw_owner (rg_rw g) + 2\<rparr>, rg_readers := rg_readers g - {#t#}\<rparr>)"
proof -
  note d = rg_invD [OF assms(1)]
  have "rg_writers g = {#}" using d(4) assms(2) by simp
  moreover have "int (size (rg_readers g - {#t#})) = int (size (rg_readers g)) - 1"
    using assms(3) by (metis add_mset_remove_trivial insert_DiffM int_ops(4) diff_add_cancel add_diff_cancel_right' of_nat_Suc size_add_mset add.commute)
  ultimately show ?thesis using assms d(1,2) by (auto simp: rg_inv_def rw_inv_def rw_readers_def)
qed

text \<open>What a call has to satisfy: it returns, keeps the invariant of the lock and of the record of holders, and has a proper effect on the waiters.\<close>

definition rg_keeps :: "rw_op \<Rightarrow> tid \<Rightarrow> kstate \<Rightarrow> rw_ghost \<Rightarrow> (kstate \<times> lv2_rwlock \<times> sysres) option \<Rightarrow> bool" where
  "rg_keeps c t ks g x \<longleftrightarrow>
     (case x of None \<Rightarrow> False
      | Some (ks', rw', r) \<Rightarrow> rg_inv (rg_grant t rw' (rg_own c t r g)) \<and>
          op_effect t (rg_queue g) (rw_rq rw' @ rw_wq rw') ks ks' (phase_of r))"

lemma rg_keeps_same:
  assumes "rg_inv g" and "kernel_calm ks" and "t \<notin> set (rg_queue g)" and "r \<noteq> Ok" and "phase_of r = Idle"
  shows "rg_keeps c t ks g (Some (ks, rg_rw g, r))"
proof -
  have "rg_own c t r g = g" using assms(4) by (cases c) auto
  then show ?thesis using assms op_effect_same by (simp add: rg_keeps_def rg_grant_def)
qed

lemma rlock_keeps:
  assumes "rg_inv g" and "kernel_calm ks" and "may_call ks t" and "t \<notin> set (rg_queue g)" and "rg_call_ok (Rlock timeout) t ks g"
  shows "rg_keeps (Rlock timeout) t ks g (rwlock_call h (Rlock timeout) t ks (rg_rw g))"
proof -
  have b: "rw_readers (rg_rw g) + int (length (rw_rq (rg_rw g))) + 1 < 2 ^ 60" "uint t < 2 ^ 31" "t \<noteq> 0"
    using assms(3,5) by (auto simp: rg_call_ok_def may_call_def)
  note e = rw_rlock_eq(1) [OF rg_invD(1) [OF assms(1)] b(1), of h ks t timeout]
  show ?thesis
  proof (cases "rw_owner (rg_rw g) \<le> 0 \<and> even (rw_owner (rg_rw g))")
    case True
    then show ?thesis
      using rg_rlock_inv [OF assms(1) _ _ b(1), of t] op_effect_same [OF assms(2,4)] by (simp add: rg_keeps_def rg_grant_def e)
  next
    case False
    have "op_effect t (rg_queue g) (t # rg_queue g) ks (fst (block_self h t timeout (rw_rq (rg_rw g)) ks)) Waiting"
      using op_effect_block [OF assms(2,3)] assms(4) by simp
    then show ?thesis
      using False rg_rqueue_inv [OF assms(1) False b(3,2) assms(4) b(1)] by (auto simp: rg_keeps_def rg_grant_def e)
  qed
qed

lemma tryrlock_keeps:
  assumes "rg_inv g" and "kernel_calm ks" and "t \<notin> set (rg_queue g)" and "rg_call_ok Tryrlock t ks g"
  shows "rg_keeps Tryrlock t ks g (rwlock_call h Tryrlock t ks (rg_rw g))"
proof (cases "read_free (rw_owner (rg_rw g))")
  case True
  have b: "rw_readers (rg_rw g) + int (length (rw_rq (rg_rw g))) + 1 < 2 ^ 60" using assms(4) by (simp add: rg_call_ok_def)
  show ?thesis
    using True rw_rlock_eq(2) [OF rg_invD(1) [OF assms(1)] b] rg_rlock_inv [OF assms(1) _ _ b, of t] op_effect_same [OF assms(2,3)]
    by (simp add: rg_keeps_def rg_grant_def read_free_iff)
next
  case False
  then show ?thesis using rg_keeps_same [OF assms(1-3)] by (simp add: sys_rwlock_tryrlock_def)
qed

lemma wlock_keeps:
  assumes "rg_inv g" and "kernel_calm ks" and "may_call ks t" and "t \<notin> set (rg_queue g)" and "rg_call_ok (Wlock timeout) t ks g"
  shows "rg_keeps (Wlock timeout) t ks g (rwlock_call h (Wlock timeout) t ks (rg_rw g))"
proof -
  let ?rw = "rg_rw g"
  have b: "uint t < 2 ^ 31" "t \<noteq> 0" using assms(3,5) by (auto simp: rg_call_ok_def may_call_def)
  note inv = rg_invD [OF assms(1)]
  consider (free) "rw_owner ?rw = 0" | (own) "rw_owner ?rw \<noteq> 0" "rw_owner ?rw div 2 = uint t"
    | (wait) "rw_owner ?rw \<noteq> 0" "rw_owner ?rw div 2 \<noteq> uint t" by blast
  then show ?thesis
  proof cases
    case free
    then have q: "rw_rq ?rw = []" "rw_wq ?rw = []" using inv(1) by (auto simp: rw_inv_def)
    have "rg_readers g = {#}" "rg_writers g = {#}" using inv(2,4) free by (simp_all add: rw_readers_def)
    then show ?thesis
      using free q rg_writer_inv [OF inv(1) _ b(2,1), of "[]"] op_effect_same [OF assms(2,4)]
      by (cases g) (auto simp: rg_keeps_def rg_grant_def sys_rwlock_wlock_def)
  next
    case own
    then show ?thesis using rg_keeps_same [OF assms(1,2,4)] by (simp add: sys_rwlock_wlock_def)
  next
    case wait
    have "op_effect t (rg_queue g) (rw_rq ?rw @ t # rw_wq ?rw) ks (fst (block_self h t timeout (rw_wq ?rw) ks)) Waiting"
      using op_effect_block [OF assms(2,3)] assms(4) by simp
    then show ?thesis
      using wait rg_wqueue_inv [OF assms(1) wait(1) b(2,1) assms(4)]
      by (auto simp: rg_keeps_def rg_grant_def sys_rwlock_wlock_def case_prod_beta int_or_1 Let_def)
  qed
qed

lemma trywlock_keeps:
  assumes "rg_inv g" and "kernel_calm ks" and "may_call ks t" and "t \<notin> set (rg_queue g)" and "rg_call_ok Trywlock t ks g"
  shows "rg_keeps Trywlock t ks g (rwlock_call h Trywlock t ks (rg_rw g))"
proof (cases "rw_owner (rg_rw g) = 0")
  case True
  note inv = rg_invD [OF assms(1)]
  have b: "uint t < 2 ^ 31" "t \<noteq> 0" using assms(3,5) by (auto simp: rg_call_ok_def may_call_def)
  have q: "rw_rq (rg_rw g) = []" "rw_wq (rg_rw g) = []" "rg_readers g = {#}" "rg_writers g = {#}"
    using inv(1,2,4) True by (auto simp: rw_inv_def rw_readers_def)
  then show ?thesis
    using True rg_writer_inv [OF inv(1) _ b(2,1), of "[]"] op_effect_same [OF assms(2,4)]
    by (cases g) (auto simp: rg_keeps_def rg_grant_def sys_rwlock_trywlock_def)
next
  case False
  then show ?thesis using rg_keeps_same [OF assms(1,2,4)] by (simp add: sys_rwlock_trywlock_def)
qed

lemma rw_schedule:
  assumes "rw_inv rw" and "kernel_calm ks" and "rw_wq rw \<noteq> []" and "t \<notin> set (rw_rq rw @ rw_wq rw)"
  obtains cpu where "schedule (thr ks) (rw_protocol rw) (rw_wq rw) = (Some cpu, remove1 cpu (rw_wq rw))"
    and "cpu \<in> set (rw_wq rw)" and "cpu \<noteq> 0" and "uint cpu < 2 ^ 31" and "rg_woken t (rw_wq rw) (remove1 cpu (rw_wq rw)) = [cpu]"
    and "op_effect t (rw_rq rw @ rw_wq rw) (rw_rq rw @ remove1 cpu (rw_wq rw)) ks (awake_one h t cpu ks) Idle"
proof -
  obtain cpu q where sc: "schedule (thr ks) (rw_protocol rw) (rw_wq rw) = (Some cpu, q)" using schedule_nonempty [OF assms(3)] by blast
  have d: "distinct (rw_rq rw @ rw_wq rw)" using assms(1) by (simp add: rw_inv_def)
  have c: "cpu \<in> set (rw_wq rw)" "q = remove1 cpu (rw_wq rw)"
    using schedule_SomeD [OF sc] kernel_calmD(4) [OF assms(2)] by auto
  have b: "cpu \<noteq> 0" "uint cpu < 2 ^ 31" using assms(1) c(1) by (auto simp: rw_inv_def)
  have "op_effect t (rw_rq rw @ rw_wq rw) (rw_rq rw @ remove1 cpu (rw_wq rw)) ks (awake_one h t cpu ks) Idle"
    using assms(4) c(1) d by (intro op_effect_wake_one [OF assms(2) b(1)]) auto
  moreover have "rg_woken t (rw_wq rw) (remove1 cpu (rw_wq rw)) = [cpu]"
    using rg_woken_remove1 [of "rw_wq rw" cpu t] d c(1) assms(4) by auto
  ultimately show ?thesis using that sc c b by blast
qed

lemma runlock_keeps:
  assumes "rg_inv g" and "kernel_calm ks" and "t \<notin> set (rg_queue g)" and "rg_call_ok Runlock t ks g"
  shows "rg_keeps Runlock t ks g (rwlock_call h Runlock t ks (rg_rw g))"
proof -
  let ?rw = "rg_rw g" and ?o = "rw_owner (rg_rw g)"
  note inv = rg_invD [OF assms(1)]
  have t: "t \<in># rg_readers g" if "?o < 0"
  proof -
    have "0 < rw_readers ?rw" using that by (simp add: rw_readers_def)
    then show ?thesis using inv(2) assms(4) by (auto simp: rg_call_ok_def)
  qed
  consider "0 \<le> ?o" | "?o < - 1" | "?o = - 1" by linarith
  then show ?thesis
  proof cases
    case 1
    then show ?thesis using rg_keeps_same [OF assms(1-3)] by (simp add: sys_rwlock_runlock_def Let_def)
  next
    case 2
    then show ?thesis
      using rg_release_inv [OF assms(1) 2 t] op_effect_same [OF assms(2,3)]
      by (auto simp: rg_keeps_def rg_grant_def sys_rwlock_runlock_def Let_def)
  next
    case 3
    then have "rw_wq ?rw \<noteq> []" using inv(1) by (simp add: rw_inv_def)
    from rw_schedule [OF inv(1) assms(2) this assms(3), of h] obtain cpu where
      c: "schedule (thr ks) (rw_protocol ?rw) (rw_wq ?rw) = (Some cpu, remove1 cpu (rw_wq ?rw))" "cpu \<noteq> 0" "uint cpu < 2 ^ 31"
        "rg_woken t (rw_wq ?rw) (remove1 cpu (rw_wq ?rw)) = [cpu]"
        "op_effect t (rg_queue g) (rw_rq ?rw @ remove1 cpu (rw_wq ?rw)) ks (awake_one h t cpu ks) Idle" by metis
    have "size (rg_readers g) = 1" using inv(2) 3 by (simp add: rw_readers_def)
    moreover have "rg_writers g = {#}" using inv(4) 3 by simp
    ultimately have "rg_readers g - {#t#} = {#} \<and> rg_writers g = {#}" using t 3 by (metis add_mset_eq_single insert_DiffM size_1_singleton_mset less_numeral_extra(1) neg_less_0_iff_less)
    then show ?thesis
      using 3 c kernel_calmD(4) [OF assms(2)] rg_writer_inv [OF inv(1) refl c(2,3)]
      by (cases g) (simp add: rg_keeps_def rg_grant_def sys_rwlock_runlock_def Let_def)
  qed
qed

text \<open>Letting every queued reader in.\<close>

lemma rw_drain:
  assumes "rw_inv rw" and "kernel_calm ks"
  obtains ts where "schedule_loop (thr ks) SYS_SYNC_FIFO (rw_rq rw) = Some ts" and "mset ts = mset (rw_rq rw)"
    and "length ts = length (rw_rq rw)" and "set ts = set (rw_rq rw)"
    and "awake_all (fold lv2_append ts ks) (Some t) (h_now h) (h_tsc h) = awake_list h t ts ks" and "0 \<notin> set ts"
proof -
  obtain ts where ts: "schedule_loop (thr ks) SYS_SYNC_FIFO (rw_rq rw) = Some ts" "mset ts = mset (rw_rq rw)"
    using schedule_loop_all [of "rw_rq rw" "thr ks"] kernel_calmD(4) [OF assms(2)] by blast
  then have "length ts = length (rw_rq rw)" "set ts = set (rw_rq rw)" by (metis size_mset) (metis ts(2) mset_eq_setD)
  moreover have "0 \<notin> set (rw_rq rw)" using assms(1) by (auto simp: rw_inv_def)
  ultimately show ?thesis using that ts by (simp add: awake_list_def)
qed

lemma wunlock_keeps:
  assumes "rg_inv g" and "kernel_calm ks" and "t \<notin> set (rg_queue g)" and "rg_call_ok Wunlock t ks g" and "t \<noteq> 0"
  shows "rg_keeps Wunlock t ks g (rwlock_call h Wunlock t ks (rg_rw g))"
proof -
  let ?rw = "rg_rw g" and ?o = "rw_owner (rg_rw g)"
  note inv = rg_invD [OF assms(1)]
  have b: "uint t < 2 ^ 31" using assms(4) by (simp add: rg_call_ok_def)
  have "uint t \<noteq> 0" using assms(5) by (simp add: unsigned_eq_0_iff)
  then have pos: "0 < uint t" using uint_ge_0 [of t] by linarith
  show ?thesis
  proof (cases "?o div 2 = uint t")
    case False
    then have "?o \<noteq> rw_word t [] []" using b by (auto simp: rw_word_eq)
    then show ?thesis using False rg_keeps_same [OF assms(1-3)] by (simp add: sys_rwlock_wunlock_def Let_def)
  next
    case own: True
    then have o: "0 < ?o" using pos by linarith
    then have noread: "rg_readers g = {#}" "rg_writers g = {#t#}" using inv(2,5) pos own by (simp_all add: rw_readers_def)
    consider (even) "even ?o" | (writer) "odd ?o" "rw_wq ?rw \<noteq> []" | (readers) "odd ?o" "rw_wq ?rw = []" "rw_rq ?rw \<noteq> []"
      | (free) "odd ?o" "rw_wq ?rw = []" "rw_rq ?rw = []" by blast
    then show ?thesis
    proof cases
      case even
      then have "rw_rq ?rw = []" "rw_wq ?rw = []" "?o = rw_word t [] []"
        using inv(1) own b by (auto simp: rw_inv_def rw_word_eq)
      then show ?thesis
        using even own noread rg_free_inv [OF inv(1)] op_effect_same [OF assms(2,3)]
        by (cases g) (simp add: rg_keeps_def rg_grant_def sys_rwlock_wunlock_def Let_def)
    next
      case writer
      from rw_schedule [OF inv(1) assms(2) writer(2) assms(3), of h] obtain cpu where
        c: "schedule (thr ks) (rw_protocol ?rw) (rw_wq ?rw) = (Some cpu, remove1 cpu (rw_wq ?rw))" "cpu \<noteq> 0" "uint cpu < 2 ^ 31"
          "rg_woken t (rw_wq ?rw) (remove1 cpu (rw_wq ?rw)) = [cpu]"
          "op_effect t (rg_queue g) (rw_rq ?rw @ remove1 cpu (rw_wq ?rw)) ks (awake_one h t cpu ks) Idle" by metis
      then show ?thesis
        using own writer noread kernel_calmD(4) [OF assms(2)] rg_writer_inv [OF inv(1) refl c(2,3)]
        by (cases g) (simp add: rg_keeps_def rg_grant_def sys_rwlock_wunlock_def Let_def)
    next
      case readers
      obtain ts where ts: "schedule_loop (thr ks) SYS_SYNC_FIFO (rw_rq ?rw) = Some ts" "length ts = length (rw_rq ?rw)"
          "set ts = set (rw_rq ?rw)" "awake_all (fold lv2_append ts ks) (Some t) (h_now h) (h_tsc h) = awake_list h t ts ks" "0 \<notin> set ts"
        using rw_drain [OF inv(1) assms(2)] by metis
      have "op_effect t (rg_queue g) [] ks (awake_list h t ts ks) Idle"
        using assms(3) readers ts(3) by (intro op_effect_wake [OF assms(2) ts(5)]) auto
      moreover have "\<not> has_again (thr ks) u" for u using kernel_calmD(4) [OF assms(2)] .
      moreover have "size (mset (rw_rq ?rw)) = nat (rw_readers ?rw) + length (rw_rq ?rw)" using o by (simp add: rw_readers_def)
      ultimately show ?thesis
        using own readers noread ts o assms(3) rg_readers_inv [OF inv(1) readers(2) _ _ refl, of "mset (rw_rq ?rw)"]
        by (cases g) (auto simp: rg_keeps_def rg_grant_def sys_rwlock_wunlock_def Let_def)
    next
      case free
      then show ?thesis
        using own noread rg_free_inv [OF inv(1)] op_effect_same [OF assms(2,3)]
        by (cases g) (simp add: rg_keeps_def rg_grant_def sys_rwlock_wunlock_def Let_def)
    qed
  qed
qed

lemma rg_clear_inv:
  assumes "rg_inv g" and "rw_rq (rg_rw g) = []" and "t \<in> set (rw_wq (rg_rw g))"
  shows "rg_inv (g\<lparr>rg_rw := (rg_rw g)\<lparr>rw_wq := [], rw_owner := 2 * (rw_owner (rg_rw g) div 2)\<rparr>\<rparr>)"
proof -
  note d = rg_invD [OF assms(1)]
  let ?o = "rw_owner (rg_rw g)"
  have "odd ?o" using d(1) assms(3) by (auto simp: rw_inv_def)
  then have o: "2 * (?o div 2) \<le> 0 \<longleftrightarrow> ?o \<le> 0" "2 * (?o div 2) = ?o - 1" if "?o \<le> 0 \<or> 2 \<le> ?o" using that by presburger+
  have r: "?o \<le> 0 \<or> 2 \<le> ?o" using d(1) by (auto simp: rw_inv_def)
  have "rw_readers ((rg_rw g)\<lparr>rw_wq := [], rw_owner := 2 * (?o div 2)\<rparr>) = rw_readers (rg_rw g)"
    using o(1) [OF r] by (simp add: rw_readers_def)
  moreover have "rw_inv ((rg_rw g)\<lparr>rw_wq := [], rw_owner := 2 * (?o div 2)\<rparr>)"
  proof -
    have "?o < 2 ^ 32" using d(1) by (auto simp: rw_inv_def)
    then have "2 \<le> 2 * (?o div 2) \<and> 2 * (?o div 2) < 2 ^ 32" if "0 < 2 * (?o div 2)" using that by auto
    then show ?thesis using d(1) assms(2) calculation by (simp add: rw_inv_def)
  qed
  moreover have "2 * (?o div 2) div 2 = ?o div 2" by simp
  ultimately show ?thesis
    using assms(1) o(1) [OF r] unfolding rg_inv_def by (cases "rg_writers g = {#}") simp_all
qed

lemma rg_admit_inv:
  assumes "rg_inv g" and "rw_owner (rg_rw g) < 0" and "n = length (rw_rq (rg_rw g))"
  shows "rg_inv (g\<lparr>rg_rw := (rg_rw g)\<lparr>rw_wq := [], rw_rq := [], rw_owner := s64 (rw_owner (rg_rw g) - 2 * int n) AND - 2\<rparr>,
    rg_readers := rg_readers g + mset (rw_rq (rg_rw g))\<rparr>)"
proof -
  note d = rg_invD [OF assms(1)]
  let ?o = "rw_owner (rg_rw g)"
  have w: "rg_writers g = {#}" using d(4) assms(2) by simp
  have "- (?o div 2) + int n < 2 ^ 60" using d(1) assms by (simp add: rw_inv_def rw_readers_def)
  moreover have "2 * (?o div 2) \<le> ?o" by simp
  ultimately have "- (2 ^ 63) \<le> ?o - 2 * int n" by simp
  then have "s64 (?o - 2 * int n) = ?o - 2 * int n" using assms(2) by (intro s64_id) auto
  moreover have "(?o - 2 * int n) div 2 = ?o div 2 - int n" by presburger
  ultimately have "s64 (?o - 2 * int n) AND - 2 = 2 * (?o div 2 - int n)" by (simp add: int_and_m2)
  then show ?thesis using d w assms by (auto simp: rg_inv_def rw_inv_def rw_readers_def)
qed

lemma rw_leave_inv:
  assumes "rw_inv rw"
  shows "t \<in> set (rw_rq rw) \<Longrightarrow> rw_inv (rw\<lparr>rw_rq := remove1 t (rw_rq rw)\<rparr>)"
    and "t \<in> set (rw_wq rw) \<Longrightarrow> remove1 t (rw_wq rw) \<noteq> [] \<or> 0 \<le> rw_owner rw \<Longrightarrow> rw_inv (rw\<lparr>rw_wq := remove1 t (rw_wq rw)\<rparr>)"
proof -
  have d: "distinct (rw_rq rw @ rw_wq rw)" using assms by (simp add: rw_inv_def)
  have o: "odd (rw_owner rw)" if "rw_rq rw \<noteq> [] \<or> rw_wq rw \<noteq> []" using assms that by (auto simp: rw_inv_def)
  have dd: "distinct (remove1 t (rw_rq rw) @ rw_wq rw)" "distinct (rw_rq rw @ remove1 t (rw_wq rw))"
    using d set_remove1_subset [of t "rw_rq rw"] set_remove1_subset [of t "rw_wq rw"] by auto
  have len: "length (remove1 t (rw_rq rw)) \<le> length (rw_rq rw)" by (simp add: length_remove1)
  have b: "\<forall>u \<in> set (remove1 t (rw_rq rw) @ rw_wq rw). u \<noteq> 0 \<and> uint u < 2 ^ 31"
    "\<forall>u \<in> set (rw_rq rw @ remove1 t (rw_wq rw)). u \<noteq> 0 \<and> uint u < 2 ^ 31"
    using assms set_remove1_subset [of t "rw_rq rw"] set_remove1_subset [of t "rw_wq rw"] by (auto simp: rw_inv_def)
  have p: "0 < rw_owner rw \<longrightarrow> 2 \<le> rw_owner rw \<and> rw_owner rw < 2 ^ 32" "rw_readers rw + int (length (rw_rq rw)) < 2 ^ 60"
    "rw_owner rw < 0 \<longrightarrow> odd (rw_owner rw) \<longrightarrow> rw_wq rw \<noteq> []"
    using assms unfolding rw_inv_def by blast+
  show "rw_inv (rw\<lparr>rw_rq := remove1 t (rw_rq rw)\<rparr>)" if "t \<in> set (rw_rq rw)"
  proof -
    have "odd (rw_owner rw)" using o that by fastforce
    then show ?thesis using dd(1) b(1) p len unfolding rw_inv_def by (simp add: rw_readers_def split: if_splits)
  qed
  show "rw_inv (rw\<lparr>rw_wq := remove1 t (rw_wq rw)\<rparr>)" if "t \<in> set (rw_wq rw)" "remove1 t (rw_wq rw) \<noteq> [] \<or> 0 \<le> rw_owner rw"
  proof -
    have "odd (rw_owner rw)" using o that by fastforce
    then show ?thesis using dd(2) b(2) p that(2) unfolding rw_inv_def by (auto simp: rw_readers_def split: if_splits)
  qed
qed

lemma rwlock_timeout_keeps:
  assumes "rg_inv g" and "kernel_calm ks" and "t \<noteq> 0"
  shows "\<exists>ks' rw'. rwlock_timeout h t ks (rg_rw g) = Some (ks', rw') \<and> rg_inv (rg_grant t rw' g) \<and>
    op_effect t (rg_queue g) (rw_rq rw' @ rw_wq rw') ks ks' Idle"
proof -
  let ?rw = "rg_rw g"
  note inv = rg_invD [OF assms(1)]
  have d: "distinct (rg_queue g)" using inv(1) by (simp add: rw_inv_def)
  consider (out) "t \<notin> set (rg_queue g)" | (reader) "t \<in> set (rw_rq ?rw)" "t \<notin> set (rw_wq ?rw)"
    | (writer) "t \<in> set (rw_wq ?rw)" "t \<notin> set (rw_rq ?rw)" using d by auto
  then show ?thesis
  proof cases
    case out
    then show ?thesis
      using assms(1) op_effect_same [OF assms(2)] by (simp add: rwlock_timeout_def rwlock_rlock_timeout_def unqueue_def rg_grant_def)
  next
    case reader
    have "op_effect t (rg_queue g) (remove1 t (rg_queue g)) ks (set_reg t 3 (errval CELL_ETIMEDOUT) ks) Idle"
      by (rule op_effect_leave [OF assms(2) d])
    moreover have "remove1 t (rg_queue g) = remove1 t (rw_rq ?rw) @ rw_wq ?rw" using reader by (simp add: remove1_append)
    moreover have "rg_inv (g\<lparr>rg_rw := ?rw\<lparr>rw_rq := remove1 t (rw_rq ?rw)\<rparr>\<rparr>)"
      using assms(1) rw_leave_inv(1) [OF inv(1) reader(1)] by (simp add: rg_inv_def rw_readers_def split: if_splits)
    ultimately show ?thesis
      using reader d by (auto simp: rwlock_timeout_def rwlock_rlock_timeout_def unqueue_def rg_grant_def)
  next
    case writer
    let ?wq = "remove1 t (rw_wq ?rw)"
    have "remove1 t (rg_queue g) = rw_rq ?rw @ ?wq" using writer by (simp add: remove1_append)
    with op_effect_leave [OF assms(2) d, of t 3 "errval CELL_ETIMEDOUT"]
    have leave: "op_effect t (rg_queue g) (rw_rq ?rw @ ?wq) ks (set_reg t 3 (errval CELL_ETIMEDOUT) ks) Idle" by simp
    have woken: "rg_woken t (rw_wq ?rw) ?wq = []" using d by simp
    consider (admit) "rw_rq ?rw \<noteq> []" "?wq = []" "rw_owner ?rw < 0" | (clear) "rw_rq ?rw = []" "?wq = []"
      | (stay) "?wq \<noteq> [] \<or> rw_rq ?rw \<noteq> [] \<and> 0 \<le> rw_owner ?rw" by linarith
    then show ?thesis
    proof cases
      case admit
      obtain ts where ts: "schedule_loop (thr ks) SYS_SYNC_FIFO (rw_rq ?rw) = Some ts" "length ts = length (rw_rq ?rw)"
          "set ts = set (rw_rq ?rw)" "awake_all (fold lv2_append ts ks) (Some t) (h_now h) (h_tsc h) = awake_list h t ts ks" "0 \<notin> set ts"
        using rw_drain [OF inv(1) assms(2)] by metis
      have "set (rw_wq ?rw) = {t}" using admit(2) writer d by (metis distinct_append empty_set insert_Diff set_remove1_eq)
      then have "op_effect t (rg_queue g) [] ks (awake_list h t ts ks) Idle"
        using writer ts(3) by (intro op_effect_wake [OF assms(2) ts(5)]) auto
      then show ?thesis
        using admit writer ts rg_admit_inv [OF assms(1) admit(3) refl] woken op_effect_set_reg
        by (simp add: rwlock_timeout_def rwlock_wlock_timeout_def unqueue_def rg_grant_def)
    next
      case clear
      then show ?thesis
        using clear writer leave rg_clear_inv [OF assms(1) clear(1) writer(1)] woken
        by (simp add: rwlock_timeout_def rwlock_wlock_timeout_def unqueue_def rg_grant_def int_and_m2)
    next
      case stay
      have "rg_inv (g\<lparr>rg_rw := ?rw\<lparr>rw_wq := ?wq\<rparr>\<rparr>)"
        using assms(1) rw_leave_inv(2) [OF inv(1) writer(1)] stay by (auto simp: rg_inv_def rw_readers_def split: if_splits)
      then show ?thesis
        using writer leave stay woken
        by (auto simp: rwlock_timeout_def rwlock_wlock_timeout_def unqueue_def rg_grant_def)
    qed
  qed
qed

interpretation rwl: wait_object rg_queue "\<lambda>_. rg_inv" rg_call_ok rg_call rg_timeout
proof unfold_locales
  fix g ks t c h ks' g' r
  assume a: "rg_inv g" "kernel_calm ks" "may_call ks t" "t \<notin> set (rg_queue g)" "rg_call_ok c t ks g"
    and c: "rg_call h c t ks g = (ks', g', r)"
  have "t \<noteq> 0" using a(3) by (simp add: may_call_def)
  then have "rg_keeps c t ks g (rwlock_call h c t ks (rg_rw g))"
    using rlock_keeps [OF a(1-4)] tryrlock_keeps [OF a(1,2,4)] runlock_keeps [OF a(1,2,4)] wlock_keeps [OF a(1-4)]
      trywlock_keeps [OF a(1-4)] wunlock_keeps [OF a(1,2,4)] a(5)
    by (cases c) auto
  then show "rg_inv g' \<and> op_effect t (rg_queue g) (rg_queue g') ks ks' (phase_of r)"
    using c by (auto simp: rg_keeps_def rg_call_def rg_grant_def split: option.splits)
next
  fix g ks t h ks' g' r
  assume a: "rg_inv g" "kernel_calm ks" "t \<noteq> 0" and c: "rg_timeout h t ks g = (ks', g', r)"
  from rwlock_timeout_keeps [OF a, of h] c show "rg_inv g' \<and> op_effect t (rg_queue g) (rg_queue g') ks ks' (phase_of r)"
    by (auto simp: rg_timeout_def rg_grant_def)
qed

section \<open>Properties\<close>

text \<open>
  C7: In every state that interleaved calls on a reader-writer lock reach, at most one thread has taken the write lock
  without having released it, it is the one the lock word names, and then no thread holds the read lock; the readers that
  have taken the lock are as many as the word counts; a lock with waiters is held; and no wake-up is lost. The calls are
  those of threads with 31-bit identifiers and fewer than \<open>2 ^ 60\<close> readers, and, since the lock does not record who
  its readers are, a thread releases the read lock only if it holds it or nobody does.
\<close>

theorem rwlock_exclusion:
  assumes "wstart (\<lambda>_. rg_inv) rg_queue s0"
    and "(wstep rg_queue rg_call_ok rg_call rg_timeout)\<^sup>*\<^sup>* s0 s"
  shows "size (rg_writers (ws_obj s)) \<le> 1 \<and>
    (\<forall>w. w \<in># rg_writers (ws_obj s) \<longrightarrow>
       rg_readers (ws_obj s) = {#} \<and> rw_owner (rg_rw (ws_obj s)) div 2 = uint w) \<and>
    int (size (rg_readers (ws_obj s))) = rw_readers (rg_rw (ws_obj s)) \<and>
    (rg_queue (ws_obj s) \<noteq> [] \<longrightarrow> rg_writers (ws_obj s) \<noteq> {#} \<or> rg_readers (ws_obj s) \<noteq> {#}) \<and>
    waiters_safe rg_queue s"
proof -
  note w = winvar_safe [OF rwl.reachable_inv [OF assms(2,1)]]
  note d = rg_invD [OF w(1)]
  let ?o = "rw_owner (rg_rw (ws_obj s))"
  have "rg_readers (ws_obj s) = {#} \<and> ?o div 2 = uint x" if "x \<in># rg_writers (ws_obj s)" for x
  proof -
    have x: "0 < uint x" "?o div 2 = uint x" using that w(1) by (auto simp: rg_inv_def split: if_splits)
    then have "0 < ?o" by linarith
    then show ?thesis using d(2) x by (simp add: rw_readers_def)
  qed
  moreover have "rg_readers (ws_obj s) \<noteq> {#}" if "rg_queue (ws_obj s) \<noteq> []" "rg_writers (ws_obj s) = {#}"
  proof -
    have "?o \<le> 0" "odd ?o" using d(1,3) that by (auto simp: rw_inv_def)
    then have "0 < rw_readers (rg_rw (ws_obj s))" by (simp add: rw_readers_def) presburger
    then show ?thesis using d(2) by auto
  qed
  ultimately show ?thesis using w(2) d(2,6) by blast
qed

definition demo_rw :: "int \<Rightarrow> lv2_rwlock" where
  "demo_rw n = \<lparr>rw_protocol = SYS_SYNC_FIFO, rw_key = 0, rw_name = 0, rw_owner = n, rw_rq = [], rw_wq = []\<rparr>"

lemma demo_rg_inv: "rg_inv \<lparr>rg_rw = demo_rw (- 2), rg_readers = {#3#}, rg_writers = {#}\<rparr>"
  by (simp add: rg_inv_def rw_inv_def demo_rw_def rw_readers_def)

theorem rwlock_exclusion_witness:
  "\<exists>s. (wstep rg_queue rg_call_ok rg_call rg_timeout)\<^sup>*\<^sup>*
      (demo_wsys \<lparr>rg_rw = demo_rw (- 2), rg_readers = {#3#}, rg_writers = {#}\<rparr>) s \<and>
     rg_queue (ws_obj s) = [1] \<and> rg_writers (ws_obj s) = {#} \<and> size (rg_readers (ws_obj s)) = 1"
proof -
  let ?g = "\<lparr>rg_rw = demo_rw (- 2), rg_readers = {#3#}, rg_writers = {#}\<rparr>"
  let ?rw = "(demo_rw (- 2))\<lparr>rw_owner := - 1, rw_wq := [1]\<rparr>"
  let ?step = "wstep rg_queue rg_call_ok rg_call rg_timeout"
  have c: "rg_call demo_host (Wlock 0) 1 demo_ks ?g = (fst (block_self demo_host 1 0 [] demo_ks), ?g\<lparr>rg_rw := ?rw\<rparr>, Blocked)"
    by (simp add: rg_call_def sys_rwlock_wlock_def demo_rw_def Let_def case_prod_beta int_or_1 rg_grant_def rg_woken_def)
  have "rg_call_ok (Wlock 0) 1 demo_ks ?g" by (simp add: rg_call_ok_def rw_readers_def demo_rw_def)
  from demo_call [where cok = rg_call_ok and call = rg_call, OF this c] obtain s
    where s: "?step (demo_wsys ?g) s" "ws_obj s = ?g\<lparr>rg_rw := ?rw\<rparr>" by fastforce
  have "wstart (\<lambda>_. rg_inv) rg_queue (demo_wsys ?g)" by (rule demo_wstart [of "\<lambda>_. rg_inv", OF demo_rg_inv]) (simp add: demo_rw_def)
  from rwlock_exclusion [OF this r_into_rtranclp [of ?step, OF s(1)]] show ?thesis
    using s by (intro exI [of _ s]) (auto simp: demo_rw_def rw_readers_def)
qed

text \<open>
  C17: Releasing the lock always returns, and to whom it goes: an unlock by a thread other than the writer is
  \<^verbatim>\<open>CELL_EPERM\<close>; otherwise the scheduled writer owns the lock if writers wait; if only
  readers wait, all of them hold it and are runnable; and the lock is free if nobody waits.
\<close>

theorem rwlock_wunlock_passes:
  assumes "rw_inv rw" and "kernel_calm ks" and "t \<notin> set (rw_rq rw @ rw_wq rw)" and "t \<noteq> 0" and "uint t < 2 ^ 31"
  shows "\<exists>ks' rw' r. sys_rwlock_wunlock h ks rw t = Some (ks', rw', r) \<and>
    (rw_owner rw div 2 \<noteq> uint t \<longrightarrow> r = Err CELL_EPERM \<and> rw' = rw \<and> ks' = ks) \<and>
    (rw_owner rw div 2 = uint t \<longrightarrow> r = Ok \<and>
      (if rw_wq rw \<noteq> [] then \<exists>w. fst (schedule (thr ks) (rw_protocol rw) (rw_wq rw)) = Some w \<and>
          rw_owner rw' div 2 = uint w \<and> w \<in> set (g_ppu ks') \<and> rw_wq rw' = remove1 w (rw_wq rw) \<and> rw_rq rw' = rw_rq rw
       else rw_owner rw' = - 2 * int (length (rw_rq rw)) \<and> rw_rq rw' = [] \<and> set (rw_rq rw) \<subseteq> set (g_ppu ks')))"
proof (cases "rw_owner rw div 2 = uint t")
  case False
  then have "rw_owner rw \<noteq> rw_word t [] []" using assms(5) by (auto simp: rw_word_eq)
  then show ?thesis using False by (simp add: sys_rwlock_wunlock_def)
next
  case own: True
  have ag: "\<not> has_again (thr ks) u" for u using kernel_calmD(4) [OF assms(2)] .
  consider (even) "even (rw_owner rw)" | (writer) "odd (rw_owner rw)" "rw_wq rw \<noteq> []"
    | (readers) "odd (rw_owner rw)" "rw_wq rw = []" by blast
  then show ?thesis
  proof cases
    case even
    then have "rw_rq rw = []" "rw_wq rw = []" "rw_owner rw = rw_word t [] []" using assms(1,5) own by (auto simp: rw_inv_def rw_word_eq)
    then show ?thesis using even own by (simp add: sys_rwlock_wunlock_def Let_def)
  next
    case writer
    from rw_schedule [OF assms(1,2) writer(2) assms(3), of h] obtain cpu where
      c: "schedule (thr ks) (rw_protocol rw) (rw_wq rw) = (Some cpu, remove1 cpu (rw_wq rw))" "cpu \<noteq> 0" "uint cpu < 2 ^ 31" by metis
    then show ?thesis
      using writer own ag awake_one_effect(2) [OF assms(2) c(2)] by (simp add: sys_rwlock_wunlock_def Let_def rw_word_eq)
  next
    case readers
    obtain ts where ts: "schedule_loop (thr ks) SYS_SYNC_FIFO (rw_rq rw) = Some ts" "length ts = length (rw_rq rw)" "set ts = set (rw_rq rw)"
        "awake_all (fold lv2_append ts ks) (Some t) (h_now h) (h_tsc h) = awake_list h t ts ks" "0 \<notin> set ts"
      using rw_drain [OF assms(1,2)] by metis
    then show ?thesis
      using readers own ag awake_list_effect(2) [OF assms(2) ts(5), of h t] by (simp add: sys_rwlock_wunlock_def Let_def)
  qed
qed

theorem rwlock_wunlock_passes_witness:
  "\<exists>ks' rw'. sys_rwlock_wunlock demo_host demo_ks ((demo_rw 3)\<lparr>rw_rq := [3]\<rparr>) 1 = Some (ks', rw', Ok) \<and>
     rw_owner rw' = - 2 \<and> 3 \<in> set (g_ppu ks')"
proof -
  have "rw_inv ((demo_rw 3)\<lparr>rw_rq := [3]\<rparr>)" by (simp add: rw_inv_def demo_rw_def rw_readers_def)
  from rwlock_wunlock_passes [OF this demo_calm, of 1 demo_host] show ?thesis by (auto simp: demo_rw_def)
qed

text \<open>
  The wake-up loop of an expired writer has no test for readers that a savestate has marked, which
  the unlock has: with such a reader the loop does not end.
\<close>

lemma rwlock_timeout_hangs:
  assumes "rw_wq rw = [t]" and "rw_rq rw = [u]" and "rw_owner rw < 0" and "has_again (thr ks) u"
  shows "rwlock_wlock_timeout h ks rw t = None"
proof -
  have "schedule (thr ks) SYS_SYNC_FIFO [u] = (Some u, [u])"
    using assms(4) by (auto simp: schedule_def sched_pick_def split: option.splits)
  then have "schedule_loop (thr ks) SYS_SYNC_FIFO [u] = None" by (rule schedule_loop_stuck)
  then show ?thesis using assms by (simp add: rwlock_wlock_timeout_def unqueue_def)
qed

end
