(* ===== verification/Sys_Event_Flag.thy ===== *)
theory Sys_Event_Flag
  imports Wait_Object
begin

text \<open>
  The event flag of \<^verbatim>\<open>rpcs3/Emu/Cell/lv2/sys_event_flag.h\<close> and \<^verbatim>\<open>sys_event_flag.cpp\<close>: a
  64-bit pattern, and threads that wait for bits of it. The arguments and the result of a wait live in the registers
  of the waiting thread: register 4 holds the bits, register 5 the mode, register 6 the pattern to report, register 7
  is a mark of the setting loop, and register 3 the result. Setting bits serves all waiters in one atomic update of the
  pattern; waiting without blocking and clearing change the pattern without the lock, so the update may have to be
  retried.
\<close>

definition SYS_SYNC_WAITER_SINGLE :: int where "SYS_SYNC_WAITER_SINGLE = 0x10000"
definition SYS_SYNC_WAITER_MULTIPLE :: int where "SYS_SYNC_WAITER_MULTIPLE = 0x20000"
definition SYS_EVENT_FLAG_WAIT_AND :: u64 where "SYS_EVENT_FLAG_WAIT_AND = 1"
definition SYS_EVENT_FLAG_WAIT_OR :: u64 where "SYS_EVENT_FLAG_WAIT_OR = 2"
definition SYS_EVENT_FLAG_WAIT_CLEAR :: u64 where "SYS_EVENT_FLAG_WAIT_CLEAR = 0x10"
definition SYS_EVENT_FLAG_WAIT_CLEAR_ALL :: u64 where "SYS_EVENT_FLAG_WAIT_CLEAR_ALL = 0x20"

lemmas event_flag_consts =
  SYS_SYNC_WAITER_SINGLE_def SYS_SYNC_WAITER_MULTIPLE_def SYS_EVENT_FLAG_WAIT_AND_def SYS_EVENT_FLAG_WAIT_OR_def
  SYS_EVENT_FLAG_WAIT_CLEAR_def SYS_EVENT_FLAG_WAIT_CLEAR_ALL_def

record lv2_event_flag =
  ef_protocol :: lv2_protocol
  ef_key :: u64
  ef_type :: int
  ef_name :: u64
  ef_pattern :: u64
  ef_sq :: "tid list"

record sys_event_flag_attribute =
  fa_protocol :: u32
  fa_pshared :: u32
  fa_ipc_key :: u64
  fa_flags :: int
  fa_type :: int
  fa_name :: u64

section \<open>Modes and patterns\<close>

definition check_mode :: "u32 \<Rightarrow> bool" where
  "check_mode mode \<longleftrightarrow>
     ucast (mode AND 0xf) \<in> {SYS_EVENT_FLAG_WAIT_AND, SYS_EVENT_FLAG_WAIT_OR} \<and>
     ucast (mode AND NOT 0xf) \<in> {0, SYS_EVENT_FLAG_WAIT_CLEAR, SYS_EVENT_FLAG_WAIT_CLEAR_ALL}"

text \<open>
  \<^verbatim>\<open>check_pattern\<close>: \<open>None\<close> when the pattern does not satisfy the request, otherwise the pattern
  after the clearing that the mode asks for. The pattern before is reported in both cases; the callers below do that.
\<close>

definition check_pattern :: "u64 \<Rightarrow> u64 \<Rightarrow> u64 \<Rightarrow> u64 option" where
  "check_pattern pattern bitptn mode =
     (if mode AND 0xf = SYS_EVENT_FLAG_WAIT_AND \<and> pattern AND bitptn \<noteq> bitptn \<or>
         mode AND 0xf = SYS_EVENT_FLAG_WAIT_OR \<and> pattern AND bitptn = 0 then None
      else if mode AND NOT 0xf = SYS_EVENT_FLAG_WAIT_CLEAR then Some (pattern AND NOT bitptn)
      else if mode AND NOT 0xf = SYS_EVENT_FLAG_WAIT_CLEAR_ALL then Some 0
      else Some pattern)"

section \<open>The system calls\<close>

definition sys_event_flag_make :: "u64 \<Rightarrow> sys_event_flag_attribute \<Rightarrow> u64 \<Rightarrow> CellError + lv2_event_flag" where
  "sys_event_flag_make ipc_key attr ini =
     (case protocol_of (fa_protocol attr) of
        Some p \<Rightarrow>
          if p \<noteq> SYS_SYNC_FIFO \<and> p \<noteq> SYS_SYNC_PRIORITY then Inl CELL_EINVAL
          else if fa_type attr \<noteq> SYS_SYNC_WAITER_SINGLE \<and> fa_type attr \<noteq> SYS_SYNC_WAITER_MULTIPLE then Inl CELL_EINVAL
          else Inr \<lparr>ef_protocol = p, ef_key = ipc_key, ef_type = fa_type attr, ef_name = fa_name attr,
                     ef_pattern = ini, ef_sq = []\<rparr>
      | None \<Rightarrow> Inl CELL_EINVAL)"

definition event_flag_destroy_check :: "lv2_event_flag \<Rightarrow> CellError option" where
  "event_flag_destroy_check ef = (if ef_sq ef \<noteq> [] then Some CELL_EBUSY else None)"

definition ef_wait_args :: "tid \<Rightarrow> u64 \<Rightarrow> u32 \<Rightarrow> kstate \<Rightarrow> kstate" where
  "ef_wait_args t bitptn mode ks = set_reg t 6 0 (set_reg t 5 (ucast mode) (set_reg t 4 bitptn (set_reg t 3 (- 1) ks)))"

definition sys_event_flag_wait ::
    "host \<Rightarrow> kstate \<Rightarrow> lv2_event_flag \<Rightarrow> tid \<Rightarrow> u64 \<Rightarrow> u32 \<Rightarrow> u64 \<Rightarrow> kstate \<times> lv2_event_flag \<times> sysres" where
  "sys_event_flag_wait h ks ef t bitptn mode timeout =
     (let ks1 = ef_wait_args t bitptn mode ks in
      if \<not> check_mode mode then (ks1, ef, Err CELL_EINVAL)
      else
        let ks2 = set_reg t 6 (ef_pattern ef) ks1 in
        case check_pattern (ef_pattern ef) bitptn (ucast mode) of
          Some pat \<Rightarrow> (ks2, ef\<lparr>ef_pattern := pat\<rparr>, Ok)
        | None \<Rightarrow>
            if ef_type ef = SYS_SYNC_WAITER_SINGLE \<and> ef_sq ef \<noteq> [] then (ks2, ef, Err CELL_EPERM)
            else case block_sq h t timeout (ef_sq ef) ks2 of (ks3, q) \<Rightarrow> (ks3, ef\<lparr>ef_sq := q\<rparr>, Blocked))"

text \<open>A result for a waiter: the code in register 3 and the pattern to report in register 6.\<close>

definition ef_report :: "u64 \<Rightarrow> CellError \<Rightarrow> tid \<Rightarrow> kstate \<Rightarrow> kstate" where
  "ef_report pattern e u ks = set_reg u 6 pattern (set_reg u 3 (errval e) ks)"

definition event_flag_wait_timeout :: "kstate \<Rightarrow> lv2_event_flag \<Rightarrow> tid \<Rightarrow> kstate \<times> lv2_event_flag" where
  "event_flag_wait_timeout ks ef t =
     (case unqueue t (ef_sq ef) of
        (None, _) \<Rightarrow> (ks, ef)
      | (Some _, q) \<Rightarrow> (ef_report (ef_pattern ef) CELL_ETIMEDOUT t ks, ef\<lparr>ef_sq := q\<rparr>))"

text \<open>The result also carries what is stored through the \<^verbatim>\<open>result\<close> pointer.\<close>

definition sys_event_flag_trywait :: "lv2_event_flag \<Rightarrow> u64 \<Rightarrow> u32 \<Rightarrow> lv2_event_flag \<times> u64 \<times> sysres" where
  "sys_event_flag_trywait ef bitptn mode =
     (if \<not> check_mode mode then (ef, 0, Err CELL_EINVAL)
      else case check_pattern (ef_pattern ef) bitptn (ucast mode) of
             Some pat \<Rightarrow> (ef\<lparr>ef_pattern := pat\<rparr>, ef_pattern ef, Ok)
           | None \<Rightarrow> (ef, 0, Err CELL_EBUSY))"

text \<open>
  One round of setting bits. \<open>ef_next\<close> is \<^verbatim>\<open>get_next\<close>: the last unmarked thread of the
  queue, or the last of those with the best priority. \<open>ef_visit\<close> is the loop over it: it counts the served
  threads and collects in \<open>dep\<close> the bits of the old pattern that the outcome depends on.
\<close>

fun ef_next :: "kstate \<Rightarrow> lv2_protocol \<Rightarrow> tid list \<Rightarrow> tid option \<Rightarrow> int \<Rightarrow> tid option" where
  "ef_next ks p [] it best = it"
| "ef_next ks p (u # us) it best =
     (if gpr (thr ks u) 7 = 0 \<and> (p \<noteq> SYS_SYNC_PRIORITY \<or> prio (thr ks u) \<le> best)
      then ef_next ks p us (Some u) (prio (thr ks u))
      else ef_next ks p us it best)"

lemma ef_next_mem: "ef_next ks p q it best = Some u \<Longrightarrow> it = Some u \<or> u \<in> set q \<and> gpr (thr ks u) 7 = 0"
  by (induction ks p q it best rule: ef_next.induct) (auto split: if_splits)

lemma gpr_set_reg: "gpr (thr (set_reg u n v ks) w) = (if w = u then (gpr (thr ks w))(n := v) else gpr (thr ks w))"
  by (simp add: set_reg_def upd_thread_def)

lemma marks_decrease:
  assumes "ef_next ks p q None best = Some u"
  shows "length (filter (\<lambda>w. gpr (thr (set_reg u 3 v (set_reg u 6 x (set_reg u 7 1 ks))) w) 7 = 0) q)
    < length (filter (\<lambda>w. gpr (thr ks w) 7 = 0) q)"
proof -
  have u: "u \<in> set (filter (\<lambda>w. gpr (thr ks w) 7 = 0) q)" using ef_next_mem [OF assms] by auto
  have "filter (\<lambda>w. gpr (thr (set_reg u 3 v (set_reg u 6 x (set_reg u 7 1 ks))) w) 7 = 0) q =
      filter (\<lambda>w. w \<noteq> u) (filter (\<lambda>w. gpr (thr ks w) 7 = 0) q)"
    by (auto simp: gpr_set_reg intro!: filter_cong)
  then show ?thesis using length_filter_less [OF u, of "\<lambda>w. w \<noteq> u"] by simp
qed

function ef_visit ::
    "kstate \<Rightarrow> lv2_protocol \<Rightarrow> tid list \<Rightarrow> u64 \<Rightarrow> u64 \<Rightarrow> u64 \<Rightarrow> u32 \<Rightarrow> kstate \<times> u64 \<times> u64 \<times> u32" where
  "ef_visit ks p q bitptn to_write dep cnt =
     (case ef_next ks p q None smax32 of
        None \<Rightarrow> (ks, to_write, dep, cnt)
      | Some u \<Rightarrow>
          let ks1 = set_reg u 7 1 ks; pat = gpr (thr ks1 u) 4; mode = gpr (thr ks1 u) 5;
              dep_or = (if mode AND 0xf = SYS_EVENT_FLAG_WAIT_OR \<or> bitptn AND pat AND to_write = pat then 0 else pat);
              ks2 = set_reg u 6 to_write ks1
          in case check_pattern to_write pat mode of
               Some tw \<Rightarrow>
                 let ks3 = set_reg u 3 0 ks2
                 in if tw = 0 then (ks3, tw, dep OR dep_or, cnt + 1)
                    else ef_visit ks3 p q bitptn tw (dep OR dep_or) (cnt + 1)
             | None \<Rightarrow> ef_visit (set_reg u 3 (- 1) ks2) p q bitptn to_write dep cnt)"
  by pat_completeness auto
termination
  by (relation "measure (\<lambda>(ks, p, q, _). length (filter (\<lambda>u. gpr (thr ks u) 7 = 0) q))") (simp_all add: marks_decrease)

declare ef_visit.simps [simp del]

definition ef_round :: "kstate \<Rightarrow> lv2_event_flag \<Rightarrow> u64 \<Rightarrow> u64 \<Rightarrow> kstate \<times> u64 \<times> u64 \<times> u32" where
  "ef_round ks ef bitptn pattern =
     (let ks1 = fold (\<lambda>u. set_reg u 7 0) (ef_sq ef) ks
      in case ef_visit ks1 (ef_protocol ef) (ef_sq ef) bitptn (pattern OR bitptn) 0 0 of
           (ks2, to_write, dep, cnt) \<Rightarrow> (ks2, to_write, dep AND NOT bitptn, cnt))"

text \<open>The update of the pattern, which holds \<open>x\<close> when a round on \<open>pattern\<close> commits.\<close>

definition ef_commit :: "u64 \<Rightarrow> u64 \<Rightarrow> u64 \<Rightarrow> u64 \<Rightarrow> u64" where
  "ef_commit x pattern bitptn to_write = (x OR bitptn) AND NOT ((pattern OR bitptn) AND NOT to_write)"

text \<open>
  The rounds of one call. \<open>ps\<close> are the values of the pattern that the rounds work on, the first read and the
  value that each failed update saw; the last round commits on the current pattern, or is repeated on it.
  \<open>None\<close> marks a sequence of values with which an earlier round would have committed.
\<close>

fun ef_rounds :: "kstate \<Rightarrow> lv2_event_flag \<Rightarrow> u64 \<Rightarrow> u64 \<Rightarrow> u64 list \<Rightarrow> (kstate \<times> u64 \<times> u32) option" where
  "ef_rounds ks ef bitptn p [] =
     (case ef_round ks ef bitptn p of
        (ks1, to_write, dep, cnt) \<Rightarrow>
          if (ef_pattern ef XOR p) AND dep = 0 then Some (ks1, ef_commit (ef_pattern ef) p bitptn to_write, cnt)
          else case ef_round ks1 ef bitptn (ef_pattern ef) of
                 (ks2, to_write2, _, cnt2) \<Rightarrow> Some (ks2, ef_commit (ef_pattern ef) (ef_pattern ef) bitptn to_write2, cnt2))"
| "ef_rounds ks ef bitptn p (p' # ps) =
     (case ef_round ks ef bitptn p of
        (ks1, to_write, dep, cnt) \<Rightarrow> if (p' XOR p) AND dep = 0 then None else ef_rounds ks1 ef bitptn p' ps)"

definition sys_event_flag_set ::
    "host \<Rightarrow> kstate \<Rightarrow> lv2_event_flag \<Rightarrow> tid \<Rightarrow> u64 \<Rightarrow> u64 \<Rightarrow> u64 list \<Rightarrow> (kstate \<times> lv2_event_flag \<times> sysres) option" where
  "sys_event_flag_set h ks ef t bitptn p ps =
     (if ef_pattern ef AND bitptn = bitptn then Some (ks, ef, Ok)
      else if \<exists>u \<in> set (ef_sq ef). has_again (thr ks) u then Some (raise t F_again ks, ef, Err CELL_EAGAIN)
      else
        map_option
          (\<lambda>(ks1, pattern, cnt).
             let ef1 = ef\<lparr>ef_pattern := pattern\<rparr> in
             if cnt = 0 then (ks1, ef1, Ok)
             else
               let woken = filter (\<lambda>u. gpr3 ks1 u = 0) (ef_sq ef)
               in (awake_all (fold lv2_append woken ks1) (Some t) (h_now h) (h_tsc h),
                   ef1\<lparr>ef_sq := filter (\<lambda>u. gpr3 ks1 u \<noteq> 0) (ef_sq ef)\<rparr>, Ok))
          (ef_rounds ks ef bitptn p ps))"

definition sys_event_flag_clear :: "lv2_event_flag \<Rightarrow> u64 \<Rightarrow> lv2_event_flag" where
  "sys_event_flag_clear ef bitptn = ef\<lparr>ef_pattern := ef_pattern ef AND bitptn\<rparr>"

text \<open>Cancelling: every waiter returns \<^verbatim>\<open>CELL_ECANCELED\<close>. The result carries the number stored through \<^verbatim>\<open>num\<close>.\<close>

definition sys_event_flag_cancel ::
    "host \<Rightarrow> kstate \<Rightarrow> lv2_event_flag \<Rightarrow> tid \<Rightarrow> (kstate \<times> lv2_event_flag \<times> nat \<times> sysres) option" where
  "sys_event_flag_cancel h ks ef t =
     (if \<exists>u \<in> set (ef_sq ef). has_again (thr ks) u then Some (raise t F_again ks, ef, 0, Restart)
      else
        map_option
          (\<lambda>ts.
             let ks1 = fold (ef_report (ef_pattern ef) CELL_ECANCELED) ts ks;
                 ks2 = (if ts = [] then ks1 else awake_all (fold lv2_append ts ks1) (Some t) (h_now h) (h_tsc h))
             in (ks2, ef\<lparr>ef_sq := []\<rparr>, length ts, Ok))
          (schedule_loop (thr ks) SYS_SYNC_FIFO (ef_sq ef)))"

definition sys_event_flag_get :: "lv2_event_flag \<Rightarrow> u64" where
  "sys_event_flag_get ef = ef_pattern ef"

end
