(* ===== verification/Event_Flag_Serve.thy ===== *)
theory Event_Flag_Serve
  imports Sys_Event_Flag
begin

text \<open>
  What setting bits of an event flag means: the waiters are served one after the other, in the order of
  their priority and of their arrival, each of them on the pattern its predecessors left. The marking loop of
  the implementation, with its search for the next thread and its early exit, refines this, and the set of bits it
  depends on is large enough for the lock-free update.
\<close>

section \<open>Serving the waiters one by one\<close>

definition service_order :: "kstate \<Rightarrow> lv2_protocol \<Rightarrow> tid list \<Rightarrow> tid list" where
  "service_order ks p q = (if p = SYS_SYNC_PRIORITY then sort_key (\<lambda>u. prio (thr ks u)) (rev q) else rev q)"

fun serve :: "(tid \<Rightarrow> u64) \<Rightarrow> (tid \<Rightarrow> u64) \<Rightarrow> u64 \<Rightarrow> tid list \<Rightarrow> tid list \<times> u64" where
  "serve pat mode w [] = ([], w)"
| "serve pat mode w (u # us) =
     (case check_pattern w (pat u) (mode u) of
        None \<Rightarrow> serve pat mode w us
      | Some w' \<Rightarrow> (case serve pat mode w' us of (ts, w'') \<Rightarrow> (u # ts, w'')))"

text \<open>The bits of the old pattern that the served threads needed.\<close>

fun serve_dep :: "(tid \<Rightarrow> u64) \<Rightarrow> (tid \<Rightarrow> u64) \<Rightarrow> u64 \<Rightarrow> u64 \<Rightarrow> tid list \<Rightarrow> u64" where
  "serve_dep pat mode b w [] = 0"
| "serve_dep pat mode b w (u # us) =
     (case check_pattern w (pat u) (mode u) of
        None \<Rightarrow> serve_dep pat mode b w us
      | Some w' \<Rightarrow>
          (if mode u AND 0xf = SYS_EVENT_FLAG_WAIT_OR \<or> b AND pat u AND w = pat u then 0 else pat u) OR
          serve_dep pat mode b w' us)"

definition subword :: "u64 \<Rightarrow> u64 \<Rightarrow> bool" where
  "subword a b \<longleftrightarrow> a AND NOT b = 0"

lemma u64_eq_iff: "(a :: u64) = b \<longleftrightarrow> (\<forall>n < 64. bit a n = bit b n)"
  by (auto intro: bit_word_eqI)

lemma subword_iff: "subword a b \<longleftrightarrow> (\<forall>n < 64. bit a n \<longrightarrow> bit b n)"
  by (simp add: subword_def u64_eq_iff bit_simps)

lemma subword_and: "subword a b \<longleftrightarrow> b AND a = a"
  unfolding subword_iff by (auto simp: u64_eq_iff bit_simps)

lemma check_subword: "check_pattern w pat mode = Some w' \<Longrightarrow> subword w' w"
  by (auto simp: check_pattern_def subword_iff bit_simps split: if_splits)

definition mode_ok :: "u64 \<Rightarrow> bool" where
  "mode_ok m \<longleftrightarrow> m AND 0xf \<in> {SYS_EVENT_FLAG_WAIT_AND, SYS_EVENT_FLAG_WAIT_OR}"

lemma check_None_iff:
  "mode_ok mode \<Longrightarrow> check_pattern w pat mode = None \<longleftrightarrow>
    (if mode AND 0xf = SYS_EVENT_FLAG_WAIT_AND then \<not> subword pat w else w AND pat = 0)"
  by (auto simp: check_pattern_def mode_ok_def event_flag_consts subword_and split: if_splits)

lemma check_None_mono:
  assumes "mode_ok mode" and "check_pattern w pat mode = None" and "subword w' w"
  shows "check_pattern w' pat mode = None"
  using assms by (auto simp: check_None_iff subword_iff u64_eq_iff bit_simps split: if_splits)

lemma serve_subword: "serve pat mode w us = (ts, w') \<Longrightarrow> subword w' w"
proof (induction us arbitrary: w ts)
  case (Cons u us)
  show ?case
  proof (cases "check_pattern w (pat u) (mode u)")
    case (Some w1)
    then obtain ts' where "serve pat mode w1 us = (ts', w')" using Cons.prems by (auto split: prod.splits)
    then show ?thesis using Cons.IH check_subword [OF Some] by (auto simp: subword_iff)
  qed (use Cons in auto)
qed (simp add: subword_iff)

lemma serve_set: "serve pat mode w us = (ts, w') \<Longrightarrow> set ts \<subseteq> set us \<and> length ts \<le> length us"
  by (induction us arbitrary: w ts w') (fastforce split: option.splits prod.splits)+

text \<open>A thread that is not served is not satisfied by what is left.\<close>

lemma serve_unserved:
  assumes "serve pat mode w us = (ts, w')" and "u \<in> set us" and "u \<notin> set ts" and "mode_ok (mode u)"
  shows "check_pattern w' (pat u) (mode u) = None"
  using assms(1-3)
proof (induction us arbitrary: w ts)
  case (Cons v us)
  show ?case
  proof (cases "check_pattern w (pat v) (mode v)")
    case None
    then show ?thesis
      using Cons check_None_mono [OF assms(4) _ serve_subword] by (cases "u = v") fastforce+
  next
    case (Some w1)
    then show ?thesis using Cons by (auto split: prod.splits)
  qed
qed simp

lemma and_or_zero: "(a :: u64) AND ((d OR r) AND NOT b) = 0 \<longleftrightarrow> a AND (d AND NOT b) = 0 \<and> a AND (r AND NOT b) = 0"
  by (auto simp: u64_eq_iff bit_simps)

lemma check_and:
  assumes "check_pattern w pat mode = Some w'" and "check_pattern (w AND y) pat mode \<noteq> None"
  shows "check_pattern (w AND y) pat mode = Some (w' AND y)"
  using assms unfolding check_pattern_def by (auto simp: ac_simps split: if_splits)

lemma serve_zero: "\<forall>u \<in> set us. check_pattern 0 (pat u) (mode u) = None \<Longrightarrow> serve pat mode 0 us = ([], 0) \<and> serve_dep pat mode b 0 us = 0"
  by (induction us) auto

text \<open>
  Serving on a pattern from which bits have disappeared has the same outcome, if no bit is missing
  that the served threads needed.
\<close>

lemma serve_stable:
  assumes "subword x p" and "subword w (p OR b)" and "(x XOR p) AND (serve_dep pat mode b w us AND NOT b) = 0"
    and "\<forall>u \<in> set us. mode_ok (mode u) \<and> check_pattern p (pat u) (mode u) = None"
  shows "serve pat mode (w AND (x OR b)) us = (fst (serve pat mode w us), snd (serve pat mode w us) AND (x OR b))"
  using assms
proof (induction us arbitrary: w)
  case (Cons u us)
  let ?wx = "w AND (x OR b)"
  have m: "mode_ok (mode u)" and n: "check_pattern p (pat u) (mode u) = None" using Cons.prems(4) by auto
  show ?case
  proof (cases "check_pattern w (pat u) (mode u)")
    case None
    then have "check_pattern ?wx (pat u) (mode u) = None"
      by (rule check_None_mono [OF m]) (auto simp: subword_iff bit_simps)
    then show ?thesis using None Cons by simp
  next
    case (Some w1)
    have dep: "\<not> (mode u AND 0xf = SYS_EVENT_FLAG_WAIT_OR \<or> b AND pat u AND w = pat u) \<Longrightarrow> (x XOR p) AND (pat u AND NOT b) = 0"
      "(x XOR p) AND (serve_dep pat mode b w1 us AND NOT b) = 0"
      using Cons.prems(3) Some by (auto simp: and_or_zero split: if_splits)
    have s1: "subword w1 w" by (rule check_subword [OF Some])
    have "check_pattern ?wx (pat u) (mode u) \<noteq> None"
    proof (cases "mode u AND 0xf = SYS_EVENT_FLAG_WAIT_AND")
      case True
      then have or: "\<not> mode u AND 0xf = SYS_EVENT_FLAG_WAIT_OR" by (simp add: event_flag_consts)
      have "\<forall>n < 64. bit (pat u) n \<longrightarrow> bit b n \<or> bit x n = bit p n"
      proof (cases "b AND pat u AND w = pat u")
        case True
        then show ?thesis by (metis bit_and_iff)
      next
        case False
        with dep(1) or show ?thesis by (auto simp: u64_eq_iff bit_simps)
      qed
      moreover have "\<forall>n < 64. bit (pat u) n \<longrightarrow> bit w n" using Some True check_None_iff [OF m, of w "pat u"] by (simp add: subword_iff)
      ultimately have "subword (pat u) ?wx" using Cons.prems(2) by (auto simp: subword_iff bit_simps)
      then show ?thesis using True check_None_iff [OF m] by simp
    next
      case False
      then have "w AND pat u \<noteq> 0" "p AND pat u = 0" using Some n check_None_iff [OF m, of w "pat u"] check_None_iff [OF m, of p "pat u"] by auto
      moreover have "\<forall>n < 64. bit w n \<longrightarrow> bit p n \<or> bit b n" using Cons.prems(2) by (simp add: subword_iff bit_simps)
      ultimately have "?wx AND pat u \<noteq> 0" unfolding u64_eq_iff by (auto simp: bit_simps)
      then show ?thesis using False check_None_iff [OF m] by simp
    qed
    then have "check_pattern ?wx (pat u) (mode u) = Some (w1 AND (x OR b))"
      by (rule check_and [OF Some])
    moreover have "subword w1 (p OR b)" using s1 Cons.prems(2) by (auto simp: subword_iff bit_simps)
    ultimately show ?thesis using Cons.IH [of w1] Cons.prems(1,4) dep(2) Some by (simp add: case_prod_beta)
  qed
qed simp

section \<open>The marking loop serves in this order\<close>

text \<open>The registers 3, 6 and 7 of queued threads are all that the loop writes.\<close>

definition write_regs :: "(tid \<times> nat \<times> u64) list \<Rightarrow> kstate \<Rightarrow> kstate" where
  "write_regs xs ks = fold (\<lambda>(u, n, v). set_reg u n v) xs ks"

definition regs_step :: "tid set \<Rightarrow> kstate \<Rightarrow> kstate \<Rightarrow> bool" where
  "regs_step U ks ks' \<longleftrightarrow> (\<exists>xs. ks' = write_regs xs ks \<and> (\<forall>(u, n, v) \<in> set xs. u \<in> U \<and> n \<in> {3, 6, 7}))"

lemma regs_step_refl [simp]: "regs_step U ks ks"
  unfolding regs_step_def by (rule exI [of _ "[]"]) (simp add: write_regs_def)

lemma regs_step_trans: "regs_step U a b \<Longrightarrow> regs_step U b c \<Longrightarrow> regs_step U a c"
  unfolding regs_step_def by (elim exE conjE, rule_tac x = "xs @ xsa" in exI) (auto simp: write_regs_def)

lemma regs_step_set: "regs_step U a b \<Longrightarrow> u \<in> U \<Longrightarrow> n \<in> {3, 6, 7} \<Longrightarrow> regs_step U a (set_reg u n v b)"
  unfolding regs_step_def by (elim exE conjE, rule_tac x = "xs @ [(u, n, v)]" in exI) (auto simp: write_regs_def)

lemma regs_step_mono: "regs_step U a b \<Longrightarrow> U \<subseteq> V \<Longrightarrow> regs_step V a b"
  unfolding regs_step_def by blast

lemma regs_stepD:
  assumes "regs_step U ks ks'"
  shows "kernel_calm ks \<Longrightarrow> kernel_calm ks'" and "frame_except U ks ks'" and "g_ppu ks' = g_ppu ks"
    and "prio (thr ks' w) = prio (thr ks w)" and "running ks' w = running ks w"
    and "cancel_sleep (thr ks' w) = cancel_sleep (thr ks w)" and "n \<notin> {3, 6, 7} \<Longrightarrow> gpr (thr ks' w) n = gpr (thr ks w) n"
    and "state (thr ks' w) = state (thr ks w)"
proof -
  obtain xs where xs: "ks' = write_regs xs ks" "\<forall>(u, n, v) \<in> set xs. u \<in> U \<and> n \<in> {3, 6, 7}"
    using assms by (auto simp: regs_step_def)
  have "(kernel_calm k \<longrightarrow> kernel_calm (write_regs xs k)) \<and> frame_except U k (write_regs xs k) \<and> g_ppu (write_regs xs k) = g_ppu k \<and>
     prio (thr (write_regs xs k) w) = prio (thr k w) \<and> running (write_regs xs k) w = running k w \<and>
     cancel_sleep (thr (write_regs xs k) w) = cancel_sleep (thr k w) \<and> state (thr (write_regs xs k) w) = state (thr k w) \<and>
     (n \<notin> {3, 6, 7} \<longrightarrow> gpr (thr (write_regs xs k) w) n = gpr (thr k w) n)" for k
    using xs(2)
  proof (induction xs arbitrary: k)
    case Nil
    then show ?case by (simp add: write_regs_def)
  next
    case (Cons x xs)
    obtain u m v where x: "x = (u, m, v)" by (cases x)
    let ?k = "set_reg u m v k"
    have e: "write_regs (x # xs) k = write_regs xs ?k" by (simp add: write_regs_def x)
    have m: "m \<in> {3, 6, 7}" "u \<in> U" using Cons.prems x by auto
    have "frame_except U k ?k" using frame_mono [OF frame_set_reg] m(2) by auto
    moreover have "running ?k w = running k w" "cancel_sleep (thr ?k w) = cancel_sleep (thr k w)"
      by (simp_all add: running_def set_reg_def upd_thread_def)
    moreover have "n \<notin> {3, 6, 7} \<longrightarrow> gpr (thr ?k w) n = gpr (thr k w) n" using m by (auto simp: gpr_set_reg)
    ultimately show ?case
      using Cons.IH [of ?k] Cons.prems kernel_calm_own(1) frame_trans unfolding e by auto
  qed
  from this [of ks] show "kernel_calm ks \<Longrightarrow> kernel_calm ks'" "frame_except U ks ks'" "g_ppu ks' = g_ppu ks"
    "prio (thr ks' w) = prio (thr ks w)" "running ks' w = running ks w" "cancel_sleep (thr ks' w) = cancel_sleep (thr ks w)"
    "n \<notin> {3, 6, 7} \<Longrightarrow> gpr (thr ks' w) n = gpr (thr ks w) n" "state (thr ks' w) = state (thr ks w)" unfolding xs(1) by auto
qed

lemma regs_step_frame: "regs_step U ks ks' \<Longrightarrow> sched_frame T ks ks'"
  by (simp add: sched_frame_def regs_stepD parked_def)

text \<open>\<open>ef_next\<close> finds the head of the service order of the unmarked threads.\<close>

abbreviation unmarked :: "kstate \<Rightarrow> tid list \<Rightarrow> tid list" where
  "unmarked ks q \<equiv> filter (\<lambda>u. gpr (thr ks u) 7 = 0) q"

lemma ef_next_fifo:
  "p \<noteq> SYS_SYNC_PRIORITY \<Longrightarrow> ef_next ks p q it best = (if unmarked ks q = [] then it else Some (last (unmarked ks q)))"
  by (induction ks p q it best rule: ef_next.induct) auto

lemma ef_next_prio:
  assumes "ef_next ks SYS_SYNC_PRIORITY q it best = r"
  shows "(r = it \<and> (\<forall>w \<in> set (unmarked ks q). best < prio (thr ks w))) \<or>
    (\<exists>u xs ys. r = Some u \<and> unmarked ks q = xs @ u # ys \<and> prio (thr ks u) \<le> best \<and>
      (\<forall>w \<in> set xs. prio (thr ks u) \<le> prio (thr ks w)) \<and> (\<forall>w \<in> set ys. prio (thr ks u) < prio (thr ks w)))"
  using assms
proof (induction q arbitrary: it best)
  case (Cons v q)
  show ?case
  proof (cases "gpr (thr ks v) 7 = 0")
    case False
    then show ?thesis using Cons by simp
  next
    case um: True
    show ?thesis
    proof (cases "prio (thr ks v) \<le> best")
      case True
      then have "ef_next ks SYS_SYNC_PRIORITY q (Some v) (prio (thr ks v)) = r" using Cons.prems um by simp
      from Cons.IH [OF this] show ?thesis
      proof
        assume "r = Some v \<and> (\<forall>w \<in> set (unmarked ks q). prio (thr ks v) < prio (thr ks w))"
        then show ?thesis using True um by (intro disjI2 exI [of _ v] exI [of _ "[]"] exI [of _ "unmarked ks q"]) simp
      next
        assume "\<exists>u xs ys. r = Some u \<and> unmarked ks q = xs @ u # ys \<and> prio (thr ks u) \<le> prio (thr ks v) \<and>
          (\<forall>w \<in> set xs. prio (thr ks u) \<le> prio (thr ks w)) \<and> (\<forall>w \<in> set ys. prio (thr ks u) < prio (thr ks w))"
        then obtain u xs ys where "r = Some u" "unmarked ks q = xs @ u # ys" "prio (thr ks u) \<le> prio (thr ks v)"
          "\<forall>w \<in> set xs. prio (thr ks u) \<le> prio (thr ks w)" "\<forall>w \<in> set ys. prio (thr ks u) < prio (thr ks w)" by blast
        then show ?thesis using True um by (intro disjI2 exI [of _ u] exI [of _ "v # xs"] exI [of _ ys]) simp
      qed
    next
      case False
      then have "ef_next ks SYS_SYNC_PRIORITY q it best = r" using Cons.prems by simp
      from Cons.IH [OF this] show ?thesis
      proof
        assume "r = it \<and> (\<forall>w \<in> set (unmarked ks q). best < prio (thr ks w))"
        then show ?thesis using False um by simp
      next
        assume "\<exists>u xs ys. r = Some u \<and> unmarked ks q = xs @ u # ys \<and> prio (thr ks u) \<le> best \<and>
          (\<forall>w \<in> set xs. prio (thr ks u) \<le> prio (thr ks w)) \<and> (\<forall>w \<in> set ys. prio (thr ks u) < prio (thr ks w))"
        then obtain u xs ys where "r = Some u" "unmarked ks q = xs @ u # ys" "prio (thr ks u) \<le> best"
          "\<forall>w \<in> set xs. prio (thr ks u) \<le> prio (thr ks w)" "\<forall>w \<in> set ys. prio (thr ks u) < prio (thr ks w)" by blast
        then show ?thesis using False um by (intro disjI2 exI [of _ u] exI [of _ "v # xs"] exI [of _ ys]) simp
      qed
    qed
  qed
qed simp

lemma sort_key_first:
  fixes f :: "'a \<Rightarrow> int"
  assumes "\<forall>a \<in> set as. f u < f a" and "\<forall>b \<in> set bs. f u \<le> f b"
  shows "sort_key f (as @ u # bs) = u # sort_key f (as @ bs)"
proof (rule properties_for_sort_key)
  show "mset (u # sort_key f (as @ bs)) = mset (as @ u # bs)" by simp
  show "sorted (map f (u # sort_key f (as @ bs)))" using assms by (auto simp: less_imp_le)
  fix k
  have n: "filter (\<lambda>x. f k = f x) as = []" if "f k = f u" using assms(1) that by (auto simp: filter_empty_conv)
  have "filter (\<lambda>x. f k = f x) (sort_key f (as @ bs)) = filter (\<lambda>x. f k = f x) (as @ bs)"
    using sort_key_stable [of f "f k" "as @ bs"] by (simp add: eq_commute)
  then show "filter (\<lambda>x. f k = f x) (u # sort_key f (as @ bs)) = filter (\<lambda>x. f k = f x) (as @ u # bs)"
    using n by (cases "f k = f u") auto
qed

lemma service_order_simps [simp]:
  "service_order ks p [] = []" "set (service_order ks p q) = set q" "length (service_order ks p q) = length q" "distinct (service_order ks p q) = distinct q"
  by (simp_all add: service_order_def)

lemma service_order_cong: "(\<And>u. prio (thr a u) = prio (thr b u)) \<Longrightarrow> service_order a p q = service_order b p q"
  by (simp add: service_order_def)

lemma ef_next_head:
  assumes "distinct q" and "\<forall>u \<in> set q. prio (thr ks u) \<le> smax32"
  shows "ef_next ks p q None smax32 = None \<longleftrightarrow> unmarked ks q = []"
    and "ef_next ks p q None smax32 = Some u \<Longrightarrow>
      service_order ks p (unmarked ks q) = u # service_order ks p (remove1 u (unmarked ks q))"
proof -
  let ?us = "unmarked ks q"
  have d: "distinct ?us" using assms(1) by simp
  show "ef_next ks p q None smax32 = None \<longleftrightarrow> ?us = []"
    using ef_next_fifo [of p ks q None smax32] ef_next_prio [of ks q None smax32] assms(2)
    by (cases "p = SYS_SYNC_PRIORITY") (fastforce simp: filter_empty_conv)+
  assume e: "ef_next ks p q None smax32 = Some u"
  show "service_order ks p ?us = u # service_order ks p (remove1 u ?us)"
  proof (cases "p = SYS_SYNC_PRIORITY")
    case True
    then obtain xs ys where s: "?us = xs @ u # ys" "\<forall>w \<in> set xs. prio (thr ks u) \<le> prio (thr ks w)"
      "\<forall>w \<in> set ys. prio (thr ks u) < prio (thr ks w)" using ef_next_prio [of ks q None smax32 "Some u"] e by blast
    have "remove1 u ?us = xs @ ys" using d by (simp add: s(1) remove1_append)
    then show ?thesis
      using s sort_key_first [of "rev ys" "\<lambda>w. prio (thr ks w)" u "rev xs"] True by (simp add: service_order_def)
  next
    case False
    then have "?us \<noteq> []" "u = last ?us" using e ef_next_fifo [of p ks q None smax32] by (auto split: if_splits)
    then have "?us = butlast ?us @ [u]" "remove1 u ?us = butlast ?us"
      using remove1_last_butlast [OF _ d] by simp_all
    then have "rev ?us = u # rev (remove1 u ?us)" by (simp only: rev_eq_Cons_iff rev_rev_ident)
    then show ?thesis using False by (simp add: service_order_def)
  qed
qed

text \<open>
  The loop refines \<open>serve\<close>. Its early exit leaves threads unvisited only when no bit is left, which
  no waiting thread is satisfied by.
\<close>

definition never_zero :: "kstate \<Rightarrow> tid \<Rightarrow> bool" where
  "never_zero ks u \<longleftrightarrow> mode_ok (gpr (thr ks u) 5) \<and> check_pattern 0 (gpr (thr ks u) 4) (gpr (thr ks u) 5) = None"

lemma gpr3_set_reg_other [simp]: "n \<noteq> 3 \<Longrightarrow> gpr3 (set_reg u n v ks) x = gpr3 ks x"
  by (simp add: gpr3_def gpr_set_reg)

lemma ef_visit_serve:
  assumes "distinct q" and "\<forall>u \<in> set q. prio (thr ks u) \<le> smax32" and "os = service_order ks p (unmarked ks q)"
    and "\<forall>u \<in> set q. never_zero ks u"
    and "ef_visit ks p q b w dep cnt = (ks', w', dep', cnt')"
    and "serve (\<lambda>u. gpr (thr ks u) 4) (\<lambda>u. gpr (thr ks u) 5) w os = (ts, w2)"
  shows "w' = w2 \<and> cnt' = cnt + of_nat (length ts) \<and> regs_step (set q) ks ks' \<and>
    dep' = dep OR serve_dep (\<lambda>u. gpr (thr ks u) 4) (\<lambda>u. gpr (thr ks u) 5) b w os \<and>
    (\<forall>u \<in> set os. gpr3 ks' u = (if u \<in> set ts then 0 else - 1) \<or> ts \<noteq> [] \<and> w' = 0 \<and> u \<notin> set ts \<and> gpr3 ks' u = gpr3 ks u) \<and>
    (\<forall>u. u \<notin> set os \<longrightarrow> gpr3 ks' u = gpr3 ks u)"
  using assms
proof (induction "length os" arbitrary: os ks w dep cnt ts w2)
  case 0
  then have "unmarked ks q = []" by simp
  then have "ef_next ks p q None smax32 = None" using ef_next_head(1) [OF "0.prems"(1,2)] by blast
  then show ?case using "0" by (auto simp: ef_visit.simps [of ks])
next
  case (Suc n)
  note pr = Suc.prems
  have "unmarked ks q \<noteq> []" using Suc.hyps(2) pr(3) by auto
  then obtain u where u: "ef_next ks p q None smax32 = Some u" using ef_next_head(1) [OF pr(1,2)] by fastforce
  let ?us = "unmarked ks q" and ?os = "service_order ks p (remove1 u (unmarked ks q))"
  have os: "os = u # ?os" using ef_next_head(2) [OF pr(1,2) u] pr(3) by simp
  let ?k = "\<lambda>v. set_reg u 3 v (set_reg u 6 w (set_reg u 7 1 ks))"
  let ?pat = "\<lambda>u. gpr (thr ks u) 4" and ?mode = "\<lambda>u. gpr (thr ks u) 5"
  have um: "u \<in> set ?us" "u \<in> set q" using ef_next_mem [OF u] by auto
  have rs: "regs_step (set q) ks (?k v)" for v using um(2) by (intro regs_step_set) simp_all
  have keep: "gpr (thr (?k v) x) 4 = ?pat x" "gpr (thr (?k v) x) 5 = ?mode x" "prio (thr (?k v) x) = prio (thr ks x)" for v x
    by (simp_all add: gpr_set_reg)
  have "unmarked (?k v) q = remove1 u ?us" for v
    using pr(1) by (auto simp: gpr_set_reg distinct_remove1_removeAll removeAll_filter_not_eq intro!: filter_cong)
  then have so: "service_order (?k v) p (unmarked (?k v) q) = ?os" for v using service_order_cong [OF keep(3)] by metis
  have n: "n = length ?os" "u \<notin> set ?os" using Suc.hyps(2) os pr(1) by auto
  have zero: "check_pattern 0 (?pat x) (?mode x) = None" if "x \<in> set ?os" for x
    using that pr(4) notin_set_remove1 by (fastforce simp: never_zero_def)
  have fe: "(\<lambda>x. gpr (thr (?k v) x) 4) = ?pat" "(\<lambda>x. gpr (thr (?k v) x) 5) = ?mode" for v by (simp_all only: keep)
  have pk: "\<forall>x \<in> set q. prio (thr (?k v) x) \<le> smax32" "\<forall>x \<in> set q. never_zero (?k v) x" for v
    using pr(2,4) unfolding never_zero_def keep by blast+
  note IH = Suc.hyps(1) [OF n(1) pr(1) pk(1) so [symmetric] pk(2), unfolded fe]
  show ?case
  proof (cases "check_pattern w (?pat u) (?mode u)")
    case None
    then have a: "ef_visit (?k (- 1)) p q b w dep cnt = (ks', w', dep', cnt')"
      using pr(5) u by (subst (asm) ef_visit.simps) (simp add: gpr_set_reg)
    have c: "serve ?pat ?mode w ?os = (ts, w2)" using pr(6) None by (simp add: os)
    have "u \<notin> set ts" using serve_set [OF c] n(2) by blast
    with IH [OF a c] show ?thesis using None regs_step_trans [OF rs] n(2) by (auto simp: os)
  next
    case (Some w1)
    obtain ts' where ts: "serve ?pat ?mode w1 ?os = (ts', w2)" "ts = u # ts'"
      using pr(6) Some by (auto simp: os split: prod.splits)
    define d where "d = (if ?mode u AND 0xf = SYS_EVENT_FLAG_WAIT_OR \<or> b AND ?pat u AND w = ?pat u then 0 else ?pat u)"
    have dep: "serve_dep ?pat ?mode b w os = d OR serve_dep ?pat ?mode b w1 ?os" using Some by (simp add: os d_def)
    show ?thesis
    proof (cases "w1 = 0")
      case True
      then have "ef_visit ks p q b w dep cnt = (?k 0, 0, dep OR d, cnt + 1)"
        using u Some by (subst ef_visit.simps) (simp add: gpr_set_reg d_def Let_def)
      then have e: "ks' = ?k 0" "w' = 0" "dep' = dep OR d" "cnt' = cnt + 1" using pr(5) by simp_all
      have "ts' = []" "w2 = 0" "serve_dep ?pat ?mode b 0 ?os = 0"
        using serve_zero [of ?os ?pat ?mode b] zero ts(1) True by auto
      then show ?thesis using e ts rs dep True by (auto simp: os)
    next
      case False
      then have "ef_visit (?k 0) p q b w1 (dep OR d) (cnt + 1) = (ks', w', dep', cnt')"
        using pr(5) u Some by (subst (asm) ef_visit.simps) (simp add: gpr_set_reg d_def Let_def cong: if_cong)
      from IH [OF this ts(1)] show ?thesis
        using ts dep regs_step_trans [OF rs] n(2) by (auto simp: os or.assoc)
    qed
  qed
qed

end
