(* ===== verification/Event_Flag_System.thy ===== *)
theory Event_Flag_System
  imports Event_Flag_Serve
begin

text \<open>
  The event flag under the scheduler: the invariant that no queued thread is satisfied by the
  pattern, that every call keeps it, and what setting bits does to the waiters and to the pattern.
\<close>

section \<open>Rounds\<close>

definition ef_inv :: "kstate \<Rightarrow> lv2_event_flag \<Rightarrow> bool" where
  "ef_inv ks ef \<longleftrightarrow> distinct (ef_sq ef) \<and> 0 \<notin> set (ef_sq ef) \<and>
     (ef_type ef = SYS_SYNC_WAITER_SINGLE \<longrightarrow> length (ef_sq ef) \<le> 1) \<and>
     (\<forall>u \<in> set (ef_sq ef). gpr3 ks u = - 1 \<and> mode_ok (gpr (thr ks u) 5) \<and>
        check_pattern (ef_pattern ef) (gpr (thr ks u) 4) (gpr (thr ks u) 5) = None)"

lemma subword_0 [simp]: "subword 0 w"
  by (simp add: subword_def)

lemma check_zero: "mode_ok mode \<Longrightarrow> check_pattern w pat mode = None \<Longrightarrow> check_pattern 0 pat mode = None"
  by (rule check_None_mono) simp_all

lemma prio_smax: "kernel_ok ks \<Longrightarrow> prio (thr ks u) \<le> smax32"
proof -
  assume "kernel_ok ks"
  then have "bf_prio (prio (thr ks u)) = prio (thr ks u)" by (simp add: kernel_ok_def sched_inv_def)
  then show ?thesis using signed_take_bit_int_less_exp [of 12 "prio (thr ks u)"] by (simp add: bf_prio_def smax32_def)
qed

lemma fold_marks:
  "regs_step (set q) ks (fold (\<lambda>u. set_reg u 7 0) q ks) \<and> gpr3 (fold (\<lambda>u. set_reg u 7 0) q ks) w = gpr3 ks w \<and>
   (w \<in> set q \<or> gpr (thr ks w) 7 = 0 \<longrightarrow> gpr (thr (fold (\<lambda>u. set_reg u 7 0) q ks) w) 7 = 0)"
proof (induction q arbitrary: ks)
  case (Cons u q)
  have "regs_step (set (u # q)) ks (set_reg u 7 0 ks)" by (intro regs_step_set) simp_all
  moreover have "regs_step (set (u # q)) (set_reg u 7 0 ks) (fold (\<lambda>u. set_reg u 7 0) q (set_reg u 7 0 ks))"
    by (rule regs_step_mono [OF conjunct1 [OF Cons]]) auto
  ultimately have "regs_step (set (u # q)) ks (fold (\<lambda>u. set_reg u 7 0) q (set_reg u 7 0 ks))" by (rule regs_step_trans)
  then show ?case using Cons [of "set_reg u 7 0 ks"] by (cases "w = u") (simp_all add: gpr_set_reg)
qed simp

abbreviation wait_pat :: "kstate \<Rightarrow> tid \<Rightarrow> u64" where "wait_pat ks u \<equiv> gpr (thr ks u) 4"
abbreviation wait_mode :: "kstate \<Rightarrow> tid \<Rightarrow> u64" where "wait_mode ks u \<equiv> gpr (thr ks u) 5"

lemma ef_round_serve:
  assumes "kernel_ok ks" and "distinct (ef_sq ef)" and "\<forall>u \<in> set (ef_sq ef). never_zero ks u"
    and "ef_round ks ef b p = (ks', w, dep, cnt)"
    and "serve (wait_pat ks) (wait_mode ks) (p OR b) (service_order ks (ef_protocol ef) (ef_sq ef)) = (ts, w2)"
  shows "w = w2 \<and> cnt = of_nat (length ts) \<and> regs_step (set (ef_sq ef)) ks ks' \<and>
    dep = serve_dep (wait_pat ks) (wait_mode ks) b (p OR b) (service_order ks (ef_protocol ef) (ef_sq ef)) AND NOT b \<and>
    (\<forall>u \<in> set (ef_sq ef). gpr3 ks' u = (if u \<in> set ts then 0 else - 1) \<or> ts \<noteq> [] \<and> w = 0 \<and> u \<notin> set ts \<and> gpr3 ks' u = gpr3 ks u)"
proof -
  let ?q = "ef_sq ef" and ?k = "fold (\<lambda>u. set_reg u 7 0) (ef_sq ef) ks" and ?os = "service_order ks (ef_protocol ef) (ef_sq ef)"
  note f = fold_marks [of ?q ks]
  have rs: "regs_step (set ?q) ks ?k" using f by blast
  note rd = regs_stepD [OF rs]
  have um: "unmarked ?k ?q = ?q" using f by (simp add: filter_id_conv)
  have so: "?os = service_order ?k (ef_protocol ef) (unmarked ?k ?q)" unfolding um by (rule service_order_cong) (simp add: rd(4))
  have fe: "wait_pat ?k = wait_pat ks" "wait_mode ?k = wait_mode ks" by (auto simp: rd(7))
  have nz: "\<forall>u \<in> set ?q. never_zero ?k u" using assms(3) fe by (simp add: never_zero_def fun_eq_iff)
  have pr: "\<forall>u \<in> set ?q. prio (thr ?k u) \<le> smax32" by (simp add: rd(4) prio_smax [OF assms(1)])
  obtain dep0 where v: "ef_visit ?k (ef_protocol ef) ?q b (p OR b) 0 0 = (ks', w, dep0, cnt)" "dep = dep0 AND NOT b"
    using assms(4) by (auto simp: ef_round_def Let_def split: prod.splits)
  from ef_visit_serve [OF assms(2) pr so nz v(1), unfolded fe, OF assms(5)] show ?thesis
    using v(2) f regs_step_trans [OF rs] by auto
qed

text \<open>While the lock is held, other calls can only clear bits.\<close>

fun ef_history :: "u64 \<Rightarrow> u64 list \<Rightarrow> u64 \<Rightarrow> bool" where
  "ef_history p [] x = subword x p"
| "ef_history p (p' # ps) x = (subword p' p \<and> ef_history p' ps x)"

lemma ef_commit_eq: "subword x p \<Longrightarrow> subword w (p OR b) \<Longrightarrow> ef_commit x p b w = w AND (x OR b)"
  unfolding ef_commit_def subword_iff u64_eq_iff by (auto simp: bit_simps)

lemma subword_and1: "subword (w AND y) w"
  by (simp add: subword_iff bit_simps)

lemma minus_one_u64: "(- 1 :: u64) \<noteq> 0"
  by simp

definition results_safe :: "kstate \<Rightarrow> kstate \<Rightarrow> lv2_event_flag \<Rightarrow> u64 \<Rightarrow> u32 \<Rightarrow> bool" where
  "results_safe ks ks' ef pat cnt \<longleftrightarrow> regs_step (set (ef_sq ef)) ks ks' \<and>
     (\<forall>u \<in> set (ef_sq ef). gpr3 ks' u \<in> {0, - 1} \<and>
        (gpr3 ks' u = - 1 \<longrightarrow> check_pattern pat (wait_pat ks u) (wait_mode ks u) = None)) \<and>
     (cnt = 0 \<longrightarrow> (\<forall>u \<in> set (ef_sq ef). gpr3 ks' u = - 1))"

lemma ef_round_safe:
  assumes "kernel_ok ks" and "distinct (ef_sq ef)" and "0 \<notin> set (ef_sq ef)" and "\<forall>u \<in> set (ef_sq ef). never_zero ks u"
    and "\<forall>u \<in> set (ef_sq ef). gpr3 ks u \<in> {0, - 1}"
    and "ef_round ks ef b p = (ks', w, dep, cnt)"
  shows "regs_step (set (ef_sq ef)) ks ks'" and "\<forall>u \<in> set (ef_sq ef). gpr3 ks' u \<in> {0, - 1}"
    and "subword x p \<Longrightarrow> results_safe ks ks' ef (ef_commit x p b w) cnt"
proof -
  let ?os = "service_order ks (ef_protocol ef) (ef_sq ef)"
  obtain ts w2 where sv: "serve (wait_pat ks) (wait_mode ks) (p OR b) ?os = (ts, w2)" by fastforce
  note r = ef_round_serve [OF assms(1,2,4,6) sv]
  show rs: "regs_step (set (ef_sq ef)) ks ks'" using r by blast
  show res: "\<forall>u \<in> set (ef_sq ef). gpr3 ks' u \<in> {0, - 1}" using r assms(5) by fastforce
  assume x: "subword x p"
  have "ef_commit x p b w = w AND (x OR b)" using r serve_subword [OF sv] by (intro ef_commit_eq [OF x]) auto
  then have sub: "subword (ef_commit x p b w) w" by (simp only: subword_and1)
  have un: "check_pattern (ef_commit x p b w) (wait_pat ks u) (wait_mode ks u) = None"
    if "u \<in> set (ef_sq ef)" "u \<notin> set ts" for u
  proof -
    have m: "mode_ok (wait_mode ks u)" using assms(4) that(1) by (simp add: never_zero_def)
    have "check_pattern w (wait_pat ks u) (wait_mode ks u) = None"
      using serve_unserved [OF sv _ that(2) m] that(1) r by simp
    then show ?thesis by (rule check_None_mono [OF m _ sub])
  qed
  have "length ts < 2 ^ 32" using serve_set [OF sv] tid_list_length [OF assms(2,3)] by simp
  then have "cnt = 0 \<longrightarrow> ts = []" using r by (simp add: word_of_nat_eq_0_iff nat_dvd_not_less) (metis length_greater_0_conv nat_dvd_not_less)
  moreover have "gpr3 ks' u = - 1 \<longrightarrow> u \<notin> set ts" if "u \<in> set (ef_sq ef)" for u using r that by auto
  ultimately show "results_safe ks ks' ef (ef_commit x p b w) cnt"
    unfolding results_safe_def using rs res un r by auto
qed

lemma never_zero_regs: "regs_step U ks ks' \<Longrightarrow> never_zero ks' u = never_zero ks u"
  by (simp add: never_zero_def regs_stepD(7))

lemma results_safe_trans:
  assumes "regs_step (set (ef_sq ef)) ks k" and "results_safe k ks' ef pat cnt"
  shows "results_safe ks ks' ef pat cnt"
  using assms regs_step_trans by (auto simp: results_safe_def regs_stepD(7) [OF assms(1)])

lemma ef_rounds_safe:
  assumes "ef_rounds ks ef b p ps = Some (ks', pat, cnt)" and "ef_history p ps (ef_pattern ef)" and "kernel_calm ks"
    and "distinct (ef_sq ef)" and "0 \<notin> set (ef_sq ef)" and "\<forall>u \<in> set (ef_sq ef). never_zero ks u"
    and "\<forall>u \<in> set (ef_sq ef). gpr3 ks u \<in> {0, - 1}"
  shows "results_safe ks ks' ef pat cnt"
  using assms
proof (induction ps arbitrary: ks p)
  case Nil
  obtain ks1 w dep c where r: "ef_round ks ef b p = (ks1, w, dep, c)" by (metis prod_cases4)
  note s = ef_round_safe [OF kernel_calmD(1) [OF Nil.prems(3)] Nil.prems(4-7) r]
  show ?case
  proof (cases "(ef_pattern ef XOR p) AND dep = 0")
    case True
    then show ?thesis using s(3) Nil.prems(1,2) r by auto
  next
    case False
    obtain ks2 w2 dep2 c2 where r2: "ef_round ks1 ef b (ef_pattern ef) = (ks2, w2, dep2, c2)" by (metis prod_cases4)
    have nz: "\<forall>u \<in> set (ef_sq ef). never_zero ks1 u" using Nil.prems(6) never_zero_regs [OF s(1)] by blast
    note k = kernel_calmD(1) [OF regs_stepD(1) [OF s(1) Nil.prems(3)]]
    note s2 = ef_round_safe(3) [OF k Nil.prems(4,5) nz s(2) r2, of "ef_pattern ef"]
    have "subword (ef_pattern ef) (ef_pattern ef)" by (simp add: subword_iff)
    then show ?thesis using results_safe_trans [OF s(1) s2] Nil.prems(1) False r r2 by simp
  qed
next
  case (Cons p' ps)
  obtain ks1 w dep c where r: "ef_round ks ef b p = (ks1, w, dep, c)" by (metis prod_cases4)
  note s = ef_round_safe [OF kernel_calmD(1) [OF Cons.prems(3)] Cons.prems(4-7) r]
  have nz: "\<forall>u \<in> set (ef_sq ef). never_zero ks1 u" using Cons.prems(6) never_zero_regs [OF s(1)] by blast
  have "ef_rounds ks1 ef b p' ps = Some (ks', pat, cnt)" using Cons.prems(1) r by (simp split: if_splits)
  from Cons.IH [OF this _ regs_stepD(1) [OF s(1) Cons.prems(3)] Cons.prems(4,5) nz s(2)] Cons.prems(2)
  show ?case using results_safe_trans [OF s(1)] by simp
qed

section \<open>Every call keeps the invariant\<close>

lemma mode_ok_check_mode: "check_mode mode \<Longrightarrow> mode_ok (ucast mode)"
  by (auto simp: check_mode_def mode_ok_def unsigned_and_eq)

lemma set_reg_twice: "set_reg t n v (set_reg t n w ks) = set_reg t n v ks"
  by (simp add: set_reg_def upd_thr_def upd_thread_def)

lemma ef_args:
  assumes "ks' = set_reg t 6 v (ef_wait_args t bitptn mode ks)"
  shows "kernel_calm ks \<Longrightarrow> kernel_calm ks'" and "sched_frame {t} ks ks'" and "may_call ks t \<Longrightarrow> may_call ks' t"
    and "gpr3 ks' t = - 1" and "wait_pat ks' t = bitptn" and "wait_mode ks' t = ucast mode"
    and "u \<noteq> t \<Longrightarrow> gpr (thr ks' u) = gpr (thr ks u)"
proof -
  show "kernel_calm ks \<Longrightarrow> kernel_calm ks'" by (simp add: assms ef_wait_args_def kernel_calm_own)
  have "frame_except {t} ks ks'" unfolding assms ef_wait_args_def
    by (rule frame_trans [OF frame_trans [OF frame_trans [OF frame_trans [OF frame_set_reg frame_set_reg] frame_set_reg] frame_set_reg] frame_set_reg])
  then show "sched_frame {t} ks ks'" by (rule frame_sched)
  show "may_call ks t \<Longrightarrow> may_call ks' t"
    by (simp add: assms ef_wait_args_def may_call_def running_def set_reg_def upd_thread_def)
  show "gpr3 ks' t = - 1" "wait_pat ks' t = bitptn" "wait_mode ks' t = ucast mode" "u \<noteq> t \<Longrightarrow> gpr (thr ks' u) = gpr (thr ks u)"
    by (simp_all add: assms ef_wait_args_def gpr3_def gpr_set_reg)
qed

lemma ef_inv_regs:
  "ef_inv ks ef \<Longrightarrow> \<forall>u \<in> set (ef_sq ef). gpr (thr ks' u) = gpr (thr ks u) \<Longrightarrow> ef_inv ks' ef"
  by (simp add: ef_inv_def gpr3_def)

lemma ef_inv_less:
  assumes "ef_inv ks ef" and "subword pat (ef_pattern ef)"
  shows "ef_inv ks (ef\<lparr>ef_pattern := pat\<rparr>)"
  using assms check_None_mono [OF _ _ assms(2)] by (simp add: ef_inv_def)

lemma ef_wait_effect:
  assumes inv: "ef_inv ks ef" and calm: "kernel_calm ks" and t: "may_call ks t" "t \<notin> set (ef_sq ef)"
    and c: "sys_event_flag_wait h ks ef t bitptn mode timeout = (ks', ef', r)"
  shows "ef_inv ks' ef' \<and> op_effect t (ef_sq ef) (ef_sq ef') ks ks' (phase_of r)"
proof -
  let ?k = "\<lambda>v. set_reg t 6 v (ef_wait_args t bitptn mode ks)" and ?m = "ucast mode :: u64"
  note a = ef_args [OF refl, where t = t and bitptn = bitptn and mode = mode and ks = ks]
  have inv': "ef_inv (?k v) ef" for v by (rule ef_inv_regs [OF inv]) (use a(7) t(2) in metis)
  have same: "op_effect t (ef_sq ef) (ef_sq ef) ks (?k v) Idle" for v
    using a(1) [OF calm] a(2) t(2) by (intro op_effect_none) auto
  have e0: "ef_wait_args t bitptn mode ks = ?k 0" by (simp add: ef_wait_args_def set_reg_twice)
  consider (mode) "\<not> check_mode mode" | (ok) pat where "check_mode mode" "check_pattern (ef_pattern ef) bitptn ?m = Some pat"
    | (single) "check_mode mode" "check_pattern (ef_pattern ef) bitptn ?m = None" "ef_type ef = SYS_SYNC_WAITER_SINGLE" "ef_sq ef \<noteq> []"
    | (block) "check_mode mode" "check_pattern (ef_pattern ef) bitptn ?m = None" "ef_type ef = SYS_SYNC_WAITER_SINGLE \<longrightarrow> ef_sq ef = []"
    by (cases "check_pattern (ef_pattern ef) bitptn ?m") auto
  then show ?thesis
  proof cases
    case mode
    then show ?thesis using c inv' [of 0] same [of 0] e0 by (auto simp: sys_event_flag_wait_def)
  next
    case ok
    then have "ks' = ?k (ef_pattern ef)" "ef' = ef\<lparr>ef_pattern := pat\<rparr>" "r = Ok" using c by (auto simp: sys_event_flag_wait_def Let_def)
    then show ?thesis using ef_inv_less [OF inv' check_subword [OF ok(2)]] same by simp
  next
    case single
    then have "ks' = ?k (ef_pattern ef)" "ef' = ef" "r = Err CELL_EPERM" using c by (auto simp: sys_event_flag_wait_def Let_def)
    then show ?thesis using inv' same by simp
  next
    case block
    let ?kk = "?k (ef_pattern ef)"
    let ?b = "fst (block_sq h t timeout (ef_sq ef) ?kk)"
    have e: "ks' = ?b" "ef' = ef\<lparr>ef_sq := t # ef_sq ef\<rparr>" "r = Blocked"
      using c block by (auto simp: sys_event_flag_wait_def Let_def case_prod_beta split: if_splits)
    note bs = block_sq_effect [OF a(1) [OF calm] a(3) [OF t(1)], where h = h and timeout = timeout and q = "ef_sq ef"]
    have "t \<noteq> 0" using t(1) by (simp add: may_call_def)
    then have "ef_inv ?b (ef\<lparr>ef_sq := t # ef_sq ef\<rparr>)"
      using inv' [of "ef_pattern ef"] t(2) block mode_ok_check_mode [OF block(1)] a(4-6) bs(4) by (auto simp: ef_inv_def gpr3_def)
    then show ?thesis
      using e op_effect_block_sq [OF a(1) [OF calm] a(3) [OF t(1)] a(2), of _ "ef_sq ef"] t(2) by simp
  qed
qed

lemma ef_inv_never_zero: "ef_inv ks ef \<Longrightarrow> u \<in> set (ef_sq ef) \<Longrightarrow> never_zero ks u"
  using check_zero by (auto simp: ef_inv_def never_zero_def)

lemma ef_set_effect:
  assumes inv: "ef_inv ks ef" and calm: "kernel_calm ks" and t: "t \<notin> set (ef_sq ef)"
    and hist: "ef_history p ps (ef_pattern ef)"
    and c: "sys_event_flag_set h ks ef t b p ps = Some (ks', ef', r)"
  shows "ef_inv ks' ef' \<and> op_effect t (ef_sq ef) (ef_sq ef') ks ks' (phase_of r)"
proof (cases "ef_pattern ef AND b = b")
  case True
  then show ?thesis using c inv op_effect_same [OF calm t] by (auto simp: sys_event_flag_set_def)
next
  case False
  let ?q = "ef_sq ef"
  have d: "distinct ?q" "0 \<notin> set ?q" "\<forall>u \<in> set ?q. gpr3 ks u \<in> {0, - 1}" using inv by (auto simp: ef_inv_def)
  have ag: "\<not> has_again (thr ks) u" for u using kernel_calmD(4) [OF calm] .
  then obtain ks1 pat cnt where r: "ef_rounds ks ef b p ps = Some (ks1, pat, cnt)"
    and e: "(ks', ef', r) = (let ef1 = ef\<lparr>ef_pattern := pat\<rparr> in
             if cnt = 0 then (ks1, ef1, Ok)
             else (awake_list h t (filter (\<lambda>u. gpr3 ks1 u = 0) ?q) ks1, ef1\<lparr>ef_sq := filter (\<lambda>u. gpr3 ks1 u \<noteq> 0) ?q\<rparr>, Ok))"
    using c False by (auto simp: sys_event_flag_set_def Let_def awake_list_def split: if_splits)
  have rsafe: "results_safe ks ks1 ef pat cnt"
    using ef_rounds_safe [OF r hist calm d(1,2) _ d(3)] ef_inv_never_zero [OF inv] by blast
  then have rs: "regs_step (set ?q) ks ks1" by (simp add: results_safe_def)
  note rd = regs_stepD [OF rs]
  have keep: "wait_pat ks1 u = wait_pat ks u" "wait_mode ks1 u = wait_mode ks u" for u by (simp_all add: rd(7))
  have single: "ef_type ef = SYS_SYNC_WAITER_SINGLE \<longrightarrow> length (filter P ?q) \<le> 1" for P
    using inv le_trans [OF length_filter_le, of ?q 1 P] by (auto simp: ef_inv_def)
  show ?thesis
  proof (cases "cnt = 0")
    case True
    have "ef_inv ks1 (ef\<lparr>ef_pattern := pat\<rparr>)" using inv rsafe keep True by (simp add: ef_inv_def results_safe_def)
    moreover have "op_effect t ?q ?q ks ks1 Idle"
      by (rule op_effect_pre [OF regs_step_frame [OF rs] op_effect_same [OF rd(1) [OF calm] t]])
    ultimately show ?thesis using e True by simp
  next
    case False
    let ?W = "filter (\<lambda>u. gpr3 ks1 u = 0) ?q" and ?R = "filter (\<lambda>u. gpr3 ks1 u \<noteq> 0) ?q"
    have "ef_inv (awake_list h t ?W ks1) (ef\<lparr>ef_pattern := pat, ef_sq := ?R\<rparr>)"
      using inv rsafe keep single by (auto simp: ef_inv_def results_safe_def gpr3_def)
    moreover have "op_effect t ?q ?R ks1 (awake_list h t ?W ks1) Idle"
      using d(2) t by (intro op_effect_wake [OF rd(1) [OF calm]]) auto
    ultimately show ?thesis using e False op_effect_pre [OF regs_step_frame [OF rs]] by simp
  qed
qed

lemma fold_results:
  "regs_step (set us) k (fold (ef_report x e) us k) \<and>
    (\<forall>u \<in> set us. gpr3 (fold (ef_report x e) us k) u = errval e \<and> gpr (thr (fold (ef_report x e) us k) u) 6 = x)"
proof (induction us rule: rev_induct)
  case (snoc u us)
  let ?k = "fold (ef_report x e) us k"
  have "regs_step (set (us @ [u])) k ?k" by (rule regs_step_mono [OF conjunct1 [OF snoc]]) auto
  then have "regs_step (set (us @ [u])) k (set_reg u 6 x (set_reg u 3 (errval e) ?k))" by (intro regs_step_set) auto
  then have "regs_step (set (us @ [u])) k (ef_report x e u ?k)" by (simp only: ef_report_def)
  moreover have "gpr (thr (ef_report x e u ?k) v) n = (if v = u \<and> n = 6 then x else if v = u \<and> n = 3 then errval e else gpr (thr ?k v) n)" for v n
    by (simp add: ef_report_def gpr_set_reg)
  ultimately show ?case using snoc by (simp add: gpr3_def)
qed simp

lemma ef_cancel_effect:
  assumes inv: "ef_inv ks ef" and calm: "kernel_calm ks" and t: "t \<notin> set (ef_sq ef)"
  shows "\<exists>ks'. sys_event_flag_cancel h ks ef t = Some (ks', ef\<lparr>ef_sq := []\<rparr>, length (ef_sq ef), Ok) \<and>
    op_effect t (ef_sq ef) [] ks ks' Idle \<and> set (ef_sq ef) \<subseteq> set (g_ppu ks') \<and>
    (\<forall>u \<in> set (ef_sq ef). gpr3 ks' u = errval CELL_ECANCELED \<and> gpr (thr ks' u) 6 = ef_pattern ef)"
proof -
  let ?q = "ef_sq ef"
  have ag: "\<forall>u \<in> set ?q. \<not> has_again (thr ks) u" using kernel_calmD(4) [OF calm] by blast
  obtain ts where ts: "schedule_loop (thr ks) SYS_SYNC_FIFO ?q = Some ts" "mset ts = mset ?q" using schedule_loop_all [OF ag] by blast
  then have len: "length ts = length ?q" "set ts = set ?q" by (metis size_mset) (metis ts(2) mset_eq_setD)
  let ?k = "fold (ef_report (ef_pattern ef) CELL_ECANCELED) ts ks"
  note k = fold_results [of ts ks "ef_pattern ef" CELL_ECANCELED]
  have kc: "kernel_calm ?k" and fr: "sched_frame {} ks ?k" using regs_stepD(1) [OF conjunct1 [OF k] calm] regs_step_frame [OF conjunct1 [OF k]] by auto
  have z: "0 \<notin> set ts" using inv len(2) by (simp add: ef_inv_def)
  have "sys_event_flag_cancel h ks ef t = Some ((if ts = [] then ?k else awake_list h t ts ?k), ef\<lparr>ef_sq := []\<rparr>, length ?q, Ok)"
    using ts ag len by (auto simp: sys_event_flag_cancel_def awake_list_def Let_def)
  moreover have "op_effect t ?q [] ks (if ts = [] then ?k else awake_list h t ts ?k) Idle"
    using op_effect_wake [OF kc z, of t "[]" ?q h] op_effect_same [OF kc t] op_effect_pre [OF fr] t len(1,2) by auto
  ultimately show ?thesis using k len awake_list_effect(2) [OF kc z, of h t] by (auto simp: gpr3_def)
qed

lemma ef_timeout_effect:
  assumes inv: "ef_inv ks ef" and calm: "kernel_calm ks" and c: "event_flag_wait_timeout ks ef t = (ks', ef')"
  shows "ef_inv ks' ef' \<and> op_effect t (ef_sq ef) (ef_sq ef') ks ks' Idle"
proof (cases "t \<in> set (ef_sq ef)")
  case True
  let ?q = "remove1 t (ef_sq ef)"
  have e: "ks' = set_reg t 6 (ef_pattern ef) (set_reg t 3 (errval CELL_ETIMEDOUT) ks)" "ef' = ef\<lparr>ef_sq := ?q\<rparr>"
    using c True by (auto simp: event_flag_wait_timeout_def ef_report_def unqueue_def)
  have d: "distinct (ef_sq ef)" using inv by (simp add: ef_inv_def)
  then have "t \<notin> set ?q" "set ?q \<subseteq> set (ef_sq ef)" "length ?q \<le> length (ef_sq ef)" by (auto simp: length_remove1)
  then have "ef_inv ks' ef'" using inv e by (auto simp: ef_inv_def gpr3_def gpr_set_reg)
  moreover have "op_effect t (ef_sq ef) ?q ks ks' Idle"
    unfolding e by (rule op_effect_set_reg [OF op_effect_leave [OF calm d]]) simp
  ultimately show ?thesis using e by simp
next
  case False
  then have "ks' = ks" "ef' = ef" using c by (auto simp: event_flag_wait_timeout_def unqueue_def)
  then show ?thesis using inv op_effect_same [OF calm False] by simp
qed

section \<open>The event flag as a waiting object\<close>

datatype ef_op = Ef_wait u64 u32 u64 | Ef_trywait u64 u32 | Ef_set u64 u64 "u64 list" | Ef_clear u64 | Ef_cancel | Ef_get

fun ef_call :: "host \<Rightarrow> ef_op \<Rightarrow> tid \<Rightarrow> kstate \<Rightarrow> lv2_event_flag \<Rightarrow> kstate \<times> lv2_event_flag \<times> sysres" where
  "ef_call h (Ef_wait bitptn mode timeout) t ks ef = sys_event_flag_wait h ks ef t bitptn mode timeout"
| "ef_call h (Ef_trywait bitptn mode) t ks ef = (case sys_event_flag_trywait ef bitptn mode of (ef', _, r) \<Rightarrow> (ks, ef', r))"
| "ef_call h (Ef_set bitptn p ps) t ks ef =
     (case sys_event_flag_set h ks ef t bitptn p ps of Some x \<Rightarrow> x | None \<Rightarrow> (ks, ef, Restart))"
| "ef_call h (Ef_clear bitptn) t ks ef = (ks, sys_event_flag_clear ef bitptn, Ok)"
| "ef_call h Ef_cancel t ks ef =
     (case sys_event_flag_cancel h ks ef t of Some (ks', ef', _, r) \<Rightarrow> (ks', ef', r) | None \<Rightarrow> (ks, ef, Restart))"
| "ef_call h Ef_get t ks ef = (ks, ef, Value (sys_event_flag_get ef))"

text \<open>The values of the pattern that a setting call meets only lose bits, and belong to one of its runs.\<close>

definition ef_call_ok :: "ef_op \<Rightarrow> tid \<Rightarrow> kstate \<Rightarrow> lv2_event_flag \<Rightarrow> bool" where
  "ef_call_ok c t ks ef \<longleftrightarrow>
     (case c of Ef_set bitptn p ps \<Rightarrow> ef_history p ps (ef_pattern ef) \<and> ef_rounds ks ef bitptn p ps \<noteq> None | _ \<Rightarrow> True)"

definition ef_tmo :: "host \<Rightarrow> tid \<Rightarrow> kstate \<Rightarrow> lv2_event_flag \<Rightarrow> kstate \<times> lv2_event_flag \<times> sysres" where
  "ef_tmo h t ks ef = ends_wait (event_flag_wait_timeout ks ef t)"

interpretation evf: wait_object ef_sq ef_inv ef_call_ok ef_call ef_tmo
proof unfold_locales
  fix ks ks' :: kstate and ef
  assume "ef_inv ks ef" "\<forall>u \<in> set (ef_sq ef). gpr (thr ks' u) = gpr (thr ks u)"
  then show "ef_inv ks' ef" by (rule ef_inv_regs)
next
  fix ks ef t c h ks' ef' r
  assume inv: "ef_inv ks ef" and calm: "kernel_calm ks" and t: "may_call ks t" "t \<notin> set (ef_sq ef)"
    and ok: "ef_call_ok c t ks ef" and c: "ef_call h c t ks ef = (ks', ef', r)"
  note same = op_effect_same [OF calm t(2)]
  show "ef_inv ks' ef' \<and> op_effect t (ef_sq ef) (ef_sq ef') ks ks' (phase_of r)"
  proof (cases c)
    case (Ef_wait bitptn mode timeout)
    then show ?thesis using ef_wait_effect [OF inv calm t] c by simp
  next
    case (Ef_trywait bitptn mode)
    then show ?thesis
      using c inv same ef_inv_less [OF inv check_subword]
      by (auto simp: sys_event_flag_trywait_def split: option.splits if_splits)
  next
    case (Ef_set bitptn p ps)
    then show ?thesis
      using c ok ef_set_effect [OF inv calm t(2), of p ps h bitptn] inv same by (auto simp: ef_call_ok_def split: option.splits)
  next
    case (Ef_clear bitptn)
    moreover have "ef_inv ks (sys_event_flag_clear ef bitptn)"
      unfolding sys_event_flag_clear_def by (rule ef_inv_less [OF inv subword_and1])
    ultimately show ?thesis using c same by (auto simp: sys_event_flag_clear_def)
  next
    case Ef_cancel
    then show ?thesis using c ef_cancel_effect [OF inv calm t(2), of h] inv by (auto simp: ef_inv_def)
  next
    case Ef_get
    then show ?thesis using c inv same by auto
  qed
next
  fix ks ef t h ks' ef' r
  assume a: "ef_inv ks ef" "kernel_calm ks" and "ef_tmo h t ks ef = (ks', ef', r)"
  then have "event_flag_wait_timeout ks ef t = (ks', ef')" "r = Ok" by (auto simp: ef_tmo_def ends_wait_def)
  then show "ef_inv ks' ef' \<and> op_effect t (ef_sq ef) (ef_sq ef') ks ks' (phase_of r)" using ef_timeout_effect [OF a] by simp
qed

section \<open>Properties\<close>

text \<open>
  C23: In every state that interleaved calls on an event flag reach, whatever retries its updates
  need, no queued thread is satisfied by the pattern, a single-waiter flag has at most one waiter, no
  \<^verbatim>\<open>ensure\<close> has failed and no wake-up is lost.
\<close>

theorem event_flag_safe:
  assumes "wstart ef_inv ef_sq s0"
    and "(wstep ef_sq ef_call_ok ef_call ef_tmo)\<^sup>*\<^sup>* s0 s"
  shows "(\<forall>u \<in> set (ef_sq (ws_obj s)).
      check_pattern (ef_pattern (ws_obj s)) (wait_pat (ws_ks s) u) (wait_mode (ws_ks s) u) = None) \<and>
    (ef_type (ws_obj s) = SYS_SYNC_WAITER_SINGLE \<longrightarrow> length (ef_sq (ws_obj s)) \<le> 1) \<and> waiters_safe ef_sq s"
  using winvar_safe [OF evf.reachable_inv [OF assms(2,1)]] by (simp add: ef_inv_def)

definition demo_ef :: "tid list \<Rightarrow> u64 \<Rightarrow> lv2_event_flag" where
  "demo_ef q pat = \<lparr>ef_protocol = SYS_SYNC_FIFO, ef_key = 0, ef_type = SYS_SYNC_WAITER_MULTIPLE, ef_name = 0,
     ef_pattern = pat, ef_sq = q\<rparr>"

theorem event_flag_safe_witness:
  "\<exists>s. (wstep ef_sq ef_call_ok ef_call ef_tmo)\<^sup>*\<^sup>* (demo_wsys (demo_ef [] 2)) s \<and>
     ef_sq (ws_obj s) = [1] \<and> check_pattern 2 (wait_pat (ws_ks s) 1) (wait_mode (ws_ks s) 1) = None"
proof -
  let ?step = "wstep ef_sq ef_call_ok ef_call ef_tmo"
  have "check_pattern 2 1 (ucast (1 :: u32)) = None" "check_mode 1"
    by (simp_all add: check_pattern_def check_mode_def event_flag_consts)
  then obtain ks' where "ef_call demo_host (Ef_wait 1 1 0) 1 demo_ks (demo_ef [] 2) = (ks', (demo_ef [] 2)\<lparr>ef_sq := [1]\<rparr>, Blocked)"
    by (simp add: sys_event_flag_wait_def demo_ef_def Let_def case_prod_beta)
  from demo_call [where cok = ef_call_ok and call = ef_call, OF _ this] obtain s
    where s: "?step (demo_wsys (demo_ef [] 2)) s" "ws_obj s = (demo_ef [] 2)\<lparr>ef_sq := [1]\<rparr>"
    by (fastforce simp: ef_call_ok_def)
  have "ef_inv demo_ks (demo_ef [] 2)" by (simp add: ef_inv_def demo_ef_def)
  then have "wstart ef_inv ef_sq (demo_wsys (demo_ef [] 2))" by (rule demo_wstart) (simp add: demo_ef_def)
  from event_flag_safe [OF this r_into_rtranclp [of ?step, OF s(1)]] s show ?thesis
    by (intro exI [of _ s]) (auto simp: demo_ef_def)
qed

text \<open>
  C22: Setting bits serves the waiters one after the other. If the update commits on the pattern
  that the round worked on, or on one that has lost only bits the outcome does not depend on, then exactly the threads
  are woken, and exactly the pattern is left, that serving the waiters in order of priority and arrival on the
  current pattern gives; the woken threads return \<^verbatim>\<open>CELL_OK\<close>.
\<close>

theorem event_flag_set_serves:
  assumes "ef_inv ks (ef\<lparr>ef_pattern := p\<rparr>)" and "subword (ef_pattern ef) p" and "kernel_calm ks" and "t \<notin> set (ef_sq ef)"
    and "ef_pattern ef AND b \<noteq> b"
    and "ef_round ks ef b p = (k, w, dep, cnt)" and "(ef_pattern ef XOR p) AND dep = 0"
    and "serve (wait_pat ks) (wait_mode ks) (ef_pattern ef OR b) (service_order ks (ef_protocol ef) (ef_sq ef)) = (ts, pat)"
  shows "\<exists>ks'. sys_event_flag_set h ks ef t b p [] =
      Some (ks', ef\<lparr>ef_pattern := pat, ef_sq := filter (\<lambda>u. u \<notin> set ts) (ef_sq ef)\<rparr>, Ok) \<and>
    set ts \<subseteq> set (g_ppu ks') \<and> (\<forall>u \<in> set ts. gpr3 ks' u = 0)"
proof -
  let ?q = "ef_sq ef" and ?os = "service_order ks (ef_protocol ef) (ef_sq ef)"
  have d: "distinct ?q" "0 \<notin> set ?q" "\<forall>u \<in> set ?q. gpr3 ks u = - 1 \<and> mode_ok (wait_mode ks u) \<and> check_pattern p (wait_pat ks u) (wait_mode ks u) = None"
    using assms(1) by (auto simp: ef_inv_def)
  have nz: "\<forall>u \<in> set ?q. never_zero ks u" using ef_inv_never_zero [OF assms(1)] by simp
  obtain ts2 w2 where sv: "serve (wait_pat ks) (wait_mode ks) (p OR b) ?os = (ts2, w2)" by fastforce
  note r = ef_round_serve [OF kernel_calmD(1) [OF assms(3)] d(1) nz assms(6) sv]
  have x: "(p OR b) AND (ef_pattern ef OR b) = ef_pattern ef OR b"
    using assms(2) unfolding u64_eq_iff subword_iff by (auto simp: bit_simps)
  have "serve (wait_pat ks) (wait_mode ks) ((p OR b) AND (ef_pattern ef OR b)) ?os = (ts2, w2 AND (ef_pattern ef OR b))"
    using serve_stable [OF assms(2), of "p OR b" b "wait_pat ks" "wait_mode ks" ?os] assms(7) r d(3) sv by (simp add: subword_iff)
  then have ts: "ts = ts2" "pat = w2 AND (ef_pattern ef OR b)" using assms(8) x by auto
  have "ef_commit (ef_pattern ef) p b w = pat"
    using ef_commit_eq [OF assms(2)] serve_subword [OF sv] r ts(2) by auto
  then have e: "ef_rounds ks ef b p [] = Some (k, pat, cnt)" using assms(6,7) by simp
  have res: "gpr3 k u = 0 \<longleftrightarrow> u \<in> set ts" if "u \<in> set ?q" for u using r d(3) ts(1) that by (fastforce split: if_splits)
  have set_ts: "set ts \<subseteq> set ?q" using serve_set [OF sv] ts(1) by simp
  have ag: "\<not> has_again (thr ks) u" for u using kernel_calmD(4) [OF assms(3)] .
  show ?thesis
  proof (cases "cnt = 0")
    case True
    then have "ts = []" using ef_round_safe(3) [OF kernel_calmD(1) [OF assms(3)] d(1,2) nz _ assms(6) assms(2)] d(3) res set_ts
      by (cases ts) (auto simp: results_safe_def)
    then show ?thesis using True e ag assms(5) by (simp add: sys_event_flag_set_def)
  next
    case False
    have W: "filter (\<lambda>u. gpr3 k u = 0) ?q = filter (\<lambda>u. u \<in> set ts) ?q" "filter (\<lambda>u. gpr3 k u \<noteq> 0) ?q = filter (\<lambda>u. u \<notin> set ts) ?q"
      using res by (auto intro: filter_cong)
    let ?W = "filter (\<lambda>u. u \<in> set ts) ?q"
    have kc: "kernel_calm k" using r regs_stepD(1) assms(3) by blast
    have "0 \<notin> set ?W" "set ts \<subseteq> set ?W" using d(2) set_ts by auto
    then have "set ts \<subseteq> set (g_ppu (awake_list h t ?W k))" using awake_list_effect(2) [OF kc, of ?W h t] by blast
    moreover have "\<forall>u \<in> set ts. gpr3 (awake_list h t ?W k) u = 0" using res set_ts by (auto simp: gpr3_def)
    moreover have "sys_event_flag_set h ks ef t b p [] =
        Some (awake_list h t ?W k, ef\<lparr>ef_pattern := pat, ef_sq := filter (\<lambda>u. u \<notin> set ts) ?q\<rparr>, Ok)"
      using False e ag assms(5) W by (simp add: sys_event_flag_set_def awake_list_def Let_def)
    ultimately show ?thesis by blast
  qed
qed

text \<open>Threads 1, 2 and 3 wait with the patterns and modes given.\<close>

definition demo_waits :: "(tid \<times> u64 \<times> u64) list \<Rightarrow> kstate" where
  "demo_waits xs = write_regs (concat (map (\<lambda>(u, pat, mode). [(u, 3, - 1), (u, 4, pat), (u, 5, mode)]) xs)) demo_ks"

theorem event_flag_set_serves_witness:
  "\<exists>ks'. sys_event_flag_set demo_host (demo_waits [(3, 1, 0x12)]) (demo_ef [3] 4) 1 1 4 [] =
      Some (ks', demo_ef [] 4, Ok) \<and> 3 \<in> set (g_ppu ks') \<and> gpr3 ks' 3 = 0"
proof -
  let ?ks = "demo_waits [(3, 1, 0x12)]" and ?ef = "demo_ef [3] 4"
  have g: "gpr3 ?ks 3 = - 1" "wait_pat ?ks 3 = 1" "wait_mode ?ks 3 = 0x12"
    by (simp_all add: demo_waits_def write_regs_def gpr_set_reg gpr3_def)
  have c: "check_pattern 4 1 0x12 = None" "check_pattern 5 1 0x12 = Some 4" "mode_ok 0x12" by code_simp+
  have "ef_inv ?ks (?ef\<lparr>ef_pattern := 4\<rparr>)" using g c by (simp add: ef_inv_def demo_ef_def)
  moreover have "kernel_calm ?ks" by (simp add: demo_waits_def write_regs_def kernel_calm_own demo_calm)
  moreover obtain k w dep cnt where "ef_round ?ks ?ef 1 4 = (k, w, dep, cnt)" by (cases "ef_round ?ks ?ef 1 4")
  moreover have "serve (wait_pat ?ks) (wait_mode ?ks) (4 OR 1) (service_order ?ks SYS_SYNC_FIFO [3]) = ([3], 4)"
    using g c by (simp add: service_order_def)
  ultimately show ?thesis
    using event_flag_set_serves [where ks = ?ks and ef = ?ef and p = 4 and t = 1 and b = 1 and ts = "[3]" and pat = 4 and h = demo_host] by (simp add: demo_ef_def subword_def)
qed

text \<open>
  A retried update of \<open>sys_event_flag_set\<close> does not take back the results of the failed round. Thread 1
  waits for bits 1 and 2, thread 2 for bit 1 and clears the whole pattern, thread 3 for bit 8. The first round, on pattern 2 with bits 1
  and 8 set, serves threads 1 and 3; bit 2 is cleared before the update commits. The second round, on
  pattern 0, serves thread 2 alone, which leaves nothing for thread 3, and counts one thread; but thread 3
  still holds the result 0 of the first round and is woken with \<^verbatim>\<open>CELL_OK\<close>.
\<close>

lemma event_flag_set_stale:
  "map_option (\<lambda>(k, pat, cnt). (pat, cnt, gpr3 k 1, gpr3 k 2, gpr3 k 3))
     (ef_rounds (demo_waits [(1, 3, 0x11), (2, 1, 0x21), (3, 8, 0x02)]) (demo_ef [3, 2, 1] 0) 9 2 []) = Some (0, 1, - 1, 0, 0)"
  "serve (\<lambda>u. if u = 1 then 3 else if u = 2 then 1 else 8) (\<lambda>u. if u = 1 then 0x11 else if u = 2 then 0x21 else 0x02) (0 OR 9) [1, 2, 3] =
     ([2], 0)"
  by (simp_all add: ef_round_def demo_ef_def demo_waits_def write_regs_def ef_visit.simps gpr_set_reg gpr3_def Let_def
      check_pattern_def event_flag_consts ef_commit_def)

end
