(* ===== verification/Sys_Cond.thy ===== *)
theory Sys_Cond
  imports Sys_Mutex
begin

text \<open>
  The condition variable of \<^verbatim>\<open>rpcs3/Emu/Cell/lv2/sys_cond.h\<close> and \<^verbatim>\<open>sys_cond.cpp\<close>. The operations
  take the condition variable and the mutex it points to; both are guarded by the lock of the mutex. \<open>Restart\<close> is the result of
  one turn of a loop that repeats: a caller that has been asked to suspend waits until it runs again and then
  tries again. The paths that resume a wait from a savestate are not modelled.
\<close>

record lv2_cond =
  cd_key :: u64
  cd_name :: u64
  cd_mtx_id :: u32
  cd_sq :: "tid list"

record sys_cond_attribute =
  ca_pshared :: u32
  ca_flags :: int
  ca_ipc_key :: u64
  ca_name :: u64

definition sys_cond_make :: "u64 \<Rightarrow> sys_cond_attribute \<Rightarrow> u32 \<Rightarrow> lv2_cond" where
  "sys_cond_make ipc_key attr mutex_id = \<lparr>cd_key = ipc_key, cd_name = ca_name attr, cd_mtx_id = mutex_id, cd_sq = []\<rparr>"

text \<open>The hook run when an identifier is made, once the mutex is known to exist, and the check and the effect of a removal.\<close>

definition cond_attach :: "lv2_mutex \<Rightarrow> lv2_mutex" where
  "cond_attach m = m\<lparr>mx_cond_count := mx_cond_count m + 1\<rparr>"

definition cond_destroy_check :: "lv2_cond \<Rightarrow> lv2_mutex \<Rightarrow> CellError option \<times> lv2_mutex" where
  "cond_destroy_check c m =
     (if cd_sq c \<noteq> [] then (Some CELL_EBUSY, m) else (None, m\<lparr>mx_cond_count := mx_cond_count m - 1\<rparr>))"

section \<open>Signals\<close>

text \<open>A thread that left the queue of the condition variable takes the mutex or queues for it.\<close>

definition cond_pass :: "host \<Rightarrow> tid \<Rightarrow> tid \<Rightarrow> kstate \<Rightarrow> lv2_mutex \<Rightarrow> kstate \<times> lv2_mutex" where
  "cond_pass h t u ks m =
     (case mutex_try_own ks m u of (ks1, m1, got) \<Rightarrow> (if got then awake_one h t u ks1 else ks1, m1))"

definition sys_cond_signal ::
    "host \<Rightarrow> kstate \<Rightarrow> lv2_mutex \<Rightarrow> lv2_cond \<Rightarrow> tid \<Rightarrow> kstate \<times> lv2_mutex \<times> lv2_cond \<times> sysres" where
  "sys_cond_signal h ks m c t =
     (if F_suspend \<in> state (thr ks t) then (ks, m, c, Restart)
      else case schedule (thr ks) (mx_protocol m) (cd_sq c) of
             (None, _) \<Rightarrow> (ks, m, c, Ok)
           | (Some u, q) \<Rightarrow>
               if has_again (thr ks) u then (raise t F_again ks, m, c, Ok)
               else case cond_pass h t u ks m of (ks1, m1) \<Rightarrow> (ks1, m1, c\<lparr>cd_sq := q\<rparr>, Ok))"

text \<open>The loop of \<^verbatim>\<open>sys_cond_signal_all\<close>: at most one thread can take the mutex.\<close>

partial_function (option) cond_move ::
    "kstate \<Rightarrow> lv2_mutex \<Rightarrow> tid list \<Rightarrow> tid option \<Rightarrow> (kstate \<times> lv2_mutex \<times> tid option) option" where
  "cond_move ks m q res =
     (case schedule (thr ks) SYS_SYNC_PRIORITY q of
        (None, _) \<Rightarrow> Some (ks, m, res)
      | (Some u, q') \<Rightarrow>
          (case mutex_try_own ks m u of
             (ks1, m1, got) \<Rightarrow>
               if got then cond_move (ensure (res = None) ks1) m1 q' (Some u) else cond_move ks1 m1 q' res))"

definition sys_cond_signal_all ::
    "host \<Rightarrow> kstate \<Rightarrow> lv2_mutex \<Rightarrow> lv2_cond \<Rightarrow> tid \<Rightarrow> (kstate \<times> lv2_mutex \<times> lv2_cond \<times> sysres) option" where
  "sys_cond_signal_all h ks m c t =
     (if F_suspend \<in> state (thr ks t) then Some (ks, m, c, Restart)
      else if cd_sq c = [] then Some (ks, m, c, Ok)
      else if \<exists>u \<in> set (cd_sq c). has_again (thr ks) u then Some (raise t F_again ks, m, c, Ok)
      else map_option
             (\<lambda>(ks1, m1, res). (case res of None \<Rightarrow> ks1 | Some u \<Rightarrow> awake_one h t u ks1, m1, c\<lparr>cd_sq := []\<rparr>, Ok))
             (cond_move ks m (cd_sq c) None))"

text \<open>
  One turn of \<^verbatim>\<open>sys_cond_signal_to\<close>. \<open>exists_tgt\<close> says whether the target thread exists, \<open>chance\<close> is
  \<^verbatim>\<open>has_lower_prio_or_is_the_mutex_owner\<close>, \<open>elapsed\<close> the host time since the call began.
\<close>

definition signal_chance :: "kstate \<Rightarrow> lv2_mutex \<Rightarrow> tid \<Rightarrow> tid \<Rightarrow> bool \<Rightarrow> bool" where
  "signal_chance ks m t target chance \<longleftrightarrow>
     chance \<or> mx_owner m \<noteq> t \<and> (mx_owner m = target \<or> prio (thr ks target) < prio (thr ks t))"

definition sys_cond_signal_to ::
    "host \<Rightarrow> kstate \<Rightarrow> lv2_mutex \<Rightarrow> lv2_cond \<Rightarrow> tid \<Rightarrow> tid \<Rightarrow> bool \<Rightarrow> bool \<Rightarrow> u64 \<Rightarrow>
      kstate \<times> lv2_mutex \<times> lv2_cond \<times> bool \<times> sysres" where
  "sys_cond_signal_to h ks m c t target exists_tgt chance elapsed =
     (if \<not> exists_tgt then (ks, m, c, chance, Err CELL_ESRCH)
      else
        let chance1 = signal_chance ks m t target chance
        in if F_suspend \<in> state (thr ks t) then (ks, m, c, chance1, Restart)
           else case unqueue target (cd_sq c) of
                  (Some u, q) \<Rightarrow>
                    if has_again (thr ks) u
                    then (raise t F_again ks, m, c, chance1, if chance1 \<and> elapsed < 50 then Restart else Err CELL_EPERM)
                    else (case cond_pass h t u ks m of (ks1, m1) \<Rightarrow> (ks1, m1, c\<lparr>cd_sq := q\<rparr>, chance1, Ok))
                | (None, _) \<Rightarrow>
                    (ks, m, c, chance1, if chance1 \<and> elapsed < 50 then Restart else Err CELL_EPERM))"

section \<open>Waiting\<close>

text \<open>
  The caller is queued, gives up the mutex whatever its recursion count, and sleeps; a waiter of the
  mutex that takes it is woken by the same scheduler pass. The recursion count is a local variable of the call.
\<close>

definition sys_cond_wait ::
    "host \<Rightarrow> kstate \<Rightarrow> lv2_mutex \<Rightarrow> lv2_cond \<Rightarrow> tid \<Rightarrow> u64 \<Rightarrow> kstate \<times> lv2_mutex \<times> lv2_cond \<times> u32 \<times> sysres" where
  "sys_cond_wait h ks m c t timeout =
     (let ks1 = set_reg t 3 0 ks
      in if mx_owner m \<noteq> t then (ks1, m, c, 0, Err CELL_EPERM)
         else
           let (ks2, q) = emplace_sq t (cd_sq c) ks1;
               c1 = c\<lparr>cd_sq := q\<rparr>;
               cnt = mx_lock_count m
           in case mutex_reown (thr ks2) (m\<lparr>mx_lock_count := 0\<rparr>) of
                (m2, None) \<Rightarrow> (fst (sleep_self h t timeout ks2), m2, c1, cnt, Blocked)
              | (m2, Some u) \<Rightarrow>
                  if has_again (thr ks2) u
                  then (raise t F_again (ensure (t \<in> set q) ks2), m2, c1\<lparr>cd_sq := snd (unqueue t q)\<rparr>, 0, Restart)
                  else (fst (sleep_self h t timeout (lv2_append u ks2)), m2, c1, cnt, Blocked))"

text \<open>
  After a timeout: the thread leaves the queue of the condition variable and takes the mutex or queues
  for it; a thread that was moved to the mutex before goes on waiting for it, without a timeout.
  The start time of the wait, which rescheduling had cleared, is put back.
\<close>

definition cond_resleep :: "host \<Rightarrow> tid \<Rightarrow> u64 \<Rightarrow> kstate \<Rightarrow> kstate" where
  "cond_resleep h t start ks = upd_thr t (\<lambda>p. p\<lparr>start_time := start\<rparr>) (fst (sleep_self h t 0 ks))"

definition cond_wait_timeout ::
    "host \<Rightarrow> kstate \<Rightarrow> lv2_mutex \<Rightarrow> lv2_cond \<Rightarrow> tid \<Rightarrow> u64 \<Rightarrow> kstate \<times> lv2_mutex \<times> lv2_cond \<times> sysres" where
  "cond_wait_timeout h ks m c t start =
     (case unqueue t (cd_sq c) of
        (Some _, q) \<Rightarrow>
          (case mutex_try_own (set_reg t 3 (errval CELL_ETIMEDOUT) ks) m t of
             (ks1, m1, True) \<Rightarrow> (ks1, m1, c\<lparr>cd_sq := q\<rparr>, Ok)
           | (ks1, m1, False) \<Rightarrow> (cond_resleep h t start ks1, m1, c\<lparr>cd_sq := q\<rparr>, Blocked))
      | (None, _) \<Rightarrow>
          if mx_owner m = t then (ks, m, c, Ok) else (cond_resleep h t start ks, m, c, Blocked))"

text \<open>The end of the call: the thread must own the mutex, and its recursion count is restored.\<close>

definition cond_wait_end :: "kstate \<Rightarrow> lv2_mutex \<Rightarrow> tid \<Rightarrow> u32 \<Rightarrow> kstate \<times> lv2_mutex" where
  "cond_wait_end ks m t cnt = (ensure (mx_owner m = t) ks, m\<lparr>mx_lock_count := cnt\<rparr>)"

text \<open>
  A wait that gives up because the next owner of the mutex is being saved has already cleared the
  recursion count, and leaves the mutex without it.
\<close>

lemma cond_wait_again_drops_count:
  assumes "mx_owner m = t" and "mutex_reown (thr (fst (emplace_sq t (cd_sq c) (set_reg t 3 0 ks)))) (m\<lparr>mx_lock_count := 0\<rparr>) = (m2, Some u)"
    and "has_again (thr (fst (emplace_sq t (cd_sq c) (set_reg t 3 0 ks)))) u"
  shows "\<exists>ks'. sys_cond_wait h ks m c t timeout = (ks', m\<lparr>mx_lock_count := 0\<rparr>, c, 0, Restart)"
proof -
  have "m2 = m\<lparr>mx_lock_count := 0\<rparr>" using assms(2,3) by (auto simp: mutex_reown_def split: prod.splits option.splits)
  then show ?thesis using assms by (simp add: sys_cond_wait_def unqueue_def case_prod_beta Let_def)
qed

end
