(* ===== verification/Cond_System.thy ===== *)
theory Cond_System
  imports Sys_Cond Mutex_System
begin

text \<open>
  A mutex with any number of condition variables under the scheduler. Threads lock and unlock the mutex, wait
  on and signal the condition variables; the calls interleave as in \<open>Wait_Object\<close>. A thread inside \<open>sys_cond_wait\<close>
  has an entry in \<open>co_wait\<close> that holds the local variables of the call: the condition variable, the
  recursion count to restore, and the start time. It ends the call with \<open>Cd_end\<close> after it was woken. The queue of the
  system is the queue of the mutex and those of the condition variables.
\<close>

record cond_obj =
  co_m :: lv2_mutex
  co_conds :: "lv2_cond list"
  co_wait :: "tid \<Rightarrow> (nat \<times> u32 \<times> u64) option"

definition cond_queues :: "lv2_cond list \<Rightarrow> tid list" where
  "cond_queues cs = concat (map cd_sq cs)"

definition co_queue :: "cond_obj \<Rightarrow> tid list" where
  "co_queue ob = mx_sq (co_m ob) @ cond_queues (co_conds ob)"

datatype cond_op =
    Mx_lock | Mx_trylock | Mx_unlock
  | Cd_wait nat u64 | Cd_signal nat | Cd_signal_all nat | Cd_signal_to nat tid bool bool u64 | Cd_end

fun cond_op_index :: "cond_op \<Rightarrow> nat option" where
  "cond_op_index (Cd_wait i _) = Some i"
| "cond_op_index (Cd_signal i) = Some i"
| "cond_op_index (Cd_signal_all i) = Some i"
| "cond_op_index (Cd_signal_to i _ _ _ _) = Some i"
| "cond_op_index _ = None"

definition cond_call_ok :: "cond_op \<Rightarrow> tid \<Rightarrow> kstate \<Rightarrow> cond_obj \<Rightarrow> bool" where
  "cond_call_ok c t ks ob \<longleftrightarrow> (co_wait ob t = None \<longleftrightarrow> c \<noteq> Cd_end) \<and> (\<forall>i. cond_op_index c = Some i \<longrightarrow> i < length (co_conds ob))"

definition co_put :: "cond_obj \<Rightarrow> nat \<Rightarrow> lv2_mutex \<Rightarrow> lv2_cond \<Rightarrow> cond_obj" where
  "co_put ob i m c = ob\<lparr>co_m := m, co_conds := (co_conds ob)[i := c]\<rparr>"

fun cond_call :: "host \<Rightarrow> cond_op \<Rightarrow> tid \<Rightarrow> kstate \<Rightarrow> cond_obj \<Rightarrow> kstate \<times> cond_obj \<times> sysres" where
  "cond_call h Mx_lock t ks ob =
     (case mutex_lock_begin (h_cas h) ks (co_m ob) t of
        (ks', m', r) \<Rightarrow> (ks', ob\<lparr>co_m := m'\<rparr>, case r of None \<Rightarrow> Enqueued | Some x \<Rightarrow> x))"
| "cond_call h Mx_trylock t ks ob =
     (case sys_mutex_trylock (h_cas h) (co_m ob) t of (m', r) \<Rightarrow> (ks, ob\<lparr>co_m := m'\<rparr>, r))"
| "cond_call h Mx_unlock t ks ob =
     (case sys_mutex_unlock h ks (co_m ob) t of (ks', m', r) \<Rightarrow> (ks', ob\<lparr>co_m := m'\<rparr>, r))"
| "cond_call h (Cd_wait i timeout) t ks ob =
     (case sys_cond_wait h ks (co_m ob) (co_conds ob ! i) t timeout of
        (ks', m', c', cnt, r) \<Rightarrow>
          (ks', (co_put ob i m' c')\<lparr>co_wait := (co_wait ob)(t := if r = Blocked then Some (i, cnt, start_time (thr ks' t)) else None)\<rparr>, r))"
| "cond_call h (Cd_signal i) t ks ob =
     (case sys_cond_signal h ks (co_m ob) (co_conds ob ! i) t of (ks', m', c', r) \<Rightarrow> (ks', co_put ob i m' c', r))"
| "cond_call h (Cd_signal_all i) t ks ob =
     (case sys_cond_signal_all h ks (co_m ob) (co_conds ob ! i) t of
        None \<Rightarrow> (ks\<lparr>fault := True\<rparr>, ob, Ok)
      | Some (ks', m', c', r) \<Rightarrow> (ks', co_put ob i m' c', r))"
| "cond_call h (Cd_signal_to i target ex chance elapsed) t ks ob =
     (case sys_cond_signal_to h ks (co_m ob) (co_conds ob ! i) t target ex chance elapsed of
        (ks', m', c', _, r) \<Rightarrow> (ks', co_put ob i m' c', r))"
| "cond_call h Cd_end t ks ob =
     (case co_wait ob t of
        None \<Rightarrow> (ks, ob, Ok)
      | Some (_, cnt, _) \<Rightarrow>
          (case cond_wait_end ks (co_m ob) t cnt of (ks', m') \<Rightarrow> (ks', ob\<lparr>co_m := m', co_wait := (co_wait ob)(t := None)\<rparr>, Ok)))"

text \<open>The timeout of a thread that waits for the mutex, or on a condition variable.\<close>

definition cond_tmo :: "host \<Rightarrow> tid \<Rightarrow> kstate \<Rightarrow> cond_obj \<Rightarrow> kstate \<times> cond_obj \<times> sysres" where
  "cond_tmo h t ks ob =
     (case co_wait ob t of
        None \<Rightarrow> (case mutex_lock_timeout ks (co_m ob) t of (ks', m') \<Rightarrow> (ks', ob\<lparr>co_m := m'\<rparr>, Ok))
      | Some (i, _, start) \<Rightarrow>
          (case cond_wait_timeout h ks (co_m ob) (co_conds ob ! i) t start of
             (ks', m', c', r) \<Rightarrow> (ks', co_put ob i m' c', r)))"

section \<open>The invariant\<close>

text \<open>
  A thread inside \<open>sys_cond_wait\<close> is queued on its condition variable or on the mutex, or owns the
  mutex with its recursion count cleared.
\<close>

definition cond_inv :: "cond_obj \<Rightarrow> bool" where
  "cond_inv ob \<longleftrightarrow> mutex_inv (co_m ob) \<and> distinct (co_queue ob) \<and> 0 \<notin> set (co_queue ob) \<and> mx_owner (co_m ob) \<notin> set (co_queue ob) \<and>
     (\<forall>i < length (co_conds ob). \<forall>t \<in> set (cd_sq (co_conds ob ! i)). \<exists>n s. co_wait ob t = Some (i, n, s)) \<and>
     (\<forall>t i n s. co_wait ob t = Some (i, n, s) \<longrightarrow> t \<noteq> 0 \<and> i < length (co_conds ob) \<and>
        (t \<in> set (co_queue ob) \<or> mx_owner (co_m ob) = t) \<and> (mx_owner (co_m ob) = t \<longrightarrow> mx_lock_count (co_m ob) = 0) \<and>
        (mx_recursive (co_m ob) \<noteq> SYS_SYNC_RECURSIVE \<longrightarrow> n = 0))"

lemma cond_queues_put:
  "i < length cs \<Longrightarrow> mset (cond_queues (cs[i := c])) + mset (cd_sq (cs ! i)) = mset (cond_queues cs) + mset (cd_sq c)"
  unfolding cond_queues_def by (rule concat_map_update)

lemma cond_queues_mem: "i < length cs \<Longrightarrow> t \<in> set (cd_sq (cs ! i)) \<Longrightarrow> t \<in> set (cond_queues cs)"
  by (auto simp: cond_queues_def)

lemma cond_invD:
  assumes "cond_inv ob"
  shows "mutex_inv (co_m ob)" "distinct (co_queue ob)" "0 \<notin> set (co_queue ob)" "mx_owner (co_m ob) \<notin> set (co_queue ob)"
    and "i < length (co_conds ob) \<Longrightarrow> t \<in> set (cd_sq (co_conds ob ! i)) \<Longrightarrow> \<exists>n s. co_wait ob t = Some (i, n, s)"
    and "co_wait ob t = Some (i, n, s) \<Longrightarrow> t \<noteq> 0 \<and> i < length (co_conds ob) \<and>
      (t \<in> set (co_queue ob) \<or> mx_owner (co_m ob) = t) \<and> (mx_owner (co_m ob) = t \<longrightarrow> mx_lock_count (co_m ob) = 0) \<and>
      (mx_recursive (co_m ob) \<noteq> SYS_SYNC_RECURSIVE \<longrightarrow> n = 0)"
  using assms unfolding cond_inv_def by blast+

lemma co_put_queue:
  assumes "i < length (co_conds ob)"
  shows "mset (co_queue (co_put ob i m c)) + mset (mx_sq (co_m ob)) + mset (cd_sq (co_conds ob ! i)) =
    mset (co_queue ob) + mset (mx_sq m) + mset (cd_sq c)"
  using cond_queues_put [OF assms, of c] by (simp add: co_queue_def co_put_def ac_simps)

lemma mutex_try_own_eq:
  "mutex_try_own ks m u =
     (if mx_owner m \<noteq> 0 then (stamp_ks u ks, m\<lparr>mx_sq := u # mx_sq m\<rparr>, False) else (ks, m\<lparr>mx_owner := u\<rparr>, True))"
  by (simp add: mutex_try_own_def stamp_ks_def)

text \<open>A thread leaves a condition variable for the mutex: the system's queue keeps it, or it owns the mutex.\<close>

lemma cond_transfer:
  assumes inv: "cond_inv ob" and i: "i < length (co_conds ob)" and r: "mset (cd_sq (co_conds ob ! i)) = add_mset u (mset (cd_sq c'))"
    and m': "m' = (if mx_owner (co_m ob) \<noteq> 0 then (co_m ob)\<lparr>mx_sq := u # mx_sq (co_m ob)\<rparr> else (co_m ob)\<lparr>mx_owner := u\<rparr>)"
  shows "cond_inv (co_put ob i m' c')" and "mx_owner (co_m ob) \<noteq> 0 \<Longrightarrow> set (co_queue (co_put ob i m' c')) = set (co_queue ob)"
    and "mx_owner (co_m ob) = 0 \<Longrightarrow> set (co_queue (co_put ob i m' c')) = set (co_queue ob) - {u}"
    and "u \<in> set (co_queue ob)" and "u \<noteq> 0"
proof -
  note d = cond_invD [OF inv]
  define ob' where "ob' = co_put ob i m' c'"
  have q: "mset (co_queue ob') + mset (mx_sq (co_m ob)) + add_mset u (mset (cd_sq c')) =
      mset (co_queue ob) + mset (mx_sq m') + mset (cd_sq c')"
    using co_put_queue [OF i, of m' c'] unfolding r ob'_def .
  have "set_mset (mset (cd_sq (co_conds ob ! i))) = insert u (set (cd_sq c'))" unfolding r by simp
  then have sub: "set (cd_sq (co_conds ob ! i)) = insert u (set (cd_sq c'))" by simp
  then have u: "u \<in> set (cd_sq (co_conds ob ! i))" by simp
  show uq: "u \<in> set (co_queue ob)" using cond_queues_mem [OF i u] by (simp add: co_queue_def)
  then show u0: "u \<noteq> 0" using d(3) by auto
  have um: "u \<notin> set (mx_sq (co_m ob))" using cond_queues_mem [OF i u] d(2) by (auto simp: co_queue_def)
  have cm: "co_m ob' = m'" "co_wait ob' = co_wait ob" "length (co_conds ob') = length (co_conds ob)"
    by (simp_all add: ob'_def co_put_def)
  have cs: "set (cd_sq (co_conds ob' ! j)) \<subseteq> set (cd_sq (co_conds ob ! j))" if "j < length (co_conds ob)" for j
    using i sub that by (auto simp: ob'_def co_put_def nth_list_update)
  have c1: "\<forall>j < length (co_conds ob'). \<forall>t \<in> set (cd_sq (co_conds ob' ! j)). \<exists>n s. co_wait ob' t = Some (j, n, s)"
    unfolding cm using cs d(5) by blast
  have fld: "mx_lock_count m' = mx_lock_count (co_m ob)" "mx_recursive m' = mx_recursive (co_m ob)" unfolding m' by simp_all
  have "cond_inv ob' \<and> set (co_queue ob') = set (co_queue ob)" if o: "mx_owner (co_m ob) \<noteq> 0"
  proof -
    have "mset (co_queue ob') = mset (co_queue ob)" using q o unfolding m' by simp
    note mv = queue_move [OF d(2) this]
    have "mutex_inv m'" using d(1,4) o um uq u0 unfolding m' by (auto simp: mutex_inv_def)
    moreover have "mx_owner m' = mx_owner (co_m ob)" using o unfolding m' by simp
    ultimately show ?thesis using mv d(3,4,6) c1 unfolding cond_inv_def cm fld by simp
  qed
  moreover have "cond_inv ob' \<and> set (co_queue ob') = set (co_queue ob) - {u}" if o: "mx_owner (co_m ob) = 0"
  proof -
    have "mset (co_queue ob) = add_mset u (mset (co_queue ob'))" using q o unfolding m' by (simp add: ac_simps)
    note lv = queue_leave [OF d(2) this]
    have l: "mutex_inv m'" "mx_lock_count (co_m ob) = 0" using d(1) o u0 unfolding m' by (auto simp: mutex_inv_def)
    moreover have "mx_owner m' = u" using o unfolding m' by simp
    moreover have "t \<in> set (co_queue ob)" if "co_wait ob t = Some (j, n, z)" for t j n z using d(6) [OF that] o by auto
    ultimately show ?thesis using lv o d(3,6) c1 unfolding cond_inv_def cm fld by auto
  qed
  ultimately show "cond_inv (co_put ob i m' c')" and "mx_owner (co_m ob) \<noteq> 0 \<Longrightarrow> set (co_queue (co_put ob i m' c')) = set (co_queue ob)"
    and "mx_owner (co_m ob) = 0 \<Longrightarrow> set (co_queue (co_put ob i m' c')) = set (co_queue ob) - {u}"
    unfolding ob'_def by blast+
qed

lemma cond_pass_effect:
  assumes inv: "cond_inv ob" and calm: "kernel_calm ks" and t: "t \<notin> set (co_queue ob)"
    and i: "i < length (co_conds ob)" and u: "u \<in> set (cd_sq (co_conds ob ! i))"
    and p: "cond_pass h t u ks (co_m ob) = (ks', m')"
    and ob': "ob' = co_put ob i m' ((co_conds ob ! i)\<lparr>cd_sq := remove1 u (cd_sq (co_conds ob ! i))\<rparr>)"
  shows "cond_inv ob' \<and> op_effect t (co_queue ob) (co_queue ob') ks ks' Idle"
proof -
  have m': "m' = (if mx_owner (co_m ob) \<noteq> 0 then (co_m ob)\<lparr>mx_sq := u # mx_sq (co_m ob)\<rparr> else (co_m ob)\<lparr>mx_owner := u\<rparr>)"
    and ks': "ks' = (if mx_owner (co_m ob) \<noteq> 0 then stamp_ks u ks else awake_one h t u ks)"
    using p by (auto simp: cond_pass_def mutex_try_own_eq split: if_splits)
  have "mset (cd_sq (co_conds ob ! i)) = add_mset u (mset (cd_sq ((co_conds ob ! i)\<lparr>cd_sq := remove1 u (cd_sq (co_conds ob ! i))\<rparr>)))"
    using u by simp
  note tr = cond_transfer [OF inv i this m', folded ob']
  show ?thesis
  proof (cases "mx_owner (co_m ob) = 0")
    case False
    then show ?thesis
      using tr(1,2) t ks' calm by (auto intro!: op_effect_none simp: kernel_calm_enter)
  next
    case True
    have "u \<in> set (co_queue ob) - {t}" using tr(4) t by auto
    then show ?thesis
      using True tr(1,3,5) t ks' calm by (auto intro!: op_effect_wake_one [where u = u])
  qed
qed

lemma co_put_same: "i < length (co_conds ob) \<Longrightarrow> co_put ob i (co_m ob) (co_conds ob ! i) = ob"
  by (simp add: co_put_def)

lemma cond_signal_effect:
  assumes inv: "cond_inv ob" and calm: "kernel_calm ks" and t: "t \<notin> set (co_queue ob)" and i: "i < length (co_conds ob)"
    and c: "sys_cond_signal h ks (co_m ob) (co_conds ob ! i) t = (ks', m', c', r)"
  shows "cond_inv (co_put ob i m' c') \<and> op_effect t (co_queue ob) (co_queue (co_put ob i m' c')) ks ks' (phase_of r)"
proof (cases "ks' = ks \<and> m' = co_m ob \<and> c' = co_conds ob ! i \<and> phase_of r = Idle")
  case True
  then show ?thesis using inv op_effect_same [OF calm t] by (simp add: co_put_same [OF i])
next
  case False
  obtain u q where s: "schedule (thr ks) (mx_protocol (co_m ob)) (cd_sq (co_conds ob ! i)) = (Some u, q)"
    using False c by (auto simp: sys_cond_signal_def split: if_splits prod.splits option.splits)
  note sd = schedule_SomeD [OF s] and ag = kernel_calmD(4) [OF calm]
  obtain k1 m1 where p: "cond_pass h t u ks (co_m ob) = (k1, m1)" by fastforce
  have "ks' = k1" "m' = m1" "c' = (co_conds ob ! i)\<lparr>cd_sq := remove1 u (cd_sq (co_conds ob ! i))\<rparr>" "r = Ok"
    using False c s ag sd(3) p by (auto simp: sys_cond_signal_def split: if_splits)
  then show ?thesis using cond_pass_effect [OF inv calm t i sd(1) p refl] by simp
qed

lemma cond_signal_to_effect:
  assumes inv: "cond_inv ob" and calm: "kernel_calm ks" and t: "t \<notin> set (co_queue ob)" and i: "i < length (co_conds ob)"
    and c: "sys_cond_signal_to h ks (co_m ob) (co_conds ob ! i) t target ex chance elapsed = (ks', m', c', b, r)"
  shows "cond_inv (co_put ob i m' c') \<and> op_effect t (co_queue ob) (co_queue (co_put ob i m' c')) ks ks' (phase_of r)"
proof (cases "ks' = ks \<and> m' = co_m ob \<and> c' = co_conds ob ! i \<and> phase_of r = Idle")
  case True
  then show ?thesis using inv op_effect_same [OF calm t] by (simp add: co_put_same [OF i])
next
  case False
  note ag = kernel_calmD(4) [OF calm]
  obtain k1 m1 where p: "cond_pass h t target ks (co_m ob) = (k1, m1)" by fastforce
  have u: "target \<in> set (cd_sq (co_conds ob ! i))"
    using False c by (auto simp: sys_cond_signal_to_def unqueue_def Let_def split: if_splits)
  have "ks' = k1" "m' = m1" "c' = (co_conds ob ! i)\<lparr>cd_sq := remove1 target (cd_sq (co_conds ob ! i))\<rparr>" "r = Ok"
    using False c ag p u by (auto simp: sys_cond_signal_to_def unqueue_def Let_def split: if_splits)
  then show ?thesis using cond_pass_effect [OF inv calm t i u p refl] by simp
qed

text \<open>The loop of \<open>sys_cond_signal_all\<close> empties the queue; a thread takes the mutex only if it was free.\<close>

lemma cond_move_held:
  assumes "mx_owner m \<noteq> 0" and "\<forall>u. \<not> has_again (thr ks) u"
  shows "\<exists>ts. mset ts = mset q \<and> cond_move ks m q res = Some (fold stamp_ks ts ks, m\<lparr>mx_sq := rev ts @ mx_sq m\<rparr>, res)"
  using assms
proof (induction "length q" arbitrary: ks m q)
  case 0
  then show ?case by (intro exI [of _ "[]"]) (simp add: cond_move.simps schedule_None)
next
  case (Suc n)
  then obtain u q1 where sc: "schedule (thr ks) SYS_SYNC_PRIORITY q = (Some u, q1)"
    using schedule_nonempty [of q "thr ks" SYS_SYNC_PRIORITY] by (cases q) auto
  have q1: "q1 = remove1 u q" and u: "u \<in> set q" using schedule_SomeD [OF sc] Suc.prems by auto
  have n: "n = length q1" using length_remove1_member [OF u] Suc.hyps(2) q1 by simp
  have "\<forall>w. \<not> has_again (thr (stamp_ks u ks)) w" using Suc.prems(2) by simp
  from Suc.hyps(1) [OF n _ this, of "m\<lparr>mx_sq := u # mx_sq m\<rparr>"] Suc.prems(1) obtain ts where
    "mset ts = mset q1" "cond_move (stamp_ks u ks) (m\<lparr>mx_sq := u # mx_sq m\<rparr>) q1 res =
      Some (fold stamp_ks ts (stamp_ks u ks), m\<lparr>mx_sq := rev ts @ u # mx_sq m\<rparr>, res)"
    by auto
  then show ?case
    using sc u Suc.prems(1)
    by (intro exI [of _ "u # ts"]) (simp add: cond_move.simps [of ks] mutex_try_own_eq q1)
qed

lemma cond_transfer_all:
  assumes inv: "cond_inv ob" and i: "i < length (co_conds ob)" and o: "mx_owner (co_m ob) \<noteq> 0"
    and ts: "mset ts = mset (cd_sq (co_conds ob ! i))" and m': "m' = (co_m ob)\<lparr>mx_sq := rev ts @ mx_sq (co_m ob)\<rparr>"
    and e: "cd_sq c' = []"
  shows "cond_inv (co_put ob i m' c')" and "set (co_queue (co_put ob i m' c')) = set (co_queue ob)"
proof -
  note d = cond_invD [OF inv]
  define ob' where "ob' = co_put ob i m' c'"
  have "mset (co_queue ob') = mset (co_queue ob)"
    using co_put_queue [OF i, of m' c'] ts e unfolding m' ob'_def by simp
  note mv = queue_move [OF d(2) this]
  have cm: "co_m ob' = m'" "co_wait ob' = co_wait ob" "length (co_conds ob') = length (co_conds ob)"
    by (simp_all add: ob'_def co_put_def)
  have "set (cd_sq (co_conds ob' ! j)) \<subseteq> set (cd_sq (co_conds ob ! j))" if "j < length (co_conds ob)" for j
    using i e that by (auto simp: ob'_def co_put_def nth_list_update)
  then have c1: "\<forall>j < length (co_conds ob'). \<forall>t \<in> set (cd_sq (co_conds ob' ! j)). \<exists>n s. co_wait ob' t = Some (j, n, s)"
    unfolding cm using d(5) by blast
  have q: "set (mx_sq m') \<subseteq> set (co_queue ob')" "distinct (mx_sq m')" using mv(1) cm(1) by (auto simp: co_queue_def)
  have "mutex_inv m'" using d(1,3,4) o q mv(2) unfolding m' by (auto simp: mutex_inv_def)
  then show "cond_inv (co_put ob i m' c')" "set (co_queue (co_put ob i m' c')) = set (co_queue ob)"
    using mv d(3,4,6) c1 unfolding ob'_def [symmetric] cond_inv_def cm by (simp_all add: m')
qed

lemma cond_signal_all_effect:
  assumes inv: "cond_inv ob" and calm: "kernel_calm ks" and t: "t \<notin> set (co_queue ob)" and i: "i < length (co_conds ob)"
  shows "\<exists>ks' m' c' r. sys_cond_signal_all h ks (co_m ob) (co_conds ob ! i) t = Some (ks', m', c', r) \<and>
    cond_inv (co_put ob i m' c') \<and> op_effect t (co_queue ob) (co_queue (co_put ob i m' c')) ks ks' (phase_of r)"
proof (cases "F_suspend \<in> state (thr ks t) \<or> cd_sq (co_conds ob ! i) = []")
  case True
  then show ?thesis using inv op_effect_same [OF calm t] by (auto simp: sys_cond_signal_all_def co_put_same [OF i])
next
  case False
  let ?m = "co_m ob" and ?c = "co_conds ob ! i"
  note ag = kernel_calmD(4) [OF calm]
  show ?thesis
  proof (cases "mx_owner ?m = 0")
    case o: False
    obtain ts where ts: "mset ts = mset (cd_sq ?c)"
      "cond_move ks ?m (cd_sq ?c) None = Some (fold stamp_ks ts ks, ?m\<lparr>mx_sq := rev ts @ mx_sq ?m\<rparr>, None)"
      using cond_move_held [OF o, of ks "cd_sq ?c" None] ag by auto
    note tr = cond_transfer_all [OF inv i o ts(1) refl, of "?c\<lparr>cd_sq := []\<rparr>"]
    show ?thesis
      using False ag ts(2) tr t fold_stamp_effect [OF calm, of ts]
      by (auto simp: sys_cond_signal_all_def sched_frame_def intro!: op_effect_none)
  next
    case o: True
    obtain u q1 where sc: "schedule (thr ks) SYS_SYNC_PRIORITY (cd_sq ?c) = (Some u, q1)"
      using schedule_nonempty False by blast
    have u: "u \<in> set (cd_sq ?c)" "q1 = remove1 u (cd_sq ?c)" using schedule_SomeD [OF sc] ag by auto
    then have ms: "mset (cd_sq ?c) = add_mset u (mset (cd_sq (?c\<lparr>cd_sq := q1\<rparr>)))" by simp
    define ob1 where "ob1 = co_put ob i (?m\<lparr>mx_owner := u\<rparr>) (?c\<lparr>cd_sq := q1\<rparr>)"
    have tr: "cond_inv ob1" "set (co_queue ob1) = set (co_queue ob) - {u}" "u \<in> set (co_queue ob)" "u \<noteq> 0"
      using cond_transfer [OF inv i ms refl] o by (simp_all add: ob1_def)
    have f1: "co_m ob1 = ?m\<lparr>mx_owner := u\<rparr>" "co_conds ob1 ! i = ?c\<lparr>cd_sq := q1\<rparr>" "i < length (co_conds ob1)"
      using i by (simp_all add: ob1_def co_put_def)
    have o1: "mx_owner (co_m ob1) \<noteq> 0" using tr(4) f1 by simp
    obtain ts where ts: "mset ts = mset (cd_sq (co_conds ob1 ! i))"
      "cond_move ks (co_m ob1) q1 (Some u) = Some (fold stamp_ks ts ks, (co_m ob1)\<lparr>mx_sq := rev ts @ mx_sq (co_m ob1)\<rparr>, Some u)"
      using cond_move_held [OF o1, of ks q1 "Some u"] ag f1(2) by auto
    have "cond_move ks ?m (cd_sq ?c) None = cond_move ks (co_m ob1) q1 (Some u)"
      using sc o f1(1) by (simp add: cond_move.simps [of ks ?m] mutex_try_own_eq ensure_def)
    then have c: "sys_cond_signal_all h ks ?m ?c t =
        Some (awake_one h t u (fold stamp_ks ts ks), (co_m ob1)\<lparr>mx_sq := rev ts @ mx_sq (co_m ob1)\<rparr>, ?c\<lparr>cd_sq := []\<rparr>, Ok)"
      using False ag ts(2) by (simp add: sys_cond_signal_all_def)
    have put: "co_put ob1 i m x = co_put ob i m x" for m x by (simp add: ob1_def co_put_def)
    note ta = cond_transfer_all [OF tr(1) f1(3) o1 ts(1) refl, of "?c\<lparr>cd_sq := []\<rparr>", unfolded put]
    note fs = fold_stamp_effect [OF calm, of ts]
    have "op_effect t (co_queue ob) (co_queue (co_put ob i ((co_m ob1)\<lparr>mx_sq := rev ts @ mx_sq (co_m ob1)\<rparr>) (?c\<lparr>cd_sq := []\<rparr>)))
        (fold stamp_ks ts ks) (awake_one h t u (fold stamp_ks ts ks)) Idle"
      by (rule op_effect_wake_one [OF fs(1) tr(4)]) (use ta tr t in auto)
    from op_effect_pre [OF fs(2) this] show ?thesis using c ta by simp
  qed
qed

lemma mutex_reown_cases:
  assumes "mutex_reown tab m = (m', r)" and "\<forall>u. \<not> has_again tab u"
  obtains (free) "r = None" "mx_sq m = []" "m' = m\<lparr>mx_owner := 0\<rparr>"
  | (pass) u where "r = Some u" "u \<in> set (mx_sq m)" "m' = m\<lparr>mx_owner := u, mx_sq := remove1 u (mx_sq m)\<rparr>"
proof (cases "schedule tab (mx_protocol m) (mx_sq m)")
  case (Pair x q)
  show thesis
  proof (cases x)
    case None
    then show thesis using Pair assms(1) that(1) by (auto simp: mutex_reown_def schedule_None)
  next
    case (Some u)
    note s = schedule_SomeD [OF Pair [unfolded Some]]
    show thesis by (rule that(2) [of u]) (use Pair Some s assms in \<open>auto simp: mutex_reown_def\<close>)
  qed
qed

text \<open>The owner gives the mutex away and is queued on the condition variable.\<close>

lemma cond_enqueue:
  assumes inv: "cond_inv ob" and i: "i < length (co_conds ob)" and t: "t \<notin> set (co_queue ob)" "t \<noteq> 0" "mx_owner (co_m ob) = t"
    and w: "co_wait ob t = None"
    and m': "m' = (co_m ob)\<lparr>mx_lock_count := 0, mx_owner := u, mx_sq := sq\<rparr>"
    and u: "u = 0 \<and> mx_sq (co_m ob) = [] \<and> sq = [] \<or> mset (mx_sq (co_m ob)) = add_mset u (mset sq)"
    and c': "cd_sq c' = t # cd_sq (co_conds ob ! i)" and n: "n = mx_lock_count (co_m ob)"
    and ob': "ob' = (co_put ob i m' c')\<lparr>co_wait := (co_wait ob)(t := Some (i, n, s))\<rparr>"
  shows "cond_inv ob'" and "set (co_queue ob') = insert t (set (co_queue ob) - {u})" and "u \<noteq> 0 \<Longrightarrow> u \<in> set (co_queue ob)"
proof -
  note d = cond_invD [OF inv]
  let ?q = "mx_sq (co_m ob)"
  have cm: "co_m ob' = m'" "co_wait ob' = (co_wait ob)(t := Some (i, n, s))" "length (co_conds ob') = length (co_conds ob)"
    "co_queue ob' = co_queue (co_put ob i m' c')"
    by (simp_all add: ob' co_put_def co_queue_def)
  have q: "mset (co_queue ob') + mset ?q = add_mset t (mset (co_queue ob)) + mset sq"
    using co_put_queue [OF i, of m' c'] c' cm(4) by (simp add: m')
  have dq: "distinct (co_queue ob') \<and> set (co_queue ob') = insert t (set (co_queue ob) - {u}) \<and> (u \<noteq> 0 \<longrightarrow> u \<in> set (co_queue ob)) \<and>
      (u = 0 \<longrightarrow> sq = [])"
  proof (cases "u = 0 \<and> ?q = [] \<and> sq = []")
    case True
    then have "mset (co_queue ob') = add_mset t (mset (co_queue ob))" using q by simp
    from queue_enter [OF d(2) t(1) this] show ?thesis using True d(3) by auto
  next
    case False
    then have ms: "mset ?q = add_mset u (mset sq)" using u by blast
    then have "u \<in># mset ?q" by simp
    then have uq: "u \<in> set (co_queue ob)" by (simp add: co_queue_def)
    have e: "add_mset u (mset (co_queue ob')) = add_mset t (mset (co_queue ob))" using q unfolding ms by simp
    have dt: "distinct (t # co_queue ob)" using d(2) t(1) by simp
    have "mset (t # co_queue ob) = add_mset u (mset (co_queue ob'))" using e by simp
    from queue_leave [OF dt this] show ?thesis using uq t(1) d(3) by auto
  qed
  then show s: "set (co_queue ob') = insert t (set (co_queue ob) - {u})" "u \<noteq> 0 \<Longrightarrow> u \<in> set (co_queue ob)" by auto
  have ds: "distinct (co_queue ob')" "u = 0 \<Longrightarrow> sq = []" using dq by auto
  have ut: "u \<noteq> t" using s(2) t by auto
  have mq: "set (mx_sq m') \<subseteq> set (co_queue ob')" "distinct (mx_sq m')" "u \<notin> set (mx_sq m')"
    using ds(1) cm(1) s(1) ut by (auto simp: co_queue_def)
  have mi: "mutex_inv m'" using mq d(3) s t ds(2) unfolding m' by (auto simp: mutex_inv_def)
  have ne: "w \<noteq> t" if "j < length (co_conds ob)" "w \<in> set (cd_sq (co_conds ob ! j))" for j w
    using cond_queues_mem [OF that] t(1) by (auto simp: co_queue_def)
  have sq': "cd_sq (co_conds ob' ! j) = (if j = i then t # cd_sq (co_conds ob ! i) else cd_sq (co_conds ob ! j))"
    if "j < length (co_conds ob)" for j
    using i c' that by (simp add: ob' co_put_def)
  have c1: "\<exists>n s. co_wait ob' w = Some (j, n, s)" if "j < length (co_conds ob)" "w \<in> set (cd_sq (co_conds ob' ! j))" for j w
    using that sq' [OF that(1)] d(5) [OF that(1), of w] ne [OF that(1), of w] cm(2) by (auto split: if_splits)
  have n0: "mx_recursive (co_m ob) \<noteq> SYS_SYNC_RECURSIVE \<Longrightarrow> n = 0" using d(1) n by (auto simp: mutex_inv_def)
  have c2: "w \<noteq> 0 \<and> j < length (co_conds ob) \<and> (w \<in> set (co_queue ob') \<or> u = w) \<and>
      (mx_recursive (co_m ob) \<noteq> SYS_SYNC_RECURSIVE \<longrightarrow> a = 0)" if "co_wait ob' w = Some (j, a, b)" for w j a b
  proof (cases "w = t")
    case True
    then show ?thesis using that cm(2) t(2) i n0 s(1) by auto
  next
    case False
    then have "co_wait ob w = Some (j, a, b)" using that cm(2) by simp
    from d(6) [OF this] show ?thesis using False t(3) s(1) by auto
  qed
  have "mx_owner m' = u" "mx_lock_count m' = 0" "mx_recursive m' = mx_recursive (co_m ob)" by (simp_all add: m')
  then show "cond_inv ob'"
    using mi ds(1) s(1) d(3) t(2) ut c1 c2 unfolding cond_inv_def cm(1,3) by auto
qed

lemma cond_wait_effect:
  assumes inv: "cond_inv ob" and calm: "kernel_calm ks" and mc: "may_call ks t" and t: "t \<notin> set (co_queue ob)"
    and i: "i < length (co_conds ob)" and w: "co_wait ob t = None"
    and c: "cond_call h (Cd_wait i timeout) t ks ob = (ks', ob', r)"
  shows "cond_inv ob' \<and> op_effect t (co_queue ob) (co_queue ob') ks ks' (phase_of r)"
proof (cases "mx_owner (co_m ob) = t")
  case False
  have "(co_wait ob)(t := None) = co_wait ob" using w by auto
  then have "ob' = ob" "ks' = set_reg t 3 0 ks" "r = Err CELL_EPERM"
    using c False by (auto simp: sys_cond_wait_def Let_def co_put_same [OF i])
  then show ?thesis
    using inv t calm frame_sched [OF frame_set_reg] by (auto intro!: op_effect_none simp: kernel_calm_own)
next
  case True
  let ?k = "fst (emplace_sq t (cd_sq (co_conds ob ! i)) (set_reg t 3 0 ks))" and ?m = "co_m ob"
  let ?c = "(co_conds ob ! i)\<lparr>cd_sq := t # cd_sq (co_conds ob ! i)\<rparr>"
  note k = may_call_queued [OF calm mc, of "cd_sq (co_conds ob ! i)" 3 0]
  have t0: "t \<noteq> 0" and run: "running ?k t" and sok: "sleep_ok ?k t timeout"
    using mc k(2) sleep_ok_calm by (auto simp: may_call_def)
  obtain m2 u where re: "mutex_reown (thr ?k) (?m\<lparr>mx_lock_count := 0\<rparr>) = (m2, u)" by fastforce
  have ag: "\<forall>u. \<not> has_again (thr ?k) u" using kernel_calmD(4) [OF k(1)] by simp
  from re ag show ?thesis
  proof (cases rule: mutex_reown_cases)
    case free
    have r: "r = Blocked" "ks' = fst (sleep_self h t timeout ?k)"
      and ob': "ob' = (co_put ob i m2 ?c)\<lparr>co_wait := (co_wait ob)(t := Some (i, mx_lock_count ?m, start_time (thr ks' t)))\<rparr>"
      using c True re free by (auto simp: sys_cond_wait_def Let_def case_prod_beta)
    have m2: "m2 = ?m\<lparr>mx_lock_count := 0, mx_owner := 0, mx_sq := []\<rparr>" using free by simp
    note e = cond_enqueue [OF inv i t t0 True w m2 _ _ refl ob'] 
    have "cond_inv ob'" "set (co_queue ob') = insert t (set (co_queue ob))"
      using e(1,2) free cond_invD(3) [OF inv] by auto
    then show ?thesis
      unfolding r using t by (auto intro!: op_effect_sleep [OF k(1) run sok t0 k(3)])
  next
    case (pass u')
    have r: "r = Blocked" "ks' = fst (sleep_self h t timeout (lv2_append u' ?k))"
      and ob': "ob' = (co_put ob i m2 ?c)\<lparr>co_wait := (co_wait ob)(t := Some (i, mx_lock_count ?m, start_time (thr ks' t)))\<rparr>"
      using c True re pass ag by (auto simp: sys_cond_wait_def Let_def case_prod_beta)
    have m2: "m2 = ?m\<lparr>mx_lock_count := 0, mx_owner := u', mx_sq := remove1 u' (mx_sq ?m)\<rparr>" using pass by simp
    have ms: "mset (mx_sq ?m) = add_mset u' (mset (remove1 u' (mx_sq ?m)))" using pass(2) by simp
    have u: "u' \<in> set (co_queue ob)" "u' \<noteq> 0" using pass(2) cond_invD(3) [OF inv] by (auto simp: co_queue_def)
    have e: "cond_inv ob'" "set (co_queue ob') = insert t (set (co_queue ob) - {u'})"
      using cond_enqueue [OF inv i t t0 True w m2 disjI2 [OF ms] _ refl ob'] by auto
    then show ?thesis
      unfolding r using t u by (auto intro!: op_effect_sleep_wake [OF k(1) run sok t0 u(2) k(3)])
  qed
qed

text \<open>The calls on the mutex alone.\<close>

lemma cond_mutex_step:
  assumes inv: "cond_inv ob" and "mutex_inv m'" and q: "q' = mx_sq m' @ cond_queues (co_conds ob)"
    and "distinct q'" and "0 \<notin> set q'" and "mx_owner m' \<notin> set q'" and "mx_recursive m' = mx_recursive (co_m ob)"
    and "\<And>w. co_wait ob w \<noteq> None \<Longrightarrow> (w \<in> set q' \<or> mx_owner m' = w) \<and> (mx_owner m' = w \<longrightarrow> mx_lock_count m' = 0)"
  shows "cond_inv (ob\<lparr>co_m := m'\<rparr>)" and "co_queue (ob\<lparr>co_m := m'\<rparr>) = q'"
proof -
  note d = cond_invD [OF inv]
  show e: "co_queue (ob\<lparr>co_m := m'\<rparr>) = q'" by (simp add: co_queue_def q)
  show "cond_inv (ob\<lparr>co_m := m'\<rparr>)"
    unfolding cond_inv_def e using assms(2-7) d(5,6) assms(8) by simp
qed

lemma co_waiting:
  assumes "cond_inv ob" and "co_wait ob w \<noteq> None"
  shows "w \<noteq> 0" and "w \<in> set (co_queue ob) \<or> mx_owner (co_m ob) = w" and "mx_owner (co_m ob) = w \<Longrightarrow> mx_lock_count (co_m ob) = 0"
  using assms cond_invD(6) [OF assms(1), of w] by auto

lemma cond_lock_effect:
  assumes inv: "cond_inv ob" and calm: "kernel_calm ks" and mc: "may_call ks t" and t: "t \<notin> set (co_queue ob)" and w: "co_wait ob t = None"
    and c: "mutex_lock_begin cas ks (co_m ob) t = (ks', m', r)"
  shows "cond_inv (ob\<lparr>co_m := m'\<rparr>) \<and> op_effect t (co_queue ob) (co_queue (ob\<lparr>co_m := m'\<rparr>)) ks ks' (phase_of (case r of None \<Rightarrow> Enqueued | Some x \<Rightarrow> x))"
proof -
  note d = cond_invD [OF inv] and cw = co_waiting [OF inv]
  have t0: "t \<noteq> 0" and run: "running ks t" using mc by (auto simp: may_call_def)
  let ?q = "mx_sq (co_m ob) @ cond_queues (co_conds ob)"
  have q: "co_queue ob = ?q" by (simp add: co_queue_def)
  have ts: "t \<notin> set (mx_sq (co_m ob))" using t q by simp
  from c t0 show ?thesis
  proof (cases rule: mutex_lock_begin_cases)
    case got
    have mi: "mutex_inv m'" using got(4) d(1) t0 ts by (auto simp: mutex_inv_def got(3))
    have "mx_lock_count (co_m ob) = 0" using d(1) got(3) by (simp add: mutex_inv_def)
    then have wq: "(w \<in> set ?q \<or> mx_owner m' = w) \<and> (mx_owner m' = w \<longrightarrow> mx_lock_count m' = 0)" if "co_wait ob w \<noteq> None" for w
      using cw [OF that] got(3,4) q by auto
    have e: "cond_inv (ob\<lparr>co_m := m'\<rparr>)" "co_queue (ob\<lparr>co_m := m'\<rparr>) = ?q"
      using cond_mutex_step [OF inv mi _ _ _ _ _ wq] d(2,3) t unfolding q got(4) by auto
    moreover have "sched_frame {t} ks ks'" "kernel_calm ks'"
      using got(2) calm frame_sched [OF frame_trans [OF frame_set_cancel frame_set_cancel]] by (auto simp: kernel_calm_enter)
    ultimately have "op_effect t ?q ?q ks ks' Idle" using t unfolding q by (intro op_effect_none) auto
    then show ?thesis using e got(1) q by simp
  next
    case rec
    have mi: "mutex_inv m'" using rec d(1) t0 by (auto simp: mutex_inv_def)
    have wq: "(v \<in> set ?q \<or> mx_owner m' = v) \<and> (mx_owner m' = v \<longrightarrow> mx_lock_count m' = 0)" if "co_wait ob v \<noteq> None" for v
      using cw [OF that] w that rec q by auto
    have "cond_inv (ob\<lparr>co_m := m'\<rparr>)" "co_queue (ob\<lparr>co_m := m'\<rparr>) = ?q"
      using cond_mutex_step [OF inv mi _ _ _ _ _ wq] d(2-4) rec unfolding q by auto
    then show ?thesis using t rec op_effect_same [OF calm t] by (simp add: q)
  next
    case (err e)
    then show ?thesis using inv op_effect_same [OF calm t] by simp
  next
    case queued
    have mi: "mutex_inv m'" using queued d(1) t0 ts by (auto simp: mutex_inv_def)
    have wq: "(v \<in> set (t # ?q) \<or> mx_owner m' = v) \<and> (mx_owner m' = v \<longrightarrow> mx_lock_count m' = 0)" if "co_wait ob v \<noteq> None" for v
      using cw [OF that] queued q by auto
    have e: "cond_inv (ob\<lparr>co_m := m'\<rparr>)" "co_queue (ob\<lparr>co_m := m'\<rparr>) = t # ?q"
      using cond_mutex_step [OF inv mi _ _ _ _ _ wq] d(2-4) t t0 queued unfolding q by auto
    have "op_effect t ?q (t # ?q) ks ks' Entering"
      unfolding queued(2) using calm run t0 by (auto intro!: op_effect_enter kernel_calm_enter intro: frame_trans [OF frame_set_cancel frame_stamp])
    then show ?thesis using e queued(1) q by simp
  qed
qed

lemma cond_trylock_effect:
  assumes inv: "cond_inv ob" and calm: "kernel_calm ks" and t: "t \<notin> set (co_queue ob)" "t \<noteq> 0" and w: "co_wait ob t = None"
    and c: "sys_mutex_trylock cas (co_m ob) t = (m', r)"
  shows "cond_inv (ob\<lparr>co_m := m'\<rparr>) \<and> op_effect t (co_queue ob) (co_queue (ob\<lparr>co_m := m'\<rparr>)) ks ks (phase_of r)"
proof -
  note d = cond_invD [OF inv] and cw = co_waiting [OF inv]
  let ?q = "mx_sq (co_m ob) @ cond_queues (co_conds ob)"
  have q: "co_queue ob = ?q" by (simp add: co_queue_def)
  have mi: "mutex_inv m'" using mutex_try_lock_inv [OF d(1), of t cas] t q c
    by (auto simp: sys_mutex_trylock_def split: prod.splits option.splits)
  have m: "phase_of r = Idle" "m' = co_m ob \<or> mx_owner (co_m ob) = 0 \<and> m' = (co_m ob)\<lparr>mx_owner := t\<rparr> \<or>
      mx_owner (co_m ob) = t \<and> m' = (co_m ob)\<lparr>mx_lock_count := mx_lock_count (co_m ob) + 1\<rparr>"
    using c by (auto simp: sys_mutex_trylock_def mutex_try_lock_def split: if_splits)
  moreover have "mx_owner (co_m ob) = 0 \<Longrightarrow> mx_lock_count (co_m ob) = 0" using d(1) by (simp add: mutex_inv_def)
  ultimately have wq: "(v \<in> set ?q \<or> mx_owner m' = v) \<and> (mx_owner m' = v \<longrightarrow> mx_lock_count m' = 0)" if "co_wait ob v \<noteq> None" for v
    using cw [OF that] that w q by auto
  have "cond_inv (ob\<lparr>co_m := m'\<rparr>) \<and> co_queue (ob\<lparr>co_m := m'\<rparr>) = ?q"
    using cond_mutex_step [OF inv mi _ _ _ _ _ wq] d(2-4) t m(2) unfolding q by (elim disjE conjE) auto
  then show ?thesis using m(1) op_effect_same [OF calm t(1)] by (simp add: q)
qed

lemma cond_unlock_effect:
  assumes inv: "cond_inv ob" and calm: "kernel_calm ks" and t: "t \<notin> set (co_queue ob)" "t \<noteq> 0" and w: "co_wait ob t = None"
    and c: "sys_mutex_unlock h ks (co_m ob) t = (ks', m', r)"
  shows "cond_inv (ob\<lparr>co_m := m'\<rparr>) \<and> op_effect t (co_queue ob) (co_queue (ob\<lparr>co_m := m'\<rparr>)) ks ks' (phase_of r)"
proof -
  note d = cond_invD [OF inv] and cw = co_waiting [OF inv]
  let ?q = "mx_sq (co_m ob) @ cond_queues (co_conds ob)"
  have q: "co_queue ob = ?q" by (simp add: co_queue_def)
  from c kernel_calmD(4) [OF calm] show ?thesis
  proof (cases rule: sys_mutex_unlock_cases)
    case (err e)
    then show ?thesis using inv op_effect_same [OF calm t(1)] by simp
  next
    case rec
    have mi: "mutex_inv m'" using rec d(1) t(2) by (auto simp: mutex_inv_def)
    have wq: "(v \<in> set ?q \<or> mx_owner m' = v) \<and> (mx_owner m' = v \<longrightarrow> mx_lock_count m' = 0)" if "co_wait ob v \<noteq> None" for v
      using cw [OF that] w that rec q by auto
    have "cond_inv (ob\<lparr>co_m := m'\<rparr>)" "co_queue (ob\<lparr>co_m := m'\<rparr>) = ?q"
      using cond_mutex_step [OF inv mi _ _ _ _ _ wq] d(2-4) rec unfolding q by auto
    then show ?thesis using rec op_effect_same [OF calm t(1)] by (simp add: q)
  next
    case free
    have mi: "mutex_inv m'" using free d(1) by (auto simp: mutex_inv_def)
    have wq: "(v \<in> set ?q \<or> mx_owner m' = v) \<and> (mx_owner m' = v \<longrightarrow> mx_lock_count m' = 0)" if "co_wait ob v \<noteq> None" for v
      using cw [OF that] w that free q by auto
    have "cond_inv (ob\<lparr>co_m := m'\<rparr>)" "co_queue (ob\<lparr>co_m := m'\<rparr>) = ?q"
      using cond_mutex_step [OF inv mi _ _ _ _ _ wq] d(2,3) free unfolding q by auto
    then show ?thesis using free op_effect_same [OF calm t(1)] by (simp add: q)
  next
    case (pass u)
    have u: "u \<in> set (co_queue ob)" "u \<noteq> 0" "u \<noteq> t" using pass(5) d(3) t by (auto simp: q)
    have mi: "mutex_inv m'" using pass d(1) u by (auto simp: mutex_inv_def dest: notin_set_remove1)
    let ?q' = "remove1 u (mx_sq (co_m ob)) @ cond_queues (co_conds ob)"
    have "mset (co_queue ob) = add_mset u (mset ?q')" using pass(5) by (simp add: q)
    note lv = queue_leave [OF d(2) this]
    have wq: "(v \<in> set ?q' \<or> mx_owner m' = v) \<and> (mx_owner m' = v \<longrightarrow> mx_lock_count m' = 0)" if "co_wait ob v \<noteq> None" for v
    proof -
      have "mx_owner (co_m ob) \<noteq> v" using pass(3) w that by auto
      then show ?thesis using cw(2) [OF that] pass(4,6) unfolding lv(3) by auto
    qed
    have "cond_inv (ob\<lparr>co_m := m'\<rparr>)" "co_queue (ob\<lparr>co_m := m'\<rparr>) = ?q'"
      using cond_mutex_step [OF inv mi _ lv(1) _ _ _ wq] d(3) pass(6) unfolding lv(3) by simp_all
    moreover have "op_effect t (co_queue ob) ?q' ks ks' Idle"
      unfolding pass(2) by (rule op_effect_wake_one [OF calm u(2)], unfold lv(3)) (use t u in auto)
    ultimately show ?thesis using pass(1) by simp
  qed
qed

lemma cond_end_effect:
  assumes inv: "cond_inv ob" and calm: "kernel_calm ks" and t: "t \<notin> set (co_queue ob)" and w: "co_wait ob t = Some (i, n, s)"
  shows "mx_owner (co_m ob) = t" and "cond_call h Cd_end t ks ob =
      (ks, ob\<lparr>co_m := (co_m ob)\<lparr>mx_lock_count := n\<rparr>, co_wait := (co_wait ob)(t := None)\<rparr>, Ok)"
    and "cond_inv (ob\<lparr>co_m := (co_m ob)\<lparr>mx_lock_count := n\<rparr>, co_wait := (co_wait ob)(t := None)\<rparr>)"
proof -
  let ?ob = "ob\<lparr>co_m := (co_m ob)\<lparr>mx_lock_count := n\<rparr>, co_wait := (co_wait ob)(t := None)\<rparr>"
  note d = cond_invD [OF inv] and dt = cond_invD(6) [OF inv w]
  show o: "mx_owner (co_m ob) = t" using dt t by blast
  then show "cond_call h Cd_end t ks ob = (ks, ?ob, Ok)" using w by (simp add: cond_wait_end_def ensure_def)
  have q: "co_queue ?ob = co_queue ob" by (simp add: co_queue_def)
  have "mutex_inv ((co_m ob)\<lparr>mx_lock_count := n\<rparr>)" using d(1) dt o by (auto simp: mutex_inv_def)
  moreover have "v \<noteq> t" if "j < length (co_conds ob)" "v \<in> set (cd_sq (co_conds ob ! j))" for j v
    using cond_queues_mem [OF that] t by (auto simp: co_queue_def)
  moreover have c2: "v \<noteq> 0 \<and> j < length (co_conds ob) \<and> v \<in> set (co_queue ob) \<and> (mx_recursive (co_m ob) \<noteq> SYS_SYNC_RECURSIVE \<longrightarrow> a = 0)"
    if "co_wait ob v = Some (j, a, b)" "v \<noteq> t" for v j a b
    using d(6) [OF that(1)] that(2) o by auto
  ultimately show "cond_inv ?ob" using d(2-5) o unfolding cond_inv_def q by (auto dest: c2 split: if_splits)
qed

lemma op_effect_resleep:
  assumes "kernel_calm k" and "running k t" and "t \<noteq> 0" and "frame_except {t} ks k" and "t \<in> set q'" and "set q' - {t} = set q - {t}"
  shows "op_effect t q q' ks (cond_resleep h t start k) Waiting"
proof -
  have sok: "sleep_ok k t 0" by (simp add: sleep_ok_def)
  let ?k = "fst (sleep_self h t 0 k)"
  note s = sleep_self_effect [OF assms(1,2) sok, where h = h]
  have "kernel_calm (cond_resleep h t start k)"
    using s(1) by (auto simp: cond_resleep_def kernel_calm_def upd_thread_def intro!: kernel_ok_upd)
  moreover have "parked (cond_resleep h t start k) t" using s(2) by (simp add: cond_resleep_def parked_def upd_thread_def)
  moreover have "frame_except {t} ks (cond_resleep h t start k)"
    unfolding cond_resleep_def by (rule frame_trans [OF frame_trans [OF assms(4) s(3)] frame_upd])
  ultimately show ?thesis
    using assms(3,5,6) unfolding op_effect_def by (intro conjI exI [of _ "{}"]) (auto simp: wthread_def intro: frame_sched)
qed

lemma cond_mutex_timeout_effect:
  assumes inv: "cond_inv ob" and calm: "kernel_calm ks" and w: "co_wait ob t = None"
    and c: "mutex_lock_timeout ks (co_m ob) t = (ks', m')"
  shows "cond_inv (ob\<lparr>co_m := m'\<rparr>) \<and> op_effect t (co_queue ob) (co_queue (ob\<lparr>co_m := m'\<rparr>)) ks ks' Idle"
proof -
  note d = cond_invD [OF inv] and cw = co_waiting [OF inv]
  let ?q = "mx_sq (co_m ob) @ cond_queues (co_conds ob)" and ?k = "raise t F_wait ks"
  have q: "co_queue ob = ?q" by (simp add: co_queue_def)
  have k: "kernel_calm ?k" "sched_frame {t} ks ?k" using calm frame_sched [OF frame_raise] by (simp_all add: kernel_calm_own)
  have tc: "t \<notin> set (cond_queues (co_conds ob))"
    using d(5) w by (fastforce simp: cond_queues_def in_set_conv_nth)
  show ?thesis
  proof (cases "t \<in> set (mx_sq (co_m ob))")
    case False
    then have "ks' = ?k" "m' = co_m ob" using c by (auto simp: mutex_lock_timeout_def unqueue_def Let_def split: if_splits)
    then show ?thesis using inv k tc False by (auto intro!: op_effect_none simp: q)
  next
    case True
    let ?q' = "remove1 t (mx_sq (co_m ob)) @ cond_queues (co_conds ob)"
    have r: "ks' = set_reg t 3 (errval CELL_ETIMEDOUT) ?k" "m' = (co_m ob)\<lparr>mx_sq := remove1 t (mx_sq (co_m ob))\<rparr>"
      using c True by (auto simp: mutex_lock_timeout_def unqueue_def Let_def split: if_splits)
    have "mset (co_queue ob) = add_mset t (mset ?q')" using True by (simp add: q)
    note lv = queue_leave [OF d(2) this]
    have mi: "mutex_inv m'" using d(1) r(2) by (auto simp: mutex_inv_def dest: notin_set_remove1)
    have wq: "(v \<in> set ?q' \<or> mx_owner m' = v) \<and> (mx_owner m' = v \<longrightarrow> mx_lock_count m' = 0)" if "co_wait ob v \<noteq> None" for v
      using cw(2,3) [OF that] w that r(2) unfolding lv(3) by auto
    have e: "cond_inv (ob\<lparr>co_m := m'\<rparr>)" "co_queue (ob\<lparr>co_m := m'\<rparr>) = ?q'"
      using cond_mutex_step [OF inv mi _ lv(1) _ _ _ wq] d(3,4) r(2) unfolding lv(3) by simp_all
    have "op_effect t (co_queue ob) ?q' ks ks' Idle"
      using r(1) k kernel_calm_own(1) [OF k(1)] sched_frame_trans [OF k(2) frame_sched [OF frame_set_reg]]
      by (intro op_effect_none) (auto simp: lv(3) simp del: set_append)
    then show ?thesis using e by simp
  qed
qed

lemma cond_timeout_effect:
  assumes inv: "cond_inv ob" and calm: "kernel_calm ks" and run: "running ks t" and t0: "t \<noteq> 0" and w: "co_wait ob t = Some (i, n, start)"
    and c: "cond_wait_timeout h ks (co_m ob) (co_conds ob ! i) t start = (ks', m', c', r)"
  shows "cond_inv (co_put ob i m' c') \<and> op_effect t (co_queue ob) (co_queue (co_put ob i m' c')) ks ks' (phase_of r)"
proof -
  note d = cond_invD [OF inv] and dt = cond_invD(6) [OF inv w]
  let ?m = "co_m ob" and ?c = "co_conds ob ! i" and ?k = "set_reg t 3 (errval CELL_ETIMEDOUT) ks"
  have i: "i < length (co_conds ob)" using dt by simp
  have k: "kernel_calm ?k" "running ?k t" "frame_except {t} ks ?k" using calm run frame_set_reg by (simp_all add: kernel_calm_own)
  show ?thesis
  proof (cases "t \<in> set (cd_sq ?c)")
    case False
    show ?thesis
    proof (cases "mx_owner ?m = t")
      case True
      then have "ks' = ks" "co_put ob i m' c' = ob" "r = Ok" "t \<notin> set (co_queue ob)"
        using c False d(4) by (auto simp: cond_wait_timeout_def unqueue_def co_put_same [OF i])
      then show ?thesis using inv op_effect_same [OF calm] by simp
    next
      case o: False
      then have "ks' = cond_resleep h t start ks" "co_put ob i m' c' = ob" "r = Blocked" "t \<in> set (co_queue ob)"
        using c False dt by (auto simp: cond_wait_timeout_def unqueue_def co_put_same [OF i])
      then show ?thesis using inv op_effect_resleep [OF calm run t0] by simp
    qed
  next
    case True
    then have ms: "mset (cd_sq ?c) = add_mset t (mset (cd_sq (?c\<lparr>cd_sq := remove1 t (cd_sq ?c)\<rparr>)))" by simp
    note tr = cond_transfer [OF inv i ms refl]
    show ?thesis
    proof (cases "mx_owner ?m = 0")
      case o: True
      then have r: "ks' = ?k" "m' = ?m\<lparr>mx_owner := t\<rparr>" "c' = ?c\<lparr>cd_sq := remove1 t (cd_sq ?c)\<rparr>" "r = Ok"
        using c True by (auto simp: cond_wait_timeout_def unqueue_def mutex_try_own_eq)
      then show ?thesis using tr(1,3) o k frame_sched by (auto intro!: op_effect_none)
    next
      case o: False
      then have r: "ks' = cond_resleep h t start (stamp_ks t ?k)" "m' = ?m\<lparr>mx_sq := t # mx_sq ?m\<rparr>"
        "c' = ?c\<lparr>cd_sq := remove1 t (cd_sq ?c)\<rparr>" "r = Blocked"
        using c True by (auto simp: cond_wait_timeout_def unqueue_def mutex_try_own_eq)
      have k2: "kernel_calm (stamp_ks t ?k)" "running (stamp_ks t ?k) t" "frame_except {t} ks (stamp_ks t ?k)"
        using k kernel_calm_enter(2) frame_trans [OF k(3) frame_stamp] by simp_all
      then show ?thesis using r tr(1,2,4) o op_effect_resleep [OF k2(1,2) t0 k2(3)] by simp
    qed
  qed
qed

interpretation cnd: wait_object co_queue "\<lambda>_. cond_inv" cond_call_ok cond_call cond_tmo
proof unfold_locales
  fix ob ks t c h ks' ob' r
  assume inv: "cond_inv ob" and calm: "kernel_calm ks" and mc: "may_call ks t" and t: "t \<notin> set (co_queue ob)"
    and ok: "cond_call_ok c t ks ob" and cl: "cond_call h c t ks ob = (ks', ob', r)"
  have t0: "t \<noteq> 0" using mc by (simp add: may_call_def)
  show "cond_inv ob' \<and> op_effect t (co_queue ob) (co_queue ob') ks ks' (phase_of r)"
  proof (cases c)
    case Mx_lock
    then show ?thesis using cond_lock_effect [OF inv calm mc t] ok cl by (auto simp: cond_call_ok_def split: prod.splits)
  next
    case Mx_trylock
    then show ?thesis using cond_trylock_effect [OF inv calm t t0] ok cl by (auto simp: cond_call_ok_def split: prod.splits)
  next
    case Mx_unlock
    then show ?thesis using cond_unlock_effect [OF inv calm t t0] ok cl by (auto simp: cond_call_ok_def split: prod.splits)
  next
    case (Cd_wait i timeout)
    then show ?thesis using cond_wait_effect [OF inv calm mc t _ _ cl [unfolded Cd_wait]] ok by (simp add: cond_call_ok_def)
  next
    case (Cd_signal i)
    then show ?thesis using cond_signal_effect [OF inv calm t] ok cl by (auto simp: cond_call_ok_def split: prod.splits)
  next
    case (Cd_signal_all i)
    then show ?thesis using cond_signal_all_effect [OF inv calm t, of i h] ok cl by (auto simp: cond_call_ok_def)
  next
    case (Cd_signal_to i target ex chance elapsed)
    then show ?thesis using cond_signal_to_effect [OF inv calm t] ok cl by (auto simp: cond_call_ok_def split: prod.splits)
  next
    case Cd_end
    then obtain i n s where w: "co_wait ob t = Some (i, n, s)" using ok by (auto simp: cond_call_ok_def)
    note e = cond_end_effect [OF inv calm t w]
    have "ks' = ks" "ob' = ob\<lparr>co_m := (co_m ob)\<lparr>mx_lock_count := n\<rparr>, co_wait := (co_wait ob)(t := None)\<rparr>" "r = Ok"
      using e(2) cl Cd_end by simp_all
    then show ?thesis using e(3) op_effect_same [OF calm t] by (simp add: co_queue_def)
  qed
next
  fix ob ks t h ks' ob' r
  assume a: "cond_inv ob" "kernel_calm ks" "t \<noteq> 0" "running ks t" and c: "cond_tmo h t ks ob = (ks', ob', r)"
  show "cond_inv ob' \<and> op_effect t (co_queue ob) (co_queue ob') ks ks' (phase_of r)"
  proof (cases "co_wait ob t")
    case None
    then show ?thesis using c cond_mutex_timeout_effect [OF a(1,2)] by (auto simp: cond_tmo_def split: prod.splits)
  next
    case (Some x)
    obtain i n s where x: "x = (i, n, s)" by (cases x)
    then show ?thesis
      using c Some cond_timeout_effect [OF a(1,2,4,3), of i n s] by (auto simp: cond_tmo_def split: prod.splits)
  qed
qed

section \<open>Properties\<close>

text \<open>
  C28: In every state that interleaved calls on a mutex and its condition variables reach, no
  \<^verbatim>\<open>ensure\<close> has failed and no wake-up is lost, and a thread inside \<open>sys_cond_wait\<close> is queued on its
  condition variable or on the mutex, or owns the mutex.
\<close>

theorem cond_safe:
  assumes "wstart (\<lambda>_. cond_inv) co_queue s0" and "(wstep co_queue cond_call_ok cond_call cond_tmo)\<^sup>*\<^sup>* s0 s"
  shows "waiters_safe co_queue s \<and> mutex_inv (co_m (ws_obj s)) \<and> distinct (co_queue (ws_obj s)) \<and>
    (\<forall>t i n st. co_wait (ws_obj s) t = Some (i, n, st) \<longrightarrow> t \<in> set (co_queue (ws_obj s)) \<or> mx_owner (co_m (ws_obj s)) = t)"
  using winvar_safe [OF cnd.reachable_inv [OF assms(2,1)]] cond_invD(1,2,6) by blast

definition demo_cond :: "tid \<Rightarrow> u32 \<Rightarrow> cond_obj" where
  "demo_cond own n = \<lparr>co_m = \<lparr>mx_protocol = SYS_SYNC_PRIORITY, mx_recursive = SYS_SYNC_RECURSIVE, mx_adaptive = 0, mx_key = 0, mx_name = 0,
       mx_cond_count = 1, mx_lock_count = n, mx_owner = own, mx_sq = []\<rparr>,
     co_conds = [\<lparr>cd_key = 0, cd_name = 0, cd_mtx_id = 0, cd_sq = []\<rparr>], co_wait = (\<lambda>_. None)\<rparr>"

lemma demo_cond_start: "wstart (\<lambda>_. cond_inv) co_queue (demo_wsys (demo_cond 1 n))"
  by (rule demo_wstart) (auto simp: demo_cond_def cond_inv_def mutex_inv_def co_queue_def cond_queues_def SYS_SYNC_RECURSIVE_def)

text \<open>Thread 1, which holds the mutex twice, waits; thread 3 signals; thread 1 is woken.\<close>

definition demo_wait :: "kstate \<times> cond_obj \<times> sysres" where
  "demo_wait = cond_call demo_host (Cd_wait 0 0) 1 demo_ks (demo_cond 1 2)"

definition demo_signal :: "kstate \<times> cond_obj \<times> sysres" where
  "demo_signal = cond_call demo_host (Cd_signal 0) 3 (fst demo_wait) (fst (snd demo_wait))"

lemma demo_cond_run:
  "snd (snd demo_wait) = Blocked" "snd (snd demo_signal) = Ok" "may_call (fst demo_wait) 3" "F_signal \<in> state (thr (fst demo_signal) 1)"
  "\<not> is_stopped (state (thr (fst demo_signal) 1))" "co_wait (fst (snd demo_signal)) 1 = Some (0, 2, 0)"
  "co_wait (fst (snd demo_wait)) 3 = None" "length (co_conds (fst (snd demo_wait))) = 1" "co_queue (fst (snd demo_signal)) = []"
  by code_simp+

definition demo_woken :: "cond_obj wsys" where
  "demo_woken = \<lparr>ws_ks = lower 1 F_signal (fst demo_signal), ws_obj = fst (snd demo_signal), ws_ph = (\<lambda>_. Idle)\<rparr>"

lemma demo_cond_reach: "(wstep co_queue cond_call_ok cond_call cond_tmo)\<^sup>*\<^sup>* (demo_wsys (demo_cond 1 2)) demo_woken"
proof -
  let ?step = "wstep co_queue cond_call_ok cond_call cond_tmo"
  let ?s1 = "\<lparr>ws_ks = fst demo_wait, ws_obj = fst (snd demo_wait), ws_ph = (\<lambda>_. Idle)(1 := Waiting)\<rparr>"
  let ?s2 = "\<lparr>ws_ks = fst demo_signal, ws_obj = fst (snd demo_signal), ws_ph = (\<lambda>_. Idle)(1 := Waiting)\<rparr>"
  have "cond_call_ok (Cd_wait 0 0) 1 demo_ks (demo_cond 1 2)" by (simp add: cond_call_ok_def demo_cond_def)
  moreover have "cond_call demo_host (Cd_wait 0 0) 1 demo_ks (demo_cond 1 2) = (fst demo_wait, fst (snd demo_wait), Blocked)"
    using demo_cond_run(1) unfolding demo_wait_def by (metis prod.collapse)
  ultimately have s1: "?step (demo_wsys (demo_cond 1 2)) ?s1"
    using demo_call [where cok = cond_call_ok and call = cond_call] by fastforce
  have "cond_call_ok (Cd_signal 0) 3 (fst demo_wait) (fst (snd demo_wait))" using demo_cond_run(7,8) by (simp add: cond_call_ok_def)
  moreover have "cond_call demo_host (Cd_signal 0) 3 (fst demo_wait) (fst (snd demo_wait)) = (fst demo_signal, fst (snd demo_signal), Ok)"
    using demo_cond_run(2) unfolding demo_signal_def by (metis prod.collapse)
  ultimately have "?step ?s1 \<lparr>ws_ks = fst demo_signal, ws_obj = fst (snd demo_signal), ws_ph = (ws_ph ?s1)(3 := phase_of Ok)\<rparr>"
    by (intro wstep.w_call [where h = demo_host]) (simp_all add: demo_cond_run(3) del: cond_call.simps)
  moreover have "((\<lambda>_. Idle)(1 := Waiting))(3 := Idle) = (\<lambda>_ :: tid. Idle)(1 := Waiting)" by (rule ext) simp
  ultimately have s2: "?step ?s1 ?s2" by simp
  have "wait_poll 1 (co_queue (ws_obj ?s2)) (ws_ks ?s2) = (lower 1 F_signal (ws_ks ?s2), Woken)"
    using demo_cond_run(4) by (simp add: wait_poll_def)
  then have "?step ?s2 (?s2\<lparr>ws_ks := lower 1 F_signal (ws_ks ?s2), ws_ph := (ws_ph ?s2)(1 := Idle)\<rparr>)"
    using demo_cond_run(5) by (intro wstep.w_signal) simp_all
  moreover have "((\<lambda>_. Idle)(1 := Waiting))(1 := Idle) = (\<lambda>_ :: tid. Idle)" by (rule ext) simp
  ultimately have "?step ?s2 demo_woken" by (simp add: demo_woken_def)
  with s1 s2 show ?thesis by (meson converse_rtranclp_into_rtranclp r_into_rtranclp)
qed

theorem cond_safe_witness: "waiters_safe co_queue demo_woken \<and> mx_owner (co_m (ws_obj demo_woken)) = 1"
  using cond_safe [OF demo_cond_start demo_cond_reach] demo_cond_run(6,9) by (simp add: demo_woken_def)

text \<open>
  C26: A thread that was woken from \<open>sys_cond_wait\<close>, by a signal or after a timeout, owns the mutex: the
  \<^verbatim>\<open>ensure\<close> at the end of the call holds, and the mutex gets back the recursion count it had when
  the wait began.
\<close>

theorem cond_wait_reowns:
  assumes "wstart (\<lambda>_. cond_inv) co_queue s0" and "(wstep co_queue cond_call_ok cond_call cond_tmo)\<^sup>*\<^sup>* s0 s"
    and "ws_ph s t = Idle" and "co_wait (ws_obj s) t = Some (i, n, st)"
  shows "mx_owner (co_m (ws_obj s)) = t \<and> cond_wait_end (ws_ks s) (co_m (ws_obj s)) t n = (ws_ks s, (co_m (ws_obj s))\<lparr>mx_lock_count := n\<rparr>)"
proof -
  have w: "winvar (\<lambda>_. cond_inv) co_queue s" by (rule cnd.reachable_inv [OF assms(2,1)])
  then have "wthread (ws_ks s) (co_queue (ws_obj s)) t Idle" using assms(3) by (metis winvar_def)
  then have "t \<notin> set (co_queue (ws_obj s))" by (simp add: wthread_def)
  then show ?thesis
    using cond_invD(6) [OF winvar_safe(1) [OF w] assms(4)] by (auto simp: cond_wait_end_def ensure_def)
qed

theorem cond_wait_reowns_witness:
  "co_wait (ws_obj demo_woken) 1 = Some (0, 2, 0) \<and> mx_owner (co_m (ws_obj demo_woken)) = 1"
  using cond_wait_reowns [OF demo_cond_start demo_cond_reach, of 1 0 2 0] demo_cond_run(6) by (simp add: demo_woken_def)

text \<open>
  The owner of the mutex that waits on a condition variable is queued on it and parked, whatever
  its recursion count, which the call keeps; the mutex passes to the waiter that its protocol selects, which becomes
  runnable, or becomes free if there is none. A thread that does not own the mutex gets
  \<^verbatim>\<open>CELL_EPERM\<close> and nothing changes.
\<close>

lemma cond_wait_releases:
  assumes "kernel_calm ks" and "may_call ks t" and "mutex_inv m"
    and "sys_cond_wait h ks m c t timeout = (ks', m', c', n, r)"
  shows "if mx_owner m \<noteq> t then r = Err CELL_EPERM \<and> m' = m \<and> c' = c
    else r = Blocked \<and> n = mx_lock_count m \<and> c' = c\<lparr>cd_sq := t # cd_sq c\<rparr> \<and> parked ks' t \<and> mx_lock_count m' = 0 \<and>
      (if mx_sq m = [] then mx_owner m' = 0 \<and> mx_sq m' = []
       else mx_owner m' \<in> set (mx_sq m) \<and> mx_sq m' = remove1 (mx_owner m') (mx_sq m) \<and> mx_owner m' \<in> set (g_ppu ks'))"
proof (cases "mx_owner m = t")
  case False
  then show ?thesis using assms(4) by (auto simp: sys_cond_wait_def Let_def)
next
  case True
  let ?k = "fst (emplace_sq t (cd_sq c) (set_reg t 3 0 ks))"
  note k = may_call_queued [OF assms(1,2), of "cd_sq c" 3 0]
  have run: "running ?k t" and sok: "sleep_ok ?k t timeout" using k(2) sleep_ok_calm by (auto simp: may_call_def)
  obtain m2 u where re: "mutex_reown (thr ?k) (m\<lparr>mx_lock_count := 0\<rparr>) = (m2, u)" by fastforce
  have ag: "\<forall>u. \<not> has_again (thr ?k) u" using kernel_calmD(4) [OF k(1)] by simp
  from re ag show ?thesis
  proof (cases rule: mutex_reown_cases)
    case free
    then have "ks' = fst (sleep_self h t timeout ?k)" "r = Blocked" "n = mx_lock_count m" "c' = c\<lparr>cd_sq := t # cd_sq c\<rparr>" "m' = m2"
      using assms(4) True re by (auto simp: sys_cond_wait_def Let_def case_prod_beta)
    then show ?thesis using True free sleep_self_effect(2) [OF k(1) run sok, of h] by simp
  next
    case (pass u')
    then have e: "ks' = fst (sleep_self h t timeout (lv2_append u' ?k))" "r = Blocked" "n = mx_lock_count m"
      "c' = c\<lparr>cd_sq := t # cd_sq c\<rparr>" "m' = m2"
      using assms(4) True re ag by (auto simp: sys_cond_wait_def Let_def case_prod_beta)
    have u: "u' \<noteq> 0" "u' \<noteq> t" using pass(2) assms(3) True by (auto simp: mutex_inv_def)
    from sleep_wake_effect(2,3) [OF k(1) run sok u e(1)] show ?thesis using True pass e(2-5) by (auto split: list.splits)
  qed
qed

end
