(* ===== verification/Sys_Lwmutex.thy ===== *)
theory Sys_Lwmutex
  imports Wait_Object
begin

text \<open>
  The kernel part of the lightweight mutex, \<^verbatim>\<open>rpcs3/Emu/Cell/lv2/sys_lwmutex.h\<close> and
  \<^verbatim>\<open>sys_lwmutex.cpp\<close>: a queue and a signal that remembers an unlock that met no waiter. The fields of
  \<^verbatim>\<open>control_data_t\<close> are inlined in the record. \<open>lw_lwcond_waiters\<close> counts the threads that wait on a
  condition variable of the mutex; its sign bit is set while the mutex is being destroyed. Savestates are not modelled.
\<close>

record lv2_lwmutex =
  lw_protocol :: lv2_protocol
  lw_control :: u32
  lw_name :: u64
  lw_lwcond_waiters :: int
  lw_signaled :: int
  lw_sq :: "tid list"

definition sys_lwmutex_make :: "u32 \<Rightarrow> u32 \<Rightarrow> int \<Rightarrow> u64 \<Rightarrow> CellError + lv2_lwmutex" where
  "sys_lwmutex_make protocol control has_name name =
     (case protocol_of protocol of
        None \<Rightarrow> Inl CELL_EINVAL
      | Some SYS_SYNC_PRIORITY_INHERIT \<Rightarrow> Inl CELL_EINVAL
      | Some p \<Rightarrow>
          Inr \<lparr>lw_protocol = p, lw_control = control, lw_name = (if has_name < 0 then name else 0),
               lw_lwcond_waiters = 0, lw_signaled = 0, lw_sq = []\<rparr>)"

section \<open>Operations on the control word\<close>

text \<open>
  A new waiter of a mutex that is being destroyed while threads wait on its condition variables takes
  the mark of the destroyer away.
\<close>

definition lw_unmark :: "int \<Rightarrow> int" where
  "lw_unmark v = (if u32_of_int v \<le> 2 ^ 31 then v else v AND 0x7fffffff)"

text \<open>\<open>lwmutex_try_own\<close> takes the signal and returns it, or queues the thread and returns zero.\<close>

definition lwmutex_try_own :: "kstate \<Rightarrow> lv2_lwmutex \<Rightarrow> tid \<Rightarrow> bool \<Rightarrow> kstate \<times> lv2_lwmutex \<times> int" where
  "lwmutex_try_own ks m t wait_only =
     (if lw_signaled m = 0
      then (stamp_ks t ks, m\<lparr>lw_sq := t # lw_sq m, lw_lwcond_waiters := lw_unmark (lw_lwcond_waiters m)\<rparr>, 0)
      else (ensure (\<not> wait_only) ks, m\<lparr>lw_signaled := 0\<rparr>, lw_signaled m))"

definition lw_signal :: "bool \<Rightarrow> lv2_lwmutex \<Rightarrow> lv2_lwmutex" where
  "lw_signal unlock2 m = m\<lparr>lw_signaled := lw_signaled m OR (if unlock2 then smin32 else 1)\<rparr>"

definition lwmutex_try_unlock :: "bool \<Rightarrow> lv2_lwmutex \<Rightarrow> bool \<Rightarrow> lv2_lwmutex \<times> bool" where
  "lwmutex_try_unlock cas m unlock2 = (if lw_sq m = [] \<and> cas then (lw_signal unlock2 m, True) else (m, False))"

definition lwmutex_reown :: "threads \<Rightarrow> lv2_lwmutex \<Rightarrow> bool \<Rightarrow> lv2_lwmutex \<times> tid option" where
  "lwmutex_reown tab m unlock2 =
     (case schedule tab (lw_protocol m) (lw_sq m) of
        (None, _) \<Rightarrow> (lw_signal unlock2 m, None)
      | (Some u, q) \<Rightarrow> (m\<lparr>lw_sq := q\<rparr>, Some u))"

section \<open>The system calls\<close>

text \<open>The result that a signal stands for: an even one was left by \<open>sys_lwmutex_unlock2\<close>.\<close>

definition lw_result :: "int \<Rightarrow> sysres" where
  "lw_result signal = (if even signal then Err CELL_EBUSY else Ok)"

definition lwmutex_lock_fast :: "lv2_lwmutex \<Rightarrow> (lv2_lwmutex \<times> sysres) option" where
  "lwmutex_lock_fast m = (if lw_signaled m \<noteq> 0 then Some (m\<lparr>lw_signaled := 0\<rparr>, lw_result (lw_signaled m)) else None)"

definition lwmutex_lock_slow :: "kstate \<Rightarrow> lv2_lwmutex \<Rightarrow> tid \<Rightarrow> kstate \<times> lv2_lwmutex \<times> sysres" where
  "lwmutex_lock_slow ks m t =
     (case lwmutex_try_own (set_cancel t 1 ks) m t False of
        (ks1, m1, signal) \<Rightarrow>
          if signal \<noteq> 0 then (set_cancel t 0 ks1, m1, lw_result signal) else (ks1, m1, Enqueued))"

definition sys_lwmutex_lock :: "host \<Rightarrow> kstate \<Rightarrow> lv2_lwmutex \<Rightarrow> tid \<Rightarrow> u64 \<Rightarrow> kstate \<times> lv2_lwmutex \<times> sysres" where
  "sys_lwmutex_lock h ks m t timeout =
     (let ks1 = set_reg t 3 0 ks
      in case lwmutex_lock_fast m of
           Some (m1, r) \<Rightarrow> (ks1, m1, r)
         | None \<Rightarrow>
             (case lwmutex_lock_slow ks1 m t of
                (ks2, m2, Enqueued) \<Rightarrow>
                  (case sleep_self h t timeout ks2 of
                     (ks3, True) \<Rightarrow> (ks3, m2, Blocked)
                   | (ks3, False) \<Rightarrow> (ks3, m2, Value (gpr3 ks3 t)))
              | (ks2, m2, r) \<Rightarrow> (ks2, m2, r)))"

definition lwmutex_lock_timeout :: "kstate \<Rightarrow> lv2_lwmutex \<Rightarrow> tid \<Rightarrow> kstate \<times> lv2_lwmutex" where
  "lwmutex_lock_timeout ks m t =
     (if lw_sq m = [] then (ks, m)
      else case unqueue t (lw_sq m) of
             (None, _) \<Rightarrow> (ks, m)
           | (Some _, q) \<Rightarrow> (set_reg t 3 (errval CELL_ETIMEDOUT) ks, m\<lparr>lw_sq := q\<rparr>))"

definition sys_lwmutex_trylock :: "lv2_lwmutex \<Rightarrow> lv2_lwmutex \<times> sysres" where
  "sys_lwmutex_trylock m =
     (if odd (lw_signaled m) then (m\<lparr>lw_signaled := 0\<rparr>, Ok) else (m, Err CELL_EBUSY))"

definition sys_lwmutex_unlock :: "host \<Rightarrow> kstate \<Rightarrow> lv2_lwmutex \<Rightarrow> tid \<Rightarrow> kstate \<times> lv2_lwmutex \<times> sysres" where
  "sys_lwmutex_unlock h ks m t =
     (case lwmutex_try_unlock (h_cas h) m False of
        (m1, True) \<Rightarrow> (ks, m1, Ok)
      | (m1, False) \<Rightarrow>
          (case lwmutex_reown (thr ks) m1 False of
             (m2, None) \<Rightarrow> (ks, m2, Ok)
           | (m2, Some u) \<Rightarrow>
               if has_again (thr ks) u then (raise t F_again ks, m2, Ok) else (awake_one h t u ks, m2, Ok)))"

definition sys_lwmutex_unlock2 :: "host \<Rightarrow> kstate \<Rightarrow> lv2_lwmutex \<Rightarrow> tid \<Rightarrow> kstate \<times> lv2_lwmutex \<times> sysres" where
  "sys_lwmutex_unlock2 h ks m t =
     (case lwmutex_try_unlock (h_cas h) m True of
        (m1, True) \<Rightarrow> (ks, m1, Ok)
      | (m1, False) \<Rightarrow>
          (case lwmutex_reown (thr ks) m1 True of
             (m2, None) \<Rightarrow> (ks, m2, Ok)
           | (m2, Some u) \<Rightarrow>
               if has_again (thr ks) u then (raise t F_again ks, m2, Ok)
               else (awake_one h t u (set_reg u 3 (errval CELL_EBUSY) ks), m2, Ok)))"

text \<open>
  One turn of \<^verbatim>\<open>_sys_lwmutex_destroy\<close>: \<open>None\<close> when the object is withdrawn, \<^verbatim>\<open>CELL_EAGAIN\<close>
  when threads wait on condition variables of the mutex; then the caller sleeps, and waits while
  \<open>lw_destroy_waits\<close> holds of the counter.
\<close>

definition lwmutex_destroy_try :: "host \<Rightarrow> kstate \<Rightarrow> lv2_lwmutex \<Rightarrow> tid \<Rightarrow> kstate \<times> lv2_lwmutex \<times> CellError option" where
  "lwmutex_destroy_try h ks m t =
     (if lw_sq m \<noteq> [] then (ks, m, Some CELL_EBUSY)
      else
        let v = lw_lwcond_waiters m OR smin32; m1 = m\<lparr>lw_lwcond_waiters := v\<rparr>
        in if v \<noteq> smin32 then (fst (sleep_self h t 0 ks), m1, Some CELL_EAGAIN) else (ks, m1, None))"

definition lw_destroy_waits :: "int \<Rightarrow> bool" where
  "lw_destroy_waits old_val \<longleftrightarrow> u32_of_int old_val > 2 ^ 31"

end
