(* ===== verification/Sys_Lwcond.thy ===== *)
theory Sys_Lwcond
  imports Sys_Lwmutex
begin

text \<open>
  The kernel part of the lightweight condition variable, \<^verbatim>\<open>rpcs3/Emu/Cell/lv2/sys_lwcond.h\<close> and
  \<^verbatim>\<open>sys_lwcond.cpp\<close>. The calls find the condition variable and the mutex by identifier; here both are arguments, and
  \<open>found\<close> says whether the mutex exists. \<open>Restart\<close> is the result of one turn of a loop that repeats, as for \<open>Sys_Cond\<close>. An
  exception of the emulator counts as a failed \<^verbatim>\<open>ensure\<close>.
\<close>

record lv2_lwcond =
  lc_name :: u64
  lc_lwid :: u32
  lc_protocol :: lv2_protocol
  lc_control :: u32
  lc_sq :: "tid list"
  lc_lwmutex_waiters :: int

definition sys_lwcond_make :: "u32 \<Rightarrow> lv2_lwmutex \<Rightarrow> u32 \<Rightarrow> u64 \<Rightarrow> lv2_lwcond" where
  "sys_lwcond_make lwmutex_id m control name =
     \<lparr>lc_name = name, lc_lwid = lwmutex_id,
      lc_protocol = (if lw_protocol m = SYS_SYNC_RETRY then SYS_SYNC_PRIORITY else lw_protocol m),
      lc_control = control, lc_sq = [], lc_lwmutex_waiters = 0\<rparr>"

definition lwcond_destroy_try :: "host \<Rightarrow> kstate \<Rightarrow> lv2_lwcond \<Rightarrow> tid \<Rightarrow> kstate \<times> lv2_lwcond \<times> CellError option" where
  "lwcond_destroy_try h ks c t =
     (if lc_sq c \<noteq> [] then (ks, c, Some CELL_EBUSY)
      else
        let v = lc_lwmutex_waiters c OR smin32; c1 = c\<lparr>lc_lwmutex_waiters := v\<rparr>
        in if v \<noteq> smin32 then (fst (sleep_self h t 0 ks), c1, Some CELL_EAGAIN) else (ks, c1, None))"

section \<open>Signals\<close>

text \<open>The results when no thread was signalled.\<close>

definition lwcond_none :: "tid option \<Rightarrow> u32 \<Rightarrow> sysres" where
  "lwcond_none target mode =
     (if target \<noteq> None then Err CELL_EPERM
      else if mode = 3 then Err CELL_ENOENT
      else if mode = 2 then Ok
      else Err CELL_EPERM)"

text \<open>
  What is done with the signalled thread \<open>u\<close>. Mode 2: it is woken with an error. Mode 3 with waiters on the mutex: it
  joins them, and the one that comes first is woken. Mode 1: it joins the waiters of the mutex, which the caller
  owns. The flag of the result is \<^verbatim>\<open>false\<close> when the thread that comes first is being saved.
\<close>

definition lwcond_give ::
    "host \<Rightarrow> kstate \<Rightarrow> lv2_lwmutex \<Rightarrow> tid \<Rightarrow> tid \<Rightarrow> u32 \<Rightarrow> kstate \<times> lv2_lwmutex \<times> bool" where
  "lwcond_give h ks m t u mode =
     (if mode = 2 then (awake_one h t u (set_reg u 3 (errval CELL_EBUSY) ks), m, True)
      else if mode = 3 \<and> lw_sq m \<noteq> [] then
        (case lwmutex_try_own ks m u True of
           (ks1, m1, _) \<Rightarrow>
             (case lwmutex_reown (thr ks1) m1 False of
                (m2, None) \<Rightarrow> (ks1\<lparr>fault := True\<rparr>, m2, True)
              | (m2, Some v) \<Rightarrow>
                  if has_again (thr ks1) v then (raise t F_again ks1, m2, False)
                  else (awake_one h t v ks1, m2, True)))
      else if mode = 1 then (case lwmutex_try_own ks m u True of (ks1, m1, _) \<Rightarrow> (ks1, m1, True))
      else (awake_one h t u ks, m, True))"

definition sys_lwcond_signal ::
    "host \<Rightarrow> kstate \<Rightarrow> lv2_lwmutex \<Rightarrow> lv2_lwcond \<Rightarrow> tid \<Rightarrow> bool \<Rightarrow> tid option \<Rightarrow> bool \<Rightarrow> u32 \<Rightarrow>
      kstate \<times> lv2_lwmutex \<times> lv2_lwcond \<times> sysres" where
  "sys_lwcond_signal h ks m c t found target exists_tgt mode =
     (if mode < 1 \<or> mode > 3 then (ks\<lparr>fault := True\<rparr>, m, c, Ok)
      else if target \<noteq> None \<and> \<not> exists_tgt then (ks, m, c, Err CELL_ESRCH)
      else if mode \<noteq> 2 \<and> \<not> found then (ks, m, c, Err CELL_ESRCH)
      else if F_suspend \<in> state (thr ks t) then (ks, m, c, Restart)
      else if lc_sq c = [] then (ks, m, c, lwcond_none target mode)
      else if (case target of None \<Rightarrow> False | Some u \<Rightarrow> has_again (thr ks) u)
      then (raise t F_again ks, m, c, lwcond_none target mode)
      else
        case (case target of Some u \<Rightarrow> unqueue u (lc_sq c) | None \<Rightarrow> schedule (thr ks) (lc_protocol c) (lc_sq c)) of
          (None, _) \<Rightarrow> (ks, m, c, lwcond_none target mode)
        | (Some u, q) \<Rightarrow>
            if has_again (thr ks) u then (raise t F_again ks, m, c, lwcond_none target mode)
            else case lwcond_give h ks m t u mode of
                   (ks1, m1, ok) \<Rightarrow> (ks1, m1, c\<lparr>lc_sq := q\<rparr>, if ok then Ok else lwcond_none target mode))"

text \<open>The loop of \<^verbatim>\<open>_sys_lwcond_signal_all\<close>, with the threads to wake and the count.\<close>

partial_function (option) lwcond_move ::
    "kstate \<Rightarrow> lv2_lwmutex \<Rightarrow> lv2_protocol \<Rightarrow> tid list \<Rightarrow> u32 \<Rightarrow> u32 \<Rightarrow> (kstate \<times> lv2_lwmutex \<times> u32) option" where
  "lwcond_move ks m p q mode cnt =
     (case schedule (thr ks) p q of
        (None, _) \<Rightarrow> Some (ks, m, cnt)
      | (Some u, q') \<Rightarrow>
          if mode = 1 then
            (case lwmutex_try_own ks m u True of (ks1, m1, _) \<Rightarrow> lwcond_move ks1 m1 p q' mode (cnt + 1))
          else lwcond_move (lv2_append u (set_reg u 3 (errval CELL_EBUSY) ks)) m p q' mode (cnt + 1))"

definition sys_lwcond_signal_all ::
    "host \<Rightarrow> kstate \<Rightarrow> lv2_lwmutex \<Rightarrow> lv2_lwcond \<Rightarrow> tid \<Rightarrow> bool \<Rightarrow> u32 \<Rightarrow>
      (kstate \<times> lv2_lwmutex \<times> lv2_lwcond \<times> sysres) option" where
  "sys_lwcond_signal_all h ks m c t found mode =
     (let result = (\<lambda>n. if mode = 1 then Value (ucast (n :: u32)) else Ok)
      in if mode < 1 \<or> mode > 2 then Some (ks\<lparr>fault := True\<rparr>, m, c, Ok)
         else if mode \<noteq> 2 \<and> \<not> found then Some (ks, m, c, Err CELL_ESRCH)
         else if F_suspend \<in> state (thr ks t) then Some (ks, m, c, Restart)
         else if lc_sq c = [] then Some (ks, m, c, result 0)
         else if \<exists>u \<in> set (lc_sq c). has_again (thr ks) u then Some (raise t F_again ks, m, c, result 0)
         else map_option
                (\<lambda>(ks1, m1, cnt).
                   (if cnt \<noteq> 0 \<and> mode = 2 then awake_all ks1 (Some t) (h_now h) (h_tsc h) else ks1,
                    m1, c\<lparr>lc_sq := []\<rparr>, result cnt))
                (lwcond_move ks m (lc_protocol c) (lc_sq c) mode 0))"

section \<open>Waiting\<close>

text \<open>The caller is counted in both objects, queued, unlocks the mutex and sleeps.\<close>

definition sys_lwcond_queue_wait ::
    "host \<Rightarrow> kstate \<Rightarrow> lv2_lwmutex \<Rightarrow> lv2_lwcond \<Rightarrow> tid \<Rightarrow> u64 \<Rightarrow> kstate \<times> lv2_lwmutex \<times> lv2_lwcond \<times> sysres" where
  "sys_lwcond_queue_wait h ks m c t timeout =
     (let (ks1, q) = emplace_sq t (lc_sq c) (set_reg t 3 0 ks);
          m1 = m\<lparr>lw_lwcond_waiters := s32 (lw_lwcond_waiters m + 1)\<rparr>;
          c1 = c\<lparr>lc_sq := q, lc_lwmutex_waiters := s32 (lc_lwmutex_waiters c + 1)\<rparr>
      in case lwmutex_try_unlock (h_cas h) m1 False of
           (m2, True) \<Rightarrow> (fst (sleep_self h t timeout ks1), m2, c1, Blocked)
         | (m2, False) \<Rightarrow>
             (case lwmutex_reown (thr ks1) m2 False of
                (m3, None) \<Rightarrow> (fst (sleep_self h t timeout ks1), m3, c1, Blocked)
              | (m3, Some u) \<Rightarrow>
                  if has_again (thr ks1) u
                  then (raise t F_again (ensure (t \<in> set q) ks1),
                        m3\<lparr>lw_lwcond_waiters := s32 (lw_lwcond_waiters m3 - 1)\<rparr>,
                        c1\<lparr>lc_sq := snd (unqueue t q), lc_lwmutex_waiters := s32 (lc_lwmutex_waiters c1 - 1)\<rparr>, Ok)
                  else (fst (sleep_self h t timeout (lv2_append u ks1)), m3, c1, Blocked)))"

definition lwcond_wait_timeout :: "kstate \<Rightarrow> lv2_lwmutex \<Rightarrow> lv2_lwcond \<Rightarrow> tid \<Rightarrow> kstate \<times> lv2_lwmutex \<times> lv2_lwcond" where
  "lwcond_wait_timeout ks m c t =
     (case unqueue t (lc_sq c) of
        (Some _, q) \<Rightarrow> (set_reg t 3 (errval CELL_ETIMEDOUT) ks, m, c\<lparr>lc_sq := q\<rparr>)
      | (None, _) \<Rightarrow>
          (case unqueue t (lw_sq m) of
             (Some _, q) \<Rightarrow> (set_reg t 3 (errval CELL_ETIMEDOUT) ks, m\<lparr>lw_sq := q\<rparr>, c)
           | (None, _) \<Rightarrow> (ks, m, c)))"

text \<open>The end of the call; the flags say whether a thread that destroys the mutex or the variable is notified.\<close>

definition lwcond_wait_end :: "lv2_lwmutex \<Rightarrow> lv2_lwcond \<Rightarrow> lv2_lwmutex \<times> lv2_lwcond \<times> bool \<times> bool" where
  "lwcond_wait_end m c =
     (let v = s32 (lw_lwcond_waiters m - 1); w = s32 (lc_lwmutex_waiters c - 1)
      in (m\<lparr>lw_lwcond_waiters := v\<rparr>, c\<lparr>lc_lwmutex_waiters := w\<rparr>, v = smin32, w = smin32))"

end
