(* ===== verification/Lwcond_System.thy ===== *)
theory Lwcond_System
  imports Sys_Lwcond
begin

text \<open>
  A lightweight mutex with any number of lightweight condition variables under the scheduler. As in
  \<open>Cond_System\<close>, the queue of the system is that of the mutex and those of the condition variables; \<open>lo_wait\<close> has the threads
  inside \<open>sys_lwcond_queue_wait\<close>, which end the call with \<open>Lc_end\<close>. The threads use the mutex as the user library does: a
  signal of mode 1 is sent by the owner of the mutex, so no unlock is remembered then. The kernel does not check it; a
  signal that breaks the rule fails an \<^verbatim>\<open>ensure\<close>, which \<open>signal_fault\<close> shows.
\<close>

record lw_obj =
  lo_m :: lv2_lwmutex
  lo_conds :: "lv2_lwcond list"
  lo_wait :: "tid \<Rightarrow> nat option"

definition lc_queues :: "lv2_lwcond list \<Rightarrow> tid list" where
  "lc_queues cs = concat (map lc_sq cs)"

definition lo_queue :: "lw_obj \<Rightarrow> tid list" where
  "lo_queue ob = lw_sq (lo_m ob) @ lc_queues (lo_conds ob)"

datatype lw_op =
    Lw_lock | Lw_lock_slow | Lw_trylock | Lw_unlock | Lw_unlock2 | Lw_destroy
  | Lc_wait nat u64 | Lc_signal nat bool "tid option" bool u32 | Lc_signal_all nat bool u32 | Lc_end | Lc_destroy nat

fun lw_op_index :: "lw_op \<Rightarrow> nat option" where
  "lw_op_index (Lc_wait i _) = Some i"
| "lw_op_index (Lc_signal i _ _ _ _) = Some i"
| "lw_op_index (Lc_signal_all i _ _) = Some i"
| "lw_op_index (Lc_destroy i) = Some i"
| "lw_op_index _ = None"

definition lw_waiting :: "lw_obj \<Rightarrow> nat" where
  "lw_waiting ob = card {t. lo_wait ob t \<noteq> None}"

definition lc_waiting :: "lw_obj \<Rightarrow> nat \<Rightarrow> nat" where
  "lc_waiting ob i = card {t. lo_wait ob t = Some i}"

fun lw_mode_ok :: "lw_op \<Rightarrow> lw_obj \<Rightarrow> bool" where
  "lw_mode_ok (Lc_wait _ _) ob \<longleftrightarrow> lw_waiting ob + 1 < 2 ^ 31"
| "lw_mode_ok (Lc_signal _ _ _ _ mode) ob \<longleftrightarrow> mode \<in> {1, 2, 3} \<and> (mode = 1 \<longrightarrow> lw_signaled (lo_m ob) = 0)"
| "lw_mode_ok (Lc_signal_all _ _ mode) ob \<longleftrightarrow> mode \<in> {1, 2} \<and> (mode = 1 \<longrightarrow> lw_signaled (lo_m ob) = 0)"
| "lw_mode_ok _ _ \<longleftrightarrow> True"

definition lw_call_ok :: "lw_op \<Rightarrow> tid \<Rightarrow> kstate \<Rightarrow> lw_obj \<Rightarrow> bool" where
  "lw_call_ok c t ks ob \<longleftrightarrow> (lo_wait ob t = None \<longleftrightarrow> c \<noteq> Lc_end) \<and> lw_mode_ok c ob \<and>
     (\<forall>i. lw_op_index c = Some i \<longrightarrow> i < length (lo_conds ob))"

definition lo_put :: "lw_obj \<Rightarrow> nat \<Rightarrow> lv2_lwmutex \<Rightarrow> lv2_lwcond \<Rightarrow> lw_obj" where
  "lo_put ob i m c = ob\<lparr>lo_m := m, lo_conds := (lo_conds ob)[i := c]\<rparr>"

definition tried :: "CellError option \<Rightarrow> sysres" where
  "tried e = (case e of None \<Rightarrow> Ok | Some x \<Rightarrow> Err x)"

fun lw_call :: "host \<Rightarrow> lw_op \<Rightarrow> tid \<Rightarrow> kstate \<Rightarrow> lw_obj \<Rightarrow> kstate \<times> lw_obj \<times> sysres" where
  "lw_call h Lw_lock t ks ob =
     (case lwmutex_lock_fast (lo_m ob) of
        Some (m', r) \<Rightarrow> (set_reg t 3 0 ks, ob\<lparr>lo_m := m'\<rparr>, r)
      | None \<Rightarrow> (case lwmutex_lock_slow (set_reg t 3 0 ks) (lo_m ob) t of (ks', m', r) \<Rightarrow> (ks', ob\<lparr>lo_m := m'\<rparr>, r)))"
| "lw_call h Lw_lock_slow t ks ob =
     (case lwmutex_lock_slow ks (lo_m ob) t of (ks', m', r) \<Rightarrow> (ks', ob\<lparr>lo_m := m'\<rparr>, r))"
| "lw_call h Lw_trylock t ks ob = (case sys_lwmutex_trylock (lo_m ob) of (m', r) \<Rightarrow> (ks, ob\<lparr>lo_m := m'\<rparr>, r))"
| "lw_call h Lw_unlock t ks ob =
     (case sys_lwmutex_unlock h ks (lo_m ob) t of (ks', m', r) \<Rightarrow> (ks', ob\<lparr>lo_m := m'\<rparr>, r))"
| "lw_call h Lw_unlock2 t ks ob =
     (case sys_lwmutex_unlock2 h ks (lo_m ob) t of (ks', m', r) \<Rightarrow> (ks', ob\<lparr>lo_m := m'\<rparr>, r))"
| "lw_call h Lw_destroy t ks ob =
     (case lwmutex_destroy_try h ks (lo_m ob) t of (ks', m', e) \<Rightarrow> (ks', ob\<lparr>lo_m := m'\<rparr>, tried e))"
| "lw_call h (Lc_wait i timeout) t ks ob =
     (case sys_lwcond_queue_wait h ks (lo_m ob) (lo_conds ob ! i) t timeout of
        (ks', m', c', r) \<Rightarrow>
          (ks', (lo_put ob i m' c')\<lparr>lo_wait := (lo_wait ob)(t := if r = Blocked then Some i else None)\<rparr>, r))"
| "lw_call h (Lc_signal i found target ex mode) t ks ob =
     (case sys_lwcond_signal h ks (lo_m ob) (lo_conds ob ! i) t found target ex mode of
        (ks', m', c', r) \<Rightarrow> (ks', lo_put ob i m' c', r))"
| "lw_call h (Lc_signal_all i found mode) t ks ob =
     (case sys_lwcond_signal_all h ks (lo_m ob) (lo_conds ob ! i) t found mode of
        None \<Rightarrow> (ks\<lparr>fault := True\<rparr>, ob, Ok)
      | Some (ks', m', c', r) \<Rightarrow> (ks', lo_put ob i m' c', r))"
| "lw_call h Lc_end t ks ob =
     (case lo_wait ob t of
        None \<Rightarrow> (ks, ob, Ok)
      | Some i \<Rightarrow>
          (case lwcond_wait_end (lo_m ob) (lo_conds ob ! i) of
             (m', c', _, _) \<Rightarrow> (ks, (lo_put ob i m' c')\<lparr>lo_wait := (lo_wait ob)(t := None)\<rparr>, Ok)))"
| "lw_call h (Lc_destroy i) t ks ob =
     (case lwcond_destroy_try h ks (lo_conds ob ! i) t of (ks', c', e) \<Rightarrow> (ks', lo_put ob i (lo_m ob) c', tried e))"

definition lw_tmo :: "host \<Rightarrow> tid \<Rightarrow> kstate \<Rightarrow> lw_obj \<Rightarrow> kstate \<times> lw_obj \<times> sysres" where
  "lw_tmo h t ks ob =
     (case lo_wait ob t of
        None \<Rightarrow> (case lwmutex_lock_timeout ks (lo_m ob) t of (ks', m') \<Rightarrow> (ks', ob\<lparr>lo_m := m'\<rparr>, Ok))
      | Some i \<Rightarrow>
          (case lwcond_wait_timeout ks (lo_m ob) (lo_conds ob ! i) t of (ks', m', c') \<Rightarrow> (ks', lo_put ob i m' c', Ok)))"

section \<open>The counters\<close>

text \<open>A counter holds \<open>n\<close>, with or without the mark of a destroying thread.\<close>

definition counts :: "int \<Rightarrow> nat \<Rightarrow> bool" where
  "counts v n \<longleftrightarrow> n < 2 ^ 31 \<and> (v = int n \<or> v = int n - 2 ^ 31)"

lemma smin_not_mask: "smin32 = NOT (mask 31)"
  by (simp add: smin32_def mask_eq_exp_minus_1 not_int_def)

lemma or_smin_nonneg:
  assumes "take_bit 31 x = (x :: int)"
  shows "x OR smin32 = x + smin32"
proof -
  have "x AND NOT (mask 31) = 0"
    by (rule bit_eqI) (metis assms bit_0_eq bit_and_iff bit_mask_iff bit_not_iff bit_take_bit_iff bot_apply bot_bool_def)
  then show ?thesis unfolding smin_not_mask using plus_and_or [of x "NOT (mask 31)"] by simp
qed

lemma or_smin: assumes "counts v n" shows "v OR smin32 = int n + smin32"
proof -
  have "take_bit 31 (int n) = int n" using assms by (simp add: counts_def take_bit_int_eq_self)
  note e = or_smin_nonneg [OF this]
  from assms consider "v = int n" | "v = int n + smin32" by (auto simp: counts_def smin32_def)
  then show ?thesis
  proof cases
    case 2
    then show ?thesis unfolding e [symmetric] by (metis or.assoc or.idem)
  qed (simp only: e)
qed

lemma counts_unmark: "counts v n \<Longrightarrow> counts (lw_unmark v) n"
proof -
  assume c: "counts v n"
  have "(v AND 0x7fffffff) = v mod 2 ^ 31" using take_bit_eq_mask [of 31 v] by (simp add: take_bit_eq_mod mask_eq_exp_minus_1)
  then show ?thesis using c by (auto simp: counts_def lw_unmark_def)
qed

lemma counts_up: "counts v n \<Longrightarrow> n + 1 < 2 ^ 31 \<Longrightarrow> counts (s32 (v + 1)) (Suc n)"
  by (auto simp: counts_def s32_id)

lemma counts_down: "counts v (Suc n) \<Longrightarrow> counts (s32 (v - 1)) n"
  by (auto simp: counts_def s32_id)

section \<open>The invariant\<close>

definition lo_inv :: "lw_obj \<Rightarrow> bool" where
  "lo_inv ob \<longleftrightarrow> distinct (lo_queue ob) \<and> 0 \<notin> set (lo_queue ob) \<and> (lw_signaled (lo_m ob) \<noteq> 0 \<longrightarrow> lw_sq (lo_m ob) = []) \<and>
     counts (lw_lwcond_waiters (lo_m ob)) (lw_waiting ob) \<and>
     (\<forall>i < length (lo_conds ob). counts (lc_lwmutex_waiters (lo_conds ob ! i)) (lc_waiting ob i)) \<and>
     (\<forall>i < length (lo_conds ob). \<forall>t \<in> set (lc_sq (lo_conds ob ! i)). lo_wait ob t = Some i) \<and>
     (\<forall>t i. lo_wait ob t = Some i \<longrightarrow> i < length (lo_conds ob) \<and> t \<noteq> 0)"

lemma lo_invD:
  assumes "lo_inv ob"
  shows "distinct (lo_queue ob)" "0 \<notin> set (lo_queue ob)" "lw_signaled (lo_m ob) \<noteq> 0 \<Longrightarrow> lw_sq (lo_m ob) = []"
    and "counts (lw_lwcond_waiters (lo_m ob)) (lw_waiting ob)"
    and "i < length (lo_conds ob) \<Longrightarrow> counts (lc_lwmutex_waiters (lo_conds ob ! i)) (lc_waiting ob i)"
    and "i < length (lo_conds ob) \<Longrightarrow> t \<in> set (lc_sq (lo_conds ob ! i)) \<Longrightarrow> lo_wait ob t = Some i"
    and "lo_wait ob t = Some i \<Longrightarrow> i < length (lo_conds ob) \<and> t \<noteq> 0"
  using assms unfolding lo_inv_def by blast+

lemma lc_queues_put:
  "i < length cs \<Longrightarrow> mset (lc_queues (cs[i := c])) + mset (lc_sq (cs ! i)) = mset (lc_queues cs) + mset (lc_sq c)"
  unfolding lc_queues_def by (rule concat_map_update)

lemma lo_put_queue:
  assumes "i < length (lo_conds ob)"
  shows "mset (lo_queue (lo_put ob i m c)) + mset (lw_sq (lo_m ob)) + mset (lc_sq (lo_conds ob ! i)) =
    mset (lo_queue ob) + mset (lw_sq m) + mset (lc_sq c)"
  using lc_queues_put [OF assms, of c] by (simp add: lo_queue_def lo_put_def ac_simps)

lemma lo_put_same: "i < length (lo_conds ob) \<Longrightarrow> lo_put ob i (lo_m ob) (lo_conds ob ! i) = ob"
  by (simp add: lo_put_def)

lemma lc_queues_mem: "i < length cs \<Longrightarrow> t \<in> set (lc_sq (cs ! i)) \<Longrightarrow> t \<in> set (lc_queues cs)"
  by (auto simp: lc_queues_def)

text \<open>The calls that do not begin or end a wait on a condition variable.\<close>

lemma lo_put_step:
  assumes inv: "lo_inv ob" and i: "i < length (lo_conds ob)" and c: "set (lc_sq c') \<subseteq> set (lc_sq (lo_conds ob ! i))"
    and cc: "counts (lc_lwmutex_waiters c') (lc_waiting ob i)" and cm: "counts (lw_lwcond_waiters m') (lw_waiting ob)"
    and "lw_signaled m' \<noteq> 0 \<Longrightarrow> lw_sq m' = []"
    and "distinct (lo_queue (lo_put ob i m' c'))" and "0 \<notin> set (lo_queue (lo_put ob i m' c'))"
  shows "lo_inv (lo_put ob i m' c')"
proof -
  note d = lo_invD [OF inv]
  define ob' where "ob' = lo_put ob i m' c'"
  have f: "lo_m ob' = m'" "lo_wait ob' = lo_wait ob" "length (lo_conds ob') = length (lo_conds ob)"
    "lw_waiting ob' = lw_waiting ob" "\<And>j. lc_waiting ob' j = lc_waiting ob j"
    "\<And>j. j < length (lo_conds ob) \<Longrightarrow> lo_conds ob' ! j = (if j = i then c' else lo_conds ob ! j)"
    using i by (auto simp: ob'_def lo_put_def lw_waiting_def lc_waiting_def nth_list_update)
  have "counts (lc_lwmutex_waiters (lo_conds ob' ! j)) (lc_waiting ob j)" if "j < length (lo_conds ob)" for j
    using d(5) [OF that] cc f(6) [OF that] by simp
  moreover have "lo_wait ob t = Some j" if "j < length (lo_conds ob)" "t \<in> set (lc_sq (lo_conds ob' ! j))" for j t
    using that(2) d(6) [OF that(1), of t] c unfolding f(6) [OF that(1)] by (auto split: if_splits)
  ultimately show ?thesis
    using inv assms(6-8) cm unfolding ob'_def [symmetric] lo_inv_def f(1-5) by blast
qed

lemma lo_m_put: "i < length (lo_conds ob) \<Longrightarrow> ob\<lparr>lo_m := m'\<rparr> = lo_put ob i m' (lo_conds ob ! i)"
  by (simp add: lo_put_def)

lemma lo_m_step:
  assumes inv: "lo_inv ob" and cm: "counts (lw_lwcond_waiters m') (lw_waiting ob)"
    and "lw_signaled m' \<noteq> 0 \<Longrightarrow> lw_sq m' = []" and "distinct (lw_sq m' @ lc_queues (lo_conds ob))"
    and "0 \<notin> set (lw_sq m' @ lc_queues (lo_conds ob))"
  shows "lo_inv (ob\<lparr>lo_m := m'\<rparr>)" and "lo_queue (ob\<lparr>lo_m := m'\<rparr>) = lw_sq m' @ lc_queues (lo_conds ob)"
proof -
  note d = lo_invD [OF inv]
  show q: "lo_queue (ob\<lparr>lo_m := m'\<rparr>) = lw_sq m' @ lc_queues (lo_conds ob)" by (simp add: lo_queue_def)
  have f: "lw_waiting (ob\<lparr>lo_m := m'\<rparr>) = lw_waiting ob" "lc_waiting (ob\<lparr>lo_m := m'\<rparr>) i = lc_waiting ob i" for i
    by (simp_all add: lw_waiting_def lc_waiting_def)
  have sel: "lo_m (ob\<lparr>lo_m := m'\<rparr>) = m'" "lo_conds (ob\<lparr>lo_m := m'\<rparr>) = lo_conds ob" "lo_wait (ob\<lparr>lo_m := m'\<rparr>) = lo_wait ob" by simp_all
  show "lo_inv (ob\<lparr>lo_m := m'\<rparr>)"
    using inv assms(2-5) unfolding lo_inv_def q f sel by blast
qed

section \<open>The calls on the mutex\<close>

lemma lw_lock_slow_effect:
  assumes inv: "lo_inv ob" and calm: "kernel_calm ks" and run: "running ks t" and t: "t \<notin> set (lo_queue ob)" "t \<noteq> 0"
    and c: "lwmutex_lock_slow ks (lo_m ob) t = (ks', m', r)"
  shows "lo_inv (ob\<lparr>lo_m := m'\<rparr>) \<and> op_effect t (lo_queue ob) (lo_queue (ob\<lparr>lo_m := m'\<rparr>)) ks ks' (phase_of r)"
proof -
  note d = lo_invD [OF inv]
  have q: "lo_queue ob = lw_sq (lo_m ob) @ lc_queues (lo_conds ob)" by (simp add: lo_queue_def)
  show ?thesis
  proof (cases "lw_signaled (lo_m ob) = 0")
    case True
    then have r: "ks' = stamp_ks t (set_cancel t 1 ks)" "r = Enqueued"
      "m' = (lo_m ob)\<lparr>lw_sq := t # lw_sq (lo_m ob), lw_lwcond_waiters := lw_unmark (lw_lwcond_waiters (lo_m ob))\<rparr>"
      using c by (auto simp: lwmutex_lock_slow_def lwmutex_try_own_def)
    have e: "lo_inv (ob\<lparr>lo_m := m'\<rparr>)" "lo_queue (ob\<lparr>lo_m := m'\<rparr>) = t # lo_queue ob"
      using lo_m_step [OF inv, of m'] d(1-4) t r(3) True counts_unmark [OF d(4)] by (auto simp: q)
    have "op_effect t (lo_queue ob) (t # lo_queue ob) ks ks' Entering"
      unfolding r(1) using calm run t by (auto intro!: op_effect_enter kernel_calm_enter intro: frame_trans [OF frame_set_cancel frame_stamp])
    then show ?thesis using e r(2) by simp
  next
    case False
    then have r: "ks' = set_cancel t 0 (set_cancel t 1 ks)" "phase_of r = Idle" "m' = (lo_m ob)\<lparr>lw_signaled := 0\<rparr>"
      using c by (auto simp: lwmutex_lock_slow_def lwmutex_try_own_def ensure_def lw_result_def)
    have e: "lo_inv (ob\<lparr>lo_m := m'\<rparr>)" "lo_queue (ob\<lparr>lo_m := m'\<rparr>) = lo_queue ob"
      using lo_m_step [OF inv, of m'] d(1-4) r(3) by (auto simp: q)
    then show ?thesis
      using t calm r frame_sched [OF frame_trans [OF frame_set_cancel frame_set_cancel]]
      by (auto intro!: op_effect_none kernel_calm_enter)
  qed
qed

lemma lw_lock_effect:
  assumes inv: "lo_inv ob" and calm: "kernel_calm ks" and run: "running ks t" and t: "t \<notin> set (lo_queue ob)" "t \<noteq> 0"
    and c: "lw_call h Lw_lock t ks ob = (ks', ob', r)"
  shows "lo_inv ob' \<and> op_effect t (lo_queue ob) (lo_queue ob') ks ks' (phase_of r)"
proof (cases "lw_signaled (lo_m ob) = 0")
  case True
  obtain k m x where s: "lwmutex_lock_slow (set_reg t 3 0 ks) (lo_m ob) t = (k, m, x)" using prod_cases3 by blast
  have k: "kernel_calm (set_reg t 3 0 ks)" "running (set_reg t 3 0 ks) t" using calm run by (simp_all add: kernel_calm_own)
  have "ks' = k" "ob' = ob\<lparr>lo_m := m\<rparr>" "r = x" using c s True by (auto simp: lwmutex_lock_fast_def)
  then show ?thesis using lw_lock_slow_effect [OF inv k t s] op_effect_pre [OF sched_frame_set_reg] by blast
next
  case False
  note d = lo_invD [OF inv]
  have r: "ks' = set_reg t 3 0 ks" "phase_of r = Idle" "ob' = ob\<lparr>lo_m := (lo_m ob)\<lparr>lw_signaled := 0\<rparr>\<rparr>"
    using c False by (auto simp: lwmutex_lock_fast_def lw_result_def)
  have "lo_inv ob'" "lo_queue ob' = lo_queue ob"
    using lo_m_step [OF inv, of "(lo_m ob)\<lparr>lw_signaled := 0\<rparr>"] d(1-4) r(3) by (auto simp: lo_queue_def)
  then show ?thesis using t calm r by (auto intro!: op_effect_none kernel_calm_own)
qed

lemma lw_signal_step:
  assumes inv: "lo_inv ob" and "lw_sq (lo_m ob) = []"
  shows "lo_inv (ob\<lparr>lo_m := lw_signal b (lo_m ob)\<rparr>)" and "lo_queue (ob\<lparr>lo_m := lw_signal b (lo_m ob)\<rparr>) = lo_queue ob"
  using lo_m_step [OF inv, of "lw_signal b (lo_m ob)"] lo_invD(1-4) [OF inv] assms(2) by (auto simp: lw_signal_def lo_queue_def)

text \<open>A waiter of the mutex leaves the queue.\<close>

lemma lw_leave:
  assumes inv: "lo_inv ob" and u: "u \<in> set (lw_sq (lo_m ob))"
  shows "lo_inv (ob\<lparr>lo_m := (lo_m ob)\<lparr>lw_sq := remove1 u (lw_sq (lo_m ob))\<rparr>\<rparr>)"
    and "set (lo_queue (ob\<lparr>lo_m := (lo_m ob)\<lparr>lw_sq := remove1 u (lw_sq (lo_m ob))\<rparr>\<rparr>)) = set (lo_queue ob) - {u}"
    and "u \<in> set (lo_queue ob)" and "u \<noteq> 0"
proof -
  note d = lo_invD [OF inv]
  let ?m = "(lo_m ob)\<lparr>lw_sq := remove1 u (lw_sq (lo_m ob))\<rparr>"
  let ?q' = "lw_sq ?m @ lc_queues (lo_conds ob)"
  have "mset (lo_queue ob) = add_mset u (mset ?q')" using u by (simp add: lo_queue_def)
  note lv = queue_leave [OF d(1) this]
  show "u \<in> set (lo_queue ob)" by (rule lv(2))
  then show "u \<noteq> 0" using d(2) by auto
  have "0 \<notin> set ?q'" unfolding lv(3) using d(2) by simp
  note st = lo_m_step [OF inv _ _ lv(1) this]
  show "lo_inv (ob\<lparr>lo_m := ?m\<rparr>)" using st(1) d(3,4) u by fastforce
  show "set (lo_queue (ob\<lparr>lo_m := ?m\<rparr>)) = set (lo_queue ob) - {u}" using lv(3) by (simp add: lo_queue_def)
qed

lemma lwmutex_reown_cases:
  assumes "lwmutex_reown tab m b = (m', r)" and "\<forall>u. \<not> has_again tab u"
  obtains (free) "r = None" "lw_sq m = []" "m' = lw_signal b m"
  | (pass) u where "r = Some u" "u \<in> set (lw_sq m)" "m' = m\<lparr>lw_sq := remove1 u (lw_sq m)\<rparr>"
proof (cases "schedule tab (lw_protocol m) (lw_sq m)")
  case (Pair x q)
  show thesis
  proof (cases x)
    case None
    then show thesis using Pair assms(1) that(1) by (auto simp: lwmutex_reown_def schedule_None)
  next
    case (Some u)
    note s = schedule_SomeD [OF Pair [unfolded Some]]
    show thesis by (rule that(2) [of u]) (use Pair Some s assms in \<open>auto simp: lwmutex_reown_def\<close>)
  qed
qed

lemma lw_unlock_gen:
  assumes inv: "lo_inv ob" and calm: "kernel_calm ks" and t: "t \<notin> set (lo_queue ob)"
    and c: "(case lwmutex_try_unlock cas (lo_m ob) b of
        (m1, True) \<Rightarrow> (ks, m1, Ok)
      | (m1, False) \<Rightarrow>
          (case lwmutex_reown (thr ks) m1 b of
             (m2, None) \<Rightarrow> (ks, m2, Ok)
           | (m2, Some u) \<Rightarrow> if has_again (thr ks) u then (k1, m2, Ok) else (awake_one h t u (f u ks), m2, Ok))) = (ks', m', r)"
    and f: "\<And>u. f u ks = ks \<or> (\<exists>n v. f u ks = set_reg u n v ks)"
  shows "lo_inv (ob\<lparr>lo_m := m'\<rparr>) \<and> op_effect t (lo_queue ob) (lo_queue (ob\<lparr>lo_m := m'\<rparr>)) ks ks' (phase_of r)"
proof -
  have ag: "\<forall>u. \<not> has_again (thr ks) u" using kernel_calmD(4) [OF calm] by simp
  obtain m1 b1 where tu: "lwmutex_try_unlock cas (lo_m ob) b = (m1, b1)" by fastforce
  show ?thesis
  proof (cases b1)
    case True
    then have "lw_sq (lo_m ob) = []" "ks' = ks" "m' = lw_signal b (lo_m ob)" "r = Ok"
      using c tu by (auto simp: lwmutex_try_unlock_def split: if_splits)
    then show ?thesis using lw_signal_step [OF inv, of b] op_effect_same [OF calm t] by simp
  next
    case False
    then have m1: "m1 = lo_m ob" using tu by (auto simp: lwmutex_try_unlock_def split: if_splits)
    obtain m2 x where re: "lwmutex_reown (thr ks) (lo_m ob) b = (m2, x)" by fastforce
    from re ag show ?thesis
    proof (cases rule: lwmutex_reown_cases)
      case free
      then have "ks' = ks" "m' = lw_signal b (lo_m ob)" "r = Ok" using c tu False m1 re by auto
      then show ?thesis using lw_signal_step [OF inv free(2), of b] op_effect_same [OF calm t] by simp
    next
      case (pass u)
      then have r: "ks' = awake_one h t u (f u ks)" "m' = m2" "r = Ok" using c tu False m1 re ag by auto
      note lv = lw_leave [OF inv pass(2), folded pass(3)]
      have k: "kernel_calm (f u ks)" "sched_frame {} ks (f u ks)" using f [of u] calm kernel_calm_own(1) by auto
      have "op_effect t (lo_queue ob) (lo_queue (ob\<lparr>lo_m := m2\<rparr>)) (f u ks) (awake_one h t u (f u ks)) Idle"
        by (rule op_effect_wake_one [OF k(1) lv(4)]) (use lv t in auto)
      from op_effect_pre [OF k(2) this] show ?thesis using r lv(1) by simp
    qed
  qed
qed

lemma lw_unlock_effect:
  assumes "lo_inv ob" and "kernel_calm ks" and "t \<notin> set (lo_queue ob)"
  shows "sys_lwmutex_unlock h ks (lo_m ob) t = (ks', m', r) \<Longrightarrow>
      lo_inv (ob\<lparr>lo_m := m'\<rparr>) \<and> op_effect t (lo_queue ob) (lo_queue (ob\<lparr>lo_m := m'\<rparr>)) ks ks' (phase_of r)"
    and "sys_lwmutex_unlock2 h ks (lo_m ob) t = (ks', m', r) \<Longrightarrow>
      lo_inv (ob\<lparr>lo_m := m'\<rparr>) \<and> op_effect t (lo_queue ob) (lo_queue (ob\<lparr>lo_m := m'\<rparr>)) ks ks' (phase_of r)"
  unfolding sys_lwmutex_unlock_def sys_lwmutex_unlock2_def
  by (erule lw_unlock_gen [OF assms, where f = "\<lambda>u k. k"], simp)
     (erule lw_unlock_gen [OF assms, where f = "\<lambda>u. set_reg u 3 (errval CELL_EBUSY)"], blast)

lemma lw_trylock_effect:
  assumes inv: "lo_inv ob" and calm: "kernel_calm ks" and t: "t \<notin> set (lo_queue ob)"
    and c: "sys_lwmutex_trylock (lo_m ob) = (m', r)"
  shows "lo_inv (ob\<lparr>lo_m := m'\<rparr>) \<and> op_effect t (lo_queue ob) (lo_queue (ob\<lparr>lo_m := m'\<rparr>)) ks ks (phase_of r)"
proof -
  have m: "m' = lo_m ob \<or> m' = (lo_m ob)\<lparr>lw_signaled := 0\<rparr>" "phase_of r = Idle"
    using c by (auto simp: sys_lwmutex_trylock_def split: if_splits)
  then have "lo_inv (ob\<lparr>lo_m := m'\<rparr>)" "lo_queue (ob\<lparr>lo_m := m'\<rparr>) = lo_queue ob"
    using lo_m_step [OF inv, of m'] lo_invD(1-4) [OF inv] by (auto simp: lo_queue_def)
  then show ?thesis using m(2) op_effect_same [OF calm t] by simp
qed

lemma lw_destroy_effect:
  assumes inv: "lo_inv ob" and calm: "kernel_calm ks" and run: "running ks t" and t: "t \<notin> set (lo_queue ob)"
    and c: "lwmutex_destroy_try h ks (lo_m ob) t = (ks', m', e)"
  shows "lo_inv (ob\<lparr>lo_m := m'\<rparr>) \<and> op_effect t (lo_queue ob) (lo_queue (ob\<lparr>lo_m := m'\<rparr>)) ks ks' Idle"
proof -
  note d = lo_invD [OF inv]
  have "counts (lw_lwcond_waiters (lo_m ob) OR smin32) (lw_waiting ob)"
    using or_smin [OF d(4)] d(4) by (auto simp: counts_def smin32_def)
  then have m: "m' = lo_m ob \<or> counts (lw_lwcond_waiters m') (lw_waiting ob) \<and> m' = (lo_m ob)\<lparr>lw_lwcond_waiters := lw_lwcond_waiters m'\<rparr>"
    "ks' = ks \<or> ks' = fst (sleep_self h t 0 ks)"
    using c by (auto simp: lwmutex_destroy_try_def Let_def split: if_splits)
  have "lw_sq m' = lw_sq (lo_m ob)" "lw_signaled m' = lw_signaled (lo_m ob)" "counts (lw_lwcond_waiters m') (lw_waiting ob)"
    using m(1) d(4) by (auto; metis lv2_lwmutex.select_convs lv2_lwmutex.surjective lv2_lwmutex.update_convs(4))+
  then have "lo_inv (ob\<lparr>lo_m := m'\<rparr>)" "lo_queue (ob\<lparr>lo_m := m'\<rparr>) = lo_queue ob"
    using lo_m_step [OF inv, of m'] d(1-4) by (auto simp: lo_queue_def)
  then show ?thesis using m(2) op_effect_same [OF calm t] op_effect_sleep_idle [OF calm run t] by auto
qed

lemma lc_destroy_effect:
  assumes inv: "lo_inv ob" and calm: "kernel_calm ks" and run: "running ks t" and t: "t \<notin> set (lo_queue ob)"
    and i: "i < length (lo_conds ob)" and c: "lwcond_destroy_try h ks (lo_conds ob ! i) t = (ks', c', e)"
  shows "lo_inv (lo_put ob i (lo_m ob) c') \<and> op_effect t (lo_queue ob) (lo_queue (lo_put ob i (lo_m ob) c')) ks ks' Idle"
proof -
  note d = lo_invD [OF inv]
  let ?c = "lo_conds ob ! i"
  have "counts (lc_lwmutex_waiters ?c OR smin32) (lc_waiting ob i)"
    using or_smin [OF d(5) [OF i]] d(5) [OF i] by (auto simp: counts_def smin32_def)
  then have m: "lc_sq c' = lc_sq ?c" "counts (lc_lwmutex_waiters c') (lc_waiting ob i)" "ks' = ks \<or> ks' = fst (sleep_self h t 0 ks)"
    using c d(5) [OF i] by (auto simp: lwcond_destroy_try_def Let_def split: if_splits)
  have "mset (lo_queue (lo_put ob i (lo_m ob) c')) = mset (lo_queue ob)" using lo_put_queue [OF i, of "lo_m ob" c'] m(1) by simp
  note mv = queue_move [OF d(1) this]
  have "lo_inv (lo_put ob i (lo_m ob) c')" using lo_put_step [OF inv i _ m(2) d(4,3) mv(1)] m(1) mv(2) d(2) by simp
  moreover have "op_effect t (lo_queue ob) (lo_queue (lo_put ob i (lo_m ob) c')) ks ks' Idle"
    using m(3) mv(2) t calm run sleep_self_effect(1,3) [OF calm run, of 0 h] frame_sched
    by (intro op_effect_none) (auto simp: sleep_ok_def)
  ultimately show ?thesis by simp
qed

section \<open>The signals\<close>

text \<open>A thread leaves the condition variable, either to run or to wait for the mutex.\<close>

lemma lc_wake:
  assumes inv: "lo_inv ob" and i: "i < length (lo_conds ob)" and ms: "mset (lc_sq (lo_conds ob ! i)) = add_mset u (mset q')"
    and o: "ob' = lo_put ob i (lo_m ob) ((lo_conds ob ! i)\<lparr>lc_sq := q'\<rparr>)"
  shows "lo_inv ob'" "set (lo_queue ob') = set (lo_queue ob) - {u}" "u \<in> set (lo_queue ob)" "u \<noteq> 0"
proof -
  note d = lo_invD [OF inv]
  have "mset (lo_queue ob) = add_mset u (mset (lo_queue ob'))" using lo_put_queue [OF i, of "lo_m ob" "(lo_conds ob ! i)\<lparr>lc_sq := q'\<rparr>"] ms by (simp add: o)
  note lv = queue_leave [OF d(1) this]
  show "u \<in> set (lo_queue ob)" "set (lo_queue ob') = set (lo_queue ob) - {u}" by (rule lv)+
  then show "u \<noteq> 0" using d(2) by auto
  have z: "0 \<notin> set (lo_queue ob')" unfolding lv(3) using d(2) by simp
  have "set q' \<subseteq> set (lc_sq (lo_conds ob ! i))" using mset_eq_setD [OF ms [folded mset.simps(2)]] by auto
  then show "lo_inv ob'" unfolding o using lv(1) z d(3) d(4) d(5) [OF i] by (intro lo_put_step [OF inv i]) (auto simp: o)
qed

lemma lc_join_all:
  assumes inv: "lo_inv ob" and i: "i < length (lo_conds ob)" and ms: "mset (lc_sq (lo_conds ob ! i)) = mset ts + mset q'"
    and sg: "lw_signaled (lo_m ob) = 0" and v: "counts v (lw_waiting ob)"
    and o: "ob' = lo_put ob i ((lo_m ob)\<lparr>lw_sq := rev ts @ lw_sq (lo_m ob), lw_lwcond_waiters := v\<rparr>) ((lo_conds ob ! i)\<lparr>lc_sq := q'\<rparr>)"
  shows "lo_inv ob'" "set (lo_queue ob') = set (lo_queue ob)"
proof -
  note d = lo_invD [OF inv]
  have "mset (lo_queue ob') = mset (lo_queue ob)"
    using lo_put_queue [OF i, of "lo_m ob'" "(lo_conds ob ! i)\<lparr>lc_sq := q'\<rparr>"] ms by (simp add: o lo_put_def)
  note mv = queue_move [OF d(1) this]
  show "set (lo_queue ob') = set (lo_queue ob)" by (rule mv)
  have "mset (lc_sq (lo_conds ob ! i)) = mset (ts @ q')" using ms by simp
  then have "set q' \<subseteq> set (lc_sq (lo_conds ob ! i))" using mset_eq_setD by fastforce
  then show "lo_inv ob'" unfolding o using mv d(2) d(5) [OF i] sg v by (intro lo_put_step [OF inv i]) (auto simp: o)
qed

lemma lwmutex_try_own_queue:
  "lw_signaled m = 0 \<Longrightarrow> lwmutex_try_own ks m u b =
     (stamp_ks u ks, m\<lparr>lw_sq := u # lw_sq m, lw_lwcond_waiters := lw_unmark (lw_lwcond_waiters m)\<rparr>, 0)"
  by (simp add: lwmutex_try_own_def)

lemma lwcond_give_effect:
  assumes inv: "lo_inv ob" and calm: "kernel_calm ks" and t: "t \<notin> set (lo_queue ob)" and i: "i < length (lo_conds ob)"
    and ms: "mset (lc_sq (lo_conds ob ! i)) = add_mset u (mset q')" and mode: "mode = 1 \<Longrightarrow> lw_signaled (lo_m ob) = 0"
    and c: "lwcond_give h ks (lo_m ob) t u mode = (ks', m', ok)" and o: "ob' = lo_put ob i m' ((lo_conds ob ! i)\<lparr>lc_sq := q'\<rparr>)"
  shows "lo_inv ob' \<and> op_effect t (lo_queue ob) (lo_queue ob') ks ks' Idle"
proof -
  let ?m = "lo_m ob" and ?c = "(lo_conds ob ! i)\<lparr>lc_sq := q'\<rparr>"
  let ?m1 = "?m\<lparr>lw_sq := u # lw_sq ?m, lw_lwcond_waiters := lw_unmark (lw_lwcond_waiters ?m)\<rparr>"
  note wk = lc_wake [OF inv i ms refl]
  have cu: "counts (lw_unmark (lw_lwcond_waiters ?m)) (lw_waiting ob)" by (rule counts_unmark [OF lo_invD(4) [OF inv]])
  consider (wake) "ks' = awake_one h t u (if mode = 2 then set_reg u 3 (errval CELL_EBUSY) ks else ks)" "m' = ?m"
    | (join) "mode = 1" | (mix) "mode = 3" "lw_sq ?m \<noteq> []"
    using c by (auto simp: lwcond_give_def split: if_splits)
  then show ?thesis
  proof cases
    case wake
    let ?k = "if mode = 2 then set_reg u 3 (errval CELL_EBUSY) ks else ks"
    have k: "kernel_calm ?k" "sched_frame {} ks ?k" using calm kernel_calm_own(1) by auto
    have "op_effect t (lo_queue ob) (lo_queue ob') ?k (awake_one h t u ?k) Idle"
      by (rule op_effect_wake_one [OF k(1) wk(4)]) (use wk t in \<open>auto simp: o wake(2)\<close>)
    from op_effect_pre [OF k(2) this] show ?thesis using wk(1) wake by (simp add: o)
  next
    case join
    from lwmutex_try_own_queue [OF mode [OF join]] join
    have r: "ks' = stamp_ks u ks" "m' = ?m1" using c by (auto simp: lwcond_give_def)
    have "lo_inv ob'" "set (lo_queue ob') = set (lo_queue ob)"
      using lc_join_all [OF inv i _ mode [OF join] cu, of "[u]" q' ob'] ms by (simp_all add: o r)
    then show ?thesis using calm t r(1) by (auto intro!: op_effect_none kernel_calm_enter)
  next
    case mix
    have sg: "lw_signaled ?m = 0" using lo_invD(3) [OF inv] mix(2) by blast
    define ob1 where "ob1 = lo_put ob i ?m1 ?c"
    have j: "lo_inv ob1" "set (lo_queue ob1) = set (lo_queue ob)" "lo_m ob1 = ?m1"
      using lc_join_all [OF inv i _ sg cu, of "[u]" q' ob1] ms by (simp_all add: ob1_def lo_put_def)
    have k: "kernel_calm (stamp_ks u ks)" using calm by (rule kernel_calm_enter)
    have ag: "\<forall>w. \<not> has_again (thr (stamp_ks u ks)) w" using kernel_calmD(4) [OF k] by simp
    obtain m2 x where re: "lwmutex_reown (thr (stamp_ks u ks)) ?m1 False = (m2, x)" by fastforce
    from re ag show ?thesis
    proof (cases rule: lwmutex_reown_cases)
      case (pass v)
      have r: "ks' = awake_one h t v (stamp_ks u ks)" "m' = m2"
        using c mix re pass(1) ag lwmutex_try_own_queue [OF sg] by (auto simp: lwcond_give_def)
      have e: "ob' = ob1\<lparr>lo_m := m2\<rparr>" by (simp add: o r ob1_def lo_put_def)
      note lv = lw_leave [OF j(1), unfolded j(3), OF pass(2), folded pass(3) e]
      have "op_effect t (lo_queue ob) (lo_queue ob') (stamp_ks u ks) (awake_one h t v (stamp_ks u ks)) Idle"
        by (rule op_effect_wake_one [OF k lv(4)]) (use lv t j in auto)
      from op_effect_pre [OF sched_frame_stamp this] show ?thesis using lv(1) r by simp
    qed simp
  qed
qed

lemma lc_signal_effect:
  assumes inv: "lo_inv ob" and calm: "kernel_calm ks" and t: "t \<notin> set (lo_queue ob)" and i: "i < length (lo_conds ob)"
    and mode: "mode \<in> {1, 2, 3}" "mode = 1 \<Longrightarrow> lw_signaled (lo_m ob) = 0"
    and c: "sys_lwcond_signal h ks (lo_m ob) (lo_conds ob ! i) t found target ex mode = (ks', m', c', r)"
  shows "lo_inv (lo_put ob i m' c') \<and> op_effect t (lo_queue ob) (lo_queue (lo_put ob i m' c')) ks ks' (phase_of r)"
proof -
  let ?m = "lo_m ob" and ?c = "lo_conds ob ! i"
  let ?s = "case target of Some u \<Rightarrow> unqueue u (lc_sq ?c) | None \<Rightarrow> schedule (thr ks) (lc_protocol ?c) (lc_sq ?c)"
  have ag: "\<not> has_again (thr ks) u" for u using kernel_calmD(4) [OF calm] by simp
  have md: "\<not> (mode < 1 \<or> mode > 3)" using mode(1) by auto
  have none: "phase_of (lwcond_none target mode) = Idle" by (simp add: lwcond_none_def)
  have skip: ?thesis if "ks' = ks" "m' = ?m" "c' = ?c" "phase_of r = Idle"
    using that inv op_effect_same [OF calm t] by (simp add: lo_put_same [OF i])
  obtain x q where s: "?s = (x, q)" by fastforce
  show ?thesis
  proof (cases "(target \<noteq> None \<and> \<not> ex) \<or> (mode \<noteq> 2 \<and> \<not> found) \<or> F_suspend \<in> state (thr ks t) \<or> lc_sq ?c = [] \<or> x = None")
    case True
    then show ?thesis
      using c s md none ag by (intro skip) (auto simp: sys_lwcond_signal_def split: if_splits option.splits)
  next
    case False
    then obtain u where u: "x = Some u" by blast
    have "u \<in> set (lc_sq ?c) \<and> q = remove1 u (lc_sq ?c)"
      using s u ag by (auto split: option.splits dest: schedule_SomeD unqueue_SomeD)
    then have ms: "mset (lc_sq ?c) = add_mset u (mset q)" by auto
    obtain k m2 ok where g: "lwcond_give h ks ?m t u mode = (k, m2, ok)" using prod_cases3 by blast
    have tg: "\<not> (case target of None \<Rightarrow> False | Some u \<Rightarrow> has_again (thr ks) u)" using ag by (simp split: option.split)
    have "ks' = k" "m' = m2" "c' = ?c\<lparr>lc_sq := q\<rparr>" "phase_of r = Idle"
      using c False md none s u g ag tg by (auto simp: sys_lwcond_signal_def)
    then show ?thesis using lwcond_give_effect [OF inv calm t i ms mode(2) g refl] by simp
  qed
qed

text \<open>The loop of \<open>sys_lwcond_signal_all\<close> serves every thread that waits.\<close>

lemma lwcond_move_join:
  assumes "lw_signaled m = 0" and "\<forall>u. \<not> has_again (thr ks) u" and "counts (lw_lwcond_waiters m) n"
  shows "\<exists>ts v. mset ts = mset q \<and> counts v n \<and> lwcond_move ks m p q 1 cnt =
    Some (fold stamp_ks ts ks, m\<lparr>lw_sq := rev ts @ lw_sq m, lw_lwcond_waiters := v\<rparr>, cnt + of_nat (length q))"
  using assms
proof (induction "length q" arbitrary: ks m q cnt)
  case 0
  then show ?case by (intro exI [of _ "[]"] exI [of _ "lw_lwcond_waiters m"]) (simp add: lwcond_move.simps schedule_None)
next
  case (Suc k)
  let ?m = "\<lambda>u. m\<lparr>lw_sq := u # lw_sq m, lw_lwcond_waiters := lw_unmark (lw_lwcond_waiters m)\<rparr>"
  obtain u q1 where sc: "schedule (thr ks) p q = (Some u, q1)" using Suc.hyps(2) schedule_nonempty [of q "thr ks" p] by (cases q) auto
  have q1: "q1 = remove1 u q" and u: "u \<in> set q" using schedule_SomeD [OF sc] Suc.prems by auto
  have l: "length q = Suc (length q1)" using length_remove1_member [OF u] q1 by simp
  have "\<forall>w. \<not> has_again (thr (stamp_ks u ks)) w" "counts (lw_lwcond_waiters (?m u)) n"
    using Suc.prems(2,3) counts_unmark by simp_all
  from Suc.hyps(1) [OF _ _ this, of q1 "cnt + 1"] Suc.prems(1) Suc.hyps(2) l obtain ts v where
    "mset ts = mset q1" "counts v n" "lwcond_move (stamp_ks u ks) (?m u) p q1 1 (cnt + 1) =
      Some (fold stamp_ks ts (stamp_ks u ks), m\<lparr>lw_sq := rev ts @ u # lw_sq m, lw_lwcond_waiters := v\<rparr>, cnt + 1 + of_nat (length q1))"
    by auto
  then show ?case
    using sc u Suc.prems(1) l
    by (intro exI [of _ "u # ts"] exI [of _ v]) (simp add: lwcond_move.simps [of ks] lwmutex_try_own_queue q1 ac_simps)
qed

lemma lwcond_move_wake:
  assumes "\<forall>u. \<not> has_again (thr ks) u" and "mode \<noteq> 1"
  shows "\<exists>ts. mset ts = mset q \<and> lwcond_move ks m p q mode cnt =
    Some (fold lv2_append ts (fold (\<lambda>u. set_reg u 3 (errval CELL_EBUSY)) ts ks), m, cnt + of_nat (length q))"
  using assms(1)
proof (induction "length q" arbitrary: ks q cnt)
  case 0
  then show ?case by (intro exI [of _ "[]"]) (simp add: lwcond_move.simps schedule_None)
next
  case (Suc k)
  let ?k = "\<lambda>u. lv2_append u (set_reg u 3 (errval CELL_EBUSY) ks)"
  obtain u q1 where sc: "schedule (thr ks) p q = (Some u, q1)" using Suc.hyps(2) schedule_nonempty [of q "thr ks" p] by (cases q) auto
  have q1: "q1 = remove1 u q" and u: "u \<in> set q" using schedule_SomeD [OF sc] Suc.prems by auto
  have l: "length q = Suc (length q1)" using length_remove1_member [OF u] q1 by simp
  have "\<forall>w. \<not> has_again (thr (?k u)) w" using Suc.prems by (simp add: lv2_append_def set_reg_def upd_thread_def)
  from Suc.hyps(1) [OF _ this, of q1 "cnt + 1"] Suc.hyps(2) l obtain ts where
    "mset ts = mset q1" "lwcond_move (?k u) m p q1 mode (cnt + 1) =
      Some (fold lv2_append ts (fold (\<lambda>u. set_reg u 3 (errval CELL_EBUSY)) ts (?k u)), m, cnt + 1 + of_nat (length q1))"
    by auto
  then show ?case
    using sc u assms(2) l
    by (intro exI [of _ "u # ts"]) (simp add: lwcond_move.simps [of ks] q1 ac_simps fold_set_reg_append)
qed

text \<open>All the threads of a condition variable leave it at once.\<close>

lemma lc_wake_all:
  assumes inv: "lo_inv ob" and i: "i < length (lo_conds ob)" and o: "ob' = lo_put ob i (lo_m ob) ((lo_conds ob ! i)\<lparr>lc_sq := []\<rparr>)"
  shows "lo_inv ob'" "set (lo_queue ob') = set (lo_queue ob) - set (lc_sq (lo_conds ob ! i))"
    "set (lc_sq (lo_conds ob ! i)) \<subseteq> set (lo_queue ob)"
proof -
  note d = lo_invD [OF inv]
  let ?q = "lc_sq (lo_conds ob ! i)"
  have "mset (lo_queue ob) = mset (lo_queue ob') + mset ?q"
    using lo_put_queue [OF i, of "lo_m ob" "(lo_conds ob ! i)\<lparr>lc_sq := []\<rparr>"] by (simp add: o)
  then have e: "mset (lo_queue ob) = mset (lo_queue ob' @ ?q)" by simp
  have "distinct (lo_queue ob' @ ?q)" using d(1) mset_eq_imp_distinct_iff [OF e] by simp
  moreover have "set (lo_queue ob) = set (lo_queue ob') \<union> set ?q" using mset_eq_setD [OF e] by simp
  ultimately show s: "set (lo_queue ob') = set (lo_queue ob) - set ?q" "set ?q \<subseteq> set (lo_queue ob)" and "lo_inv ob'"
    using d(2-4) d(5) [OF i] unfolding o by (auto intro!: lo_put_step [OF inv i])
qed

lemma lc_signal_all_effect:
  assumes inv: "lo_inv ob" and calm: "kernel_calm ks" and t: "t \<notin> set (lo_queue ob)" and i: "i < length (lo_conds ob)"
    and mode: "mode \<in> {1, 2}" "mode = 1 \<Longrightarrow> lw_signaled (lo_m ob) = 0"
  shows "\<exists>ks' m' c' r. sys_lwcond_signal_all h ks (lo_m ob) (lo_conds ob ! i) t found mode = Some (ks', m', c', r) \<and>
    lo_inv (lo_put ob i m' c') \<and> op_effect t (lo_queue ob) (lo_queue (lo_put ob i m' c')) ks ks' (phase_of r)"
proof (cases "(mode \<noteq> 2 \<and> \<not> found) \<or> F_suspend \<in> state (thr ks t) \<or> lc_sq (lo_conds ob ! i) = []")
  case True
  then show ?thesis
    using inv op_effect_same [OF calm t] mode(1) by (auto simp: sys_lwcond_signal_all_def Let_def lo_put_same [OF i])
next
  case False
  let ?m = "lo_m ob" and ?c = "lo_conds ob ! i" and ?q = "lc_sq (lo_conds ob ! i)"
  note d = lo_invD [OF inv]
  have ag: "\<forall>u. \<not> has_again (thr ks) u" using kernel_calmD(4) [OF calm] by simp
  show ?thesis
  proof (cases "mode = 1")
    case m1: True
    obtain ts v where mv: "mset ts = mset ?q" "counts v (lw_waiting ob)" "lwcond_move ks ?m (lc_protocol ?c) ?q 1 0 =
        Some (fold stamp_ks ts ks, ?m\<lparr>lw_sq := rev ts @ lw_sq ?m, lw_lwcond_waiters := v\<rparr>, 0 + of_nat (length ?q))"
      using lwcond_move_join [OF mode(2) [OF m1] ag d(4), of ?q "lc_protocol ?c" 0] by blast
    have ms: "mset ?q = mset ts + mset []" using mv(1) by simp
    note j = lc_join_all [OF inv i ms mode(2) [OF m1] mv(2) refl]
    show ?thesis
      using False m1 ag mv(3) j t fold_stamp_effect [OF calm, of ts]
      by (auto simp: sys_lwcond_signal_all_def sched_frame_def intro!: op_effect_none)
  next
    case m2: False
    obtain ts where mv: "mset ts = mset ?q" "lwcond_move ks ?m (lc_protocol ?c) ?q mode 0 =
        Some (fold lv2_append ts (fold (\<lambda>u. set_reg u 3 (errval CELL_EBUSY)) ts ks), ?m, 0 + of_nat (length ?q))"
      using lwcond_move_wake [OF ag m2, of ?q ?m "lc_protocol ?c" 0] by blast
    let ?k = "fold (\<lambda>u. set_reg u 3 (errval CELL_EBUSY)) ts ks"
    note wk = lc_wake_all [OF inv i refl] and fr = fold_set_reg_effect [OF calm, of 3 "errval CELL_EBUSY" ts]
    have st: "set ts = set ?q" using mset_eq_setD [OF mv(1)] .
    have dq: "distinct ?q" using d(1) i by (auto simp: lo_queue_def lc_queues_def distinct_concat_iff)
    have z: "0 \<notin> set ?q" using wk(3) d(2) by auto
    have "(of_nat (length ?q) :: u32) \<noteq> 0" using tid_list_length [OF dq z] False by (simp add: of_nat_neq_0)
    then have c: "sys_lwcond_signal_all h ks ?m ?c t found mode = Some (awake_list h t ts ?k, ?m, ?c\<lparr>lc_sq := []\<rparr>, Ok)"
      using False m2 ag mv(2) mode(1) by (auto simp: sys_lwcond_signal_all_def Let_def awake_list_def)
    have "op_effect t (lo_queue ob) (lo_queue (lo_put ob i ?m (?c\<lparr>lc_sq := []\<rparr>))) ?k (awake_list h t ts ?k) Idle"
      by (rule op_effect_wake [OF fr(1)]) (use st z t wk in auto)
    from op_effect_pre [OF fr(2) this] show ?thesis using c wk(1) by simp
  qed
qed

section \<open>Waiting on a condition variable\<close>

lemma waiting_step:
  assumes "f t = (None :: nat option)"
  shows "card {s :: tid. (f(t := Some i)) s \<noteq> None} = Suc (card {s. f s \<noteq> None})"
    and "card {s :: tid. (f(t := Some i)) s = Some j} = (if j = i then Suc (card {s. f s = Some j}) else card {s. f s = Some j})"
proof -
  have "{s. (f(t := Some i)) s \<noteq> None} = insert t {s. f s \<noteq> None}"
    "{s. (f(t := Some i)) s = Some j} = (if j = i then insert t {s. f s = Some j} else {s. f s = Some j})"
    using assms by auto
  then show "card {s. (f(t := Some i)) s \<noteq> None} = Suc (card {s. f s \<noteq> None})"
    "card {s. (f(t := Some i)) s = Some j} = (if j = i then Suc (card {s. f s = Some j}) else card {s. f s = Some j})"
    using assms by auto
qed

lemma lc_waiting_le: "lc_waiting ob i \<le> lw_waiting ob"
  unfolding lc_waiting_def lw_waiting_def by (rule card_mono) auto

text \<open>The caller is counted and queued; the mutex is passed to \<open>U\<close>, at most one of its waiters.\<close>

lemma lc_enqueue:
  assumes inv: "lo_inv ob" and i: "i < length (lo_conds ob)" and t: "t \<notin> set (lo_queue ob)" "t \<noteq> 0" and w: "lo_wait ob t = None"
    and b: "lw_waiting ob + 1 < 2 ^ 31" and m': "lw_lwcond_waiters m' = s32 (lw_lwcond_waiters (lo_m ob) + 1)"
    and sg: "lw_signaled m' \<noteq> 0 \<Longrightarrow> lw_sq m' = []"
    and U: "U = {} \<and> lw_sq m' = lw_sq (lo_m ob) \<or> U = {u} \<and> mset (lw_sq (lo_m ob)) = add_mset u (mset (lw_sq m'))"
    and c': "c' = (lo_conds ob ! i)\<lparr>lc_sq := t # lc_sq (lo_conds ob ! i), lc_lwmutex_waiters := s32 (lc_lwmutex_waiters (lo_conds ob ! i) + 1)\<rparr>"
    and o: "ob' = (lo_put ob i m' c')\<lparr>lo_wait := (lo_wait ob)(t := Some i)\<rparr>"
  shows "lo_inv ob'" and "set (lo_queue ob') = insert t (set (lo_queue ob) - U)" and "U \<subseteq> set (lo_queue ob)"
proof -
  note d = lo_invD [OF inv]
  have f: "lo_m ob' = m'" "lo_wait ob' = (lo_wait ob)(t := Some i)" "length (lo_conds ob') = length (lo_conds ob)"
    "lo_queue ob' = lo_queue (lo_put ob i m' c')"
    by (simp_all add: o lo_put_def lo_queue_def)
  have fc: "lo_conds ob' ! j = (if j = i then c' else lo_conds ob ! j)" if "j < length (lo_conds ob)" for j
    using that by (simp add: o lo_put_def nth_list_update)
  have q: "mset (lo_queue ob') + mset (lw_sq (lo_m ob)) = add_mset t (mset (lo_queue ob)) + mset (lw_sq m')"
    using lo_put_queue [OF i, of m' c'] f(4) by (simp add: c')
  have dq: "distinct (lo_queue ob') \<and> set (lo_queue ob') = insert t (set (lo_queue ob) - U) \<and> U \<subseteq> set (lo_queue ob)"
    using U
  proof
    assume u: "U = {} \<and> lw_sq m' = lw_sq (lo_m ob)"
    then have "mset (lo_queue ob') = add_mset t (mset (lo_queue ob))" using q by simp
    from queue_enter [OF d(1) t(1) this] show ?thesis using u by simp
  next
    assume u: "U = {u} \<and> mset (lw_sq (lo_m ob)) = add_mset u (mset (lw_sq m'))"
    then have "u \<in># mset (lw_sq (lo_m ob))" by simp
    then have uq: "u \<in> set (lo_queue ob)" by (simp add: lo_queue_def)
    have dt: "distinct (t # lo_queue ob)" "mset (t # lo_queue ob) = add_mset u (mset (lo_queue ob'))" using d(1) t(1) q u by simp_all
    from queue_leave [OF dt] show ?thesis using uq t(1) u by auto
  qed
  then show s: "set (lo_queue ob') = insert t (set (lo_queue ob) - U)" "U \<subseteq> set (lo_queue ob)" by auto
  have ne: "s \<noteq> t" if "j < length (lo_conds ob)" "s \<in> set (lc_sq (lo_conds ob ! j))" for j s
    using lc_queues_mem [OF that] t(1) by (auto simp: lo_queue_def)
  have wt: "lw_waiting ob' = Suc (lw_waiting ob)" "lc_waiting ob' j = (if j = i then Suc (lc_waiting ob j) else lc_waiting ob j)" for j
    unfolding lw_waiting_def lc_waiting_def f(2) by (rule waiting_step [where f = "lo_wait ob", OF w])+
  have cm: "counts (lw_lwcond_waiters m') (lw_waiting ob')" unfolding m' wt by (rule counts_up [OF d(4) b])
  have cc: "counts (lc_lwmutex_waiters (lo_conds ob' ! j)) (lc_waiting ob' j)" if "j < length (lo_conds ob)" for j
    using d(5) [OF that] counts_up [OF d(5) [OF i]] lc_waiting_le [of ob i] b unfolding fc [OF that] wt by (simp add: c')
  have cq: "lo_wait ob' s = Some j" if "j < length (lo_conds ob)" "s \<in> set (lc_sq (lo_conds ob' ! j))" for j s
    using that(2) d(6) [OF that(1), of s] ne [OF that(1), of s] unfolding fc [OF that(1)] f(2) by (auto simp: c' split: if_splits)
  have cw: "j < length (lo_conds ob) \<and> s \<noteq> 0" if "lo_wait ob' s = Some j" for s j
    using that t(2) i d(7) [of s j] unfolding f(2) by (auto split: if_splits)
  have "distinct (lo_queue ob')" "0 \<notin> set (lo_queue ob')" using dq d(2) t(2) by auto
  then show "lo_inv ob'" unfolding lo_inv_def f(1,3) using sg cm cc cq cw by blast
qed

lemma lc_wait_effect:
  assumes inv: "lo_inv ob" and calm: "kernel_calm ks" and mc: "may_call ks t" and t: "t \<notin> set (lo_queue ob)"
    and i: "i < length (lo_conds ob)" and w: "lo_wait ob t = None" and b: "lw_waiting ob + 1 < 2 ^ 31"
    and c: "lw_call h (Lc_wait i timeout) t ks ob = (ks', ob', r)"
  shows "lo_inv ob' \<and> op_effect t (lo_queue ob) (lo_queue ob') ks ks' (phase_of r)"
proof -
  let ?k = "fst (emplace_sq t (lc_sq (lo_conds ob ! i)) (set_reg t 3 0 ks))"
  let ?m = "(lo_m ob)\<lparr>lw_lwcond_waiters := s32 (lw_lwcond_waiters (lo_m ob) + 1)\<rparr>"
  let ?c = "(lo_conds ob ! i)\<lparr>lc_sq := t # lc_sq (lo_conds ob ! i), lc_lwmutex_waiters := s32 (lc_lwmutex_waiters (lo_conds ob ! i) + 1)\<rparr>"
  let ?o = "\<lambda>m. (lo_put ob i m ?c)\<lparr>lo_wait := (lo_wait ob)(t := Some i)\<rparr>"
  note k = may_call_queued [OF calm mc, of "lc_sq (lo_conds ob ! i)" 3 0]
  have t0: "t \<noteq> 0" and run: "running ?k t" and sok: "sleep_ok ?k t timeout"
    using mc k(2) sleep_ok_calm by (auto simp: may_call_def)
  have ag: "\<forall>u. \<not> has_again (thr ?k) u" using kernel_calmD(4) [OF k(1)] by simp
  obtain m2 x where re: "lwmutex_reown (thr ?k) ?m False = (m2, x)" by fastforce
  have e: "snd (emplace_sq t (lc_sq (lo_conds ob ! i)) (set_reg t 3 0 ks)) = t # lc_sq (lo_conds ob ! i)" by simp
  consider (keep) "lw_sq (lo_m ob) = []" "ks' = fst (sleep_self h t timeout ?k)" "ob' = ?o (lw_signal False ?m)" "r = Blocked"
    | (give) u where "u \<in> set (lw_sq (lo_m ob))" "ks' = fst (sleep_self h t timeout (lv2_append u ?k))"
        "ob' = ?o (?m\<lparr>lw_sq := remove1 u (lw_sq (lo_m ob))\<rparr>)" "r = Blocked"
  proof (cases "lwmutex_try_unlock (h_cas h) ?m False")
    case (Pair m1 b1)
    then have m1: "m1 = (if b1 then lw_signal False ?m else ?m)" "b1 \<Longrightarrow> lw_sq (lo_m ob) = []"
      by (auto simp: lwmutex_try_unlock_def split: if_splits)
    show thesis
    proof (cases b1)
      case True
      show thesis by (rule keep) (use c Pair m1 True e in \<open>auto simp: sys_lwcond_queue_wait_def Let_def case_prod_beta\<close>)
    next
      case False
      from re ag show thesis
      proof (cases rule: lwmutex_reown_cases)
        case free
        show thesis by (rule keep) (use c Pair m1 False e re free in \<open>auto simp: sys_lwcond_queue_wait_def Let_def case_prod_beta\<close>)
      next
        case (pass u)
        show thesis by (rule give [of u]) (use c Pair m1 False e re pass ag in \<open>auto simp: sys_lwcond_queue_wait_def Let_def case_prod_beta\<close>)
      qed
    qed
  qed
  then show ?thesis
  proof cases
    case keep
    note en = lc_enqueue [OF inv i t t0 w b, where m' = "lw_signal False ?m" and U = "{}", OF _ _ _ refl keep(3)]
    have "lo_inv ob'" "set (lo_queue ob') = insert t (set (lo_queue ob))" using en(1,2) keep(1) by (auto simp: lw_signal_def)
    then show ?thesis unfolding keep(2,4) using t by (auto intro!: op_effect_sleep [OF k(1) run sok t0 k(3)])
  next
    case (give u)
    let ?m2 = "?m\<lparr>lw_sq := remove1 u (lw_sq (lo_m ob))\<rparr>"
    have "lw_signaled (lo_m ob) = 0" using lo_invD(3) [OF inv] give(1) by (cases "lw_sq (lo_m ob)") auto
    then have m2: "lw_lwcond_waiters ?m2 = s32 (lw_lwcond_waiters (lo_m ob) + 1)" "lw_signaled ?m2 \<noteq> 0 \<Longrightarrow> lw_sq ?m2 = []" by simp_all
    have "mset (lw_sq (lo_m ob)) = add_mset u (mset (lw_sq ?m2))" using give(1) by simp
    note o = lc_enqueue [OF inv i t t0 w b m2 disjI2 [OF conjI [OF refl this]] refl give(3)]
    then have u: "u \<noteq> 0" "u \<noteq> t" "u \<in> set (lo_queue ob)" using lo_invD(2) [OF inv] t by auto
    then show ?thesis
      unfolding give(2,4) using o(1,2) t by (auto intro!: op_effect_sleep_wake [OF k(1) run sok t0 u(1) k(3)])
  qed
qed

lemma lc_end_step:
  assumes inv: "lo_inv ob" and t: "t \<notin> set (lo_queue ob)" and w: "lo_wait ob t = Some i"
    and o: "ob' = (lo_put ob i ((lo_m ob)\<lparr>lw_lwcond_waiters := s32 (lw_lwcond_waiters (lo_m ob) - 1)\<rparr>)
       ((lo_conds ob ! i)\<lparr>lc_lwmutex_waiters := s32 (lc_lwmutex_waiters (lo_conds ob ! i) - 1)\<rparr>))\<lparr>lo_wait := (lo_wait ob)(t := None)\<rparr>"
  shows "lo_inv ob'" and "set (lo_queue ob') = set (lo_queue ob)"
proof -
  note d = lo_invD [OF inv]
  let ?c = "(lo_conds ob ! i)\<lparr>lc_lwmutex_waiters := s32 (lc_lwmutex_waiters (lo_conds ob ! i) - 1)\<rparr>"
  have i: "i < length (lo_conds ob)" using d(7) [OF w] by simp
  have f: "lw_sq (lo_m ob') = lw_sq (lo_m ob)" "lw_signaled (lo_m ob') = lw_signaled (lo_m ob)"
    "lw_lwcond_waiters (lo_m ob') = s32 (lw_lwcond_waiters (lo_m ob) - 1)"
    "lo_wait ob' = (lo_wait ob)(t := None)" "length (lo_conds ob') = length (lo_conds ob)"
    by (simp_all add: o lo_put_def)
  have fc: "lo_conds ob' ! j = (if j = i then ?c else lo_conds ob ! j)" if "j < length (lo_conds ob)" for j
    using that by (simp add: o lo_put_def nth_list_update)
  have "mset (lc_queues (lo_conds ob')) = mset (lc_queues (lo_conds ob))" using lc_queues_put [OF i, of ?c] by (simp add: o lo_put_def)
  then have "mset (lo_queue ob') = mset (lo_queue ob)" using f(1) by (simp add: lo_queue_def)
  note mv = queue_move [OF d(1) this]
  show "set (lo_queue ob') = set (lo_queue ob)" by (rule mv)
  have up: "(lo_wait ob')(t := Some i) = lo_wait ob" "lo_wait ob' t = None" using f(4) w by auto
  have wt: "lw_waiting ob = Suc (lw_waiting ob')" "lc_waiting ob j = (if j = i then Suc (lc_waiting ob' j) else lc_waiting ob' j)" for j
    unfolding lw_waiting_def lc_waiting_def up(1) [symmetric] by (rule waiting_step [where f = "lo_wait ob'", OF up(2)])+
  have cm: "counts (lw_lwcond_waiters (lo_m ob')) (lw_waiting ob')" unfolding f(3) by (rule counts_down [OF d(4) [unfolded wt]])
  have cc: "counts (lc_lwmutex_waiters (lo_conds ob' ! j)) (lc_waiting ob' j)" if "j < length (lo_conds ob)" for j
    using d(5) [OF that] counts_down unfolding fc [OF that] wt by (auto split: if_splits)
  have cq: "lo_wait ob' s = Some j" if "j < length (lo_conds ob)" "s \<in> set (lc_sq (lo_conds ob' ! j))" for j s
  proof -
    have s: "s \<in> set (lc_sq (lo_conds ob ! j))" using that(2) unfolding fc [OF that(1)] by (simp split: if_splits)
    then have "s \<noteq> t" using lc_queues_mem [OF that(1) s] t by (auto simp: lo_queue_def)
    then show ?thesis using d(6) [OF that(1) s] f(4) by simp
  qed
  have cw: "j < length (lo_conds ob) \<and> s \<noteq> 0" if "lo_wait ob' s = Some j" for s j
    using that d(7) [of s j] unfolding f(4) by (auto split: if_splits)
  show "lo_inv ob'" unfolding lo_inv_def f(1,2,5) using mv d(2,3) cm cc cq cw by blast
qed

lemma lo_timeout_effect:
  assumes inv: "lo_inv ob" and calm: "kernel_calm ks" and c: "lw_tmo h t ks ob = (ks', ob', r)"
  shows "lo_inv ob' \<and> op_effect t (lo_queue ob) (lo_queue ob') ks ks' (phase_of r)"
proof -
  note d = lo_invD [OF inv]
  let ?k = "set_reg t 3 (errval CELL_ETIMEDOUT) ks"
  have i: "i < length (lo_conds ob)" if "lo_wait ob t = Some i" for i using d(7) [OF that] by simp
  have nc: "\<exists>i. lo_wait ob t = Some i \<and> t \<in> set (lc_sq (lo_conds ob ! i))" if "t \<in> set (lc_queues (lo_conds ob))"
    using that d(6) [of _ t] by (force simp: lc_queues_def in_set_conv_nth [of _ "lo_conds ob"])
  have leave: "op_effect t (lo_queue ob) q' ks ?k Idle" if "set q' = set (lo_queue ob) - {t}" for q'
    using that calm kernel_calm_own(1) [OF calm] by (intro op_effect_none) auto
  consider (var) i where "lo_wait ob t = Some i" "t \<in> set (lc_sq (lo_conds ob ! i))"
    | (mtx) "t \<in> set (lw_sq (lo_m ob))" "\<And>i. lo_wait ob t = Some i \<Longrightarrow> t \<notin> set (lc_sq (lo_conds ob ! i))"
    | (out) "t \<notin> set (lo_queue ob)"
    using nc by (auto simp: lo_queue_def)
  then show ?thesis
  proof cases
    case (var i)
    let ?c = "(lo_conds ob ! i)\<lparr>lc_sq := remove1 t (lc_sq (lo_conds ob ! i))\<rparr>"
    have r: "ks' = ?k" "ob' = lo_put ob i (lo_m ob) ?c" "r = Ok"
      using c var by (auto simp: lw_tmo_def lwcond_wait_timeout_def unqueue_def)
    have "mset (lc_sq (lo_conds ob ! i)) = add_mset t (mset (remove1 t (lc_sq (lo_conds ob ! i))))" using var(2) by simp
    note lv = lc_wake [OF inv i [OF var(1)] this r(2)]
    show ?thesis using lv(1) leave [OF lv(2)] unfolding r(1,3) by simp
  next
    case mtx
    define m' where "m' = (lo_m ob)\<lparr>lw_sq := remove1 t (lw_sq (lo_m ob))\<rparr>"
    have r: "ks' = ?k \<and> ob' = ob\<lparr>lo_m := m'\<rparr> \<and> r = Ok"
    proof (cases "lo_wait ob t")
      case None
      then show ?thesis using c mtx(1) by (auto simp: lw_tmo_def lwmutex_lock_timeout_def unqueue_def m'_def split: if_splits)
    next
      case (Some j)
      then show ?thesis
        using c mtx(1) mtx(2) [OF Some] unfolding lo_m_put [OF i [OF Some]]
        by (auto simp: lw_tmo_def lwcond_wait_timeout_def unqueue_def m'_def)
    qed
    note lv = lw_leave [OF inv mtx(1), folded m'_def]
    show ?thesis using lv(1) leave [OF lv(2)] r by simp
  next
    case out
    have "t \<notin> set (lw_sq (lo_m ob))" and n: "t \<notin> set (lc_sq (lo_conds ob ! i))" if "lo_wait ob t = Some i" for i
      using out lc_queues_mem [OF i [OF that], of t] by (auto simp: lo_queue_def)
    then have "ks' = ks \<and> ob' = ob \<and> r = Ok"
      using c i lo_put_same out
      by (cases "lo_wait ob t"; simp add: lw_tmo_def lwcond_wait_timeout_def lwmutex_lock_timeout_def unqueue_def lo_queue_def split: if_splits)
    then show ?thesis using inv op_effect_same [OF calm out] by simp
  qed
qed

lemma phase_of_tried [simp]: "phase_of (tried e) = Idle"
  by (simp add: tried_def split: option.split)

interpretation lwc: wait_object lo_queue "\<lambda>_. lo_inv" lw_call_ok lw_call lw_tmo
proof unfold_locales
  fix ob ks t c h ks' ob' r
  assume inv: "lo_inv ob" and calm: "kernel_calm ks" and mc: "may_call ks t" and t: "t \<notin> set (lo_queue ob)"
    and ok: "lw_call_ok c t ks ob" and cl: "lw_call h c t ks ob = (ks', ob', r)"
  have t0: "t \<noteq> 0" and run: "running ks t" using mc by (auto simp: may_call_def)
  have i: "i < length (lo_conds ob)" if "lw_op_index c = Some i" for i using ok that by (simp add: lw_call_ok_def)
  have md: "lw_mode_ok c ob" and w: "lo_wait ob t = None \<longleftrightarrow> c \<noteq> Lc_end" using ok by (simp_all add: lw_call_ok_def)
  show "lo_inv ob' \<and> op_effect t (lo_queue ob) (lo_queue ob') ks ks' (phase_of r)"
  proof (cases c)
    case Lw_lock
    then show ?thesis using lw_lock_effect [OF inv calm run t t0] cl by blast
  next
    case Lw_lock_slow
    then show ?thesis using lw_lock_slow_effect [OF inv calm run t t0] cl by (auto split: prod.splits)
  next
    case Lw_trylock
    then show ?thesis using lw_trylock_effect [OF inv calm t] cl by (auto split: prod.splits)
  next
    case Lw_unlock
    then show ?thesis using lw_unlock_effect(1) [OF inv calm t] cl by (auto split: prod.splits)
  next
    case Lw_unlock2
    then show ?thesis using lw_unlock_effect(2) [OF inv calm t] cl by (auto split: prod.splits)
  next
    case Lw_destroy
    then show ?thesis using lw_destroy_effect [OF inv calm run t] cl by (auto split: prod.splits)
  next
    case (Lc_wait i timeout)
    then show ?thesis using lc_wait_effect [OF inv calm mc t] i md w cl by simp
  next
    case (Lc_signal i found target ex mode)
    then have "i < length (lo_conds ob)" "mode \<in> {1, 2, 3}" "mode = 1 \<Longrightarrow> lw_signaled (lo_m ob) = 0" using i md by auto
    note e = lc_signal_effect [OF inv calm t this, of h found target ex]
    show ?thesis using e cl Lc_signal by (auto split: prod.splits)
  next
    case (Lc_signal_all i found mode)
    then have "i < length (lo_conds ob)" "mode \<in> {1, 2}" "mode = 1 \<Longrightarrow> lw_signaled (lo_m ob) = 0" using i md by auto
    note e = lc_signal_all_effect [OF inv calm t this, of h found]
    show ?thesis using e cl Lc_signal_all by auto
  next
    case Lc_end
    then obtain i where wi: "lo_wait ob t = Some i" using w by auto
    have "ks' = ks" "r = Ok" using cl Lc_end wi by (auto simp: lwcond_wait_end_def Let_def)
    then show ?thesis
      using lc_end_step [OF inv t wi refl] cl Lc_end wi calm t by (auto simp: lwcond_wait_end_def Let_def intro!: op_effect_none)
  next
    case (Lc_destroy i)
    then show ?thesis using lc_destroy_effect [OF inv calm run t i] cl by (auto split: prod.splits)
  qed
next
  fix ob ks t h ks' ob' r
  assume "lo_inv ob" "kernel_calm ks" and c: "lw_tmo h t ks ob = (ks', ob', r)"
  then show "lo_inv ob' \<and> op_effect t (lo_queue ob) (lo_queue ob') ks ks' (phase_of r)" by (rule lo_timeout_effect)
qed

section \<open>Misuse\<close>


lemma fault_stamp [simp]: "fault (stamp_ks u ks) = fault ks"
  by (simp add: stamp_ks_def stamp_order_def upd_thr_def)




section \<open>Properties\<close>


definition demo_lw :: lw_obj where
  "demo_lw = \<lparr>lo_m = \<lparr>lw_protocol = SYS_SYNC_PRIORITY, lw_control = 0, lw_name = 0, lw_lwcond_waiters = 0, lw_signaled = 0, lw_sq = []\<rparr>,
     lo_conds = [\<lparr>lc_name = 0, lc_lwid = 0, lc_protocol = SYS_SYNC_PRIORITY, lc_control = 0, lc_sq = [], lc_lwmutex_waiters = 0\<rparr>],
     lo_wait = (\<lambda>_. None)\<rparr>"

lemma demo_lw_start: "wstart (\<lambda>_. lo_inv) lo_queue (demo_wsys demo_lw)"
  by (rule demo_wstart) (auto simp: demo_lw_def lo_inv_def lo_queue_def lc_queues_def counts_def lw_waiting_def lc_waiting_def)

text \<open>Thread 1 waits on the condition variable; its mutex, which no thread waits for, is remembered as unlocked.\<close>

definition demo_lw_wait :: "kstate \<times> lw_obj \<times> sysres" where
  "demo_lw_wait = lw_call demo_host (Lc_wait 0 0) 1 demo_ks demo_lw"

lemma demo_lw_run:
  "snd (snd demo_lw_wait) = Blocked" "lw_signaled (lo_m (fst (snd demo_lw_wait))) = 1" "lw_sq (lo_m (fst (snd demo_lw_wait))) = []"
  "map lc_sq (lo_conds (fst (snd demo_lw_wait))) = [[1]]" "lo_wait (fst (snd demo_lw_wait)) 1 = Some 0"
  by code_simp+

definition demo_lw_waits :: "lw_obj wsys" where
  "demo_lw_waits = \<lparr>ws_ks = fst demo_lw_wait, ws_obj = fst (snd demo_lw_wait), ws_ph = (\<lambda>_. Idle)(1 := Waiting)\<rparr>"

lemma demo_lw_step: "(wstep lo_queue lw_call_ok lw_call lw_tmo)\<^sup>*\<^sup>* (demo_wsys demo_lw) demo_lw_waits"
proof (rule r_into_rtranclp)
  have ok: "lw_call_ok (Lc_wait 0 0) 1 demo_ks demo_lw" by (simp add: lw_call_ok_def demo_lw_def lw_waiting_def)
  have "lw_call demo_host (Lc_wait 0 0) 1 demo_ks demo_lw = (fst demo_lw_wait, fst (snd demo_lw_wait), snd (snd demo_lw_wait))"
    by (simp only: demo_lw_wait_def prod.collapse)
  from demo_call [where cok = lw_call_ok and call = lw_call, OF ok this]
  show "wstep lo_queue lw_call_ok lw_call lw_tmo (demo_wsys demo_lw) demo_lw_waits" by (simp add: demo_lw_waits_def demo_lw_run)
qed


text \<open>
  C39: In every reachable state a thread that destroys the mutex succeeds exactly when no thread waits for the mutex and
  none is inside a wait on one of its condition variables; otherwise the call reports \<^verbatim>\<open>CELL_EBUSY\<close>, or it
  leaves the mark that makes the caller wait until the last such thread has left.
\<close>

theorem lwmutex_destroy_exact:
  assumes "wstart (\<lambda>_. lo_inv) lo_queue s0" and "(wstep lo_queue lw_call_ok lw_call lw_tmo)\<^sup>*\<^sup>* s0 s"
    and "lwmutex_destroy_try h (ws_ks s) (lo_m (ws_obj s)) t = (ks', m', e)"
  shows "(e = None \<longleftrightarrow> lw_sq (lo_m (ws_obj s)) = [] \<and> (\<forall>u. lo_wait (ws_obj s) u = None)) \<and>
    (e = Some CELL_EAGAIN \<longrightarrow> lw_destroy_waits (lw_lwcond_waiters m')) \<and> (e = None \<longrightarrow> \<not> lw_destroy_waits (lw_lwcond_waiters m')) \<and>
    e \<in> {None, Some CELL_EBUSY, Some CELL_EAGAIN}"
proof -
  let ?ob = "ws_obj s"
  have "lo_inv ?ob" using winvar_safe(1) [OF lwc.reachable_inv [OF assms(2,1)]] .
  note c = lo_invD(4) [OF this]
  have n: "lw_waiting ?ob = 0 \<longleftrightarrow> (\<forall>u. lo_wait ?ob u = None)" by (simp add: lw_waiting_def)
  have "lw_waiting ?ob < 2 ^ 31" using c by (simp add: counts_def)
  then have "u32_of_int (int (lw_waiting ?ob) + smin32) = int (lw_waiting ?ob) + 2 ^ 31"
    using mod_add_self2 [of "int (lw_waiting ?ob) - 2 ^ 31" "2 ^ 32"] by (simp add: u32_of_int_def smin32_def)
  then show ?thesis
    using assms(3) n unfolding lwmutex_destroy_try_def or_smin [OF c] by (auto simp: Let_def lw_destroy_waits_def split: if_splits)
qed

theorem lwmutex_destroy_exact_witness:
  "snd (snd (lwmutex_destroy_try demo_host (ws_ks demo_lw_waits) (lo_m (ws_obj demo_lw_waits)) 3)) \<noteq> None"
  using lwmutex_destroy_exact [OF demo_lw_start demo_lw_step, where h = demo_host and t = 3] demo_lw_run(5)
  by (metis demo_lw_waits_def option.distinct(1) prod.collapse wsys.select_convs(2))

text \<open>
  C40: In every reachable state an unlock is not lost: if threads wait for the mutex, the one that the protocol chooses leaves the
  queue and becomes runnable; otherwise the next lock by any thread succeeds at once and forgets the unlock.
\<close>

theorem lwmutex_unlock_kept:
  assumes "wstart (\<lambda>_. lo_inv) lo_queue s0" and "(wstep lo_queue lw_call_ok lw_call lw_tmo)\<^sup>*\<^sup>* s0 s"
    and "sys_lwmutex_unlock h (ws_ks s) (lo_m (ws_obj s)) t = (ks', m', r)"
  shows "r = Ok \<and>
    (if lw_sq (lo_m (ws_obj s)) = []
     then ks' = ws_ks s \<and> lwmutex_lock_fast m' = Some ((lo_m (ws_obj s))\<lparr>lw_signaled := 0\<rparr>, Ok)
     else \<exists>u q. schedule (thr (ws_ks s)) (lw_protocol (lo_m (ws_obj s))) (lw_sq (lo_m (ws_obj s))) = (Some u, q) \<and>
       m' = (lo_m (ws_obj s))\<lparr>lw_sq := q\<rparr> \<and> u \<in> set (g_ppu ks'))"
proof -
  let ?m = "lo_m (ws_obj s)" and ?ks = "ws_ks s"
  have inv: "lo_inv (ws_obj s)" and calm: "kernel_calm ?ks"
    using winvar_safe(1) [OF lwc.reachable_inv [OF assms(2,1)]] lwc.reachable_inv [OF assms(2,1)] by (simp_all add: winvar_def)
  have ag: "\<not> has_again (thr ?ks) u" for u using kernel_calmD(4) [OF calm] by simp
  show ?thesis
  proof (cases "lw_sq ?m = []")
    case True
    have "odd (lw_signaled ?m OR 1)" "lw_signaled ?m OR 1 \<noteq> 0" by (simp_all add: even_or_iff) (metis even_or_iff odd_one even_zero)
    then show ?thesis
      using assms(3) True
      by (auto simp: sys_lwmutex_unlock_def lwmutex_try_unlock_def lwmutex_reown_def schedule_None lw_signal_def lwmutex_lock_fast_def
          lw_result_def split: if_splits)
  next
    case False
    then obtain u q where s: "schedule (thr ?ks) (lw_protocol ?m) (lw_sq ?m) = (Some u, q)" using schedule_nonempty by blast
    have "u \<in> set (lw_sq ?m)" using schedule_SomeD [OF s] ag by auto
    then have "u \<noteq> 0" using lo_invD(2) [OF inv] by (auto simp: lo_queue_def)
    then have "u \<in> set (g_ppu (awake_one h t u ?ks))" using awake_one_effect(2) [OF calm] by simp
    then show ?thesis
      using assms(3) False s ag by (auto simp: sys_lwmutex_unlock_def lwmutex_try_unlock_def lwmutex_reown_def split: if_splits)
  qed
qed

theorem lwmutex_unlock_kept_witness:
  "\<exists>m'. lwmutex_lock_fast (fst (snd (sys_lwmutex_unlock demo_host (ws_ks demo_lw_waits) (lo_m (ws_obj demo_lw_waits)) 3))) = Some (m', Ok)"
  using lwmutex_unlock_kept [OF demo_lw_start demo_lw_step, where h = demo_host and t = 3] demo_lw_run(3)
  by (metis demo_lw_waits_def prod.collapse wsys.select_convs(2))

end
