(* ===== verification/Sys_Event.thy ===== *)
theory Sys_Event
  imports Wait_Object
begin

text \<open>
  The event queue of \<^verbatim>\<open>rpcs3/Emu/Cell/lv2/sys_event.h\<close> and \<^verbatim>\<open>sys_event.cpp\<close>: a bounded
  queue of four-word events for PPU or for SPU threads. A send stores the event, or hands it to a waiting thread: to
  registers 4 to 7 of a PPU thread, or to the inbound mailbox of an SPU thread. The part of an SPU thread that a queue
  needs is its queue entry (priority, order and flags, in the same record as for a PPU thread), its mailbox, and the
  calls of \<^verbatim>\<open>resume_spu_thread_group_from_waiting\<close> for it, which are recorded in order.
\<close>

type_synonym lv2_event = "u64 \<times> u64 \<times> u64 \<times> u64"

definition SYS_PPU_QUEUE :: u32 where "SYS_PPU_QUEUE = 1"
definition SYS_SPU_QUEUE :: u32 where "SYS_SPU_QUEUE = 2"
definition SYS_EVENT_QUEUE_DESTROY_FORCE :: int where "SYS_EVENT_QUEUE_DESTROY_FORCE = 1"

record lv2_event_queue =
  eq_protocol :: lv2_protocol
  eq_type :: u8
  eq_size :: u8
  eq_name :: u64
  eq_key :: u64
  eq_exists :: bool
  eq_events :: "lv2_event list"
  eq_sq :: "tid list"
  eq_pq :: "tid list"

record sys_event_queue_attribute =
  qa_protocol :: u32
  qa_type :: u32
  qa_name :: u64

record spu_side =
  sp_thr :: "tid \<Rightarrow> ppu_thread"
  ch_in_mbox :: "tid \<Rightarrow> u32 list"
  sp_resumed :: "tid list"

text \<open>A queue together with the SPU threads that may wait on it.\<close>

record event_obj =
  eo_queue :: lv2_event_queue
  eo_spu :: spu_side

section \<open>The operations\<close>

definition sys_event_queue_make ::
    "u64 \<Rightarrow> sys_event_queue_attribute \<Rightarrow> int \<Rightarrow> CellError + lv2_event_queue" where
  "sys_event_queue_make ipc_key attr sz =
     (if sz \<le> 0 \<or> sz > 127 then Inl CELL_EINVAL
      else case protocol_of (qa_protocol attr) of
             Some p \<Rightarrow>
               if p \<noteq> SYS_SYNC_FIFO \<and> p \<noteq> SYS_SYNC_PRIORITY then Inl CELL_EINVAL
               else if qa_type attr \<noteq> SYS_PPU_QUEUE \<and> qa_type attr \<noteq> SYS_SPU_QUEUE then Inl CELL_EINVAL
               else Inr \<lparr>eq_protocol = p, eq_type = ucast (qa_type attr), eq_size = word_of_int sz,
                          eq_name = qa_name attr, eq_key = ipc_key, eq_exists = True, eq_events = [],
                          eq_sq = [], eq_pq = []\<rparr>
           | None \<Rightarrow> Inl CELL_EINVAL)"

definition is_ppu_queue :: "lv2_event_queue \<Rightarrow> bool" where
  "is_ppu_queue q \<longleftrightarrow> ucast (eq_type q) = SYS_PPU_QUEUE"

text \<open>The event as a thread finds it in registers 4 to 7.\<close>

definition put_event :: "tid \<Rightarrow> lv2_event \<Rightarrow> kstate \<Rightarrow> kstate" where
  "put_event u e ks =
     (case e of (source, d1, d2, d3) \<Rightarrow>
        set_reg u 7 d3 (set_reg u 6 d2 (set_reg u 5 d1 (set_reg u 4 source ks))))"

definition event_of :: "kstate \<Rightarrow> tid \<Rightarrow> lv2_event" where
  "event_of ks u = (gpr (thr ks u) 4, gpr (thr ks u) 5, gpr (thr ks u) 6, gpr (thr ks u) 7)"

text \<open>\<^verbatim>\<open>spu_channel_4_t::set_values\<close>: the mailbox holds exactly the given words.\<close>

definition set_values :: "tid \<Rightarrow> nat \<Rightarrow> u32 list \<Rightarrow> spu_side \<Rightarrow> spu_side" where
  "set_values u n vs sp = sp\<lparr>ch_in_mbox := (ch_in_mbox sp)(u := take n vs)\<rparr>"

definition resume_group :: "tid \<Rightarrow> spu_side \<Rightarrow> spu_side" where
  "resume_group u sp = sp\<lparr>sp_resumed := sp_resumed sp @ [u]\<rparr>"

definition raise_abort :: "tid option \<Rightarrow> kstate \<Rightarrow> kstate" where
  "raise_abort cur ks = (case cur of Some c \<Rightarrow> raise c F_exit (raise c F_again ks) | None \<Rightarrow> ks)"

text \<open>
  \<^verbatim>\<open>lv2_event_queue::send\<close>, called by the thread \<open>cur\<close>, if any, and through a port when
  \<open>port\<close> is set. The last component says that the sender has to wait until a woken thread of better priority
  has run, for which the port is marked busy.
\<close>

definition eq_send ::
    "host \<Rightarrow> kstate \<Rightarrow> event_obj \<Rightarrow> tid option \<Rightarrow> lv2_event \<Rightarrow> bool \<Rightarrow>
      kstate \<times> event_obj \<times> CellError option \<times> bool" where
  "eq_send h ks ob cur e port =
     (let q = eo_queue ob; sp = eo_spu ob in
      if \<not> eq_exists q then (ks, ob, Some CELL_ENOTCONN, False)
      else if eq_pq q = [] \<and> eq_sq q = [] then
        (if length (eq_events q) < unat (eq_size q)
         then (ks, ob\<lparr>eo_queue := q\<lparr>eq_events := eq_events q @ [e]\<rparr>\<rparr>, None, False)
         else (ks, ob, Some CELL_EBUSY, False))
      else if is_ppu_queue q then
        (case schedule (thr ks) (eq_protocol q) (eq_pq q) of
           (None, _) \<Rightarrow> (ensure False ks, ob, None, False)
         | (Some u, q1) \<Rightarrow>
             if has_again (thr ks) u then (raise_abort cur ks, ob, Some CELL_EAGAIN, False)
             else
               let ks1 = fst (lv2_awake (put_event u e ks) (Some u) Enqueue_cmd cur (h_now h) (h_tsc h));
                   ks2 = ensure (port \<longrightarrow> cur \<noteq> None) ks1;
                   busy = (port \<and> (case cur of Some c \<Rightarrow> prio (thr ks2 u) < prio (thr ks2 c) | None \<Rightarrow> False))
               in (ks2, ob\<lparr>eo_queue := q\<lparr>eq_pq := q1\<rparr>\<rparr>, None, busy))
      else
        (case schedule (sp_thr sp) (eq_protocol q) (eq_sq q) of
           (None, _) \<Rightarrow> (ensure False ks, ob, None, False)
         | (Some u, q1) \<Rightarrow>
             if has_again (sp_thr sp) u then (raise_abort cur ks, ob, Some CELL_EAGAIN, False)
             else case e of (source, d1, d2, d3) \<Rightarrow>
               (ks, ob\<lparr>eo_queue := q\<lparr>eq_sq := q1\<rparr>,
                       eo_spu := resume_group u (set_values u 4 [0, ucast d1, ucast d2, ucast d3] sp)\<rparr>,
                None, False)))"

text \<open>
  The remaining calls find a queue only while it exists. \<open>vsh\<close> stands for \<^verbatim>\<open>Emu.IsVsh()\<close>, for which one
  system queue has its timeout replaced.
\<close>

definition receive_timeout_of :: "bool \<Rightarrow> lv2_event_queue \<Rightarrow> u64 \<Rightarrow> u64" where
  "receive_timeout_of vsh q timeout = (if eq_key q = 0x8005911000000012 \<and> vsh then 1 else timeout)"

definition sys_event_queue_receive ::
    "host \<Rightarrow> bool \<Rightarrow> kstate \<Rightarrow> lv2_event_queue \<Rightarrow> tid \<Rightarrow> u64 \<Rightarrow> kstate \<times> lv2_event_queue \<times> sysres" where
  "sys_event_queue_receive h vsh ks q t timeout =
     (let ks1 = set_reg t 3 0 ks in
      if \<not> eq_exists q then (ks1, q, Err CELL_ESRCH)
      else if \<not> is_ppu_queue q then (ks1, q, Err CELL_EINVAL)
      else case eq_events q of
             [] \<Rightarrow> (case block_sq h t (receive_timeout_of vsh q timeout) (eq_pq q) ks1 of
                      (ks2, pq) \<Rightarrow> (ks2, q\<lparr>eq_pq := pq\<rparr>, Blocked))
           | e # es \<Rightarrow> (put_event t e ks1, q\<lparr>eq_events := es\<rparr>, Ok))"

definition event_receive_timeout :: "kstate \<Rightarrow> lv2_event_queue \<Rightarrow> tid \<Rightarrow> kstate \<times> lv2_event_queue" where
  "event_receive_timeout ks q t =
     (case unqueue t (eq_pq q) of
        (None, _) \<Rightarrow> (ks, q)
      | (Some _, pq) \<Rightarrow> (set_reg t 3 (errval CELL_ETIMEDOUT) ks, q\<lparr>eq_pq := pq\<rparr>))"

text \<open>
  The loop of \<^verbatim>\<open>sys_event_queue_tryreceive\<close> moves events into a buffer of 127 entries; the last
  component is what the buffer holds at the end.
\<close>

fun tryreceive_loop :: "nat \<Rightarrow> lv2_event list \<Rightarrow> lv2_event list \<Rightarrow> lv2_event list \<times> lv2_event list" where
  "tryreceive_loop (Suc n) (e # es) buf = tryreceive_loop n es (buf @ [e])"
| "tryreceive_loop n es buf = (es, buf)"

definition sys_event_queue_tryreceive ::
    "lv2_event_queue \<Rightarrow> int \<Rightarrow> lv2_event_queue \<times> lv2_event list \<times> sysres" where
  "sys_event_queue_tryreceive q sz =
     (if \<not> eq_exists q then (q, [], Err CELL_ESRCH)
      else if \<not> is_ppu_queue q then (q, [], Err CELL_EINVAL)
      else case tryreceive_loop (nat sz) (eq_events q) [] of
             (es, buf) \<Rightarrow> (q\<lparr>eq_events := es\<rparr>, buf, Ok))"

definition sys_event_queue_drain :: "lv2_event_queue \<Rightarrow> lv2_event_queue \<times> sysres" where
  "sys_event_queue_drain q =
     (if eq_exists q then (q\<lparr>eq_events := []\<rparr>, Ok) else (q, Err CELL_ESRCH))"

text \<open>
  Destruction of a queue with waiting threads, which only the forced mode allows, cancels their
  waits. The removal from the identifier table is the flag \<open>eq_exists\<close>.
\<close>

definition cancel_ppu :: "tid \<Rightarrow> kstate \<Rightarrow> kstate" where
  "cancel_ppu u ks = lv2_append u (set_reg u 3 (errval CELL_ECANCELED) ks)"

definition cancel_spu :: "tid \<Rightarrow> spu_side \<Rightarrow> spu_side" where
  "cancel_spu u sp = resume_group u (set_values u 1 [cell_error_code CELL_ECANCELED] sp)"

definition sys_event_queue_destroy ::
    "host \<Rightarrow> kstate \<Rightarrow> event_obj \<Rightarrow> tid \<Rightarrow> int \<Rightarrow> kstate \<times> event_obj \<times> sysres" where
  "sys_event_queue_destroy h ks ob t mode =
     (let q = eo_queue ob; sp = eo_spu ob;
          head = (if is_ppu_queue q then eq_pq q else eq_sq q);
          tab = (if is_ppu_queue q then thr ks else sp_thr sp);
          gone = q\<lparr>eq_exists := False\<rparr>
      in if mode \<noteq> 0 \<and> mode \<noteq> SYS_EVENT_QUEUE_DESTROY_FORCE then (ks, ob, Err CELL_EINVAL)
         else if \<not> eq_exists q then (ks, ob, Err CELL_ESRCH)
         else if mode = 0 \<and> head \<noteq> [] then (ks, ob, Err CELL_EBUSY)
         else if \<exists>u \<in> set head. has_again tab u then (raise t F_again ks, ob, Restart)
         else if head = [] then (ks, ob\<lparr>eo_queue := gone\<rparr>, Ok)
         else if is_ppu_queue q then
           (awake_all (fold cancel_ppu (eq_pq q) ks) (Some t) (h_now h) (h_tsc h),
            ob\<lparr>eo_queue := gone\<lparr>eq_pq := []\<rparr>\<rparr>, Ok)
         else (ks, ob\<lparr>eo_queue := gone\<lparr>eq_sq := []\<rparr>, eo_spu := fold cancel_spu (eq_sq q) sp\<rparr>, Ok))"

section \<open>The invariant\<close>

text \<open>
  A queue never holds more events than its size, which is at most 127, so that the buffer of
  \<^verbatim>\<open>sys_event_queue_tryreceive\<close> is large enough; a queue that holds events has no waiting thread.
\<close>

definition eq_inv :: "lv2_event_queue \<Rightarrow> bool" where
  "eq_inv q \<longleftrightarrow>
     0 < unat (eq_size q) \<and> unat (eq_size q) \<le> 127 \<and> length (eq_events q) \<le> unat (eq_size q) \<and>
     distinct (eq_pq q) \<and> 0 \<notin> set (eq_pq q) \<and>
     (eq_events q \<noteq> [] \<longrightarrow> eq_pq q = [] \<and> eq_sq q = []) \<and>
     (if is_ppu_queue q then eq_sq q = [] else eq_pq q = []) \<and>
     (\<not> eq_exists q \<longrightarrow> eq_pq q = [] \<and> eq_sq q = [])"

lemma queue_make_inv: "sys_event_queue_make k attr n = Inr q \<Longrightarrow> eq_inv q \<and> eq_exists q \<and> eq_events q = []"
proof -
  assume "sys_event_queue_make k attr n = Inr q"
  moreover have "unat (word_of_int n :: u8) = nat n" if "0 < n" "n \<le> 127"
    using that by (simp add: unat_eq_nat_uint uint_word_of_int)
  ultimately show ?thesis
    by (auto simp: sys_event_queue_make_def eq_inv_def split: if_splits option.splits)
qed

lemma tryreceive_loop_spec: "tryreceive_loop n es buf = (drop n es, buf @ take n es)"
  by (induction n es buf rule: tryreceive_loop.induct) auto

section \<open>Effect on the waiting threads\<close>

lemma gpr_put_event:
  "gpr (thr (put_event u e ks) w) = (if w = u then (gpr (thr ks w))(4 := fst e, 5 := fst (snd e),
     6 := fst (snd (snd e)), 7 := snd (snd (snd e))) else gpr (thr ks w))"
  by (cases e) (simp add: put_event_def set_reg_def upd_thread_def)

lemma event_of_put [simp]: "event_of (put_event u e ks) u = e"
  by (cases e) (simp add: event_of_def gpr_put_event)

lemma put_event_calm: "kernel_calm ks \<Longrightarrow> kernel_calm (put_event u e ks)"
  by (cases e) (simp add: put_event_def kernel_calm_own)

lemma sched_frame_put_event: "sched_frame {} ks (put_event u e ks)"
  by (cases e) (simp add: put_event_def sched_frame_def running_def parked_def set_reg_def upd_thread_def)

text \<open>The three outcomes of a send to a PPU queue.\<close>

lemma send_cases [consumes 4, case_names refused stored woken]:
  assumes inv: "eq_inv (eo_queue ob)" and ppu: "is_ppu_queue (eo_queue ob)" and calm: "kernel_calm ks"
    and c: "eq_send h ks ob (Some t) e port = (ks', ob', r, b)"
  obtains (refused) err where "ks' = ks" "ob' = ob" "r = Some err"
  | (stored) "ks' = ks" "ob' = ob\<lparr>eo_queue := (eo_queue ob)\<lparr>eq_events := eq_events (eo_queue ob) @ [e]\<rparr>\<rparr>"
      "r = None" "eq_exists (eo_queue ob)" "eq_pq (eo_queue ob) = []" "eq_sq (eo_queue ob) = []"
      "length (eq_events (eo_queue ob)) < unat (eq_size (eo_queue ob))"
  | (woken) u where "u \<in> set (eq_pq (eo_queue ob))" "ks' = awake_one h t u (put_event u e ks)"
      "ob' = ob\<lparr>eo_queue := (eo_queue ob)\<lparr>eq_pq := remove1 u (eq_pq (eo_queue ob))\<rparr>\<rparr>"
      "r = None" "eq_exists (eo_queue ob)" "eq_events (eo_queue ob) = []"
proof -
  let ?q = "eo_queue ob"
  have sq: "eq_sq ?q = []" using inv ppu by (simp add: eq_inv_def)
  consider "\<not> eq_exists ?q" | "eq_exists ?q" "eq_pq ?q = []" | "eq_exists ?q" "eq_pq ?q \<noteq> []" by blast
  then show thesis
  proof cases
    case 1
    then have "ks' = ks" "ob' = ob" "r = Some CELL_ENOTCONN" using c by (simp_all add: eq_send_def)
    then show thesis by (rule refused)
  next
    case 2
    then have e: "eq_send h ks ob (Some t) e port =
      (if length (eq_events ?q) < unat (eq_size ?q)
       then (ks, ob\<lparr>eo_queue := ?q\<lparr>eq_events := eq_events ?q @ [e]\<rparr>\<rparr>, None, False)
       else (ks, ob, Some CELL_EBUSY, False))" using sq by (simp add: eq_send_def Let_def)
    show thesis
    proof (cases "length (eq_events ?q) < unat (eq_size ?q)")
      case True
      then show thesis using c 2 sq by (intro stored) (simp_all add: e)
    next
      case False
      then show thesis using c by (intro refused [of CELL_EBUSY]) (simp_all add: e)
    qed
  next
    case 3
    obtain u q1 where sc: "schedule (thr ks) (eq_protocol ?q) (eq_pq ?q) = (Some u, q1)"
      using schedule_nonempty [OF 3(2)] by blast
    have ag: "\<not> has_again (thr ks) u" by (rule kernel_calmD(4) [OF calm])
    note d = schedule_SomeD [OF sc]
    have "\<exists>b'. eq_send h ks ob (Some t) e port = (awake_one h t u (put_event u e ks),
        ob\<lparr>eo_queue := ?q\<lparr>eq_pq := remove1 u (eq_pq ?q)\<rparr>\<rparr>, None, b')"
      using sc ag ppu 3 d(3) by (simp add: eq_send_def Let_def awake_one_def ensure_def)
    then have "ks' = awake_one h t u (put_event u e ks)" "r = None"
      "ob' = ob\<lparr>eo_queue := ?q\<lparr>eq_pq := remove1 u (eq_pq ?q)\<rparr>\<rparr>" using c by auto
    moreover have "eq_events ?q = []" using inv 3 by (auto simp: eq_inv_def)
    ultimately show thesis using 3 d(1) by (intro woken [of u])
  qed
qed

lemma cancel_list:
  "fold cancel_ppu us ks = fold lv2_append us (fold (\<lambda>u. set_reg u 3 (errval CELL_ECANCELED)) us ks)"
  by (induction us arbitrary: ks) (simp_all add: cancel_ppu_def fold_set_reg_append del: append_fold)

lemma fold_set_reg_calm: "kernel_calm ks \<Longrightarrow> kernel_calm (fold (\<lambda>u. set_reg u n v) us ks)"
  by (induction us arbitrary: ks) (simp_all add: kernel_calm_own)

lemma fold_set_reg_frame: "sched_frame {} ks (fold (\<lambda>u. set_reg u n v) us ks)"
proof (induction us arbitrary: ks)
  case (Cons u us)
  show ?case using sched_frame_trans [OF sched_frame_set_reg [of _ ks u n v] Cons] by simp
qed (simp add: sched_frame_def)

section \<open>The event queue as a waiting object\<close>

datatype eq_op =
    Eq_send lv2_event bool
  | Eq_receive bool u64
  | Eq_tryreceive int
  | Eq_drain
  | Eq_destroy int

definition res_of :: "CellError option \<Rightarrow> sysres" where
  "res_of e = (case e of None \<Rightarrow> Ok | Some c \<Rightarrow> Err c)"

fun eq_call :: "host \<Rightarrow> eq_op \<Rightarrow> tid \<Rightarrow> kstate \<Rightarrow> event_obj \<Rightarrow> kstate \<times> event_obj \<times> sysres" where
  "eq_call h (Eq_send e port) t ks ob =
     (case eq_send h ks ob (Some t) e port of (ks', ob', r, _) \<Rightarrow> (ks', ob', res_of r))"
| "eq_call h (Eq_receive vsh timeout) t ks ob =
     (case sys_event_queue_receive h vsh ks (eo_queue ob) t timeout of
        (ks', q', r) \<Rightarrow> (ks', ob\<lparr>eo_queue := q'\<rparr>, r))"
| "eq_call h (Eq_tryreceive n) t ks ob =
     (case sys_event_queue_tryreceive (eo_queue ob) n of (q', _, r) \<Rightarrow> (ks, ob\<lparr>eo_queue := q'\<rparr>, r))"
| "eq_call h Eq_drain t ks ob =
     (case sys_event_queue_drain (eo_queue ob) of (q', r) \<Rightarrow> (ks, ob\<lparr>eo_queue := q'\<rparr>, r))"
| "eq_call h (Eq_destroy mode) t ks ob = sys_event_queue_destroy h ks ob t mode"

definition eq_tmo :: "host \<Rightarrow> tid \<Rightarrow> kstate \<Rightarrow> event_obj \<Rightarrow> kstate \<times> event_obj \<times> sysres" where
  "eq_tmo h t ks ob =
     (case event_receive_timeout ks (eo_queue ob) t of (ks', q') \<Rightarrow> (ks', ob\<lparr>eo_queue := q'\<rparr>, Ok))"

abbreviation ob_pq :: "event_obj \<Rightarrow> tid list" where
  "ob_pq ob \<equiv> eq_pq (eo_queue ob)"

lemma send_effect:
  assumes inv: "eq_inv (eo_queue ob)" and calm: "kernel_calm ks" and ppu: "is_ppu_queue (eo_queue ob)"
    and t: "t \<notin> set (ob_pq ob)"
    and c: "eq_send h ks ob (Some t) e port = (ks', ob', r, b)"
  shows "eq_inv (eo_queue ob') \<and> is_ppu_queue (eo_queue ob') \<and> op_effect t (ob_pq ob) (ob_pq ob') ks ks' Idle"
proof -
  have same: "op_effect t (ob_pq ob) (ob_pq ob) ks ks Idle" using calm t by (rule op_effect_same)
  from inv ppu calm c show ?thesis
  proof (cases rule: send_cases)
    case refused
    then show ?thesis using inv ppu same by simp
  next
    case stored
    then show ?thesis using inv ppu same by (auto simp: eq_inv_def is_ppu_queue_def)
  next
    case (woken u)
    have "eq_inv (eo_queue ob') \<and> is_ppu_queue (eo_queue ob')"
      using inv ppu woken by (auto simp: eq_inv_def is_ppu_queue_def dest: notin_set_remove1)
    moreover have "op_effect t (ob_pq ob) (remove1 u (ob_pq ob)) (put_event u e ks) ks' Idle"
      unfolding woken(2) using t woken(1) inv
      by (intro op_effect_wake_one) (auto simp: put_event_calm calm eq_inv_def)
    ultimately show ?thesis using op_effect_pre [OF sched_frame_put_event] woken(3) by simp
  qed
qed

lemma receive_effect:
  assumes inv: "eq_inv q" and calm: "kernel_calm ks" and ppu: "is_ppu_queue q"
    and t: "may_call ks t" "t \<notin> set (eq_pq q)"
    and c: "sys_event_queue_receive h vsh ks q t timeout = (ks', q', r)"
  shows "eq_inv q' \<and> is_ppu_queue q' \<and> op_effect t (eq_pq q) (eq_pq q') ks ks' (phase_of r)"
proof -
  let ?k = "set_reg t 3 0 ks"
  have k: "kernel_calm ?k" "may_call ?k t" "sched_frame {} ks ?k"
    using calm t(1) by (simp_all add: kernel_calm_own sched_frame_set_reg)
      (simp add: may_call_def running_def set_reg_def upd_thread_def)
  have idle: "op_effect t (eq_pq q) (eq_pq q) ?k (put_event t e ?k) Idle" for e
    using put_event_calm [OF k(1)] t(2) sched_frame_put_event [of ?k t e]
    by (intro op_effect_none) (auto simp: sched_frame_def)
  have same: "op_effect t (eq_pq q) (eq_pq q) ?k ?k Idle" using k(1) t(2) by (rule op_effect_same)
  have "eq_inv q' \<and> is_ppu_queue q' \<and> op_effect t (eq_pq q) (eq_pq q') ?k ks' (phase_of r)"
  proof (cases "eq_exists q \<and> eq_events q = []")
    case True
    let ?b = "block_sq h t (receive_timeout_of vsh q timeout) (eq_pq q) ?k"
    have e: "ks' = fst ?b" "q' = q\<lparr>eq_pq := t # eq_pq q\<rparr>" "r = Blocked"
      using c True ppu by (auto simp: sys_event_queue_receive_def Let_def case_prod_beta)
    have "op_effect t (eq_pq q) (t # eq_pq q) ?k (fst ?b) Waiting"
      using k t(2) by (intro op_effect_block_sq) (auto simp: sched_frame_def)
    moreover have "t \<noteq> 0" using t(1) by (simp add: may_call_def)
    ultimately show ?thesis using e inv True ppu t(2) by (auto simp: eq_inv_def is_ppu_queue_def)
  next
    case False
    then consider "\<not> eq_exists q" | e es where "eq_exists q" "eq_events q = e # es" by (cases "eq_events q") auto
    then show ?thesis
    proof cases
      case 1
      then show ?thesis using c ppu inv same by (simp add: sys_event_queue_receive_def) auto
    next
      case (2 e es)
      then have "ks' = put_event t e ?k" "q' = q\<lparr>eq_events := es\<rparr>" "r = Ok"
        using c ppu by (auto simp: sys_event_queue_receive_def Let_def)
      then show ?thesis using 2 ppu inv idle [of e] by (auto simp: eq_inv_def is_ppu_queue_def)
    qed
  qed
  then show ?thesis using op_effect_pre [OF k(3)] by blast
qed

lemma destroy_effect:
  assumes inv: "eq_inv (eo_queue ob)" and calm: "kernel_calm ks" and ppu: "is_ppu_queue (eo_queue ob)"
    and t: "t \<notin> set (ob_pq ob)"
    and c: "sys_event_queue_destroy h ks ob t mode = (ks', ob', r)"
  shows "eq_inv (eo_queue ob') \<and> is_ppu_queue (eo_queue ob') \<and>
    op_effect t (ob_pq ob) (ob_pq ob') ks ks' (phase_of r)"
proof -
  let ?q = "eo_queue ob" and ?us = "ob_pq ob"
  let ?k = "fold (\<lambda>u. set_reg u 3 (errval CELL_ECANCELED)) ?us ks"
  have same: "op_effect t ?us ?us ks ks Idle" using calm t by (rule op_effect_same)
  have ag: "\<not> (\<exists>u \<in> set ?us. has_again (thr ks) u)" using kernel_calmD(4) [OF calm] by blast
  show ?thesis
  proof (cases "mode = SYS_EVENT_QUEUE_DESTROY_FORCE \<and> eq_exists ?q \<and> ?us \<noteq> []")
    case True
    then have e: "ks' = awake_list h t ?us ?k" "ob' = ob\<lparr>eo_queue := ?q\<lparr>eq_exists := False, eq_pq := []\<rparr>\<rparr>" "r = Ok"
      using c ppu ag by (auto simp: sys_event_queue_destroy_def Let_def cancel_list awake_list_def
          SYS_EVENT_QUEUE_DESTROY_FORCE_def)
    have "op_effect t ?us [] ?k (awake_list h t ?us ?k) Idle"
      using inv t by (intro op_effect_wake fold_set_reg_calm calm) (auto simp: eq_inv_def)
    from op_effect_pre [OF fold_set_reg_frame this] show ?thesis
      using e inv ppu by (auto simp: eq_inv_def is_ppu_queue_def)
  next
    case False
    then show ?thesis using c ppu ag inv same
      by (auto simp: sys_event_queue_destroy_def Let_def eq_inv_def is_ppu_queue_def
          SYS_EVENT_QUEUE_DESTROY_FORCE_def split: if_splits)
  qed
qed

abbreviation eob_inv :: "kstate \<Rightarrow> event_obj \<Rightarrow> bool" where
  "eob_inv ks ob \<equiv> eq_inv (eo_queue ob) \<and> is_ppu_queue (eo_queue ob)"

interpretation evq: wait_object ob_pq eob_inv "\<lambda>_ _ _ _. True" eq_call eq_tmo
proof unfold_locales
  fix ob ks t c h ks' ob' r
  assume inv: "eob_inv ks ob" and calm: "kernel_calm ks" and t: "may_call ks t" "t \<notin> set (ob_pq ob)"
    and c: "eq_call h c t ks ob = (ks', ob', r)"
  have same: "op_effect t (ob_pq ob) (ob_pq ob) ks ks Idle" using calm t(2) by (rule op_effect_same)
  show "eob_inv ks' ob' \<and> op_effect t (ob_pq ob) (ob_pq ob') ks ks' (phase_of r)"
  proof (cases c)
    case (Eq_send e port)
    obtain e' b where s: "eq_send h ks ob (Some t) e port = (ks', ob', e', b)" "r = res_of e'"
      using c Eq_send by (auto split: prod.splits)
    then have "phase_of r = Idle" by (simp add: res_of_def split: option.splits)
    then show ?thesis using send_effect [OF _ calm _ t(2) s(1)] inv by simp
  next
    case (Eq_receive vsh timeout)
    then show ?thesis using c receive_effect [OF _ calm _ t] inv by (auto split: prod.splits)
  next
    case (Eq_tryreceive n)
    then show ?thesis using c inv same
      by (auto simp: sys_event_queue_tryreceive_def tryreceive_loop_spec eq_inv_def is_ppu_queue_def split: if_splits)
  next
    case Eq_drain
    then show ?thesis using c inv same
      by (auto simp: sys_event_queue_drain_def eq_inv_def is_ppu_queue_def split: if_splits)
  next
    case (Eq_destroy mode)
    then show ?thesis using c destroy_effect [OF _ calm _ t(2)] inv by simp
  qed
next
  fix ob ks t h ks' ob' r
  assume a: "eob_inv ks ob" "kernel_calm ks" and c: "eq_tmo h t ks ob = (ks', ob', r)"
  show "eob_inv ks' ob' \<and> op_effect t (ob_pq ob) (ob_pq ob') ks ks' (phase_of r)"
  proof (cases "t \<in> set (ob_pq ob)")
    case True
    then show ?thesis using c a op_effect_leave [OF a(2), of "ob_pq ob" t 3 "errval CELL_ETIMEDOUT"]
      by (auto simp: eq_tmo_def event_receive_timeout_def unqueue_def eq_inv_def is_ppu_queue_def dest: notin_set_remove1)
  next
    case False
    then show ?thesis using c a op_effect_same [OF a(2) False]
      by (auto simp: eq_tmo_def event_receive_timeout_def unqueue_def)
  qed
qed

text \<open>A queue for two events, for the examples.\<close>

definition demo_queue :: lv2_event_queue where
  "demo_queue = \<lparr>eq_protocol = SYS_SYNC_FIFO, eq_type = 1, eq_size = 2, eq_name = 0, eq_key = 0,
     eq_exists = True, eq_events = [], eq_sq = [], eq_pq = []\<rparr>"

definition demo_events :: event_obj where
  "demo_events = \<lparr>eo_queue = demo_queue,
     eo_spu = \<lparr>sp_thr = (\<lambda>u. new_thread 0), ch_in_mbox = (\<lambda>_. []), sp_resumed = []\<rparr>\<rparr>"

lemma demo_events_inv: "eob_inv ks demo_events"
  by (simp add: eq_inv_def is_ppu_queue_def demo_events_def demo_queue_def SYS_PPU_QUEUE_def)

end
