(* ===== verification/Event_Queue_System.thy ===== *)
theory Event_Queue_System
  imports Sys_Event
begin

text \<open>
  Event queues under interleaving: the safety of the waiting threads, and the order of delivery.
  A run of the system is recorded with two histories: the events that were accepted, and the events that left the
  queue, each with the thread that got it, as it finds the event in its registers or in its buffer.
\<close>

text \<open>
  C21: In every state that interleaved calls on an event queue of PPU threads (type \<^verbatim>\<open>SYS_PPU_QUEUE\<close>) reach, the queue holds at most as many
  events as its size, which is at most the 127 entries of the buffer of \<^verbatim>\<open>sys_event_queue_tryreceive\<close>; while
  it holds events, or after it was destroyed, no thread waits on it; no \<^verbatim>\<open>ensure\<close> has failed, and a waiting
  thread is either queued and parked or runnable.
\<close>

theorem event_queue_safe:
  assumes "wstart eob_inv ob_pq s0" and "(wstep ob_pq (\<lambda>_ _ _ _. True) eq_call eq_tmo)\<^sup>*\<^sup>* s0 s"
  shows "length (eq_events (eo_queue (ws_obj s))) \<le> unat (eq_size (eo_queue (ws_obj s)))
    \<and> unat (eq_size (eo_queue (ws_obj s))) \<le> 127
    \<and> (eq_events (eo_queue (ws_obj s)) = [] \<and> eq_exists (eo_queue (ws_obj s)) \<or> ob_pq (ws_obj s) = [])
    \<and> waiters_safe ob_pq s"
  using winvar_safe [OF evq.reachable_inv [OF assms(2,1)]] by (auto simp: eq_inv_def)

lemma demo_send:
  "eq_call demo_host (Eq_send e False) 1 demo_ks demo_events =
     (demo_ks, demo_events\<lparr>eo_queue := demo_queue\<lparr>eq_events := [e]\<rparr>\<rparr>, Ok)"
  by (simp add: eq_send_def demo_events_def demo_queue_def res_of_def)

theorem event_queue_safe_witness:
  "\<exists>s. (wstep ob_pq (\<lambda>_ _ _ _. True) eq_call eq_tmo)\<^sup>*\<^sup>* (demo_wsys demo_events) s \<and>
     eq_events (eo_queue (ws_obj s)) = [(1, 2, 3, 4)] \<and> ob_pq (ws_obj s) = []"
proof -
  let ?step = "wstep ob_pq (\<lambda>_ _ _ _. True) eq_call eq_tmo"
  obtain s where s: "?step (demo_wsys demo_events) s" "eq_events (eo_queue (ws_obj s)) = [(1, 2, 3, 4)]"
    using demo_call [where call = eq_call and cok = "\<lambda>_ _ _ _. True", OF TrueI demo_send [of "(1, 2, 3, 4)"]]
    by fastforce
  have "wstart eob_inv ob_pq (demo_wsys demo_events)"
    by (rule demo_wstart) (simp_all only: demo_events_inv, simp add: demo_events_def demo_queue_def)
  from event_queue_safe [OF this r_into_rtranclp [of ?step, OF s(1)]] show ?thesis
    using s by (intro exI [of _ s]) auto
qed

section \<open>Histories\<close>

definition accepted :: "eq_op \<Rightarrow> sysres \<Rightarrow> lv2_event list" where
  "accepted c r = (case c of Eq_send e port \<Rightarrow> if r = Ok then [e] else [] | _ \<Rightarrow> [])"

text \<open>
  The events that a call of \<open>t\<close> takes out: to the threads that a send removes from the waiting
  queue, to the caller of a receive, or to nobody when the queue is drained.
\<close>

definition taken_out ::
    "eq_op \<Rightarrow> tid \<Rightarrow> event_obj \<Rightarrow> kstate \<Rightarrow> event_obj \<Rightarrow> sysres \<Rightarrow> (tid option \<times> lv2_event) list" where
  "taken_out c t ob ks' ob' r =
     (case c of
        Eq_send e port \<Rightarrow> map (\<lambda>u. (Some u, event_of ks' u)) (filter (\<lambda>u. u \<notin> set (ob_pq ob')) (ob_pq ob))
      | Eq_receive vsh timeout \<Rightarrow> if r = Ok then [(Some t, event_of ks' t)] else []
      | Eq_tryreceive n \<Rightarrow> map (Pair (Some t)) (fst (snd (sys_event_queue_tryreceive (eo_queue ob) n)))
      | Eq_drain \<Rightarrow> if r = Ok then map (Pair None) (eq_events (eo_queue ob)) else []
      | Eq_destroy mode \<Rightarrow> [])"

lemma filter_removed:
  assumes "distinct xs" and "x \<in> set xs"
  shows "filter (\<lambda>y. y \<in> set xs \<longrightarrow> y = x) xs = [x]"
proof -
  have "filter (\<lambda>y. y \<in> set xs \<longrightarrow> y = x) xs = filter (\<lambda>y. y = x) xs" by (rule filter_cong) auto
  moreover have "filter (\<lambda>y. y = x) xs = [x]" using assms by (induction xs) (auto simp: filter_empty_conv)
  ultimately show ?thesis by simp
qed

lemma event_of_awake [simp]: "event_of (awake_one h t u ks) w = event_of ks w"
  by (simp add: event_of_def)

text \<open>Every call moves events from the back to the front of the queue.\<close>

lemma call_moves_events:
  assumes inv: "eob_inv ks ob" and calm: "kernel_calm ks" and c: "eq_call h c t ks ob = (ks', ob', r)"
  shows "eq_events (eo_queue ob) @ accepted c r = map snd (taken_out c t ob ks' ob' r) @ eq_events (eo_queue ob')"
proof (cases c)
  case (Eq_send e port)
  obtain e' b where s: "eq_send h ks ob (Some t) e port = (ks', ob', e', b)" "r = res_of e'"
    using c Eq_send by (auto split: prod.splits)
  from inv have "eq_inv (eo_queue ob)" "is_ppu_queue (eo_queue ob)" by simp_all
  from this calm s(1) show ?thesis
    using s(2) Eq_send inv
    by (cases rule: send_cases)
      (auto simp: res_of_def accepted_def taken_out_def filter_removed eq_inv_def)
next
  case (Eq_receive vsh timeout)
  then show ?thesis using c inv
    by (auto simp: sys_event_queue_receive_def accepted_def taken_out_def Let_def split: if_splits list.splits prod.splits)
next
  case (Eq_tryreceive n)
  then show ?thesis using c
    by (auto simp: sys_event_queue_tryreceive_def tryreceive_loop_spec accepted_def taken_out_def comp_def split: if_splits)
next
  case Eq_drain
  then show ?thesis using c
    by (auto simp: sys_event_queue_drain_def accepted_def taken_out_def comp_def split: if_splits)
next
  case (Eq_destroy mode)
  then show ?thesis using c
    by (auto simp: sys_event_queue_destroy_def accepted_def taken_out_def Let_def split: if_splits)
qed

text \<open>A run with its histories. A silent step is a step of the system that is not a call.\<close>

inductive eq_run ::
    "event_obj wsys \<Rightarrow> event_obj wsys \<Rightarrow> lv2_event list \<Rightarrow> (tid option \<times> lv2_event) list \<Rightarrow> bool" for s0 where
  run_start: "eq_run s0 s0 [] []"
| run_call: "eq_run s0 s acc out \<Longrightarrow> ws_ph s t = Idle \<Longrightarrow> may_call (ws_ks s) t \<Longrightarrow>
    eq_call h c t (ws_ks s) (ws_obj s) = (ks', ob', r) \<Longrightarrow>
    eq_run s0 \<lparr>ws_ks = ks', ws_obj = ob', ws_ph = (ws_ph s)(t := phase_of r)\<rparr>
      (acc @ accepted c r) (out @ taken_out c t (ws_obj s) ks' ob' r)"
| run_silent: "eq_run s0 s acc out \<Longrightarrow> wstep ob_pq (\<lambda>_ _ _ _. False) eq_call eq_tmo s s' \<Longrightarrow> eq_run s0 s' acc out"

lemma wstep_mono:
  assumes "wstep queue cok call tmo s s'" and "\<And>c t ks ob. cok c t ks ob \<Longrightarrow> cok' c t ks ob"
  shows "wstep queue cok' call tmo s s'"
  using assms by (induction rule: wstep.induct) (blast intro: wstep.intros)+

lemma run_reachable: "eq_run s0 s acc out \<Longrightarrow> (wstep ob_pq (\<lambda>_ _ _ _. True) eq_call eq_tmo)\<^sup>*\<^sup>* s0 s"
proof (induction rule: eq_run.induct)
  case (run_call s acc out t h c ks' ob' r)
  then show ?case using wstep.w_call [of s t "\<lambda>_ _ _ _. True" c eq_call h ks' ob' r ob_pq eq_tmo] by simp
next
  case (run_silent s acc out s')
  have "wstep ob_pq (\<lambda>_ _ _ _. True) eq_call eq_tmo s s'"
    using run_silent.hyps(2) by (rule wstep_mono) simp
  then show ?case using run_silent.IH by (rule rtranclp.rtrancl_into_rtrancl [rotated])
qed simp

definition got :: "tid \<Rightarrow> (tid option \<times> lv2_event) list \<Rightarrow> lv2_event list" where
  "got u out = map snd (filter (\<lambda>x. fst x = Some u) out)"

lemma gpr_steps:
  "gpr (thr (fst (sleep_self h t timeout ks)) u) = gpr (thr ks u)"
  "gpr (thr (cpu_sleep h t ks) u) = gpr (thr ks u)"
proof -
  have "keeps (thr (fst (sleep_self h t timeout ks))) (thr ks)" by (simp add: sleep_self_def keeps_sleep)
  then show "gpr (thr (fst (sleep_self h t timeout ks)) u) = gpr (thr ks u)" by (simp add: keeps_def)
  show "gpr (thr (cpu_sleep h t ks) u) = gpr (thr ks u)"
    by (simp add: cpu_sleep_def upd_thread_def)
qed

text \<open>A silent step leaves the events alone, and the registers and the place of every thread inside a wait.\<close>

lemma silent_step:
  assumes "wstep ob_pq (\<lambda>_ _ _ _. False) eq_call eq_tmo s s'"
  shows "eq_events (eo_queue (ws_obj s')) = eq_events (eo_queue (ws_obj s))"
    and "ws_ph s' u \<noteq> Idle \<Longrightarrow> ws_ph s u \<noteq> Idle \<and> gpr (thr (ws_ks s') u) = gpr (thr (ws_ks s) u) \<and>
      (u \<in> set (ob_pq (ws_obj s')) \<longleftrightarrow> u \<in> set (ob_pq (ws_obj s)))"
proof -
  have "eq_events (eo_queue (ws_obj s')) = eq_events (eo_queue (ws_obj s)) \<and>
    (ws_ph s' u \<noteq> Idle \<longrightarrow> ws_ph s u \<noteq> Idle \<and> gpr (thr (ws_ks s') u) = gpr (thr (ws_ks s) u) \<and>
      (u \<in> set (ob_pq (ws_obj s')) \<longleftrightarrow> u \<in> set (ob_pq (ws_obj s))))"
    using assms
  proof cases
    case (w_sleep t timeout h ks' b)
    then have "gpr (thr ks' w) = gpr (thr (ws_ks s) w)" for w
      using gpr_steps(1) [of h t timeout "ws_ks s" w] by simp
    then show ?thesis using w_sleep by (auto split: if_splits)
  next
    case (w_signal t ks')
    then have "ks' = lower t F_signal (ws_ks s)" by (auto simp: wait_poll_def split: if_splits)
    then show ?thesis using w_signal by (auto split: if_splits)
  next
    case (w_timeout t h ks' ob' r)
    then show ?thesis
      by (auto simp: eq_tmo_def event_receive_timeout_def unqueue_def set_reg_def upd_thread_def split: if_splits option.splits)
  qed (auto simp: gpr_steps Let_def split: if_splits)
  then show "eq_events (eo_queue (ws_obj s')) = eq_events (eo_queue (ws_obj s))"
    and "ws_ph s' u \<noteq> Idle \<Longrightarrow> ws_ph s u \<noteq> Idle \<and> gpr (thr (ws_ks s') u) = gpr (thr (ws_ks s) u) \<and>
      (u \<in> set (ob_pq (ws_obj s')) \<longleftrightarrow> u \<in> set (ob_pq (ws_obj s)))"
    by blast+
qed

text \<open>
  What a call of \<open>t\<close> does to another thread \<open>u\<close>: a thread that does not wait keeps its registers and gets
  no event; one that leaves the waiting queue got exactly the event in its registers, or is told that the queue
  is gone.
\<close>

lemma call_other_thread:
  assumes inv: "eob_inv ks ob" and calm: "kernel_calm ks" and t: "may_call ks t" "t \<notin> set (ob_pq ob)"
    and c: "eq_call h c t ks ob = (ks', ob', r)" and u: "u \<noteq> t"
  shows "u \<notin> set (ob_pq ob) \<Longrightarrow>
      u \<notin> set (ob_pq ob') \<and> gpr (thr ks' u) = gpr (thr ks u) \<and> got u (taken_out c t ob ks' ob' r) = []"
    and "u \<in> set (ob_pq ob) \<Longrightarrow> u \<notin> set (ob_pq ob') \<Longrightarrow>
      got u (taken_out c t ob ks' ob' r) = [event_of ks' u] \<or> gpr3 ks' u \<noteq> 0"
proof -
  have cancelled: "errval CELL_ECANCELED \<noteq> 0" by (simp add: errval_def)
  let ?P = "(u \<notin> set (ob_pq ob) \<longrightarrow>
      u \<notin> set (ob_pq ob') \<and> gpr (thr ks' u) = gpr (thr ks u) \<and> got u (taken_out c t ob ks' ob' r) = [])
    \<and> (u \<in> set (ob_pq ob) \<longrightarrow> u \<notin> set (ob_pq ob') \<longrightarrow>
      got u (taken_out c t ob ks' ob' r) = [event_of ks' u] \<or> gpr3 ks' u \<noteq> 0)"
  have ?P
  proof (cases c)
    case (Eq_send e port)
    obtain e' b where s: "eq_send h ks ob (Some t) e port = (ks', ob', e', b)" "r = res_of e'"
      using c Eq_send by (auto split: prod.splits)
    from inv have "eq_inv (eo_queue ob)" "is_ppu_queue (eo_queue ob)" by simp_all
    from this calm s(1) show ?thesis
    proof (cases rule: send_cases)
      case (woken v)
      then have "taken_out c t ob ks' ob' r = [(Some v, event_of ks' v)]"
        using Eq_send inv by (simp add: taken_out_def filter_removed eq_inv_def)
      then show ?thesis using woken inv by (auto simp: got_def gpr_put_event eq_inv_def)
    qed (use Eq_send in \<open>auto simp: taken_out_def got_def\<close>)
  next
    case (Eq_receive vsh timeout)
    have "may_call (set_reg t 3 0 ks) t" using t(1) by (simp add: may_call_def running_def set_reg_def upd_thread_def)
    then have b: "gpr (thr (fst (block_sq h t tm q (set_reg t 3 0 ks))) u) = gpr (thr ks u)" for tm q
      using block_sq_effect(4) [OF kernel_calm_own(1) [OF calm]] u by (simp add: set_reg_def upd_thread_def)
    have g: "gpr (thr (put_event t e (set_reg t 3 0 ks)) u) = gpr (thr ks u)" for e
      using u by (simp add: gpr_put_event set_reg_def upd_thread_def)
    have k: "gpr (thr (set_reg t 3 0 ks) u) = gpr (thr ks u)" using u by (simp add: set_reg_def upd_thread_def)
    show ?thesis using c u b g k Eq_receive
      by (auto simp: sys_event_queue_receive_def taken_out_def got_def Let_def case_prod_beta
          split: if_splits list.splits)
  next
    case (Eq_tryreceive n)
    then show ?thesis using c u
      by (auto simp: sys_event_queue_tryreceive_def taken_out_def got_def comp_def split: if_splits prod.splits)
  next
    case Eq_drain
    then show ?thesis using c
      by (auto simp: sys_event_queue_drain_def taken_out_def got_def comp_def split: if_splits)
  next
    case (Eq_destroy mode)
    let ?us = "ob_pq ob"
    have gone: "ks' = ks \<and> ob_pq ob' = ?us \<or>
        ks' = awake_list h t ?us (fold (\<lambda>u. set_reg u 3 (errval CELL_ECANCELED)) ?us ks) \<and> ob_pq ob' = []"
      using c Eq_destroy inv kernel_calmD(4) [OF calm]
      by (auto simp: sys_event_queue_destroy_def Let_def cancel_list awake_list_def split: if_splits)
    have "gpr (thr (fold (\<lambda>u. set_reg u 3 v) us k) w) =
        (if w \<in> set us then (gpr (thr k w))(3 := v) else gpr (thr k w))" for us v k w
      by (induction us arbitrary: k) (auto simp: set_reg_def upd_thread_def)
    then show ?thesis using gone cancelled Eq_destroy
      by (auto simp: taken_out_def got_def gpr3_def)
  qed
  then show "u \<notin> set (ob_pq ob) \<Longrightarrow>
      u \<notin> set (ob_pq ob') \<and> gpr (thr ks' u) = gpr (thr ks u) \<and> got u (taken_out c t ob ks' ob' r) = []"
    and "u \<in> set (ob_pq ob) \<Longrightarrow> u \<notin> set (ob_pq ob') \<Longrightarrow>
      got u (taken_out c t ob ks' ob' r) = [event_of ks' u] \<or> gpr3 ks' u \<noteq> 0"
    by blast+
qed

lemma call_blocks:
  assumes "eq_call h c t ks ob = (ks', ob', r)" and "phase_of r \<noteq> Idle"
  shows "t \<in> set (ob_pq ob')"
proof (cases c)
  case (Eq_send e port)
  then show ?thesis using assms by (auto simp: res_of_def split: prod.splits option.splits)
next
  case (Eq_receive vsh timeout)
  then show ?thesis using assms
    by (auto simp: sys_event_queue_receive_def Let_def case_prod_beta split: if_splits list.splits)
next
  case (Eq_destroy mode)
  then have "r \<in> {Ok, Restart} \<union> range Err"
    using assms(1) by (auto simp: sys_event_queue_destroy_def Let_def split: if_splits)
  then show ?thesis using assms(2) by auto
qed (use assms in \<open>auto simp: sys_event_queue_tryreceive_def sys_event_queue_drain_def case_prod_beta split: if_splits\<close>)

text \<open>
  C20: An event queue of PPU threads (type \<^verbatim>\<open>SYS_PPU_QUEUE\<close>; the queues of SPU threads are not in the run) delivers
  every accepted event exactly once and in order. In any interleaving of the calls, the events the queue held at the start followed by the accepted ones are the events that left it, in the order in which
  they left, followed by the ones it still holds. A thread whose wait was ended by a send, rather than by a timeout or
  by the destruction of the queue, still has in its registers the last event that left the queue for it.
\<close>

theorem event_queue_fifo:
  assumes "wstart eob_inv ob_pq s0" and "eq_run s0 s acc out"
  shows "eq_events (eo_queue (ws_obj s0)) @ acc = map snd out @ eq_events (eo_queue (ws_obj s))
    \<and> (\<forall>u. ws_ph s u \<noteq> Idle \<and> u \<notin> set (ob_pq (ws_obj s)) \<and> gpr3 (ws_ks s) u = 0 \<longrightarrow>
         got u out \<noteq> [] \<and> last (got u out) = event_of (ws_ks s) u)"
  using assms(2)
proof (induction rule: eq_run.induct)
  case run_start
  then show ?case using assms(1) by (simp add: wstart_def)
next
  case (run_call s acc out t h c ks' ob' r)
  have w: "winvar eob_inv ob_pq s" by (rule evq.reachable_inv [OF run_reachable [OF run_call.hyps(1)] assms(1)])
  then have i: "eob_inv (ws_ks s) (ws_obj s)" "kernel_calm (ws_ks s)" "t \<notin> set (ob_pq (ws_obj s))"
    using run_call.hyps(2) by (auto simp: winvar_def wthread_def dest: spec [of _ t])
  have t: "phase_of r \<noteq> Idle \<Longrightarrow> t \<in> set (ob_pq ob')"
    using call_blocks [OF run_call.hyps(4)] .
  note o = call_other_thread [OF i(1,2) run_call.hyps(3) i(3) run_call.hyps(4)]
  have g: "got u (xs @ ys) = got u xs @ got u ys" for u xs ys by (simp add: got_def)
  have e: "event_of ks' u = event_of (ws_ks s) u" "gpr3 ks' u = gpr3 (ws_ks s) u"
    if "gpr (thr ks' u) = gpr (thr (ws_ks s) u)" for u using that by (simp_all add: event_of_def gpr3_def)
  have last: "got u (out @ taken_out c t (ws_obj s) ks' ob' r) \<noteq> [] \<and>
      last (got u (out @ taken_out c t (ws_obj s) ks' ob' r)) = event_of ks' u"
    if "((ws_ph s)(t := phase_of r)) u \<noteq> Idle" "u \<notin> set (ob_pq ob')" "gpr3 ks' u = 0" for u
  proof -
    have u: "u \<noteq> t" "ws_ph s u \<noteq> Idle" using that t by (auto split: if_splits)
    show ?thesis
    proof (cases "u \<in> set (ob_pq (ws_obj s))")
      case True
      then show ?thesis using o(2) [OF u(1) _ that(2)] that(3) by (auto simp: g)
    next
      case False
      then show ?thesis using o(1) [OF u(1)] e [of u] u that(3) run_call.IH by (auto simp: g)
    qed
  qed
  have "eq_events (eo_queue (ws_obj s0)) @ acc @ accepted c r =
      map snd (out @ taken_out c t (ws_obj s) ks' ob' r) @ eq_events (eo_queue ob')"
    using conjunct1 [OF run_call.IH] call_moves_events [OF i(1,2) run_call.hyps(4)]
    by (simp flip: append_assoc) simp
  then show ?case using last by simp
next
  case (run_silent s acc out s')
  have "gpr3 (ws_ks s') u = gpr3 (ws_ks s) u \<and> event_of (ws_ks s') u = event_of (ws_ks s) u" if "ws_ph s' u \<noteq> Idle" for u
    using silent_step(2) [OF run_silent.hyps(2) that] by (simp add: event_of_def gpr3_def)
  then show ?case using run_silent.IH silent_step [OF run_silent.hyps(2)] by auto
qed

text \<open>A thread sends an event and receives it.\<close>

theorem event_queue_fifo_witness:
  "\<exists>s. eq_run (demo_wsys demo_events) s [(1, 2, 3, 4)] [(Some 1, (1, 2, 3, 4))] \<and>
     eq_events (eo_queue (ws_obj s)) = []"
proof -
  let ?e = "(1, 2, 3, 4) :: lv2_event" let ?ob = "demo_events\<lparr>eo_queue := demo_queue\<lparr>eq_events := [?e]\<rparr>\<rparr>"
  let ?s = "\<lparr>ws_ks = demo_ks, ws_obj = ?ob, ws_ph = (\<lambda>_. Idle)(1 := phase_of Ok)\<rparr>"
  let ?k = "put_event 1 ?e (set_reg 1 3 0 demo_ks)"
  have "eq_run (demo_wsys demo_events) ?s ([] @ accepted (Eq_send ?e False) Ok)
      ([] @ taken_out (Eq_send ?e False) 1 demo_events demo_ks ?ob Ok)"
    using eq_run.run_call [OF eq_run.run_start [of "demo_wsys demo_events"], of 1 demo_host "Eq_send ?e False"]
      demo_send [of ?e] demo_may_call(1) by (simp add: demo_wsys_def)
  then have 1: "eq_run (demo_wsys demo_events) ?s [?e] []"
    by (simp add: accepted_def taken_out_def demo_events_def demo_queue_def)
  have c: "eq_call demo_host (Eq_receive False 0) 1 demo_ks ?ob =
      (?k, ?ob\<lparr>eo_queue := (eo_queue ?ob)\<lparr>eq_events := []\<rparr>\<rparr>, Ok)"
    by (simp add: sys_event_queue_receive_def is_ppu_queue_def demo_events_def demo_queue_def SYS_PPU_QUEUE_def)
  have "eq_run (demo_wsys demo_events) \<lparr>ws_ks = ?k, ws_obj = ?ob\<lparr>eo_queue := (eo_queue ?ob)\<lparr>eq_events := []\<rparr>\<rparr>,
      ws_ph = (ws_ph ?s)(1 := phase_of Ok)\<rparr> ([?e] @ accepted (Eq_receive False 0) Ok)
      ([] @ taken_out (Eq_receive False 0) 1 ?ob ?k (?ob\<lparr>eo_queue := (eo_queue ?ob)\<lparr>eq_events := []\<rparr>\<rparr>) Ok)"
    using eq_run.run_call [OF 1, of 1 demo_host "Eq_receive False 0"] c demo_may_call(1) by simp
  then obtain s where s: "eq_run (demo_wsys demo_events) s [?e] [(Some 1, ?e)]"
    by (simp add: accepted_def taken_out_def)
  have "wstart eob_inv ob_pq (demo_wsys demo_events)"
    by (rule demo_wstart) (simp_all only: demo_events_inv, simp add: demo_events_def demo_queue_def)
  from event_queue_fifo [OF this s] show ?thesis
    using s by (intro exI [of _ s]) (simp add: demo_wsys_def demo_events_def demo_queue_def)
qed

end
