(* ===== verification/Event_Port.thy ===== *)
theory Event_Port
  imports Sys_Event
begin

text \<open>
  The event ports of \<^verbatim>\<open>sys_event.cpp\<close>. A port refers to a queue object, which may have been destroyed
  meanwhile, and counts in \<^verbatim>\<open>is_busy\<close> the threads that are still inside a send through it. The ports and the queues are
  objects of a store: the identifier tables give the object of an identifier, a queue object stays as long as a
  port refers to it, and a port object is freed when its identifier is withdrawn. A sender keeps a plain pointer to
  the port object while it waits to be scheduled again.
\<close>

definition SYS_EVENT_PORT_LOCAL :: int where "SYS_EVENT_PORT_LOCAL = 1"
definition SYS_EVENT_PORT_IPC :: int where "SYS_EVENT_PORT_IPC = 3"

record lv2_event_port =
  pt_type :: int
  pt_name :: u64
  pt_busy :: u64
  pt_queue :: "nat option"

record port_world =
  pw_port_id :: "u32 \<Rightarrow> nat option"
  pw_port :: "nat \<Rightarrow> lv2_event_port option"
  pw_queue_id :: "u32 \<Rightarrow> nat option"
  pw_queue_key :: "u64 \<Rightarrow> nat option"
  pw_queue :: "nat \<Rightarrow> event_obj"
  pw_ks :: kstate
  pw_fault :: bool

text \<open>\<^verbatim>\<open>lv2_obj::check\<close>: the pointer is set and the object exists.\<close>

definition queue_check :: "port_world \<Rightarrow> nat option \<Rightarrow> bool" where
  "queue_check w qo = (case qo of None \<Rightarrow> False | Some n \<Rightarrow> eq_exists (eo_queue (pw_queue w n)))"

definition port_of :: "port_world \<Rightarrow> u32 \<Rightarrow> (nat \<times> lv2_event_port) option" where
  "port_of w eport =
     (case pw_port_id w eport of
        None \<Rightarrow> None
      | Some n \<Rightarrow> (case pw_port w n of None \<Rightarrow> None | Some p \<Rightarrow> Some (n, p)))"

definition put_port :: "nat \<Rightarrow> lv2_event_port \<Rightarrow> port_world \<Rightarrow> port_world" where
  "put_port n p w = w\<lparr>pw_port := (pw_port w)(n := Some p)\<rparr>"

section \<open>The system calls\<close>

text \<open>
  \<open>new\<close> is the result of \<^verbatim>\<open>idm::make\<close>: the identifier and the object that it creates, or nothing when
  the table is full.
\<close>

definition sys_event_port_create ::
    "(u32 \<times> nat) option \<Rightarrow> port_world \<Rightarrow> int \<Rightarrow> u64 \<Rightarrow> port_world \<times> sysres" where
  "sys_event_port_create new w port_type name =
     (if port_type \<noteq> SYS_EVENT_PORT_LOCAL \<and> port_type \<noteq> SYS_EVENT_PORT_IPC then (w, Err CELL_EINVAL)
      else case new of
             None \<Rightarrow> (w, Err CELL_EAGAIN)
           | Some (eport, n) \<Rightarrow>
               (put_port n \<lparr>pt_type = port_type, pt_name = name, pt_busy = 0, pt_queue = None\<rparr>
                  (w\<lparr>pw_port_id := (pw_port_id w)(eport := Some n)\<rparr>), Value (ucast eport)))"

definition sys_event_port_destroy :: "port_world \<Rightarrow> u32 \<Rightarrow> port_world \<times> sysres" where
  "sys_event_port_destroy w eport =
     (case port_of w eport of
        None \<Rightarrow> (w, Err CELL_ESRCH)
      | Some (n, p) \<Rightarrow>
          if queue_check w (pt_queue p) then (w, Err CELL_EISCONN)
          else (w\<lparr>pw_port_id := (pw_port_id w)(eport := None), pw_port := (pw_port w)(n := None)\<rparr>, Ok))"

definition port_connect :: "int \<Rightarrow> port_world \<Rightarrow> u32 \<Rightarrow> nat option \<Rightarrow> port_world \<times> sysres" where
  "port_connect port_type w eport qo =
     (case (port_of w eport, qo) of
        (Some (n, p), Some q) \<Rightarrow>
          if pt_type p \<noteq> port_type then (w, Err CELL_EINVAL)
          else if queue_check w (pt_queue p) then (w, Err CELL_EISCONN)
          else (put_port n (p\<lparr>pt_queue := Some q\<rparr>) w, Ok)
      | _ \<Rightarrow> (w, Err CELL_ESRCH))"

definition sys_event_port_connect_local :: "port_world \<Rightarrow> u32 \<Rightarrow> u32 \<Rightarrow> port_world \<times> sysres" where
  "sys_event_port_connect_local w eport equeue =
     port_connect SYS_EVENT_PORT_LOCAL w eport (pw_queue_id w equeue)"

definition eq_find :: "port_world \<Rightarrow> u64 \<Rightarrow> nat option" where
  "eq_find w key = (if key = 0 then None else pw_queue_key w key)"

definition sys_event_port_connect_ipc :: "port_world \<Rightarrow> u32 \<Rightarrow> u64 \<Rightarrow> port_world \<times> sysres" where
  "sys_event_port_connect_ipc w eport key =
     (if key = 0 then (w, Err CELL_EINVAL)
      else port_connect SYS_EVENT_PORT_IPC w eport (eq_find w key))"

definition sys_event_port_disconnect :: "port_world \<Rightarrow> u32 \<Rightarrow> port_world \<times> sysres" where
  "sys_event_port_disconnect w eport =
     (case port_of w eport of
        None \<Rightarrow> (w, Err CELL_ESRCH)
      | Some (n, p) \<Rightarrow>
          if \<not> queue_check w (pt_queue p) then (w, Err CELL_ENOTCONN)
          else if pt_busy p \<noteq> 0 then (w, Err CELL_EBUSY)
          else (put_port n (p\<lparr>pt_queue := None\<rparr>) w, Ok))"

text \<open>
  Sending has two parts: the delivery, and, when a thread of better priority was woken, the end of
  the call after the sender was scheduled again, which works on the port object \<open>n\<close> through a plain pointer. The
  sender is a PPU thread \<open>t\<close>; \<open>loaded\<close> says that it was restored from a savestate inside the call.
\<close>

datatype send_res = Sent sysres | Sending nat

definition port_source :: "u32 \<Rightarrow> u32 \<Rightarrow> lv2_event_port \<Rightarrow> u64" where
  "port_source pid eport p = (if pt_name p \<noteq> 0 then pt_name p else push_bit 32 (ucast pid) OR ucast eport)"

definition port_send_begin ::
    "host \<Rightarrow> u32 \<Rightarrow> bool \<Rightarrow> port_world \<Rightarrow> tid \<Rightarrow> u32 \<Rightarrow> u64 \<times> u64 \<times> u64 \<Rightarrow> port_world \<times> send_res" where
  "port_send_begin h pid loaded w t eport d =
     (case port_of w eport of
        None \<Rightarrow> (w, Sent (Err CELL_ESRCH))
      | Some (n, p) \<Rightarrow>
          if loaded then (put_port n (p\<lparr>pt_busy := pt_busy p + 1\<rparr>) w, Sending n)
          else if \<not> queue_check w (pt_queue p) then (w, Sent (Err CELL_ENOTCONN))
          else
            let k = the (pt_queue p); ob = pw_queue w k in
            case eq_send h (pw_ks w) ob (Some t) (port_source pid eport p, d) (is_ppu_queue (eo_queue ob)) of
              (ks', ob', r, busy) \<Rightarrow>
                let w' = w\<lparr>pw_ks := ks', pw_queue := (pw_queue w)(k := ob')\<rparr> in
                if busy then (put_port n (p\<lparr>pt_busy := pt_busy p + 1\<rparr>) w', Sending n)
                else (w', Sent (res_of r)))"

definition port_send_end :: "bool \<Rightarrow> tid \<Rightarrow> port_world \<Rightarrow> nat \<Rightarrow> port_world \<times> sysres" where
  "port_send_end stopped t w n =
     (let w1 = (if stopped then w\<lparr>pw_ks := raise t F_again (pw_ks w)\<rparr> else w) in
      case pw_port w1 n of
        None \<Rightarrow> (w1\<lparr>pw_fault := True\<rparr>, Ok)
      | Some p \<Rightarrow> (put_port n (p\<lparr>pt_busy := pt_busy p - 1\<rparr>) w1, Ok))"

section \<open>Interleaved calls\<close>

record port_sys =
  ps_w :: port_world
  ps_send :: "tid \<Rightarrow> nat option"

definition senders :: "(tid \<Rightarrow> nat option) \<Rightarrow> nat \<Rightarrow> tid set" where
  "senders f n = {u. f u = Some n}"

text \<open>
  A port that a sender points to is held when it refers to a queue that exists. The calls of other
  threads on the queues and on the rest of the kernel are an arbitrary change of that part of the state; with
  \<open>protect\<close>, they destroy no queue of a held port, and a thread restored inside a send finds its queue.
\<close>

definition held :: "port_world \<Rightarrow> nat \<Rightarrow> bool" where
  "held w n \<longleftrightarrow> (\<exists>p. pw_port w n = Some p \<and> queue_check w (pt_queue p))"

inductive port_step :: "bool \<Rightarrow> port_sys \<Rightarrow> port_sys \<Rightarrow> bool" for protect where
  p_create: "pw_port (ps_w s) n = None \<Longrightarrow> senders (ps_send s) n = {} \<Longrightarrow>
    port_step protect s (s\<lparr>ps_w := fst (sys_event_port_create (Some (eport, n)) (ps_w s) ty name)\<rparr>)"
| p_destroy: "port_step protect s (s\<lparr>ps_w := fst (sys_event_port_destroy (ps_w s) eport)\<rparr>)"
| p_local: "port_step protect s (s\<lparr>ps_w := fst (sys_event_port_connect_local (ps_w s) eport equeue)\<rparr>)"
| p_ipc: "port_step protect s (s\<lparr>ps_w := fst (sys_event_port_connect_ipc (ps_w s) eport key)\<rparr>)"
| p_disconnect: "port_step protect s (s\<lparr>ps_w := fst (sys_event_port_disconnect (ps_w s) eport)\<rparr>)"
| p_send: "ps_send s t = None \<Longrightarrow>
    (protect \<and> loaded \<Longrightarrow> (\<forall>n p. port_of (ps_w s) eport = Some (n, p) \<longrightarrow> held (ps_w s) n)) \<Longrightarrow>
    port_send_begin h pid loaded (ps_w s) t eport d = (w', Sent r) \<Longrightarrow> port_step protect s (s\<lparr>ps_w := w'\<rparr>)"
| p_sending: "ps_send s t = None \<Longrightarrow>
    (protect \<and> loaded \<Longrightarrow> (\<forall>n p. port_of (ps_w s) eport = Some (n, p) \<longrightarrow> held (ps_w s) n)) \<Longrightarrow>
    port_send_begin h pid loaded (ps_w s) t eport d = (w', Sending n) \<Longrightarrow>
    port_step protect s (s\<lparr>ps_w := w', ps_send := (ps_send s)(t := Some n)\<rparr>)"
| p_send_end: "ps_send s t = Some n \<Longrightarrow>
    port_step protect s (s\<lparr>ps_w := fst (port_send_end stopped t (ps_w s) n), ps_send := (ps_send s)(t := None)\<rparr>)"
| p_other: "(protect \<Longrightarrow> (\<forall>n. senders (ps_send s) n \<noteq> {} \<and> held (ps_w s) n \<longrightarrow>
      held (ps_w s\<lparr>pw_queue_id := qid, pw_queue_key := qkey, pw_queue := qs, pw_ks := ks\<rparr>) n)) \<Longrightarrow>
    port_step protect s (s\<lparr>ps_w := ps_w s\<lparr>pw_queue_id := qid, pw_queue_key := qkey, pw_queue := qs, pw_ks := ks\<rparr>\<rparr>)"

definition port_inv :: "port_sys \<Rightarrow> bool" where
  "port_inv s \<longleftrightarrow> \<not> pw_fault (ps_w s) \<and> (\<forall>n. senders (ps_send s) n \<noteq> {} \<longrightarrow> held (ps_w s) n) \<and>
     (\<forall>n p. pw_port (ps_w s) n = Some p \<longrightarrow> pt_busy p = of_nat (card (senders (ps_send s) n)))"

lemma busy_zero: "(of_nat (card (A :: tid set)) :: u64) = 0 \<longleftrightarrow> A = {}"
proof -
  have "card A \<le> card (UNIV :: tid set)" by (rule card_mono) auto
  also have "\<dots> = 2 ^ 32" by (simp add: card_word)
  finally have "card A < 2 ^ LENGTH(64)" by simp
  then have "unat (of_nat (card A) :: u64) = card A" by (simp add: unsigned_of_nat take_bit_nat_eq_self)
  then show ?thesis by (metis card_eq_0_iff finite unat_eq_zero)
qed

lemma queue_check_port [simp]:
  "queue_check (w\<lparr>pw_port := f\<rparr>) = queue_check w" "queue_check (w\<lparr>pw_port_id := g\<rparr>) = queue_check w"
  by (auto simp: queue_check_def fun_eq_iff split: option.splits)

lemma eq_send_exists:
  "eq_send h ks ob cur e port = (ks', ob', r, b) \<Longrightarrow> eq_exists (eo_queue ob') = eq_exists (eo_queue ob)"
  by (auto simp: eq_send_def Let_def split: if_splits option.splits prod.splits)

lemma port_of_Some: "port_of w eport = Some (n, p) \<Longrightarrow> pw_port w n = Some p"
  by (auto simp: port_of_def split: option.splits)

lemma senders_upd:
  "f t = None \<Longrightarrow> senders (f(t := Some n)) m = (if m = n then insert t (senders f n) else senders f m)"
  "senders (f(t := None)) m = senders f m - {t}"
  by (auto simp: senders_def)

text \<open>A change of a port that no sender points to, or that keeps its queue, keeps the invariant.\<close>

lemma inv_put_port:
  assumes "port_inv s" and "pw_port (ps_w s) n = Some p" and "pt_busy p' = pt_busy p"
    and "pt_queue p' = pt_queue p \<or> senders (ps_send s) n = {}"
  shows "port_inv (s\<lparr>ps_w := put_port n p' (ps_w s)\<rparr>)"
  using assms by (auto simp: port_inv_def put_port_def held_def queue_check_def split: option.splits)

text \<open>The delivery of an event changes a queue object but not whether it exists.\<close>

lemma inv_queue:
  assumes "port_inv s" and "\<And>k. eq_exists (eo_queue (qs k)) = eq_exists (eo_queue (pw_queue (ps_w s) k))"
  shows "port_inv (s\<lparr>ps_w := ps_w s\<lparr>pw_ks := ks, pw_queue := qs\<rparr>\<rparr>)"
  using assms by (auto simp: port_inv_def held_def queue_check_def split: option.splits)

lemma inv_add_sender:
  assumes "port_inv s" and "ps_send s t = None" and "pw_port (ps_w s) n = Some p" and "held (ps_w s) n"
  shows "port_inv (s\<lparr>ps_w := put_port n (p\<lparr>pt_busy := pt_busy p + 1\<rparr>) (ps_w s), ps_send := (ps_send s)(t := Some n)\<rparr>)"
proof -
  have "card (insert t (senders (ps_send s) n)) = Suc (card (senders (ps_send s) n))"
    using assms(2) by (intro card_insert_disjoint) (auto simp: senders_def)
  then show ?thesis
    using assms by (auto simp: port_inv_def put_port_def held_def queue_check_def senders_upd split: option.splits if_splits)
qed

lemma inv_del_sender:
  assumes "port_inv s" and "ps_send s t = Some n"
  shows "port_inv (s\<lparr>ps_w := fst (port_send_end stopped t (ps_w s) n), ps_send := (ps_send s)(t := None)\<rparr>)"
proof -
  have t: "t \<in> senders (ps_send s) n" using assms(2) by (simp add: senders_def)
  then obtain p where p: "pw_port (ps_w s) n = Some p" "queue_check (ps_w s) (pt_queue p)"
    "pt_busy p = of_nat (card (senders (ps_send s) n))"
    using assms(1) by (fastforce simp: port_inv_def held_def)
  have "card (senders (ps_send s) n) = Suc (card (senders (ps_send s) n - {t}))" using t by (metis card_Suc_Diff1 finite)
  then have "pt_busy p - 1 = of_nat (card (senders (ps_send s) n - {t}))" using p(3) by simp
  moreover have "senders (ps_send s) m - {t} = senders (ps_send s) m" if "m \<noteq> n" for m
    using that assms(2) by (auto simp: senders_def)
  ultimately show ?thesis
    using assms p by (auto simp: port_inv_def port_send_end_def Let_def put_port_def held_def queue_check_def
        senders_upd split: option.splits if_splits)
qed

lemma inv_no_senders:
  "port_inv s \<Longrightarrow> pw_port (ps_w s) n = Some p \<Longrightarrow> \<not> queue_check (ps_w s) (pt_queue p) \<or> pt_busy p = 0 \<Longrightarrow>
   senders (ps_send s) n = {}"
  by (auto simp: port_inv_def held_def busy_zero)

lemma inv_connect:
  assumes "port_inv s"
  shows "port_inv (s\<lparr>ps_w := fst (port_connect ty (ps_w s) eport qo)\<rparr>)"
proof (cases "\<exists>n p q. port_of (ps_w s) eport = Some (n, p) \<and> qo = Some q \<and> pt_type p = ty \<and>
    \<not> queue_check (ps_w s) (pt_queue p)")
  case True
  then obtain n p q where p: "port_of (ps_w s) eport = Some (n, p)" "qo = Some q" "pt_type p = ty"
    "\<not> queue_check (ps_w s) (pt_queue p)" by blast
  have "senders (ps_send s) n = {}" using inv_no_senders [OF assms port_of_Some [OF p(1)]] p(4) by simp
  then have "port_inv (s\<lparr>ps_w := put_port n (p\<lparr>pt_queue := Some q\<rparr>) (ps_w s)\<rparr>)"
    by (intro inv_put_port [OF assms port_of_Some [OF p(1)]]) simp_all
  then show ?thesis using p by (simp add: port_connect_def)
next
  case False
  then have "fst (port_connect ty (ps_w s) eport qo) = ps_w s"
    by (auto simp: port_connect_def split: option.splits)
  then show ?thesis using assms by simp
qed

lemma inv_sent:
  assumes "port_inv s" and "port_send_begin h pid loaded (ps_w s) t eport d = (w', Sent r)"
  shows "port_inv (s\<lparr>ps_w := w'\<rparr>)"
proof (cases "w' = ps_w s")
  case True
  then show ?thesis using assms(1) by simp
next
  case False
  then obtain n p where p: "port_of (ps_w s) eport = Some (n, p)" "\<not> loaded" "queue_check (ps_w s) (pt_queue p)"
    using assms(2) by (auto simp: port_send_begin_def split: option.splits if_splits)
  define k where "k = the (pt_queue p)"
  obtain ks' ob' r' b where e: "eq_send h (pw_ks (ps_w s)) (pw_queue (ps_w s) k) (Some t) (port_source pid eport p, d)
      (is_ppu_queue (eo_queue (pw_queue (ps_w s) k))) = (ks', ob', r', b)" using prod_cases4 by blast
  then have "w' = ps_w s\<lparr>pw_ks := ks', pw_queue := (pw_queue (ps_w s))(k := ob')\<rparr>"
    using assms(2) p by (auto simp: port_send_begin_def k_def Let_def split: if_splits)
  then show ?thesis using eq_send_exists [OF e] inv_queue [OF assms(1)] by simp
qed

lemma inv_sending:
  assumes "port_inv s" and "ps_send s t = None"
    and "loaded \<longrightarrow> (\<forall>n p. port_of (ps_w s) eport = Some (n, p) \<longrightarrow> held (ps_w s) n)"
    and "port_send_begin h pid loaded (ps_w s) t eport d = (w', Sending n)"
  shows "port_inv (s\<lparr>ps_w := w', ps_send := (ps_send s)(t := Some n)\<rparr>)"
proof -
  obtain p where p: "port_of (ps_w s) eport = Some (n, p)"
    using assms(4) by (auto simp: port_send_begin_def Let_def split: option.splits if_splits prod.splits)
  have held: "held (ps_w s) n"
    using assms(3,4) p port_of_Some [OF p]
    by (auto simp: port_send_begin_def held_def split: if_splits)
  show ?thesis
  proof (cases loaded)
    case True
    then show ?thesis
      using assms(1,2,4) p inv_add_sender [OF _ _ port_of_Some [OF p] held] by (auto simp: port_send_begin_def)
  next
    case False
    define k where "k = the (pt_queue p)"
    obtain ks' ob' r where e: "eq_send h (pw_ks (ps_w s)) (pw_queue (ps_w s) k) (Some t) (port_source pid eport p, d)
        (is_ppu_queue (eo_queue (pw_queue (ps_w s) k))) = (ks', ob', r, True)"
      and w: "w' = put_port n (p\<lparr>pt_busy := pt_busy p + 1\<rparr>) (ps_w s\<lparr>pw_ks := ks', pw_queue := (pw_queue (ps_w s))(k := ob')\<rparr>)"
      using assms(4) False p by (auto simp: port_send_begin_def k_def Let_def split: if_splits prod.splits)
    let ?s = "s\<lparr>ps_w := ps_w s\<lparr>pw_ks := ks', pw_queue := (pw_queue (ps_w s))(k := ob')\<rparr>\<rparr>"
    have "port_inv ?s" using eq_send_exists [OF e] by (intro inv_queue assms(1)) simp
    moreover have "held (ps_w ?s) n"
      using held eq_send_exists [OF e] by (auto simp: held_def queue_check_def split: option.splits)
    ultimately show ?thesis
      using inv_add_sender [of ?s t n p] assms(2) port_of_Some [OF p] by (simp add: w)
  qed
qed

lemma inv_destroy:
  assumes "port_inv s"
  shows "port_inv (s\<lparr>ps_w := fst (sys_event_port_destroy (ps_w s) eport)\<rparr>)"
proof (cases "\<exists>n p. port_of (ps_w s) eport = Some (n, p) \<and> \<not> queue_check (ps_w s) (pt_queue p)")
  case True
  then obtain n p where p: "port_of (ps_w s) eport = Some (n, p)" "\<not> queue_check (ps_w s) (pt_queue p)" by blast
  have "senders (ps_send s) n = {}" using inv_no_senders [OF assms port_of_Some [OF p(1)]] p(2) by simp
  then show ?thesis using assms p by (auto simp: sys_event_port_destroy_def port_inv_def held_def)
next
  case False
  then have "fst (sys_event_port_destroy (ps_w s) eport) = ps_w s"
    by (auto simp: sys_event_port_destroy_def split: option.splits)
  then show ?thesis using assms by simp
qed

lemma inv_disconnect:
  assumes "port_inv s"
  shows "port_inv (s\<lparr>ps_w := fst (sys_event_port_disconnect (ps_w s) eport)\<rparr>)"
proof (cases "\<exists>n p. port_of (ps_w s) eport = Some (n, p) \<and> queue_check (ps_w s) (pt_queue p) \<and> pt_busy p = 0")
  case True
  then obtain n p where p: "port_of (ps_w s) eport = Some (n, p)" "queue_check (ps_w s) (pt_queue p)" "pt_busy p = 0"
    by blast
  have "senders (ps_send s) n = {}" using inv_no_senders [OF assms port_of_Some [OF p(1)]] p(3) by simp
  then have "port_inv (s\<lparr>ps_w := put_port n (p\<lparr>pt_queue := None\<rparr>) (ps_w s)\<rparr>)"
    by (intro inv_put_port [OF assms port_of_Some [OF p(1)]]) simp_all
  then show ?thesis using p by (simp add: sys_event_port_disconnect_def)
next
  case False
  then have "fst (sys_event_port_disconnect (ps_w s) eport) = ps_w s"
    by (auto simp: sys_event_port_disconnect_def split: option.splits)
  then show ?thesis using assms by simp
qed

lemma port_step_inv: "port_step True s s' \<Longrightarrow> port_inv s \<Longrightarrow> port_inv s'"
proof (induction rule: port_step.induct)
  case (p_create s n eport ty name)
  then show ?case
    by (auto simp: sys_event_port_create_def port_inv_def put_port_def held_def queue_check_def split: option.splits)
next
  case (p_local s eport equeue)
  then show ?case by (simp add: sys_event_port_connect_local_def inv_connect)
next
  case (p_ipc s eport key)
  then show ?case by (simp add: sys_event_port_connect_ipc_def inv_connect)
next
  case (p_sending s t loaded eport h pid d w' n)
  then show ?case using inv_sending [OF p_sending.prems p_sending.hyps(1) _ p_sending.hyps(3)] by blast
next
  case (p_other s qid qkey qs ks)
  then show ?case by (auto simp: port_inv_def held_def)
qed (rule inv_destroy inv_disconnect inv_sent inv_del_sender; assumption)+

section \<open>Properties\<close>

definition port_start :: "port_sys \<Rightarrow> bool" where
  "port_start s \<longleftrightarrow> \<not> pw_fault (ps_w s) \<and> ps_send s = (\<lambda>_. None) \<and>
     (\<forall>n p. pw_port (ps_w s) n = Some p \<longrightarrow> pt_busy p = 0)"

lemma port_start_inv: "port_start s \<Longrightarrow> port_inv s"
  by (simp add: port_start_def port_inv_def senders_def)

text \<open>A port connected to a queue on which thread 3 waits; thread 2 has a worse priority.\<close>

definition demo_ports :: port_world where
  "demo_ports = \<lparr>pw_port_id = (\<lambda>i. if i = 1 then Some 0 else None),
     pw_port = (\<lambda>n. if n = 0 then Some \<lparr>pt_type = 1, pt_name = 7, pt_busy = 0, pt_queue = Some 0\<rparr> else None),
     pw_queue_id = (\<lambda>i. if i = 1 then Some 0 else None), pw_queue_key = (\<lambda>_. None),
     pw_queue = (\<lambda>_. demo_events\<lparr>eo_queue := demo_queue\<lparr>eq_pq := [3]\<rparr>\<rparr>), pw_ks = demo_ks, pw_fault = False\<rparr>"

lemma demo_sending:
  obtains w1 where "port_send_begin demo_host 1 False demo_ports 2 1 (0, 0, 0) = (w1, Sending 0)"
    "eq_exists (eo_queue (pw_queue w1 0))" "eq_pq (eo_queue (pw_queue w1 0)) = []"
    "is_ppu_queue (eo_queue (pw_queue w1 0))"
proof -
  let ?q = "demo_queue\<lparr>eq_pq := [3]\<rparr>" let ?e = "(7, 0, 0, 0) :: lv2_event"
  let ?ks = "fst (lv2_awake (put_event 3 ?e demo_ks) (Some 3) Enqueue_cmd (Some 2) (h_now demo_host) (h_tsc demo_host))"
  have ag: "\<not> has_again (thr demo_ks) 3" using demo_calm kernel_calmD(4) by blast
  then have "schedule (thr demo_ks) SYS_SYNC_FIFO [3] = (Some 3, [])"
    by (simp add: schedule_def sched_pick_def)
  moreover have "prio (thr ?ks 3) < prio (thr ?ks 2)"
    using keeps_awake [of Enqueue_cmd "put_event 3 ?e demo_ks" "Some 3" "Some 2" "h_now demo_host" "h_tsc demo_host"]
    by (simp add: keeps_def put_event_def set_reg_def upd_thread_def demo_ks_def boot_ks_def demo_threads_def
        new_thread_def bf_prio_def)
  moreover have ppu: "is_ppu_queue ?q" by (simp add: is_ppu_queue_def demo_queue_def SYS_PPU_QUEUE_def)
  ultimately have "eq_send demo_host demo_ks (demo_events\<lparr>eo_queue := ?q\<rparr>) (Some 2) ?e True =
      (?ks, demo_events\<lparr>eo_queue := ?q\<lparr>eq_pq := []\<rparr>\<rparr>, None, True)"
    using ag by (simp add: eq_send_def demo_queue_def Let_def ensure_def)
  then show thesis using ppu
    by (intro that [of "put_port 0 \<lparr>pt_type = 1, pt_name = 7, pt_busy = 1, pt_queue = Some 0\<rparr> (demo_ports\<lparr>pw_ks := ?ks,
        pw_queue := (pw_queue demo_ports)(0 := demo_events\<lparr>eo_queue := ?q\<lparr>eq_pq := []\<rparr>\<rparr>)\<rparr>)"])
      (simp_all add: port_send_begin_def port_of_def demo_ports_def queue_check_def port_source_def put_port_def
        is_ppu_queue_def demo_queue_def)
qed

text \<open>
  C29: The busy count of an event port is the number of threads inside a send through it, in every state
  that interleaved calls on ports and queues reach, provided that no call destroys the queue of a port in use. Such a
  port can then be neither disconnected, which gives \<^verbatim>\<open>CELL_EBUSY\<close>, nor destroyed, which gives
  \<^verbatim>\<open>CELL_EISCONN\<close>, and no sender returns to a port object that was freed.
\<close>

theorem event_port_busy:
  assumes "port_start s0" and "(port_step True)\<^sup>*\<^sup>* s0 s"
  shows "\<not> pw_fault (ps_w s)
    \<and> (\<forall>n p. pw_port (ps_w s) n = Some p \<longrightarrow> pt_busy p = of_nat (card (senders (ps_send s) n)))
    \<and> (\<forall>n eport p. senders (ps_send s) n \<noteq> {} \<and> port_of (ps_w s) eport = Some (n, p) \<longrightarrow>
         sys_event_port_disconnect (ps_w s) eport = (ps_w s, Err CELL_EBUSY)
       \<and> sys_event_port_destroy (ps_w s) eport = (ps_w s, Err CELL_EISCONN))"
proof -
  have inv: "port_inv s"
    using assms(2) port_start_inv [OF assms(1)] by (induction rule: rtranclp_induct) (auto intro: port_step_inv)
  have "queue_check (ps_w s) (pt_queue p) \<and> pt_busy p \<noteq> 0"
    if "senders (ps_send s) n \<noteq> {}" "port_of (ps_w s) eport = Some (n, p)" for n eport p
    using inv_no_senders [OF inv port_of_Some [OF that(2)]] that(1) by blast
  then show ?thesis
    using inv by (auto simp: port_inv_def sys_event_port_disconnect_def sys_event_port_destroy_def)
qed

theorem event_port_busy_witness:
  "\<exists>s. (port_step True)\<^sup>*\<^sup>* \<lparr>ps_w = demo_ports, ps_send = (\<lambda>_. None)\<rparr> s \<and>
     senders (ps_send s) 0 = {2} \<and> sys_event_port_disconnect (ps_w s) 1 = (ps_w s, Err CELL_EBUSY)"
proof -
  let ?init = "\<lparr>ps_w = demo_ports, ps_send = (\<lambda>_. None)\<rparr>"
  obtain w1 where w: "port_send_begin demo_host 1 False demo_ports 2 1 (0, 0, 0) = (w1, Sending 0)"
    using demo_sending by blast
  let ?s = "\<lparr>ps_w = w1, ps_send = (\<lambda>_. None)(2 := Some 0)\<rparr>"
  have r: "(port_step True)\<^sup>*\<^sup>* ?init ?s"
    using port_step.p_sending [where s = ?init and t = 2 and loaded = False and protect = True] w by fastforce
  have "port_start ?init" unfolding port_start_def by (intro conjI) (auto simp: demo_ports_def split: if_splits)
  note b = event_port_busy [OF this r]
  have "senders (ps_send ?s) 0 = {2}" by (auto simp: senders_def)
  moreover obtain p where "port_of w1 1 = Some (0, p)"
    using w by (auto simp: port_send_begin_def port_of_def put_port_def demo_ports_def Let_def
        split: if_splits prod.splits)
  ultimately have "sys_event_port_disconnect w1 1 = (w1, Err CELL_EBUSY)"
    using conjunct2 [OF conjunct2 [OF b], THEN spec, of 0, THEN spec, of 1] by simp
  then show ?thesis using r by (intro exI [of _ ?s]) (auto simp: senders_def)
qed

text \<open>
  C30: The busy count does not protect a port whose queue is destroyed. When a send has left its caller
  waiting and the queue is then destroyed, the port can be destroyed too, and the sender, when it goes on, writes to the
  port object that was freed.
\<close>

theorem event_port_dangling:
  assumes "port_of w eport = Some (n, p)" and "pt_queue p = Some k"
    and "port_send_begin h pid loaded w t eport d = (w1, Sending n)"
    and "sys_event_queue_destroy h (pw_ks w1) (pw_queue w1 k) u mode = (ks2, ob2, Ok)"
  shows "\<exists>w3. sys_event_port_destroy (w1\<lparr>pw_ks := ks2, pw_queue := (pw_queue w1)(k := ob2)\<rparr>) eport = (w3, Ok)
    \<and> pw_fault (fst (port_send_end stopped t w3 n))"
proof -
  have gone: "\<not> eq_exists (eo_queue ob2)"
    using assms(4) by (auto simp: sys_event_queue_destroy_def Let_def split: if_splits)
  have "pw_port w1 n = Some (p\<lparr>pt_busy := pt_busy p + 1\<rparr>)" "pw_port_id w1 eport = Some n"
    using assms(1,3) by (auto simp: port_send_begin_def put_port_def port_of_def Let_def
        split: if_splits prod.splits option.splits)
  then show ?thesis
    using gone assms(2) by (simp add: sys_event_port_destroy_def port_of_def queue_check_def port_send_end_def Let_def)
qed

text \<open>Thread 2 sends to thread 3; thread 1 then destroys the queue and the port.\<close>

theorem event_port_dangling_witness:
  "\<exists>w1 ks2 ob2 w3. port_send_begin demo_host 1 False demo_ports 2 1 (0, 0, 0) = (w1, Sending 0) \<and>
     sys_event_queue_destroy demo_host (pw_ks w1) (pw_queue w1 0) 1 0 = (ks2, ob2, Ok) \<and>
     pw_fault (fst (port_send_end False 2 w3 0))"
proof -
  obtain w1 where w: "port_send_begin demo_host 1 False demo_ports 2 1 (0, 0, 0) = (w1, Sending 0)"
    "eq_exists (eo_queue (pw_queue w1 0))" "eq_pq (eo_queue (pw_queue w1 0)) = []"
    "is_ppu_queue (eo_queue (pw_queue w1 0))" using demo_sending by blast
  then obtain ks2 ob2 where d: "sys_event_queue_destroy demo_host (pw_ks w1) (pw_queue w1 0) 1 0 = (ks2, ob2, Ok)"
    by (simp add: sys_event_queue_destroy_def Let_def)
  have p: "port_of demo_ports 1 = Some (0, \<lparr>pt_type = 1, pt_name = 7, pt_busy = 0, pt_queue = Some 0\<rparr>)"
    by (simp add: port_of_def demo_ports_def)
  show ?thesis using event_port_dangling [OF p _ w(1) d, of False] w(1) d by auto
qed

end
