(* ===== verification/Spu_Channel.thy ===== *)
theory Spu_Channel
  imports Prelude
begin

text \<open>
  The channels through which an SPU talks to the rest of the machine, from \<^verbatim>\<open>Emu/Cell/SPUThread.h\<close> and
  \<^verbatim>\<open>SPUThread.cpp\<close>: the inbound mailbox \<^verbatim>\<open>spu_channel_4_t\<close> of four words and the single-word channel
  \<^verbatim>\<open>spu_channel\<close> of the outbound mailboxes and the signal notification registers. They are lock-free. A routine
  with several atomic accesses is a program counter and a function that makes one access, so that two routines can be
  interleaved; an \<^verbatim>\<open>atomic_op\<close> is its load, what its body does to other variables, and its compare-and-swap.
  Waiting on a word (\<^verbatim>\<open>thread_ctrl::wait_on\<close>) compares the word with the expected value and parks the
  thread if they are equal.
\<close>

record spu_channel_op_state =
  os_old_count :: u8
  os_count :: u8
  os_notify :: bool
  os_op_done :: bool

section \<open>The inbound mailbox\<close>

record sync_var_t =
  sv_waiting :: u8
  sv_count :: u8
  sv_value3_inval :: u16
  sv_value0 :: u32
  sv_value1 :: u32
  sv_value2 :: u32

record spu_channel_4_t =
  c4_values :: sync_var_t
  c4_jostling :: u64
  c4_value3 :: u32

abbreviation (input) bit_wait4 :: u8 where "bit_wait4 \<equiv> 1"
abbreviation (input) bit_occupy4 :: u8 where "bit_occupy4 \<equiv> 0x80"
abbreviation (input) jostling_flag :: u64 where "jostling_flag \<equiv> 0x8000000000000000"

definition chan4_clear :: spu_channel_4_t where
  "chan4_clear = \<lparr>c4_values = \<lparr>sv_waiting = 0, sv_count = 0, sv_value3_inval = 0, sv_value0 = 0, sv_value1 = 0,
     sv_value2 = 0\<rparr>, c4_jostling = 0, c4_value3 = 0\<rparr>"

text \<open>The removal of the first value.\<close>

definition sync_pop :: "u32 \<Rightarrow> sync_var_t \<Rightarrow> sync_var_t" where
  "sync_pop value3 d = d\<lparr>sv_waiting := 0, sv_count := sv_count d - 1, sv_value0 := sv_value1 d, sv_value1 := sv_value2 d,
     sv_value2 := value3\<rparr>"

text \<open>The insertion of a value at the end; a full mailbox keeps its first three values.\<close>

definition sync_push :: "u32 \<Rightarrow> sync_var_t \<Rightarrow> sync_var_t" where
  "sync_push v d =
     (if sv_count d = 0 then d\<lparr>sv_count := 1, sv_value0 := v\<rparr>
      else if sv_count d = 1 then d\<lparr>sv_count := 2, sv_value1 := v\<rparr>
      else if sv_count d = 2 then d\<lparr>sv_count := 3, sv_value2 := v\<rparr>
      else d\<lparr>sv_count := 4, sv_value3_inval := sv_value3_inval d + 1\<rparr>)"

subsection \<open>Pushing\<close>

datatype push_pc =
    P_store u32
  | P_insert u32
  | P_jostle u32 sync_var_t
  | P_clear sync_var_t
  | P_done spu_channel_op_state

definition push_end :: "sync_var_t \<Rightarrow> push_pc" where
  "push_end old =
     (if sv_waiting old AND bit_wait4 \<noteq> 0 then P_clear old
      else P_done \<lparr>os_old_count = sv_count old, os_count = min (sv_count old + 1) 4, os_notify = False, os_op_done = True\<rparr>)"

fun chan4_push :: "push_pc \<Rightarrow> spu_channel_4_t \<Rightarrow> push_pc \<times> spu_channel_4_t" where
  "chan4_push (P_store v) ch = (P_insert v, ch\<lparr>c4_value3 := v\<rparr>)"
| "chan4_push (P_insert v) ch =
     (let old = c4_values ch in
      if sv_waiting old AND bit_occupy4 \<noteq> 0 then (P_jostle v old, ch)
      else (push_end old, ch\<lparr>c4_values := sync_push v old\<rparr>))"
| "chan4_push (P_jostle v old) ch =
     (if c4_jostling ch = jostling_flag then (push_end old, ch\<lparr>c4_jostling := ucast v\<rparr>) else (P_store v, ch))"
| "chan4_push (P_clear old) ch =
     (let d = c4_values ch; ch' = ch\<lparr>c4_values := d\<lparr>sv_waiting := 0\<rparr>\<rparr> in
      if sv_waiting d AND bit_wait4 = 0
      then (P_done \<lparr>os_old_count = sv_count old, os_count = sv_count old, os_notify = False, os_op_done = False\<rparr>, ch')
      else (P_done \<lparr>os_old_count = sv_count old, os_count = min (sv_count old + 1) 4, os_notify = True, os_op_done = True\<rparr>, ch'))"
| "chan4_push (P_done st) ch = (P_done st, ch)"

subsection \<open>Popping\<close>

text \<open>
  The flag of a program counter is the parameter \<^verbatim>\<open>pop_value\<close>; \<^term>\<open>R_spin\<close> counts the ten rounds of the busy
  loop; \<^term>\<open>R_done\<close> holds the pair that is returned.
\<close>

datatype pop_pc =
    R_load bool
  | R_pop sync_var_t u32
  | R_set bool sync_var_t
  | R_spin nat bool sync_var_t
  | R_sleep bool sync_var_t
  | R_parked bool
  | R_test bool
  | R_take bool
  | R_abort
  | R_abort_set bool
  | R_done u32 u32

abbreviation (input) wait_bits :: "bool \<Rightarrow> u8" where
  "wait_bits pop \<equiv> (if pop then bit_occupy4 else 0) OR bit_wait4"

text \<open>The low 32 bits of the synchronisation variable.\<close>

definition word0 :: "sync_var_t \<Rightarrow> u8 \<times> u8 \<times> u16" where
  "word0 d = (sv_waiting d, sv_count d, sv_value3_inval d)"

definition take_jostled :: "bool \<Rightarrow> spu_channel_4_t \<Rightarrow> pop_pc \<times> spu_channel_4_t" where
  "take_jostled pop ch =
     (if pop then (R_done 1 (ucast (c4_jostling ch)), ch\<lparr>c4_jostling := 0\<rparr>) else (R_done 1 0, ch))"

fun chan4_pop_wait :: "bool \<Rightarrow> pop_pc \<Rightarrow> spu_channel_4_t \<Rightarrow> pop_pc \<times> spu_channel_4_t" where
  "chan4_pop_wait stopped (R_load pop) ch =
     (let d = c4_values ch in
      if sv_count d \<noteq> 0 then (if pop then (R_pop d (c4_value3 ch), ch) else (R_done (ucast (sv_count d)) (sv_value0 d), ch))
      else (R_set pop d, ch\<lparr>c4_jostling := (if pop then jostling_flag else 0)\<rparr>))"
| "chan4_pop_wait stopped (R_pop old value3) ch =
     (if c4_values ch = old
      then (R_done (ucast (sv_count old)) (sv_value0 old), ch\<lparr>c4_values := sync_pop value3 old\<rparr>)
      else (R_load True, ch))"
| "chan4_pop_wait stopped (R_set pop old) ch =
     (if c4_values ch = old
      then (let d = old\<lparr>sv_waiting := wait_bits pop\<rparr> in (R_spin 10 pop d, ch\<lparr>c4_values := d\<rparr>))
      else (R_load pop, ch))"
| "chan4_pop_wait stopped (R_spin (Suc n) pop old) ch =
     (if sv_waiting (c4_values ch) = 0 then (R_take pop, ch) else (R_spin n pop old, ch))"
| "chan4_pop_wait stopped (R_spin 0 pop old) ch = (R_sleep pop old, ch)"
| "chan4_pop_wait stopped (R_sleep pop old) ch =
     (if word0 (c4_values ch) = word0 old then (R_parked pop, ch) else (R_test pop, ch))"
| "chan4_pop_wait stopped (R_parked pop) ch = (R_parked pop, ch)"
| "chan4_pop_wait stopped (R_test pop) ch =
     (let old = c4_values ch in
      if sv_waiting old AND bit_wait4 = 0 then (R_take pop, ch)
      else if stopped then (if pop then R_abort else R_abort_set pop, ch)
      else (R_sleep pop old, ch))"
| "chan4_pop_wait stopped (R_take pop) ch = take_jostled pop ch"
| "chan4_pop_wait stopped R_abort ch =
     (let v = c4_jostling ch; ch' = ch\<lparr>c4_jostling := 0\<rparr> in
      if v AND jostling_flag = 0 then (R_done 1 (ucast v), ch') else (R_abort_set True, ch'))"
| "chan4_pop_wait stopped (R_abort_set pop) ch =
     (let d = c4_values ch; ch' = ch\<lparr>c4_values := d\<lparr>sv_waiting := 0\<rparr>\<rparr> in
      if sv_waiting d AND bit_wait4 = 0 then take_jostled pop ch' else (R_done 0 0, ch'))"
| "chan4_pop_wait stopped (R_done n v) ch = (R_done n v, ch)"

section \<open>The single-word channel\<close>

text \<open>The low 32 bits of \<^term>\<open>ch_data\<close> are the value.\<close>

record spu_channel =
  ch_data :: u64
  ch_jostling :: u64

definition bit_wait :: u64 where "bit_wait = push_bit 32 1"
definition bit_occupy :: u64 where "bit_occupy = push_bit 33 1"
definition bit_count :: u64 where "bit_count = push_bit 63 1"

abbreviation low32 :: "u64 \<Rightarrow> u32" where "low32 x \<equiv> ucast x"
abbreviation counted :: "u32 \<Rightarrow> u64" where "counted v \<equiv> bit_count OR ucast v"

subsection \<open>Writing by the SPU\<close>

text \<open>\<^verbatim>\<open>push_wait\<close>: the value and the parameter \<^verbatim>\<open>push\<close> are arguments; the state that was read last is in the counter.\<close>

datatype pushw_pc =
    W_load
  | W_cas u64 u64
  | W_spin nat u64
  | W_test u64
  | W_sleep u64
  | W_parked
  | W_reload
  | W_done bool

fun chan_push_wait :: "u32 \<Rightarrow> bool \<Rightarrow> bool \<Rightarrow> pushw_pc \<Rightarrow> spu_channel \<Rightarrow> pushw_pc \<times> spu_channel" where
  "chan_push_wait v push stopped W_load ch =
     (let d = ch_data ch in
      if d AND bit_count \<noteq> 0
      then (W_cas d (d OR ((if push then bit_occupy else 0) OR bit_wait)), ch\<lparr>ch_jostling := ucast (if push then v else low32 d)\<rparr>)
      else if push then (W_cas d (counted v), ch)
      else (W_spin 10 d, ch))"
| "chan_push_wait v push stopped (W_cas old new) ch =
     (if ch_data ch = old then (W_spin 10 new, ch\<lparr>ch_data := new\<rparr>) else (W_load, ch))"
| "chan_push_wait v push stopped (W_spin (Suc n) st) ch =
     (if st AND bit_wait = 0 then (W_done True, ch) else (W_spin n (ch_data ch), ch))"
| "chan_push_wait v push stopped (W_spin 0 st) ch = (W_test st, ch)"
| "chan_push_wait v push stopped (W_test st) ch =
     (if st AND bit_wait = 0 then (W_done True, ch)
      else if stopped then (W_done (ch_data ch AND bit_wait = 0), ch\<lparr>ch_data := ch_data ch AND NOT bit_wait\<rparr>)
      else (W_sleep st, ch))"
| "chan_push_wait v push stopped (W_sleep st) ch =
     (if drop_bit 32 (ch_data ch) = drop_bit 32 st then (W_parked, ch) else (W_reload, ch))"
| "chan_push_wait v push stopped W_parked ch = (W_parked, ch)"
| "chan_push_wait v push stopped W_reload ch = (W_test (ch_data ch), ch)"
| "chan_push_wait v push stopped (W_done r) ch = (W_done r, ch)"

subsection \<open>Reading from outside\<close>

text \<open>\<^verbatim>\<open>pop\<close>: \<^term>\<open>X_done\<close> holds whether a thread is to be notified and the value.\<close>

datatype popx_pc = X_load | X_jostle u64 | X_cas u64 u64 | X_done bool u32

fun chan_pop :: "popx_pc \<Rightarrow> spu_channel \<Rightarrow> popx_pc \<times> spu_channel" where
  "chan_pop X_load ch =
     (let d = ch_data ch in
      if d AND (bit_count OR bit_occupy) = bit_count OR bit_occupy then (X_jostle d, ch)
      else (X_cas d (d AND NOT (bit_count OR bit_occupy OR bit_wait)), ch))"
| "chan_pop (X_jostle d) ch = (X_cas d (counted (low32 (ch_jostling ch))), ch)"
| "chan_pop (X_cas old new) ch =
     (if ch_data ch = old then (X_done (old AND bit_wait \<noteq> 0) (low32 old), ch\<lparr>ch_data := new\<rparr>) else (X_load, ch))"
| "chan_pop (X_done n v) ch = (X_done n v, ch)"

subsection \<open>Writing from outside\<close>

text \<open>\<^verbatim>\<open>push\<close>: a failed \<^verbatim>\<open>ensure\<close> is \<^term>\<open>S_fault\<close>.\<close>

datatype pushs_pc = S_data | S_jostle u64 | S_clear u64 | S_done spu_channel_op_state | S_fault

definition push_result :: "u64 \<Rightarrow> pushs_pc" where
  "push_result old = S_done \<lparr>os_old_count = of_bool (old AND bit_count = 0), os_count = 1,
     os_notify = (old AND bit_wait \<noteq> 0), os_op_done = True\<rparr>"

fun chan_push :: "u32 \<Rightarrow> bool \<Rightarrow> pushs_pc \<Rightarrow> spu_channel \<Rightarrow> pushs_pc \<times> spu_channel" where
  "chan_push v to_or S_data ch =
     (let old = ch_data ch in
      if old AND bit_occupy \<noteq> 0 then (S_jostle old, ch)
      else (push_result old, ch\<lparr>ch_data := counted (if to_or then low32 old OR v else v)\<rparr>))"
| "chan_push v to_or (S_jostle old) ch =
     (if ch_jostling ch = bit_occupy then (S_clear old, ch\<lparr>ch_jostling := ucast v\<rparr>) else (S_data, ch))"
| "chan_push v to_or (S_clear old) ch =
     (let d = ch_data ch; ch' = ch\<lparr>ch_data := d AND NOT (bit_wait OR bit_occupy)\<rparr> in
      if d AND bit_wait = 0 \<or> old AND bit_wait = 0 then (S_fault, ch') else (push_result old, ch'))"
| "chan_push v to_or (S_done st) ch = (S_done st, ch)"
| "chan_push v to_or S_fault ch = (S_fault, ch)"

lemma low32_ucast [simp]: "low32 (ucast (v :: u32)) = v"
  by (rule bit_word_eqI) (simp add: bit_simps)

section \<open>Delivery as a contract\<close>

text \<open>
  What a channel promises to the two sides, whatever the interleaving: the values sent so far are the values received,
  followed by the values it holds. An invariant that the steps keep is enough.
\<close>

locale fifo_channel =
  fixes step :: "'s \<Rightarrow> 's \<Rightarrow> bool"
    and start :: 's
    and sent :: "'s \<Rightarrow> 'v list"
    and received :: "'s \<Rightarrow> 'v list"
    and holds :: "'s \<Rightarrow> 'v list"
    and inv :: "'s \<Rightarrow> bool"
  assumes start_inv: "inv start"
    and step_inv: "step s s' \<Longrightarrow> inv s \<Longrightarrow> inv s'"
    and inv_delivery: "inv s \<Longrightarrow> sent s = received s @ holds s"
begin

lemma channel_inv: "step\<^sup>*\<^sup>* start s \<Longrightarrow> inv s"
  by (induction rule: rtranclp_induct) (auto intro: start_inv step_inv)

lemma channel_delivery: "step\<^sup>*\<^sup>* start s \<Longrightarrow> sent s = received s @ holds s"
  by (rule inv_delivery [OF channel_inv])

end

end
