(* ===== verification/Spu_Mailbox.thy ===== *)
theory Spu_Mailbox
  imports Spu_Channel
begin

text \<open>
  Writers and the SPU at the two ends of the inbound mailbox. The writers are serialised by the mutex of the thread
  group (\<^verbatim>\<open>sys_spu_thread_write_spu_mb\<close>), so at most one push is in progress; it is interleaved, one atomic
  access at a time, with a read of the SPU (\<^verbatim>\<open>get_ch_value\<close> of \<^verbatim>\<open>SPU_RdInMbox\<close>), which may wait and may be
  aborted when the SPU is stopped. The run records the values of the pushes that were started, the values that were placed in the mailbox
  or handed over, and the values that were read.
\<close>

record mailbox =
  mb_ch :: spu_channel_4_t
  mb_push :: "push_pc option"
  mb_pop :: "pop_pc option"
  mb_calls :: "u32 list"
  mb_sent :: "u32 list"
  mb_read :: "u32 list"

section \<open>Steps\<close>

text \<open>The value an access of a push makes part of the mailbox, and the value an access of a read returns.\<close>

fun pushed :: "push_pc \<Rightarrow> spu_channel_4_t \<Rightarrow> u32 list" where
  "pushed (P_insert v) ch = (if sv_waiting (c4_values ch) AND bit_occupy4 = 0 then [v] else [])"
| "pushed (P_jostle v old) ch = (if c4_jostling ch = jostling_flag then [v] else [])"
| "pushed _ ch = []"

fun pops :: "pop_pc \<Rightarrow> bool" where
  "pops (R_pop old value3) = True"
| "pops (R_take pop) = pop"
| "pops R_abort = True"
| "pops (R_abort_set pop) = pop"
| "pops _ = False"

definition popped :: "pop_pc \<Rightarrow> pop_pc \<Rightarrow> u32 list" where
  "popped pc pc' = (case pc' of R_done n v \<Rightarrow> if pops pc \<and> n \<noteq> 0 then [v] else [] | _ \<Rightarrow> [])"


text \<open>What a push is doing, as far as the SPU can tell: it may exchange the value directly with a waiting SPU.\<close>

datatype writer = Free | Jostling | Clearing

fun writer_of :: "push_pc option \<Rightarrow> writer" where
  "writer_of (Some (P_jostle v old)) = Jostling"
| "writer_of (Some (P_clear old)) = Clearing"
| "writer_of _ = Free"

fun woken :: "bool \<Rightarrow> pop_pc option \<Rightarrow> pop_pc option" where
  "woken True (Some (R_parked pop)) = Some (R_test pop)"
| "woken _ pc = pc"

text \<open>
  With the discipline \<^term>\<open>disc\<close> a writer starts a push only when it has seen a free place, and the SPU, after a
  read that was aborted, starts the next one only when the push that was ending the aborted one has returned.
\<close>

inductive mbox_step :: "bool \<Rightarrow> mailbox \<Rightarrow> mailbox \<Rightarrow> bool" for disc where
  m_write: "mb_push s = None \<Longrightarrow> disc \<longrightarrow> sv_count (c4_values (mb_ch s)) < 4 \<Longrightarrow>
    mbox_step disc s (s\<lparr>mb_push := Some (P_store v), mb_calls := mb_calls s @ [v]\<rparr>)"
| m_push: "mb_push s = Some pc \<Longrightarrow> chan4_push pc (mb_ch s) = (pc', ch') \<Longrightarrow>
    mbox_step disc s (s\<lparr>mb_push := Some pc', mb_ch := ch', mb_sent := mb_sent s @ pushed pc (mb_ch s)\<rparr>)"
| m_pushed: "mb_push s = Some (P_done st) \<Longrightarrow>
    mbox_step disc s (s\<lparr>mb_push := None, mb_pop := woken (os_notify st) (mb_pop s)\<rparr>)"
| m_read: "mb_pop s = None \<Longrightarrow> disc \<longrightarrow> writer_of (mb_push s) = Free \<Longrightarrow>
    mbox_step disc s (s\<lparr>mb_pop := Some (R_load pop)\<rparr>)"
| m_pop: "mb_pop s = Some pc \<Longrightarrow> chan4_pop_wait stopped pc (mb_ch s) = (pc', ch') \<Longrightarrow>
    mbox_step disc s (s\<lparr>mb_pop := Some pc', mb_ch := ch', mb_read := mb_read s @ popped pc pc'\<rparr>)"
| m_wake: "mb_pop s = Some (R_parked pop) \<Longrightarrow> mbox_step disc s (s\<lparr>mb_pop := Some (R_test pop)\<rparr>)"
| m_popped: "mb_pop s = Some (R_done n v) \<Longrightarrow> mbox_step disc s (s\<lparr>mb_pop := None\<rparr>)"

section \<open>The invariant\<close>




fun push_ok :: "push_pc option \<Rightarrow> spu_channel_4_t \<Rightarrow> bool" where
  "push_ok (Some (P_store v)) ch = (sv_count (c4_values ch) < 4)"
| "push_ok (Some (P_insert v)) ch = (sv_count (c4_values ch) < 4 \<and> c4_value3 ch = v)"
| "push_ok (Some (P_jostle v old)) ch = (sv_waiting old = 0x81 \<and> sv_count (c4_values ch) = 0)"
| "push_ok (Some (P_clear old)) ch = (sv_waiting old AND bit_wait4 \<noteq> 0)"
| "push_ok _ ch = True"


definition contents :: "spu_channel_4_t \<Rightarrow> u32 list" where
  "contents ch = take (unat (sv_count (c4_values ch)))
     [sv_value0 (c4_values ch), sv_value1 (c4_values ch), sv_value2 (c4_values ch), c4_value3 ch]"



lemma jostled [simp]: "(ucast (v :: u32) :: u64) AND jostling_flag = 0" "(ucast (v :: u32) :: u64) \<noteq> jostling_flag"
proof -
  show a: "(ucast v :: u64) AND jostling_flag = 0"
  proof (rule bit_word_eqI)
    fix n
    have "bit jostling_flag n = (n = 63)" if "n < 64"
      using that bit_exp_iff [where ?'a = u64 and m = 63 and n = n] by simp
    then show "n < LENGTH(64) \<Longrightarrow> bit ((ucast v :: u64) AND jostling_flag) n = bit (0 :: u64) n"
      using bit_imp_le_length [of v n] by (auto simp: bit_simps)
  qed
  show "(ucast v :: u64) \<noteq> jostling_flag" using a by auto
qed












lemma sync_push_waiting [simp]: "sv_waiting (sync_push v d) = sv_waiting d"
  by (simp add: sync_push_def)

lemma contents_other [simp]:
  "contents (ch\<lparr>c4_jostling := j\<rparr>) = contents ch"
  "contents (ch\<lparr>c4_values := c4_values ch\<lparr>sv_waiting := w\<rparr>\<rparr>) = contents ch"
  by (simp_all add: contents_def)






lemma ucast_count [simp]: "(ucast (n :: u8) :: u32) = 0 \<longleftrightarrow> n = 0"
  using unsigned_less [of n, where ?'a = nat] by (simp add: word_unat_eq_iff unsigned_ucast_eq take_bit_nat_eq_self)

lemma push_ok_other [simp]:
  "push_ok p (ch\<lparr>c4_jostling := j\<rparr>) = push_ok p ch"
  "push_ok p (ch\<lparr>c4_values := c4_values ch\<lparr>sv_waiting := w\<rparr>\<rparr>) = push_ok p ch"
  by (induction p ch rule: push_ok.induct) auto




definition mbox_start :: mailbox where
  "mbox_start = \<lparr>mb_ch = chan4_clear, mb_push = None, mb_pop = None, mb_calls = [], mb_sent = [], mb_read = []\<rparr>"






section \<open>Delivery\<close>

text \<open>Runs that a list of actions drives.\<close>

datatype mbox_act = A_write u32 | A_push | A_pushed | A_read bool | A_pop bool | A_wake | A_popped

fun mbox_do :: "bool \<Rightarrow> mbox_act \<Rightarrow> mailbox \<Rightarrow> mailbox option" where
  "mbox_do disc (A_write v) s =
     (if mb_push s = None \<and> (disc \<longrightarrow> sv_count (c4_values (mb_ch s)) < 4) then Some (s\<lparr>mb_push := Some (P_store v), mb_calls := mb_calls s @ [v]\<rparr>) else None)"
| "mbox_do disc A_push s =
     (case mb_push s of
        None \<Rightarrow> None
      | Some pc \<Rightarrow> (case chan4_push pc (mb_ch s) of (pc', ch') \<Rightarrow>
          Some (s\<lparr>mb_push := Some pc', mb_ch := ch', mb_sent := mb_sent s @ pushed pc (mb_ch s)\<rparr>)))"
| "mbox_do disc A_pushed s =
     (case mb_push s of
        Some (P_done st) \<Rightarrow> Some (s\<lparr>mb_push := None, mb_pop := woken (os_notify st) (mb_pop s)\<rparr>)
      | _ \<Rightarrow> None)"
| "mbox_do disc (A_read pop) s =
     (if mb_pop s = None \<and> (disc \<longrightarrow> writer_of (mb_push s) = Free) then Some (s\<lparr>mb_pop := Some (R_load pop)\<rparr>) else None)"
| "mbox_do disc (A_pop stopped) s =
     (case mb_pop s of
        None \<Rightarrow> None
      | Some pc \<Rightarrow> (case chan4_pop_wait stopped pc (mb_ch s) of (pc', ch') \<Rightarrow>
          Some (s\<lparr>mb_pop := Some pc', mb_ch := ch', mb_read := mb_read s @ popped pc pc'\<rparr>)))"
| "mbox_do disc A_wake s =
     (case mb_pop s of Some (R_parked pop) \<Rightarrow> Some (s\<lparr>mb_pop := Some (R_test pop)\<rparr>) | _ \<Rightarrow> None)"
| "mbox_do disc A_popped s = (case mb_pop s of Some (R_done n v) \<Rightarrow> Some (s\<lparr>mb_pop := None\<rparr>) | _ \<Rightarrow> None)"

fun mbox_run :: "bool \<Rightarrow> mbox_act list \<Rightarrow> mailbox \<Rightarrow> mailbox option" where
  "mbox_run disc [] s = Some s"
| "mbox_run disc (a # as) s = (case mbox_do disc a s of None \<Rightarrow> None | Some s' \<Rightarrow> mbox_run disc as s')"

lemma mbox_do_step: "mbox_do disc a s = Some s' \<Longrightarrow> mbox_step disc s s'"
  by (induction disc a s rule: mbox_do.induct)
    (auto intro: mbox_step.intros simp del: chan4_push.simps chan4_pop_wait.simps
      split: option.splits push_pc.splits pop_pc.splits prod.splits if_splits)

lemma mbox_run_reach: "mbox_run disc as s = Some s' \<Longrightarrow> (mbox_step disc)\<^sup>*\<^sup>* s s'"
  by (induction disc as s rule: mbox_run.induct)
    (auto intro: converse_rtranclp_into_rtranclp mbox_do_step split: option.splits)


text \<open>An SPU that sleeps is handed 7 and takes it; a second value waits in the mailbox.\<close>

definition demo_sleep :: "mbox_act list" where
  "demo_sleep = A_read True # replicate 14 (A_pop False)"



section \<open>Without the discipline\<close>

text \<open>
  A push to a full mailbox stores its value in the last place before it counts it. A read between the two accesses moves
  the new value up, and the push counts it once more: of 1, 2, 3, 4, 5 the fourth is lost and the fifth is there twice.
\<close>

definition full_push :: "u32 \<Rightarrow> mbox_act list" where
  "full_push v = [A_write v, A_push, A_push, A_pushed]"

lemma mailbox_overwrite_race:
  "\<exists>s. (mbox_step False)\<^sup>*\<^sup>* mbox_start s \<and> mb_push s = None \<and> mb_pop s = None \<and>
     mb_sent s = [1, 2, 3, 4, 5] \<and> mb_read s = [1] \<and> contents (mb_ch s) = [2, 3, 5, 5]"
proof -
  let ?as = "concat (map full_push [1, 2, 3, 4]) @
    [A_write 5, A_push, A_read True, A_pop False, A_pop False, A_popped, A_push, A_pushed]"
  have "(case mbox_run False ?as mbox_start of None \<Rightarrow> False
     | Some s \<Rightarrow> mb_push s = None \<and> mb_pop s = None \<and> mb_sent s = [1, 2, 3, 4, 5] \<and> mb_read s = [1] \<and> contents (mb_ch s) = [2, 3, 5, 5])"
    by code_simp
  then show ?thesis using mbox_run_reach [of False ?as mbox_start] by (auto split: option.splits)
qed

text \<open>
  A read that was aborted returns the value that a push had handed over while the push has still to end the wait. If
  the SPU reads again before that, the push ends the new wait, which returns a value that nobody sent.
\<close>

lemma mailbox_abort_race:
  "\<exists>s. (mbox_step False)\<^sup>*\<^sup>* mbox_start s \<and> mb_sent s = [7] \<and> mb_read s = [7, 0]"
proof -
  let ?as = "demo_sleep @ [A_write 7, A_push, A_push, A_push, A_wake, A_pop True, A_pop True, A_popped,
    A_read True, A_pop False, A_pop False, A_push, A_pop False, A_pop False]"
  have "(case mbox_run False ?as mbox_start of None \<Rightarrow> False | Some s \<Rightarrow> mb_sent s = [7] \<and> mb_read s = [7, 0])"
    by code_simp
  then show ?thesis using mbox_run_reach [of False ?as mbox_start] by (auto split: option.splits)
qed

text \<open>
  A push that ends the wait of a read which does not pop reports failure if the read was aborted meanwhile, although
  its value is in the mailbox. The system call is then repeated.
\<close>

lemma mailbox_undone_push:
  "\<exists>s st. (mbox_step True)\<^sup>*\<^sup>* mbox_start s \<and> mb_push s = Some (P_done st) \<and> \<not> os_op_done st \<and> contents (mb_ch s) = [7]"
proof -
  let ?as = "A_read False # replicate 14 (A_pop False) @ [A_wake, A_write 7, A_push, A_push, A_pop True, A_pop True, A_push]"
  have "(case mbox_run True ?as mbox_start of None \<Rightarrow> False
     | Some s \<Rightarrow> (case mb_push s of Some (P_done st) \<Rightarrow> \<not> os_op_done st \<and> contents (mb_ch s) = [7] | _ \<Rightarrow> False))"
    by code_simp
  then show ?thesis using mbox_run_reach [of True ?as mbox_start] by (fastforce split: option.splits push_pc.splits)
qed

end
