(* ===== verification/Spu_Outbox.thy ===== *)
theory Spu_Outbox
  imports Spu_Channel
begin

text \<open>
  The SPU and a reader at the two ends of an outbound mailbox: \<^verbatim>\<open>set_ch_value\<close> of \<^verbatim>\<open>SPU_WrOutMbox\<close> and
  \<^verbatim>\<open>SPU_WrOutIntrMbox\<close> writes with \<^verbatim>\<open>push_wait\<close>, and the register access or the system call on the other side
  reads with \<^verbatim>\<open>pop\<close>. The accesses of the two are interleaved; the run records the values of the writes that returned
  success and the values the reads returned. The rest of the word has one flag for a value, one for an SPU that waits and one for a value that
  waits with it.
\<close>

record outbox =
  ob_ch :: spu_channel
  ob_call :: "(u32 \<times> bool \<times> pushw_pc) option"
  ob_pop :: "popx_pc option"
  ob_done :: "u32 list"
  ob_read :: "u32 list"

section \<open>Steps\<close>

text \<open>
  The value of a write in progress, once it is in the mailbox or waits with the SPU: from the compare-and-swap on, and
  at the end unless the write failed. The value an access of a read returns; a read of an empty mailbox returns none.
\<close>

fun placed :: "(u32 \<times> bool \<times> pushw_pc) option \<Rightarrow> u32 list" where
  "placed None = []"
| "placed (Some (v, push, W_load)) = []"
| "placed (Some (v, push, W_cas old new)) = []"
| "placed (Some (v, push, W_done r)) = (if push \<and> r then [v] else [])"
| "placed (Some (v, push, pc)) = (if push then [v] else [])"

fun fetched :: "popx_pc \<Rightarrow> popx_pc \<Rightarrow> u32 list" where
  "fetched (X_cas old new) (X_done notify v) = (if old AND bit_count \<noteq> 0 then [v] else [])"
| "fetched _ _ = []"

fun roused :: "bool \<Rightarrow> (u32 \<times> bool \<times> pushw_pc) option \<Rightarrow> (u32 \<times> bool \<times> pushw_pc) option" where
  "roused True (Some (v, push, W_parked)) = Some (v, push, W_reload)"
| "roused _ c = c"

text \<open>With \<^term>\<open>disc\<close> the SPU is not stopped while it waits.\<close>

inductive out_step :: "bool \<Rightarrow> outbox \<Rightarrow> outbox \<Rightarrow> bool" for disc where
  o_write: "ob_call s = None \<Longrightarrow> out_step disc s (s\<lparr>ob_call := Some (v, push, W_load)\<rparr>)"
| o_push: "ob_call s = Some (v, push, pc) \<Longrightarrow> disc \<longrightarrow> \<not> stopped \<Longrightarrow>
    chan_push_wait v push stopped pc (ob_ch s) = (pc', ch') \<Longrightarrow>
    out_step disc s (s\<lparr>ob_call := Some (v, push, pc'), ob_ch := ch'\<rparr>)"
| o_wake: "ob_call s = Some (v, push, W_parked) \<Longrightarrow> out_step disc s (s\<lparr>ob_call := Some (v, push, W_reload)\<rparr>)"
| o_written: "ob_call s = Some (v, push, W_done r) \<Longrightarrow>
    out_step disc s (s\<lparr>ob_call := None, ob_done := ob_done s @ placed (Some (v, push, W_done r))\<rparr>)"
| o_read: "ob_pop s = None \<Longrightarrow> out_step disc s (s\<lparr>ob_pop := Some X_load\<rparr>)"
| o_pop: "ob_pop s = Some pc \<Longrightarrow> chan_pop pc (ob_ch s) = (pc', ch') \<Longrightarrow>
    out_step disc s (s\<lparr>ob_pop := Some pc', ob_ch := ch', ob_read := ob_read s @ fetched pc pc'\<rparr>)"
| o_popped: "ob_pop s = Some (X_done notify v) \<Longrightarrow>
    out_step disc s (s\<lparr>ob_pop := None, ob_call := roused notify (ob_call s)\<rparr>)"

section \<open>The invariant\<close>

abbreviation has_value :: "u64 \<Rightarrow> bool" where "has_value d \<equiv> bit d 63"
abbreviation has_pending :: "u64 \<Rightarrow> bool" where "has_pending d \<equiv> bit d 33"
abbreviation has_waiter :: "u64 \<Rightarrow> bool" where "has_waiter d \<equiv> bit d 32"

text \<open>What an SPU inside \<^verbatim>\<open>push_wait\<close> knows: the state it read last, if it looks for the end of its wait.\<close>

fun last_state :: "pushw_pc \<Rightarrow> u64 option" where
  "last_state (W_spin n st) = Some st"
| "last_state (W_test st) = Some st"
| "last_state _ = None"

fun call_ok :: "(u32 \<times> bool \<times> pushw_pc) option \<Rightarrow> u64 \<Rightarrow> u64 \<Rightarrow> bool" where
  "call_ok None d j = (\<not> has_waiter d \<and> \<not> has_pending d)"
| "call_ok (Some (v, push, W_load)) d j = (\<not> has_waiter d \<and> \<not> has_pending d)"
| "call_ok (Some (v, push, W_done r)) d j = (r \<and> \<not> has_waiter d \<and> \<not> has_pending d)"
| "call_ok (Some (v, push, W_cas old new)) d j =
     (\<not> has_waiter d \<and> \<not> has_pending d \<and>
      (if has_value old then new = (old OR ((if push then bit_occupy else 0) OR bit_wait)) \<and> j = ucast (if push then v else low32 old)
       else push \<and> new = counted v))"
| "call_ok (Some (v, push, pc)) d j =
     ((has_waiter d \<and> has_value d \<and> has_pending d = push \<and> (push \<longrightarrow> j = ucast v) \<or> \<not> has_waiter d \<and> \<not> has_pending d) \<and>
      (\<forall>st. last_state pc = Some st \<and> \<not> has_waiter st \<longrightarrow> \<not> has_waiter d) \<and>
      (\<forall>st. pc = W_sleep st \<longrightarrow> has_waiter st))"

fun popx_ok :: "popx_pc option \<Rightarrow> u64 \<Rightarrow> u64 \<Rightarrow> bool" where
  "popx_ok (Some (X_jostle old)) d j = (d = old \<and> has_value old \<and> has_pending old)"
| "popx_ok (Some (X_cas old new)) d j =
     (if has_value old \<and> has_pending old then d = old \<and> new = counted (low32 j)
      else new = (old AND NOT (bit_count OR bit_occupy OR bit_wait)))"
| "popx_ok _ d j = True"

definition out_inv :: "outbox \<Rightarrow> bool" where
  "out_inv s =
     (let d = ch_data (ob_ch s); j = ch_jostling (ob_ch s) in
      call_ok (ob_call s) d j \<and> popx_ok (ob_pop s) d j
      \<and> (\<forall>v push. ob_call s = Some (v, push, W_parked) \<longrightarrow> has_waiter d \<or> (\<exists>x. ob_pop s = Some (X_done True x)))
      \<and> ob_done s @ placed (ob_call s) = ob_read s @ (if has_value d then [low32 d] else []) @ (if has_pending d then [low32 j] else []))"

lemmas out_inv_unfold = out_inv_def [unfolded Let_def]

text \<open>The flags of the words the accesses compute.\<close>

lemma bit_flag:
  "bit bit_wait n \<longleftrightarrow> n = 32" "bit bit_occupy n \<longleftrightarrow> n = 33" "bit bit_count n \<longleftrightarrow> n = 63"
proof -
  have "bit (push_bit m 1 :: u64) n \<longleftrightarrow> n = m" if "m < 64" for m n
    using that by (auto simp only: bit_push_bit_iff bit_1_iff possible_bit_word) auto
  then show "bit bit_wait n \<longleftrightarrow> n = 32" "bit bit_occupy n \<longleftrightarrow> n = 33" "bit bit_count n \<longleftrightarrow> n = 63"
    unfolding bit_wait_def bit_occupy_def bit_count_def by (simp_all only:)
qed

lemma flag_and [simp]:
  "d AND bit_wait = 0 \<longleftrightarrow> \<not> has_waiter d" "d AND bit_occupy = 0 \<longleftrightarrow> \<not> has_pending d" "d AND bit_count = 0 \<longleftrightarrow> \<not> has_value d"
  by (auto simp: bit_eq_iff [where ?'a = u64] bit_and_iff bit_flag
      dest: spec [of _ "32 :: nat"] spec [of _ "33 :: nat"] spec [of _ "63 :: nat"])

lemma both_flags [simp]:
  "d AND (bit_count OR bit_occupy) = bit_count OR bit_occupy \<longleftrightarrow> has_value d \<and> has_pending d"
  by (auto simp: bit_eq_iff [where ?'a = u64] bit_and_iff bit_or_iff bit_flag
      dest: spec [of _ "33 :: nat"] spec [of _ "63 :: nat"])

lemma low32_flags [simp]: "low32 (bit_count OR d) = low32 d" "low32 (d OR bit_wait) = low32 d" "low32 (d OR (bit_occupy OR bit_wait)) = low32 d"
  by (auto simp: bit_eq_iff [where ?'a = u32] bit_simps bit_flag)

lemma flag_ops [simp]:
  "\<not> bit (ucast (v :: u32) :: u64) 32" "\<not> bit (ucast (v :: u32) :: u64) 33" "\<not> bit (ucast (v :: u32) :: u64) 63"
  using bit_imp_le_length [of v] by (force simp: bit_simps)+

lemmas flag_simps = bit_and_iff bit_or_iff bit_not_iff bit_flag

lemma high_waiter:
  assumes "drop_bit 32 d = drop_bit 32 (e :: u64)"
  shows "has_waiter d = has_waiter e"
proof -
  have "has_waiter x = bit (drop_bit 32 x) 0" for x :: u64 by (subst bit_drop_bit_eq) simp
  then show ?thesis using assms by metis
qed

lemma waiting_call:
  assumes "call_ok (Some (v, push, pc)) d j" and "has_waiter d"
  shows "has_value d \<and> has_pending d = push \<and> (push \<longrightarrow> j = ucast v) \<and> (\<forall>old new. pc \<noteq> W_cas old new) \<and> pc \<noteq> W_load"
  using assms by (cases pc) auto

lemma call_ok_clear:
  assumes "call_ok c d j" and "\<not> has_waiter d'" and "\<not> has_pending d'"
  shows "call_ok c d' j"
  using assms by (induction c d j rule: call_ok.induct) (auto split: if_splits)

lemma pending_waiter: "call_ok c d j \<Longrightarrow> has_pending d \<Longrightarrow> has_waiter d"
  by (induction c d j rule: call_ok.induct) auto

lemma waiter_value: "call_ok c d j \<Longrightarrow> has_waiter d \<Longrightarrow> has_value d"
  by (induction c d j rule: call_ok.induct) auto

lemma out_write: "out_inv s \<Longrightarrow> ob_call s = None \<Longrightarrow> out_inv (s\<lparr>ob_call := Some (v, push, W_load)\<rparr>)"
  by (auto simp: out_inv_unfold)

lemma out_wake:
  "out_inv s \<Longrightarrow> ob_call s = Some (v, push, W_parked) \<Longrightarrow> out_inv (s\<lparr>ob_call := Some (v, push, W_reload)\<rparr>)"
  by (auto simp: out_inv_unfold)

lemma out_written:
  "out_inv s \<Longrightarrow> ob_call s = Some (v, push, W_done r) \<Longrightarrow>
   out_inv (s\<lparr>ob_call := None, ob_done := ob_done s @ placed (Some (v, push, W_done r))\<rparr>)"
  by (auto simp: out_inv_unfold)

lemma out_read: "out_inv s \<Longrightarrow> ob_pop s = None \<Longrightarrow> out_inv (s\<lparr>ob_pop := Some X_load\<rparr>)"
  by (auto simp: out_inv_unfold)

lemma out_popped:
  "out_inv s \<Longrightarrow> ob_pop s = Some (X_done notify v) \<Longrightarrow> out_inv (s\<lparr>ob_pop := None, ob_call := roused notify (ob_call s)\<rparr>)"
  by (cases "(notify, ob_call s)" rule: roused.cases) (auto simp: out_inv_unfold)

lemma out_pop:
  assumes inv: "out_inv s" and pc: "ob_pop s = Some pc" and step: "chan_pop pc (ob_ch s) = (pc', ch')"
  shows "out_inv (s\<lparr>ob_pop := Some pc', ob_ch := ch', ob_read := ob_read s @ fetched pc pc'\<rparr>)"
proof (cases pc)
  case X_load
  then show ?thesis
    using inv pc step by (auto simp: out_inv_unfold Let_def split: if_splits)
next
  case (X_jostle old)
  then show ?thesis using inv pc step by (auto simp: out_inv_unfold)
next
  case (X_cas old new)
  then show ?thesis
  proof (cases "ch_data (ob_ch s) = old")
    case True
    have c: "call_ok (ob_call s) old (ch_jostling (ob_ch s))" and p: "popx_ok (Some (X_cas old new)) old (ch_jostling (ob_ch s))"
      using inv pc X_cas True by (auto simp: out_inv_unfold)
    have n: "\<not> has_waiter new" "\<not> has_pending new" "has_value new = (has_value old \<and> has_pending old)"
      using p by (auto simp: flag_simps split: if_splits)
    show ?thesis
      using inv pc X_cas True step n p call_ok_clear [OF c n(1,2)] pending_waiter [OF c] waiter_value [OF c]
      by (auto simp: out_inv_unfold split: if_splits)
  qed (use inv pc step in \<open>auto simp: out_inv_unfold\<close>)
next
  case (X_done n v)
  then show ?thesis using inv pc step by (auto simp: out_inv_unfold)
qed

lemma popx_stable:
  assumes "popx_ok p d j" and "\<not> has_pending d"
  shows "popx_ok p d' j'"
  using assms by (induction p d j rule: popx_ok.induct) (auto split: if_splits)

lemma out_inv_call: "out_inv s \<Longrightarrow> ob_call s = c \<Longrightarrow> call_ok c (ch_data (ob_ch s)) (ch_jostling (ob_ch s))"
  by (simp add: out_inv_unfold)

text \<open>An access of the SPU that only reads the channel.\<close>

lemma out_look:
  assumes "out_inv s" and "ob_call s = Some (v, push, pc)"
    and "call_ok (Some (v, push, pc')) (ch_data (ob_ch s)) (ch_jostling (ob_ch s))"
    and "placed (Some (v, push, pc')) = placed (Some (v, push, pc))"
    and "pc' = W_parked \<longrightarrow> has_waiter (ch_data (ob_ch s)) \<or> (\<exists>x. ob_pop s = Some (X_done True x))"
  shows "out_inv (s\<lparr>ob_call := Some (v, push, pc'), ob_ch := ob_ch s\<rparr>)"
  using assms unfolding out_inv_unfold by (simp del: call_ok.simps placed.simps)

lemma out_push:
  assumes inv: "out_inv s" and pc: "ob_call s = Some (v, push, pc)"
    and step: "chan_push_wait v push False pc (ob_ch s) = (pc', ch')"
  shows "out_inv (s\<lparr>ob_call := Some (v, push, pc'), ob_ch := ch'\<rparr>)"
proof (cases pc)
  case W_load
  then show ?thesis
    using inv pc step popx_stable [of "ob_pop s" "ch_data (ob_ch s)" "ch_jostling (ob_ch s)"]
    by (auto simp: out_inv_unfold Let_def split: if_splits)
next
  case (W_cas old new)
  then show ?thesis
    using inv pc step popx_stable [of "ob_pop s" "ch_data (ob_ch s)" "ch_jostling (ob_ch s)"]
    by (auto simp: out_inv_unfold flag_simps split: if_splits)
next
  case (W_spin n st)
  note c = out_inv_call [OF inv pc]
  have "ch' = ob_ch s" "call_ok (Some (v, push, pc')) (ch_data (ob_ch s)) (ch_jostling (ob_ch s))"
    "placed (Some (v, push, pc')) = placed (Some (v, push, pc))" "pc' \<noteq> W_parked"
    using step c W_spin by (cases n; auto split: if_splits)+
  then show ?thesis using out_look [OF inv pc] by simp
next
  case (W_test st)
  note c = out_inv_call [OF inv pc]
  have "ch' = ob_ch s" "call_ok (Some (v, push, pc')) (ch_data (ob_ch s)) (ch_jostling (ob_ch s))"
    "placed (Some (v, push, pc')) = placed (Some (v, push, pc))" "pc' \<noteq> W_parked"
    using step c W_test by (auto split: if_splits)
  then show ?thesis using out_look [OF inv pc] by simp
next
  case (W_sleep st)
  note c = out_inv_call [OF inv pc]
  have "ch' = ob_ch s" "call_ok (Some (v, push, pc')) (ch_data (ob_ch s)) (ch_jostling (ob_ch s))"
    "placed (Some (v, push, pc')) = placed (Some (v, push, pc))" "pc' = W_parked \<longrightarrow> has_waiter (ch_data (ob_ch s))"
    using step c W_sleep high_waiter [of "ch_data (ob_ch s)" st] by (auto split: if_splits)
  then show ?thesis using out_look [OF inv pc] by simp
qed (use inv pc step in \<open>auto simp: out_inv_unfold\<close>)

lemma out_step_inv: "out_step True s s' \<Longrightarrow> out_inv s \<Longrightarrow> out_inv s'"
  by (induction rule: out_step.induct)
    (auto intro: out_write out_wake out_written out_read out_pop out_popped out_push simp del: placed.simps)

definition out_start :: outbox where
  "out_start = \<lparr>ob_ch = \<lparr>ch_data = 0, ch_jostling = 0\<rparr>, ob_call = None, ob_pop = None, ob_done = [], ob_read = []\<rparr>"

abbreviation ob_holds :: "outbox \<Rightarrow> u32 list" where
  "ob_holds s \<equiv> (if has_value (ch_data (ob_ch s)) then [low32 (ch_data (ob_ch s))] else [])
     @ (if has_pending (ch_data (ob_ch s)) then [low32 (ch_jostling (ob_ch s))] else [])"

interpretation obx: fifo_channel "out_step True" out_start "\<lambda>s. ob_done s @ placed (ob_call s)" ob_read ob_holds out_inv
proof
  show "out_inv out_start" by (simp add: out_start_def out_inv_def)
  show "ob_done s @ placed (ob_call s) = ob_read s @ ob_holds s" if "out_inv s" for s using that by (simp add: out_inv_unfold)
qed (fact out_step_inv)

section \<open>Delivery\<close>

datatype out_act = B_write u32 bool | B_push bool | B_wake | B_written | B_read | B_pop | B_popped

fun out_do :: "bool \<Rightarrow> out_act \<Rightarrow> outbox \<Rightarrow> outbox option" where
  "out_do disc (B_write v push) s = (if ob_call s = None then Some (s\<lparr>ob_call := Some (v, push, W_load)\<rparr>) else None)"
| "out_do disc (B_push stopped) s =
     (case ob_call s of
        Some (v, push, pc) \<Rightarrow>
          if disc \<and> stopped then None
          else (case chan_push_wait v push stopped pc (ob_ch s) of (pc', ch') \<Rightarrow>
            Some (s\<lparr>ob_call := Some (v, push, pc'), ob_ch := ch'\<rparr>))
      | None \<Rightarrow> None)"
| "out_do disc B_wake s =
     (case ob_call s of Some (v, push, W_parked) \<Rightarrow> Some (s\<lparr>ob_call := Some (v, push, W_reload)\<rparr>) | _ \<Rightarrow> None)"
| "out_do disc B_written s = (case ob_call s of Some (v, push, W_done r) \<Rightarrow>
     Some (s\<lparr>ob_call := None, ob_done := ob_done s @ placed (Some (v, push, W_done r))\<rparr>) | _ \<Rightarrow> None)"
| "out_do disc B_read s = (if ob_pop s = None then Some (s\<lparr>ob_pop := Some X_load\<rparr>) else None)"
| "out_do disc B_pop s =
     (case ob_pop s of
        Some pc \<Rightarrow> (case chan_pop pc (ob_ch s) of (pc', ch') \<Rightarrow>
          Some (s\<lparr>ob_pop := Some pc', ob_ch := ch', ob_read := ob_read s @ fetched pc pc'\<rparr>))
      | None \<Rightarrow> None)"
| "out_do disc B_popped s =
     (case ob_pop s of
        Some (X_done notify v) \<Rightarrow> Some (s\<lparr>ob_pop := None, ob_call := roused notify (ob_call s)\<rparr>)
      | _ \<Rightarrow> None)"

fun out_run :: "bool \<Rightarrow> out_act list \<Rightarrow> outbox \<Rightarrow> outbox option" where
  "out_run disc [] s = Some s"
| "out_run disc (a # as) s = (case out_do disc a s of None \<Rightarrow> None | Some s' \<Rightarrow> out_run disc as s')"

lemma out_do_step: "out_do disc a s = Some s' \<Longrightarrow> out_step disc s s'"
  by (induction disc a s rule: out_do.induct)
    (auto intro: out_step.intros simp del: chan_push_wait.simps chan_pop.simps placed.simps
      split: option.splits pushw_pc.splits popx_pc.splits prod.splits if_splits)

lemma out_run_reach: "out_run disc as s = Some s' \<Longrightarrow> (out_step disc)\<^sup>*\<^sup>* s s'"
  by (induction disc as s rule: out_run.induct)
    (auto intro: converse_rtranclp_into_rtranclp out_do_step split: option.splits)

text \<open>
  C19: An outbound mailbox delivers every value whose write returned success exactly once and in order. One SPU, which is
  not stopped while it writes, and one reader at a time are interleaved in any way: the values of the writes that
  returned success, followed by the value of a write in progress once it is placed, are the values the reads returned,
  followed by the value of the mailbox, followed by the one that waits with the SPU. A write that returns has succeeded
  and no value waits any more; the SPU sleeps only while the mailbox is full or the reader is about to notify it.
\<close>

theorem out_mailbox_fifo:
  assumes "(out_step True)\<^sup>*\<^sup>* out_start s"
  shows "ob_done s @ placed (ob_call s) = ob_read s @ (if has_value (ch_data (ob_ch s)) then [low32 (ch_data (ob_ch s))] else [])
      @ (if has_pending (ch_data (ob_ch s)) then [low32 (ch_jostling (ob_ch s))] else [])
    \<and> (\<forall>v push r. ob_call s = Some (v, push, W_done r) \<longrightarrow> r \<and> \<not> has_pending (ch_data (ob_ch s)))
    \<and> (\<forall>v push. ob_call s = Some (v, push, W_parked) \<longrightarrow>
         has_value (ch_data (ob_ch s)) \<or> (\<exists>x. ob_pop s = Some (X_done True x)))"
  using obx.channel_delivery [OF assms] obx.channel_inv [OF assms] by (auto simp: out_inv_unfold)

text \<open>The SPU writes 1, then sleeps with 2 because the mailbox is full; a read takes 1 and puts 2 in its place.\<close>

theorem out_mailbox_fifo_witness:
  "\<exists>s. out_run True ([B_write 1 True] @ replicate 3 (B_push False) @ [B_written, B_write 2 True] @ replicate 15 (B_push False) @
       [B_read, B_pop, B_pop, B_pop, B_popped]) out_start = Some s \<and>
     ob_done s = [1] \<and> ob_read s = [1] \<and> has_value (ch_data (ob_ch s)) \<and> low32 (ch_data (ob_ch s)) = 2"
proof -
  let ?as = "[B_write 1 True] @ replicate 3 (B_push False) @ [B_written, B_write 2 True] @ replicate 15 (B_push False) @
       [B_read, B_pop, B_pop, B_pop, B_popped]"
  have "(case out_run True ?as out_start of None \<Rightarrow> False
     | Some s \<Rightarrow> ob_done s = [1] \<and> placed (ob_call s) = [2] \<and> ob_read s = [1] \<and> \<not> has_pending (ch_data (ob_ch s)))" by code_simp
  then obtain s where s: "out_run True ?as out_start = Some s" "ob_done s = [1]" "placed (ob_call s) = [2]" "ob_read s = [1]"
    "\<not> has_pending (ch_data (ob_ch s))" by (auto split: option.splits)
  then show ?thesis using out_mailbox_fifo [OF out_run_reach [OF s(1)]] by (auto split: if_splits)
qed

section \<open>A stopped SPU\<close>

text \<open>
  A write that is given up because the SPU is stopped leaves its value with the mailbox: the next read puts it there,
  although the write returned failure and is repeated when the SPU goes on.
\<close>

lemma out_mailbox_abort:
  "\<exists>s. (out_step False)\<^sup>*\<^sup>* out_start s \<and> ob_call s = Some (2, True, W_done False) \<and> ob_read s = [1, 2]"
proof -
  let ?as = "[B_write 1 True] @ replicate 3 (B_push False) @ [B_written, B_write 2 True] @ replicate 15 (B_push False) @
     [B_wake, B_push False, B_push True, B_read, B_pop, B_pop, B_pop, B_popped, B_read, B_pop, B_pop]"
  have "(case out_run False ?as out_start of None \<Rightarrow> False
     | Some s \<Rightarrow> ob_call s = Some (2, True, W_done False) \<and> ob_read s = [1, 2])" by code_simp
  then show ?thesis using out_run_reach [of False ?as out_start] by (auto split: option.splits)
qed

end
