(* ===== verification/Bit_Field.thy ===== *)
theory Bit_Field
  imports Prelude
begin

text \<open>
  The bit field accessors of \<^verbatim>\<open>Utilities/BitField.h\<close>: a field of \<open>N\<close> bits at position \<open>I\<close> of a
  machine word (\<^verbatim>\<open>bf_t\<close>) is extracted with or without sign extension and stored by masking. The
  lemmas are the laws a client of the accessors relies on: what a field holds after it or a disjoint
  field has been stored.
\<close>

section \<open>\<^verbatim>\<open>bf_t\<close>\<close>

definition bf_vmask :: "nat \<Rightarrow> 'a::len word" where
  "bf_vmask N = drop_bit (LENGTH('a) - N) (NOT 0)"

definition bf_data_mask :: "nat \<Rightarrow> nat \<Rightarrow> 'a::len word" where
  "bf_data_mask I N = push_bit I (drop_bit (LENGTH('a) - N) (NOT 0))"

definition bf_extract :: "nat \<Rightarrow> nat \<Rightarrow> 'a::len word \<Rightarrow> 'a word" where
  "bf_extract I N x = drop_bit I x AND bf_vmask N"

definition bf_extract_signed :: "nat \<Rightarrow> nat \<Rightarrow> 'a::len word \<Rightarrow> 'a word" where
  "bf_extract_signed I N x =
     signed_drop_bit (LENGTH('a) - N) (push_bit (LENGTH('a) - I - N) x)"

definition bf_insert :: "nat \<Rightarrow> nat \<Rightarrow> 'a::len word \<Rightarrow> 'a word" where
  "bf_insert I N v = push_bit I (v AND bf_vmask N)"

definition bf_store :: "nat \<Rightarrow> nat \<Rightarrow> 'a::len word \<Rightarrow> 'a word \<Rightarrow> 'a word" where
  "bf_store I N v x = (x AND NOT (bf_data_mask I N)) OR bf_insert I N v"

section \<open>Laws\<close>

lemma bit_bf_vmask:
  "N \<le> LENGTH('a) \<Longrightarrow> bit (bf_vmask N :: 'a::len word) k \<longleftrightarrow> k < N"
  by (auto simp: bf_vmask_def bit_drop_bit_eq bit_not_iff bit_mask_iff)

lemma bf_vmask_mask: "N \<le> LENGTH('a) \<Longrightarrow> (bf_vmask N :: 'a::len word) = mask N"
  by (rule bit_eqI) (auto simp: bit_bf_vmask bit_mask_iff)

lemma bit_bf_data_mask:
  "I + N \<le> LENGTH('a) \<Longrightarrow> bit (bf_data_mask I N :: 'a::len word) k \<longleftrightarrow> I \<le> k \<and> k < I + N"
  by (auto simp: bf_data_mask_def bit_push_bit_iff bit_drop_bit_eq bit_not_iff bit_mask_iff)

lemma bit_bf_extract:
  "I + N \<le> LENGTH('a) \<Longrightarrow> bit (bf_extract I N (x :: 'a::len word)) k \<longleftrightarrow> k < N \<and> bit x (I + k)"
  by (auto simp: bf_extract_def bit_and_iff bit_bf_vmask bit_drop_bit_eq add.commute)

lemma bf_extract_take:
  "I + N \<le> LENGTH('a) \<Longrightarrow> bf_extract I N (x :: 'a::len word) = take_bit N (drop_bit I x)"
  by (simp add: bf_extract_def bf_vmask_mask take_bit_eq_mask)

lemma bit_bf_store:
  "I + N \<le> LENGTH('a) \<Longrightarrow>
   bit (bf_store I N v (x :: 'a::len word)) k \<longleftrightarrow>
     (if I \<le> k \<and> k < I + N then bit v (k - I) else bit x k)"
  by (auto simp: bf_store_def bf_insert_def bit_or_iff bit_and_iff bit_not_iff bit_push_bit_iff
      bit_bf_data_mask bit_bf_vmask dest: bit_imp_le_length)

lemma bf_extract_store:
  "I + N \<le> LENGTH('a) \<Longrightarrow> bf_extract I N (bf_store I N v (x :: 'a::len word)) = take_bit N v"
  by (rule bit_eqI) (auto simp: bit_bf_extract bit_bf_store bit_take_bit_iff)

lemma bf_extract_store_other:
  assumes "I + N \<le> LENGTH('a)" "J + M \<le> LENGTH('a)" "J + M \<le> I \<or> I + N \<le> J"
  shows "bf_extract J M (bf_store I N v (x :: 'a::len word)) = bf_extract J M x"
  by (rule bit_eqI) (use assms in \<open>auto simp: bit_bf_extract bit_bf_store\<close>)

lemma bf_extract_signed_alt:
  assumes "I + N \<le> LENGTH('a)" "0 < N"
  shows "bf_extract_signed I N (x :: 'a::len word) = signed_take_bit (N - 1) (bf_extract I N x)"
proof (rule bit_word_eqI)
  fix k assume k: "k < LENGTH('a)"
  define m where "m = min (k + (LENGTH('a) - N)) (LENGTH('a) - 1)"
  have "bit (bf_extract_signed I N x) k \<longleftrightarrow> bit (push_bit (LENGTH('a) - I - N) x) m"
    using k assms
    by (auto simp: bf_extract_signed_def bit_signed_drop_bit_iff m_def min_def ac_simps)
  also have "\<dots> \<longleftrightarrow> bit x (m - (LENGTH('a) - I - N))"
    using k assms by (auto simp: bit_push_bit_iff m_def)
  also have "m - (LENGTH('a) - I - N) = I + min k (N - 1)"
    using k assms by (auto simp: m_def min_def)
  also have "bit x (I + min k (N - 1)) \<longleftrightarrow> bit (signed_take_bit (N - 1) (bf_extract I N x)) k"
    using k assms by (auto simp: bit_signed_take_bit_iff bit_bf_extract min_def)
  finally show "bit (bf_extract_signed I N x) k
      = bit (signed_take_bit (N - 1) (bf_extract I N x)) k" .
qed

lemma signed_take_bit_take:
  "0 < N \<Longrightarrow> signed_take_bit (N - Suc 0) (take_bit N (v :: 'a::len word)) = signed_take_bit (N - Suc 0) v"
  by (rule bit_eqI) (auto simp: bit_signed_take_bit_iff bit_take_bit_iff min_def)

lemma bf_extract_signed_store:
  "I + N \<le> LENGTH('a) \<Longrightarrow> 0 < N \<Longrightarrow>
   bf_extract_signed I N (bf_store I N v (x :: 'a::len word)) = signed_take_bit (N - 1) v"
  by (simp add: bf_extract_signed_alt bf_extract_store signed_take_bit_take)

lemma bf_extract_signed_store_other:
  "I + N \<le> LENGTH('a) \<Longrightarrow> J + M \<le> LENGTH('a) \<Longrightarrow> J + M \<le> I \<or> I + N \<le> J \<Longrightarrow> 0 < M \<Longrightarrow>
   bf_extract_signed J M (bf_store I N v (x :: 'a::len word)) = bf_extract_signed J M x"
  by (simp add: bf_extract_signed_alt bf_extract_store_other)

text \<open>The laws on 32-bit opcodes, as rewrite rules whose side conditions are arithmetic.\<close>

lemmas bf_laws = bf_extract_store bf_extract_store_other bf_extract_signed_store
  bf_extract_signed_store_other

end
