(* ===== verification/Spu_Signal.thy ===== *)
theory Spu_Signal
  imports Spu_Outbox Bit_Field
begin

text \<open>
  The signal notification registers of an SPU: \<^verbatim>\<open>push_snr\<close> and \<^verbatim>\<open>set_events\<close> of \<^verbatim>\<open>Emu/Cell/SPUThread.cpp\<close>. A
  signal is pushed into a single-word channel, in the mode of the configuration register replacing its value or added to
  it, and the event of the register is meant to be raised when the register gets its value. The event word is a union of
  bit fields: the events, a lock count, the flag of a waiting SPU, the channel count and the event mask.
\<close>

record spu_signals =
  ch_snr1 :: spu_channel
  ch_snr2 :: spu_channel
  snr_config :: u64
  ch_events :: u64
  sg_notified :: bool

abbreviation ev_events :: "u64 \<Rightarrow> u64" where "ev_events ev \<equiv> bf_extract 0 16 ev"
abbreviation ev_locks :: "u64 \<Rightarrow> u64" where "ev_locks ev \<equiv> bf_extract 16 8 ev"
abbreviation ev_waiting :: "u64 \<Rightarrow> u64" where "ev_waiting ev \<equiv> bf_extract 30 1 ev"
abbreviation ev_mask :: "u64 \<Rightarrow> u64" where "ev_mask ev \<equiv> bf_extract 32 32 ev"

definition SPU_EVENT_S1 :: u32 where "SPU_EVENT_S1 = 0x200"
definition SPU_EVENT_S2 :: u32 where "SPU_EVENT_S2 = 0x100"

text \<open>The new event word, and whether the SPU is to be notified.\<close>

definition set_events :: "u32 \<Rightarrow> u64 \<Rightarrow> u64 \<times> bool" where
  "set_events bits ev =
     (let ev = ev OR bf_insert 0 16 (ucast bits) in
      if ev_mask ev AND ucast bits \<noteq> 0
      then (bf_store 31 1 1 ev, ev_waiting ev \<noteq> 0 \<and> bits AND (SPU_EVENT_S1 OR SPU_EVENT_S2) \<noteq> 0)
      else (ev, False))"

definition snr_channel :: "u32 \<Rightarrow> spu_signals \<Rightarrow> spu_channel" where
  "snr_channel number s = (if number AND 1 \<noteq> 0 then ch_snr2 s else ch_snr1 s)"

definition put_snr :: "u32 \<Rightarrow> spu_channel \<Rightarrow> spu_signals \<Rightarrow> spu_signals" where
  "put_snr number ch s = (if number AND 1 \<noteq> 0 then s\<lparr>ch_snr2 := ch\<rparr> else s\<lparr>ch_snr1 := ch\<rparr>)"

definition snr_event :: "u32 \<Rightarrow> u32" where
  "snr_event number = drop_bit (unat (number AND 1)) SPU_EVENT_S1"

abbreviation snr_or :: "u32 \<Rightarrow> spu_signals \<Rightarrow> bool" where
  "snr_or number s \<equiv> (drop_bit (unat number) (snr_config s) AND 1 \<noteq> 0)"

text \<open>
  A call that no other access to the channel disturbs: three steps of the push are enough, unless its loop does not end
  or an \<^verbatim>\<open>ensure\<close> fails.
\<close>

definition push_snr :: "u32 \<Rightarrow> u32 \<Rightarrow> spu_signals \<Rightarrow> spu_signals option" where
  "push_snr number v s =
     (let ev = bf_store 16 8 (ev_locks (ch_events s) + 1) (ch_events s);
          (pc, ch) = ((\<lambda>(pc, ch). chan_push v (snr_or number s) pc ch) ^^ 3) (S_data, snr_channel number s)
      in case pc of
           S_done st \<Rightarrow>
             let (ev, notify) = (if os_old_count st < os_count st then set_events (snr_event number) ev else (ev, False))
             in Some ((put_snr number ch s)\<lparr>ch_events := bf_store 16 8 (ev_locks ev - 1) ev, sg_notified := sg_notified s \<or> notify\<rparr>)
         | _ \<Rightarrow> None)"

section \<open>When the event is raised\<close>

text \<open>What the steps of a push that is not disturbed come to.\<close>

lemma push_alone:
  assumes "\<not> has_pending (ch_data ch)"
  shows "((\<lambda>(pc, ch). chan_push v to_or pc ch) ^^ 3) (S_data, ch) =
    (push_result (ch_data ch), ch\<lparr>ch_data := counted (if to_or then low32 (ch_data ch) OR v else v)\<rparr>)"
  using assms by (simp add: numeral_3_eq_3 push_result_def Let_def)

lemma push_waiting:
  assumes "has_pending (ch_data ch)" and "has_waiter (ch_data ch)" and "ch_jostling ch = bit_occupy"
  shows "((\<lambda>(pc, ch). chan_push v to_or pc ch) ^^ 3) (S_data, ch) =
    (push_result (ch_data ch), \<lparr>ch_data = ch_data ch AND NOT (bit_wait OR bit_occupy), ch_jostling = ucast v\<rparr>)"
  using assms by (cases ch) (simp add: numeral_3_eq_3 Let_def)

lemma events_or:
  "ev_events (ev OR bf_insert 0 16 b) = ev_events ev OR take_bit 16 b" "ev_locks (ev OR bf_insert 0 16 b) = ev_locks ev"
  by (rule bit_word_eqI; auto simp: bit_bf_extract bit_or_iff bf_insert_def bit_and_iff bit_bf_vmask bit_push_bit_iff
      bit_take_bit_iff)+

lemma set_events_fields:
  "ev_events (fst (set_events bits ev)) = ev_events ev OR take_bit 16 (ucast bits)"
  "ev_locks (fst (set_events bits ev)) = ev_locks ev"
  by (simp_all add: set_events_def Let_def events_or bf_laws)

lemma locks_back: "take_bit 8 (take_bit 8 (l + 1) - 1) = take_bit 8 (l :: u64)"
proof -
  have "take_bit 8 (take_bit 8 a - take_bit 8 b) = take_bit 8 (a - b)" for a b :: u64
    by transfer (simp add: take_bit_diff min_def)
  from this [of "l + 1" 1] show ?thesis by simp
qed

lemma locks_take: "take_bit 8 (ev_locks ev) = ev_locks ev"
  by (simp add: bf_extract_take)

lemma snr_event_take: "take_bit 16 (ucast (snr_event number) :: u64) = ucast (snr_event number)"
proof -
  have "number AND 1 = 0 \<or> number AND 1 = 1" by (simp add: and_one_eq mod2_eq_if)
  then show ?thesis by (auto simp: snr_event_def SPU_EVENT_S1_def)
qed

text \<open>
  C31: A signal that no other access disturbs is delivered, to the register or to the SPU that waits for it, and leaves
  the lock count of the event word as it was; but its event is raised exactly when the register already had a value: the
  first signal after the register was read raises none.
\<close>

theorem push_snr_events:
  assumes "\<not> has_pending (ch_data (snr_channel number s)) \<or>
    has_waiter (ch_data (snr_channel number s)) \<and> ch_jostling (snr_channel number s) = bit_occupy"
  shows "\<exists>s'. push_snr number v s = Some s'
    \<and> (if has_pending (ch_data (snr_channel number s)) then ch_jostling (snr_channel number s') = ucast v
        else low32 (ch_data (snr_channel number s')) = (if snr_or number s then low32 (ch_data (snr_channel number s)) OR v else v))
    \<and> ev_locks (ch_events s') = ev_locks (ch_events s)
    \<and> ev_events (ch_events s') =
        (if has_value (ch_data (snr_channel number s)) then ev_events (ch_events s) OR ucast (snr_event number)
         else ev_events (ch_events s))"
proof -
  let ?ch = "snr_channel number s"
  define ch' where "ch' = snd (((\<lambda>(pc, ch). chan_push v (snr_or number s) pc ch) ^^ 3) (S_data, ?ch))"
  have p: "((\<lambda>(pc, ch). chan_push v (snr_or number s) pc ch) ^^ 3) (S_data, ?ch) = (push_result (ch_data ?ch), ch')"
    and d: "if has_pending (ch_data ?ch) then ch_jostling ch' = ucast v
      else low32 (ch_data ch') = (if snr_or number s then low32 (ch_data ?ch) OR v else v)"
    using assms by (cases "has_pending (ch_data ?ch)"; simp add: ch'_def push_alone push_waiting)+
  have c: "snr_channel number (put_snr number ch' s\<lparr>ch_events := e, sg_notified := b\<rparr>) = ch'" for e b
    by (simp add: snr_channel_def put_snr_def)
  show ?thesis
    using d by (auto simp: push_snr_def p push_result_def c bf_laws set_events_fields locks_back snr_event_take
        locks_take case_prod_beta Let_def)
qed

definition demo_signals :: spu_signals where
  "demo_signals = \<lparr>ch_snr1 = \<lparr>ch_data = 0, ch_jostling = 0\<rparr>, ch_snr2 = \<lparr>ch_data = 0, ch_jostling = 0\<rparr>, snr_config = 1,
     ch_events = 0, sg_notified = False\<rparr>"

theorem push_snr_events_witness:
  "\<exists>s1 s2. push_snr 0 5 demo_signals = Some s1 \<and> ev_events (ch_events s1) = 0 \<and>
     push_snr 0 8 s1 = Some s2 \<and> ev_events (ch_events s2) = 0x200 \<and> low32 (ch_data (snr_channel 0 s2)) = 13"
proof -
  have z: "snr_channel 0 demo_signals = \<lparr>ch_data = 0, ch_jostling = 0\<rparr>" "ev_events (ch_events demo_signals) = 0"
    by (simp_all add: snr_channel_def demo_signals_def bf_extract_def)
  obtain s1 where s1: "push_snr 0 5 demo_signals = Some s1" "ev_events (ch_events s1) = 0"
    using push_snr_events [of 0 demo_signals 5] z by auto
  have "(case push_snr 0 5 demo_signals of None \<Rightarrow> False
     | Some s \<Rightarrow> has_value (ch_data (snr_channel 0 s)) \<and> \<not> has_pending (ch_data (snr_channel 0 s)) \<and> snr_or 0 s
         \<and> low32 (ch_data (snr_channel 0 s)) = 5)"
    by code_simp
  then have c: "has_value (ch_data (snr_channel 0 s1))" "\<not> has_pending (ch_data (snr_channel 0 s1))" "snr_or 0 s1"
      "low32 (ch_data (snr_channel 0 s1)) = 5"
    using s1(1) by simp_all
  have "ucast (snr_event 0) = (0x200 :: u64)" by code_simp
  then show ?thesis using push_snr_events [of 0 s1 8] s1 c by auto
qed

end
