(* ===== verification/Ppu_Opcode.thy ===== *)
theory Ppu_Opcode
  imports Bit_Field
begin

text \<open>
  The PPU instruction word (\<^verbatim>\<open>ppu_opcode_t\<close> of \<^verbatim>\<open>Emu/Cell/PPUOpcodes.h\<close>): its bit fields, numbered from
  the most significant bit as in the Power ISA, and the rotate mask \<^verbatim>\<open>ppu_rotate_mask\<close> that the rotate
  instructions share. Unsigned fields used as register numbers are natural numbers; immediates are
  words of the width they are converted to.
\<close>

section \<open>Fields\<close>

definition ppu_bf :: "nat \<Rightarrow> nat \<Rightarrow> u32 \<Rightarrow> u32" where
  "ppu_bf I N op = bf_extract (32 - N - I) N op"

definition ppu_bf_signed :: "nat \<Rightarrow> nat \<Rightarrow> u32 \<Rightarrow> u32" where
  "ppu_bf_signed I N op = bf_extract_signed (32 - N - I) N op"

definition op_main :: "u32 \<Rightarrow> nat" where "op_main op = unat (ppu_bf 0 6 op)"
definition op_rd :: "u32 \<Rightarrow> nat" where "op_rd op = unat (ppu_bf 6 5 op)"
definition op_rs :: "u32 \<Rightarrow> nat" where "op_rs op = unat (ppu_bf 6 5 op)"
definition op_ra :: "u32 \<Rightarrow> nat" where "op_ra op = unat (ppu_bf 11 5 op)"
definition op_rb :: "u32 \<Rightarrow> nat" where "op_rb op = unat (ppu_bf 16 5 op)"
definition op_frd :: "u32 \<Rightarrow> nat" where "op_frd op = unat (ppu_bf 6 5 op)"
definition op_frs :: "u32 \<Rightarrow> nat" where "op_frs op = unat (ppu_bf 6 5 op)"
definition op_vd :: "u32 \<Rightarrow> nat" where "op_vd op = unat (ppu_bf 6 5 op)"
definition op_vs :: "u32 \<Rightarrow> nat" where "op_vs op = unat (ppu_bf 6 5 op)"
definition op_crfd :: "u32 \<Rightarrow> nat" where "op_crfd op = unat (ppu_bf 6 3 op)"
definition op_crfs :: "u32 \<Rightarrow> nat" where "op_crfs op = unat (ppu_bf 11 3 op)"
definition op_crbd :: "u32 \<Rightarrow> nat" where "op_crbd op = unat (ppu_bf 6 5 op)"
definition op_crba :: "u32 \<Rightarrow> nat" where "op_crba op = unat (ppu_bf 11 5 op)"
definition op_crbb :: "u32 \<Rightarrow> nat" where "op_crbb op = unat (ppu_bf 16 5 op)"
definition op_crm :: "u32 \<Rightarrow> u32" where "op_crm op = ppu_bf 12 8 op"
definition op_bo :: "u32 \<Rightarrow> u32" where "op_bo op = ppu_bf 6 5 op"
definition op_bi :: "u32 \<Rightarrow> nat" where "op_bi op = unat (ppu_bf 11 5 op)"
definition op_spr :: "u32 \<Rightarrow> u32" where "op_spr op = ppu_bf 11 10 op"
definition op_mb32 :: "u32 \<Rightarrow> u32" where "op_mb32 op = ppu_bf 21 5 op"
definition op_me32 :: "u32 \<Rightarrow> u32" where "op_me32 op = ppu_bf 26 5 op"
definition op_sh32 :: "u32 \<Rightarrow> nat" where "op_sh32 op = unat (ppu_bf 16 5 op)"
definition op_oe :: "u32 \<Rightarrow> bool" where "op_oe op = (ppu_bf 21 1 op \<noteq> 0)"
definition op_rc :: "u32 \<Rightarrow> bool" where "op_rc op = (ppu_bf 31 1 op \<noteq> 0)"
definition op_lk :: "u32 \<Rightarrow> bool" where "op_lk op = (ppu_bf 31 1 op \<noteq> 0)"
definition op_aa :: "u32 \<Rightarrow> bool" where "op_aa op = (ppu_bf 30 1 op \<noteq> 0)"
definition op_l10 :: "u32 \<Rightarrow> bool" where "op_l10 op = (ppu_bf 10 1 op \<noteq> 0)"
definition op_l11 :: "u32 \<Rightarrow> bool" where "op_l11 op = (ppu_bf 11 1 op \<noteq> 0)"

text \<open>
  The signed 16-bit immediate is an \<^verbatim>\<open>s32\<close> that every use extends to 64 bits; \<open>op_simm16\<close> is
  that extension and \<open>op_simm16_32\<close> the 32-bit value itself.
\<close>

definition op_uimm16 :: "u32 \<Rightarrow> u32" where "op_uimm16 op = ppu_bf 16 16 op"
definition op_simm16_32 :: "u32 \<Rightarrow> u32" where "op_simm16_32 op = ppu_bf_signed 16 16 op"
definition op_simm16 :: "u32 \<Rightarrow> u64" where "op_simm16 op = scast (op_simm16_32 op)"

text \<open>Concatenated fields (\<^verbatim>\<open>cf_t\<close>): six-bit shift counts and mask bounds, and branch displacements.\<close>

definition op_sh64 :: "u32 \<Rightarrow> u32" where
  "op_sh64 op = push_bit 5 (ppu_bf 30 1 op) OR ppu_bf 16 5 op"
definition op_mbe64 :: "u32 \<Rightarrow> u32" where
  "op_mbe64 op = push_bit 5 (ppu_bf 26 1 op) OR ppu_bf 21 5 op"
definition op_bt14 :: "u32 \<Rightarrow> u32" where
  "op_bt14 op = push_bit 2 (ppu_bf_signed 16 14 op) OR 0"
definition op_bt24 :: "u32 \<Rightarrow> u32" where
  "op_bt24 op = push_bit 2 (ppu_bf_signed 6 24 op) OR 0"

lemma unat_ppu_bf: "N + I \<le> 32 \<Longrightarrow> unat (ppu_bf I N op) < 2 ^ N"
proof -
  assume "N + I \<le> 32"
  then have "ppu_bf I N op = take_bit N (drop_bit (32 - N - I) op)"
    by (simp add: ppu_bf_def bf_extract_take)
  then show ?thesis by (simp add: unsigned_take_bit_eq take_bit_nat_less_exp)
qed

lemma op_reg_bounds:
  "op_rd op < 32" "op_rs op < 32" "op_ra op < 32" "op_rb op < 32" "op_crbd op < 32"
  "op_crba op < 32" "op_crbb op < 32" "op_bi op < 32" "op_sh32 op < 32" "op_crfd op < 8"
  "op_crfs op < 8" "op_vd op < 32" "op_vs op < 32" "op_frd op < 32" "op_frs op < 32"
  using unat_ppu_bf [of 5 6 op] unat_ppu_bf [of 5 11 op] unat_ppu_bf [of 5 16 op]
    unat_ppu_bf [of 3 6 op] unat_ppu_bf [of 3 11 op]
  by (simp_all add: op_rd_def op_rs_def op_ra_def op_rb_def op_crbd_def op_crba_def op_crbb_def
      op_bi_def op_sh32_def op_crfd_def op_crfs_def op_vd_def op_vs_def op_frd_def op_frs_def)

section \<open>Rotate masks\<close>

definition ppu_rotate_mask :: "u32 \<Rightarrow> u32 \<Rightarrow> u64" where
  "ppu_rotate_mask mb me =
     (let mask = push_bit (unat (NOT (me - mb) AND 63)) (NOT 0)
      in drop_bit (unat (mb AND 63)) mask OR push_bit (unat ((64 - mb) AND 63)) mask)"

text \<open>
  The mask of the Power ISA: bits \<open>mb\<close> to \<open>me\<close>, numbered from the most significant one, wrapping
  around when \<open>mb\<close> exceeds \<open>me\<close>.
\<close>

definition isa_mask :: "nat \<Rightarrow> nat \<Rightarrow> nat \<Rightarrow> bool" where
  "isa_mask mb me i = (if mb \<le> me then mb \<le> i \<and> i \<le> me else mb \<le> i \<or> i \<le> me)"

lemma unat_and_63: "unat ((x :: u32) AND 63) = unat x mod 64"
proof -
  have "x AND 63 = take_bit 6 x" using take_bit_eq_mask [of 6 x] by (simp add: mask_eq_decr_exp)
  then show ?thesis by (simp add: unsigned_take_bit_eq take_bit_nat_def)
qed

lemma ppu_rotate_mask_counts:
  assumes "mb < 64" "me < 64"
  shows "unat (NOT (of_nat me - of_nat mb :: u32) AND 63) = (63 + mb - me) mod 64"
    "unat ((64 - of_nat mb :: u32) AND 63) = (64 - mb) mod 64"
    "unat (of_nat mb AND 63 :: u32) = mb"
proof -
  have e: "NOT (of_nat me - of_nat mb :: u32) = of_nat (63 + mb - me) - 64"
    using assms by (simp add: not_eq_complement of_nat_diff)
  have s: "unat ((x - 64 :: u32) AND 63) = unat (x AND 63)" for x :: u32
  proof -
    have "(x - 64) AND 63 = take_bit 6 (x - 64)" "x AND 63 = take_bit 6 x"
      using take_bit_eq_mask [of 6 "x - 64"] take_bit_eq_mask [of 6 x]
      by (simp_all add: mask_eq_decr_exp)
    moreover have "take_bit 6 (x - 64) = take_bit 6 x"
      by transfer (simp, simp add: take_bit_eq_mod)
    ultimately show ?thesis by simp
  qed
  have w: "unat (of_nat n :: u32) = n" if "n < 256" for n
    using that by (simp add: unat_of_nat)
  show "unat (NOT (of_nat me - of_nat mb :: u32) AND 63) = (63 + mb - me) mod 64"
    by (subst e, subst s, subst unat_and_63, subst w) (use assms in auto)
  have "(64 - of_nat mb :: u32) = of_nat (64 - mb)" using assms by (simp add: of_nat_diff)
  then show "unat ((64 - of_nat mb :: u32) AND 63) = (64 - mb) mod 64"
    unfolding unat_and_63 using assms by (subst w [symmetric]) simp_all
  show "unat (of_nat mb AND 63 :: u32) = mb"
    unfolding unat_and_63 using assms by (subst w) auto
qed

lemma bit_ppu_rotate_mask:
  assumes "mb < 64" "me < 64" "i < 64"
  shows "bit (ppu_rotate_mask (of_nat mb) (of_nat me)) (63 - i) \<longleftrightarrow> isa_mask mb me i"
proof -
  define c where "c = (63 + mb - me) mod 64"
  define d where "d = (64 - mb) mod 64"
  have c: "c = (if mb \<le> me then 63 + mb - me else mb - me - 1)"
    using assms by (auto simp: c_def mod_if)
  have d: "d = (if mb = 0 then 0 else 64 - mb)" using assms by (auto simp: d_def)
  have "bit (ppu_rotate_mask (of_nat mb) (of_nat me)) (63 - i) \<longleftrightarrow>
      (c \<le> mb + (63 - i) \<and> mb + (63 - i) < 64) \<or> (d \<le> 63 - i \<and> c \<le> 63 - i - d)"
    unfolding ppu_rotate_mask_def ppu_rotate_mask_counts [OF assms(1,2)] Let_def
      c_def [symmetric] d_def [symmetric]
    by (auto simp: bit_or_iff bit_drop_bit_eq bit_push_bit_iff bit_not_iff bit_mask_iff)
  then show ?thesis using assms unfolding c d isa_mask_def by (auto split: if_splits)
qed

end
