(* ===== verification/Ppu_Machine.thy ===== *)
theory Ppu_Machine
  imports Ppu_Opcode
begin

text \<open>
  The state the PPU interpreter works on: the registers of \<^verbatim>\<open>ppu_thread\<close>
  (\<^verbatim>\<open>Emu/Cell/PPUThread.h\<close>), guest memory as a map from 32-bit addresses to bytes, and the helpers of
  \<^verbatim>\<open>Emu/Cell/PPUInterpreter.cpp\<close> that read and write them. Guest memory is big-endian; an access
  past the end of the address space continues at address 0, because the host mapping of guest memory
  is followed by its mirror. An exception thrown by the interpreter is the left value of a sum.
\<close>

section \<open>State\<close>

type_synonym u128 = "128 word"

record ppu =
  gpr_of :: "nat \<Rightarrow> u64"
  fpr_of :: "nat \<Rightarrow> u64"
  vr_of :: "nat \<Rightarrow> u128"
  cr_of :: "nat \<Rightarrow> u8"
  lr_of :: u64
  ctr_of :: u64
  vrsave_of :: u32
  cia_of :: u32
  xer_so :: bool
  xer_ov :: bool
  xer_ca :: bool
  xer_cnt :: u8
  raddr_of :: u32
  rdata_of :: "u8 list"
  use_full_rdata :: bool
  res_cached_of :: u32
  stopping :: bool
  exec_bytes_of :: u64
  memory :: "u32 \<Rightarrow> u8"
  timebase :: u64
  feed_data :: bool
  reservation_updates :: "u32 list"

text \<open>
  Floating-point registers hold bit patterns. \<open>stopping\<close> is whether any bit of \<^verbatim>\<open>ppu.state\<close> is set,
  \<open>timebase\<close> what \<^verbatim>\<open>get_timebased_time\<close> returns to the instruction, and \<open>feed_data\<close> whether the
  interpreter was built with \<^verbatim>\<open>use_feed_data\<close>. \<open>reservation_updates\<close> records the calls of
  \<^verbatim>\<open>vm::reservation_update\<close>.
\<close>

datatype ppu_exc =
    Narrowing u64
  | Unknown_spr u32
  | Unimplemented string
  | Invalid_form string u32
  | Illegal_opcode u32

type_synonym 'a res = "ppu_exc + 'a"

fun bind_res :: "'a res \<Rightarrow> ('a \<Rightarrow> 'b res) \<Rightarrow> 'b res" where
  "bind_res (Inl e) f = Inl e"
| "bind_res (Inr x) f = f x"

lemma bind_res_Inr [simp]: "bind_res m f = Inr y \<longleftrightarrow> (\<exists>x. m = Inr x \<and> f x = Inr y)"
  by (cases m) auto

definition put_gpr :: "nat \<Rightarrow> u64 \<Rightarrow> ppu \<Rightarrow> ppu" where
  "put_gpr r v s = s\<lparr>gpr_of := (gpr_of s)(r := v)\<rparr>"

definition put_fpr :: "nat \<Rightarrow> u64 \<Rightarrow> ppu \<Rightarrow> ppu" where
  "put_fpr r v s = s\<lparr>fpr_of := (fpr_of s)(r := v)\<rparr>"

definition put_vr :: "nat \<Rightarrow> u128 \<Rightarrow> ppu \<Rightarrow> ppu" where
  "put_vr r v s = s\<lparr>vr_of := (vr_of s)(r := v)\<rparr>"

definition put_cr :: "nat \<Rightarrow> u8 \<Rightarrow> ppu \<Rightarrow> ppu" where
  "put_cr i v s = s\<lparr>cr_of := (cr_of s)(i := v)\<rparr>"

section \<open>Condition register and flags\<close>

definition ppu_cr_set :: "nat \<Rightarrow> bool \<Rightarrow> bool \<Rightarrow> bool \<Rightarrow> bool \<Rightarrow> ppu \<Rightarrow> ppu" where
  "ppu_cr_set field le gt eq so s =
     put_cr (field * 4 + 3) (of_bool so)
    (put_cr (field * 4 + 2) (of_bool eq)
    (put_cr (field * 4 + 1) (of_bool gt)
    (put_cr (field * 4 + 0) (of_bool le) s)))"

text \<open>The comparison writes a field from two operands of the same type, signed or unsigned.\<close>

definition ppu_cr_set_s :: "nat \<Rightarrow> 'a::len word \<Rightarrow> 'a word \<Rightarrow> ppu \<Rightarrow> ppu" where
  "ppu_cr_set_s field a b s =
     ppu_cr_set field (sint a < sint b) (sint b < sint a) (a = b) (xer_so s) s"

definition ppu_cr_set_u :: "nat \<Rightarrow> 'a::len word \<Rightarrow> 'a word \<Rightarrow> ppu \<Rightarrow> ppu" where
  "ppu_cr_set_u field a b s = ppu_cr_set field (a < b) (b < a) (a = b) (xer_so s) s"

text \<open>What every instruction does with the flag \<^verbatim>\<open>has_rc\<close>: compare the 64-bit result with zero.\<close>

definition cr_rc :: "bool \<Rightarrow> u64 \<Rightarrow> ppu \<Rightarrow> ppu" where
  "cr_rc rc x s = (if rc then ppu_cr_set_s 0 x 0 s else s)"

definition ppu_ov_set :: "bool \<Rightarrow> ppu \<Rightarrow> ppu" where
  "ppu_ov_set b s = s\<lparr>xer_ov := b, xer_so := xer_so s \<or> b\<rparr>"

definition cr_pack :: "(nat \<Rightarrow> u8) \<Rightarrow> u32" where
  "cr_pack bits = fold (\<lambda>i r. push_bit 1 r OR ucast (bits i)) [0..<32] 0"

definition cr_unpack :: "u32 \<Rightarrow> nat \<Rightarrow> u8" where
  "cr_unpack v = fst (fold (\<lambda>i (bits, value).
     (bits(i := of_bool (value AND push_bit 31 1 \<noteq> 0)), push_bit 1 value)) [0..<32] ((\<lambda>_. 0), v))"

section \<open>Integer arithmetic\<close>

definition dup32 :: "u32 \<Rightarrow> u64" where
  "dup32 x = ucast x OR push_bit 32 (ucast x)"

definition add_flags :: "u64 \<Rightarrow> u64 \<Rightarrow> u64 \<times> bool" where
  "add_flags a b = (a + b, a + b < a)"

definition add_flags_c :: "u64 \<Rightarrow> u64 \<Rightarrow> bool \<Rightarrow> u64 \<times> bool" where
  "add_flags_c a b c =
     (let (result, carry) = add_flags a b;
          (result', carry') = add_flags result (of_bool c)
      in (result', carry \<or> carry'))"

definition umulh64 :: "u64 \<Rightarrow> u64 \<Rightarrow> u64" where
  "umulh64 x y = ucast (drop_bit 64 (ucast x * ucast y :: u128))"

definition mulh64 :: "u64 \<Rightarrow> u64 \<Rightarrow> u64" where
  "mulh64 x y = ucast (signed_drop_bit 64 (scast x * scast y :: u128))"

definition sar :: "'a::len word \<Rightarrow> nat \<Rightarrow> 'a word" where
  "sar x n = signed_drop_bit n x"

definition rotl :: "'a::len word \<Rightarrow> nat \<Rightarrow> 'a word" where
  "rotl x n = word_rotl n x"

fun clz_bits :: "nat \<Rightarrow> 'a::len word \<Rightarrow> nat" where
  "clz_bits 0 x = 0"
| "clz_bits (Suc n) x = (if bit x n then 0 else Suc (clz_bits n x))"

definition countl_zero :: "'a::len word \<Rightarrow> nat" where
  "countl_zero x = clz_bits LENGTH('a) x"

section \<open>Memory\<close>

definition vm_cast :: "u64 \<Rightarrow> u32 res" where
  "vm_cast addr = (if ucast (ucast addr :: u32) = addr then Inr (ucast addr) else Inl (Narrowing addr))"

definition load_bytes :: "(u32 \<Rightarrow> u8) \<Rightarrow> u32 \<Rightarrow> nat \<Rightarrow> u8 list" where
  "load_bytes m a n = map (\<lambda>i. m (a + of_nat i)) [0..<n]"

definition store_bytes :: "u32 \<Rightarrow> u8 list \<Rightarrow> (u32 \<Rightarrow> u8) \<Rightarrow> u32 \<Rightarrow> u8" where
  "store_bytes a bs m = (\<lambda>x. if unat (x - a) < length bs then bs ! unat (x - a) else m x)"

definition bytes_of_be :: "u8 list \<Rightarrow> 'a::len word" where
  "bytes_of_be bs = foldl (\<lambda>w b. push_bit 8 w OR ucast b) 0 bs"

definition be_bytes :: "nat \<Rightarrow> 'a::len word \<Rightarrow> u8 list" where
  "be_bytes n w = map (\<lambda>i. ucast (drop_bit (8 * (n - 1 - i)) w)) [0..<n]"

text \<open>
  \<^verbatim>\<open>ppu_feed_data\<close> reads \<open>n\<close> bytes; when the thread holds a reservation with full data on a line that
  the access touches and the bytes differ from the reserved ones, the reservation is dropped.
\<close>

definition reservation_differs :: "nat \<Rightarrow> u64 \<Rightarrow> u8 list \<Rightarrow> ppu \<Rightarrow> bool" where
  "reservation_differs n addr value s =
     (let raddr = ucast (raddr_of s) :: u64;
          last_byte = addr + of_nat n - 1
      in if raddr div 128 < addr div 128 \<or> last_byte div 128 < raddr div 128 then False
         else if n = 1 \<or> addr div 128 = last_byte div 128
         then value \<noteq> take n (drop (unat (addr AND 127)) (rdata_of s))
         else let (src, size, offs) =
            (if raddr div 128 = addr div 128
             then (drop (unat (addr AND 127)) (rdata_of s), min (128 - unat (addr mod 128)) n, 0)
             else (rdata_of s, unat ((addr + of_nat n) mod 128),
                   n - unat ((addr + of_nat n) mod 128)))
          in take size (drop offs value) \<noteq> take size src)"

definition ppu_feed_data :: "nat \<Rightarrow> u64 \<Rightarrow> ppu \<Rightarrow> (u8 list \<times> ppu) res" where
  "ppu_feed_data n addr s = bind_res (vm_cast addr) (\<lambda>a.
     let value = load_bytes (memory s) a n
     in Inr (value,
          if feed_data s \<and> use_full_rdata s \<and> reservation_differs n addr value s
          then s\<lparr>raddr_of := 0, res_cached_of := 0\<rparr> else s))"

text \<open>The typed loads and stores, by width.\<close>

definition feed_be :: "nat \<Rightarrow> u64 \<Rightarrow> ppu \<Rightarrow> ('a::len word \<times> ppu) res" where
  "feed_be n addr s = bind_res (ppu_feed_data n addr s) (\<lambda>(bs, s'). Inr (bytes_of_be bs, s'))"

definition feed_le :: "nat \<Rightarrow> u64 \<Rightarrow> ppu \<Rightarrow> ('a::len word \<times> ppu) res" where
  "feed_le n addr s = bind_res (ppu_feed_data n addr s) (\<lambda>(bs, s'). Inr (bytes_of_be (rev bs), s'))"

definition ppu_write :: "u64 \<Rightarrow> u8 list \<Rightarrow> ppu \<Rightarrow> ppu res" where
  "ppu_write addr bs s = bind_res (vm_cast addr) (\<lambda>a. Inr (s\<lparr>memory := store_bytes a bs (memory s)\<rparr>))"

end
