(* ===== verification/Ppu_Alu.thy ===== *)
theory Ppu_Alu
  imports Ppu_Machine
begin

text \<open>
  The fixed-point instructions of the PPU interpreter (\<^verbatim>\<open>Emu/Cell/PPUInterpreter.cpp\<close>): arithmetic with
  carry and overflow, logic, rotates and shifts, comparisons, and the moves between registers. An
  instruction is a function of the opcode word and the state; the flags \<open>oe\<close> and \<open>rc\<close> are the template
  arguments \<^verbatim>\<open>has_oe\<close> and \<^verbatim>\<open>has_rc\<close> it is instantiated with.
\<close>

section \<open>Immediate arithmetic\<close>

definition ppu_MULLI :: "u32 \<Rightarrow> ppu \<Rightarrow> ppu" where
  "ppu_MULLI op s = put_gpr (op_rd op) (gpr_of s (op_ra op) * op_simm16 op) s"

definition ppu_SUBFIC :: "u32 \<Rightarrow> ppu \<Rightarrow> ppu" where
  "ppu_SUBFIC op s =
     (let a = gpr_of s (op_ra op); r = add_flags_c (NOT a) (op_simm16 op) True
      in (put_gpr (op_rd op) (fst r) s)\<lparr>xer_ca := snd r\<rparr>)"

definition ppu_CMPLI :: "u32 \<Rightarrow> ppu \<Rightarrow> ppu" where
  "ppu_CMPLI op s =
     (if op_l10 op then ppu_cr_set_u (op_crfd op) (gpr_of s (op_ra op)) (ucast (op_uimm16 op)) s
      else ppu_cr_set_u (op_crfd op) (ucast (gpr_of s (op_ra op)) :: u32) (op_uimm16 op) s)"

definition ppu_CMPI :: "u32 \<Rightarrow> ppu \<Rightarrow> ppu" where
  "ppu_CMPI op s =
     (if op_l10 op then ppu_cr_set_s (op_crfd op) (gpr_of s (op_ra op)) (op_simm16 op) s
      else ppu_cr_set_s (op_crfd op) (ucast (gpr_of s (op_ra op)) :: u32) (op_simm16_32 op) s)"

definition ppu_ADDIC :: "u32 \<Rightarrow> ppu \<Rightarrow> ppu" where
  "ppu_ADDIC op s =
     (let r = add_flags (gpr_of s (op_ra op)) (op_simm16 op);
          s1 = (put_gpr (op_rd op) (fst r) s)\<lparr>xer_ca := snd r\<rparr>
      in if odd (op_main op) then ppu_cr_set_s 0 (fst r) 0 s1 else s1)"

definition ppu_ADDI :: "u32 \<Rightarrow> ppu \<Rightarrow> ppu" where
  "ppu_ADDI op s = put_gpr (op_rd op)
     (if op_ra op \<noteq> 0 then gpr_of s (op_ra op) + op_simm16 op else op_simm16 op) s"

definition ppu_ADDIS :: "u32 \<Rightarrow> ppu \<Rightarrow> ppu" where
  "ppu_ADDIS op s = put_gpr (op_rd op)
     (if op_ra op \<noteq> 0 then gpr_of s (op_ra op) + scast (op_simm16_32 op * 65536)
      else scast (op_simm16_32 op * 65536)) s"

section \<open>Register arithmetic\<close>

definition sign64 :: "u64 \<Rightarrow> u64" where
  "sign64 x = drop_bit 63 x"

definition ppu_SUBFC :: "bool \<Rightarrow> bool \<Rightarrow> u32 \<Rightarrow> ppu \<Rightarrow> ppu" where
  "ppu_SUBFC oe rc op s =
     (let RA = gpr_of s (op_ra op); RB = gpr_of s (op_rb op);
          r = add_flags_c (NOT RA) RB True;
          s1 = (put_gpr (op_rd op) (fst r) s)\<lparr>xer_ca := snd r\<rparr>;
          s2 = (if oe then ppu_ov_set (sign64 (NOT RA) = sign64 RB
                  \<and> sign64 (NOT RA) \<noteq> sign64 (gpr_of s1 (op_rd op))) s1 else s1)
      in cr_rc rc (fst r) s2)"

definition ppu_MULHDU :: "bool \<Rightarrow> u32 \<Rightarrow> ppu \<Rightarrow> ppu" where
  "ppu_MULHDU rc op s =
     (let v = umulh64 (gpr_of s (op_ra op)) (gpr_of s (op_rb op))
      in cr_rc rc v (put_gpr (op_rd op) v s))"

definition ppu_ADDC :: "bool \<Rightarrow> bool \<Rightarrow> u32 \<Rightarrow> ppu \<Rightarrow> ppu" where
  "ppu_ADDC oe rc op s =
     (let RA = gpr_of s (op_ra op); RB = gpr_of s (op_rb op);
          r = add_flags RA RB;
          s1 = (put_gpr (op_rd op) (fst r) s)\<lparr>xer_ca := snd r\<rparr>;
          s2 = (if oe then ppu_ov_set (sign64 RA = sign64 RB
                  \<and> sign64 RA \<noteq> sign64 (gpr_of s1 (op_rd op))) s1 else s1)
      in cr_rc rc (fst r) s2)"

definition ppu_MULHWU :: "bool \<Rightarrow> u32 \<Rightarrow> ppu \<Rightarrow> ppu" where
  "ppu_MULHWU rc op s =
     (let a = ucast (gpr_of s (op_ra op)) :: u32; b = ucast (gpr_of s (op_rb op)) :: u32;
          v = drop_bit 32 (ucast a * ucast b) :: u64
      in cr_rc rc v (put_gpr (op_rd op) v s))"

definition ppu_SUBF :: "bool \<Rightarrow> bool \<Rightarrow> u32 \<Rightarrow> ppu \<Rightarrow> ppu" where
  "ppu_SUBF oe rc op s =
     (let RA = gpr_of s (op_ra op); RB = gpr_of s (op_rb op);
          s1 = put_gpr (op_rd op) (RB - RA) s;
          s2 = (if oe then ppu_ov_set (sign64 (NOT RA) = sign64 RB
                  \<and> sign64 (NOT RA) \<noteq> sign64 (gpr_of s1 (op_rd op))) s1 else s1)
      in cr_rc rc (gpr_of s2 (op_rd op)) s2)"

definition ppu_MULHD :: "bool \<Rightarrow> u32 \<Rightarrow> ppu \<Rightarrow> ppu" where
  "ppu_MULHD rc op s =
     (let v = mulh64 (gpr_of s (op_ra op)) (gpr_of s (op_rb op))
      in cr_rc rc v (put_gpr (op_rd op) v s))"

definition ppu_MULHW :: "bool \<Rightarrow> u32 \<Rightarrow> ppu \<Rightarrow> ppu" where
  "ppu_MULHW rc op s =
     (let a = ucast (gpr_of s (op_ra op)) :: u32; b = ucast (gpr_of s (op_rb op)) :: u32;
          v = sar (scast a * scast b) 32 :: u64
      in cr_rc rc v (put_gpr (op_rd op) v s))"

definition ppu_NEG :: "bool \<Rightarrow> bool \<Rightarrow> u32 \<Rightarrow> ppu \<Rightarrow> ppu" where
  "ppu_NEG oe rc op s =
     (let RA = gpr_of s (op_ra op);
          s1 = put_gpr (op_rd op) (0 - RA) s;
          s2 = (if oe then ppu_ov_set (RA = push_bit 63 1) s1 else s1)
      in cr_rc rc (gpr_of s2 (op_rd op)) s2)"

definition ppu_SUBFE :: "bool \<Rightarrow> bool \<Rightarrow> u32 \<Rightarrow> ppu \<Rightarrow> ppu" where
  "ppu_SUBFE oe rc op s =
     (let RA = gpr_of s (op_ra op); RB = gpr_of s (op_rb op);
          r = add_flags_c (NOT RA) RB (xer_ca s);
          s1 = (put_gpr (op_rd op) (fst r) s)\<lparr>xer_ca := snd r\<rparr>;
          s2 = (if oe then ppu_ov_set (sign64 (NOT RA) = sign64 RB
                  \<and> sign64 (NOT RA) \<noteq> sign64 (gpr_of s1 (op_rd op))) s1 else s1)
      in cr_rc rc (fst r) s2)"

definition ppu_ADDE :: "bool \<Rightarrow> bool \<Rightarrow> u32 \<Rightarrow> ppu \<Rightarrow> ppu" where
  "ppu_ADDE oe rc op s =
     (let RA = gpr_of s (op_ra op); RB = gpr_of s (op_rb op);
          r = add_flags_c RA RB (xer_ca s);
          s1 = (put_gpr (op_rd op) (fst r) s)\<lparr>xer_ca := snd r\<rparr>;
          s2 = (if oe then ppu_ov_set (sign64 RA = sign64 RB
                  \<and> sign64 RA \<noteq> sign64 (gpr_of s1 (op_rd op))) s1 else s1)
      in cr_rc rc (fst r) s2)"

definition ppu_SUBFZE :: "bool \<Rightarrow> bool \<Rightarrow> u32 \<Rightarrow> ppu \<Rightarrow> ppu" where
  "ppu_SUBFZE oe rc op s =
     (let RA = gpr_of s (op_ra op);
          r = add_flags_c (NOT RA) 0 (xer_ca s);
          s1 = (put_gpr (op_rd op) (fst r) s)\<lparr>xer_ca := snd r\<rparr>;
          s2 = (if oe then ppu_ov_set (sign64 (NOT RA) = 0
                  \<and> sign64 (NOT RA) \<noteq> sign64 (gpr_of s1 (op_rd op))) s1 else s1)
      in cr_rc rc (fst r) s2)"

definition ppu_ADDZE :: "bool \<Rightarrow> bool \<Rightarrow> u32 \<Rightarrow> ppu \<Rightarrow> ppu" where
  "ppu_ADDZE oe rc op s =
     (let RA = gpr_of s (op_ra op);
          r = add_flags_c RA 0 (xer_ca s);
          s1 = (put_gpr (op_rd op) (fst r) s)\<lparr>xer_ca := snd r\<rparr>;
          s2 = (if oe then ppu_ov_set (sign64 RA = 0
                  \<and> sign64 RA \<noteq> sign64 (gpr_of s1 (op_rd op))) s1 else s1)
      in cr_rc rc (fst r) s2)"

text \<open>\<^verbatim>\<open>MULLD\<close> tests the \<open>OE\<close> bit of the opcode itself.\<close>

definition ppu_MULLD :: "bool \<Rightarrow> u32 \<Rightarrow> ppu \<Rightarrow> ppu" where
  "ppu_MULLD rc op s =
     (let RA = gpr_of s (op_ra op); RB = gpr_of s (op_rb op);
          s1 = put_gpr (op_rd op) (RA * RB) s;
          s2 = (if op_oe op then ppu_ov_set (mulh64 RA RB \<noteq> sar (gpr_of s1 (op_rd op)) 63) s1 else s1)
      in cr_rc rc (gpr_of s2 (op_rd op)) s2)"

definition ppu_SUBFME :: "bool \<Rightarrow> bool \<Rightarrow> u32 \<Rightarrow> ppu \<Rightarrow> ppu" where
  "ppu_SUBFME oe rc op s =
     (let RA = gpr_of s (op_ra op);
          r = add_flags_c (NOT RA) (NOT 0) (xer_ca s);
          s1 = (put_gpr (op_rd op) (fst r) s)\<lparr>xer_ca := snd r\<rparr>;
          s2 = (if oe then ppu_ov_set (sign64 (NOT RA) = 1
                  \<and> sign64 (NOT RA) \<noteq> sign64 (gpr_of s1 (op_rd op))) s1 else s1)
      in cr_rc rc (fst r) s2)"

definition ppu_ADDME :: "bool \<Rightarrow> bool \<Rightarrow> u32 \<Rightarrow> ppu \<Rightarrow> ppu" where
  "ppu_ADDME oe rc op s =
     (let RA = gpr_of s (op_ra op);
          r = add_flags_c RA (NOT 0) (xer_ca s);
          s1 = (put_gpr (op_rd op) (fst r) s)\<lparr>xer_ca := snd r\<rparr>;
          s2 = (if oe then ppu_ov_set (sign64 RA = 1
                  \<and> sign64 RA \<noteq> sign64 (gpr_of s1 (op_rd op))) s1 else s1)
      in cr_rc rc (fst r) s2)"

definition ppu_MULLW :: "bool \<Rightarrow> bool \<Rightarrow> u32 \<Rightarrow> ppu \<Rightarrow> ppu" where
  "ppu_MULLW oe rc op s =
     (let v = scast (ucast (gpr_of s (op_ra op)) :: u32) * scast (ucast (gpr_of s (op_rb op)) :: u32);
          s1 = put_gpr (op_rd op) v s;
          s2 = (if oe then ppu_ov_set (sint (gpr_of s1 (op_rd op)) < - (2 ^ 31)
                  \<or> 2 ^ 31 - 1 < sint (gpr_of s1 (op_rd op))) s1 else s1)
      in cr_rc rc (gpr_of s2 (op_rd op)) s2)"

definition ppu_ADD :: "bool \<Rightarrow> bool \<Rightarrow> u32 \<Rightarrow> ppu \<Rightarrow> ppu" where
  "ppu_ADD oe rc op s =
     (let RA = gpr_of s (op_ra op); RB = gpr_of s (op_rb op);
          s1 = put_gpr (op_rd op) (RA + RB) s;
          s2 = (if oe then ppu_ov_set (sign64 RA = sign64 RB
                  \<and> sign64 RA \<noteq> sign64 (gpr_of s1 (op_rd op))) s1 else s1)
      in cr_rc rc (gpr_of s2 (op_rd op)) s2)"

text \<open>Division: signed operands divide towards zero.\<close>

definition tdiv :: "int \<Rightarrow> int \<Rightarrow> int" where
  "tdiv a b = sgn a * sgn b * (\<bar>a\<bar> div \<bar>b\<bar>)"

definition ppu_DIVDU :: "bool \<Rightarrow> bool \<Rightarrow> u32 \<Rightarrow> ppu \<Rightarrow> ppu" where
  "ppu_DIVDU oe rc op s =
     (let RA = gpr_of s (op_ra op); RB = gpr_of s (op_rb op);
          s1 = put_gpr (op_rd op) (if RB = 0 then 0 else RA div RB) s;
          s2 = (if oe then ppu_ov_set (RB = 0) s1 else s1)
      in cr_rc rc (gpr_of s2 (op_rd op)) s2)"

definition ppu_DIVWU :: "bool \<Rightarrow> bool \<Rightarrow> u32 \<Rightarrow> ppu \<Rightarrow> ppu" where
  "ppu_DIVWU oe rc op s =
     (let RA = ucast (gpr_of s (op_ra op)) :: u32; RB = ucast (gpr_of s (op_rb op)) :: u32;
          s1 = put_gpr (op_rd op) (if RB = 0 then 0 else ucast (RA div RB)) s;
          s2 = (if oe then ppu_ov_set (RB = 0) s1 else s1)
      in cr_rc rc (gpr_of s2 (op_rd op)) s2)"

definition ppu_DIVD :: "bool \<Rightarrow> bool \<Rightarrow> u32 \<Rightarrow> ppu \<Rightarrow> ppu" where
  "ppu_DIVD oe rc op s =
     (let RA = sint (gpr_of s (op_ra op)); RB = sint (gpr_of s (op_rb op));
          ovf = (RB = 0 \<or> RA = - (2 ^ 63) \<and> RB = -1);
          s1 = put_gpr (op_rd op) (if ovf then 0 else word_of_int (tdiv RA RB)) s;
          s2 = (if oe then ppu_ov_set ovf s1 else s1)
      in cr_rc rc (gpr_of s2 (op_rd op)) s2)"

definition ppu_DIVW :: "bool \<Rightarrow> bool \<Rightarrow> u32 \<Rightarrow> ppu \<Rightarrow> ppu" where
  "ppu_DIVW oe rc op s =
     (let RA = sint (ucast (gpr_of s (op_ra op)) :: u32);
          RB = sint (ucast (gpr_of s (op_rb op)) :: u32);
          ovf = (RB = 0 \<or> RA = - (2 ^ 31) \<and> RB = -1);
          s1 = put_gpr (op_rd op) (if ovf then 0 else ucast (word_of_int (tdiv RA RB) :: u32)) s;
          s2 = (if oe then ppu_ov_set ovf s1 else s1)
      in cr_rc rc (gpr_of s2 (op_rd op)) s2)"

section \<open>Logic\<close>

definition ppu_ORI :: "u32 \<Rightarrow> ppu \<Rightarrow> ppu" where
  "ppu_ORI op s = put_gpr (op_ra op) (gpr_of s (op_rs op) OR ucast (op_uimm16 op)) s"

definition ppu_ORIS :: "u32 \<Rightarrow> ppu \<Rightarrow> ppu" where
  "ppu_ORIS op s = put_gpr (op_ra op) (gpr_of s (op_rs op) OR push_bit 16 (ucast (op_uimm16 op))) s"

definition ppu_XORI :: "u32 \<Rightarrow> ppu \<Rightarrow> ppu" where
  "ppu_XORI op s = put_gpr (op_ra op) (gpr_of s (op_rs op) XOR ucast (op_uimm16 op)) s"

definition ppu_XORIS :: "u32 \<Rightarrow> ppu \<Rightarrow> ppu" where
  "ppu_XORIS op s = put_gpr (op_ra op) (gpr_of s (op_rs op) XOR push_bit 16 (ucast (op_uimm16 op))) s"

definition ppu_ANDI :: "u32 \<Rightarrow> ppu \<Rightarrow> ppu" where
  "ppu_ANDI op s =
     (let v = gpr_of s (op_rs op) AND ucast (op_uimm16 op)
      in ppu_cr_set_s 0 v 0 (put_gpr (op_ra op) v s))"

definition ppu_ANDIS :: "u32 \<Rightarrow> ppu \<Rightarrow> ppu" where
  "ppu_ANDIS op s =
     (let v = gpr_of s (op_rs op) AND push_bit 16 (ucast (op_uimm16 op))
      in ppu_cr_set_s 0 v 0 (put_gpr (op_ra op) v s))"

definition ppu_AND :: "bool \<Rightarrow> u32 \<Rightarrow> ppu \<Rightarrow> ppu" where
  "ppu_AND rc op s =
     (let v = gpr_of s (op_rs op) AND gpr_of s (op_rb op)
      in cr_rc rc v (put_gpr (op_ra op) v s))"

definition ppu_ANDC :: "bool \<Rightarrow> u32 \<Rightarrow> ppu \<Rightarrow> ppu" where
  "ppu_ANDC rc op s =
     (let v = gpr_of s (op_rs op) AND NOT (gpr_of s (op_rb op))
      in cr_rc rc v (put_gpr (op_ra op) v s))"

definition ppu_NOR :: "bool \<Rightarrow> u32 \<Rightarrow> ppu \<Rightarrow> ppu" where
  "ppu_NOR rc op s =
     (let v = NOT (gpr_of s (op_rs op) OR gpr_of s (op_rb op))
      in cr_rc rc v (put_gpr (op_ra op) v s))"

definition ppu_EQV :: "bool \<Rightarrow> u32 \<Rightarrow> ppu \<Rightarrow> ppu" where
  "ppu_EQV rc op s =
     (let v = NOT (gpr_of s (op_rs op) XOR gpr_of s (op_rb op))
      in cr_rc rc v (put_gpr (op_ra op) v s))"

definition ppu_XOR :: "bool \<Rightarrow> u32 \<Rightarrow> ppu \<Rightarrow> ppu" where
  "ppu_XOR rc op s =
     (let v = gpr_of s (op_rs op) XOR gpr_of s (op_rb op)
      in cr_rc rc v (put_gpr (op_ra op) v s))"

definition ppu_ORC :: "bool \<Rightarrow> u32 \<Rightarrow> ppu \<Rightarrow> ppu" where
  "ppu_ORC rc op s =
     (let v = gpr_of s (op_rs op) OR NOT (gpr_of s (op_rb op))
      in cr_rc rc v (put_gpr (op_ra op) v s))"

definition ppu_OR :: "bool \<Rightarrow> u32 \<Rightarrow> ppu \<Rightarrow> ppu" where
  "ppu_OR rc op s =
     (let v = gpr_of s (op_rs op) OR gpr_of s (op_rb op)
      in cr_rc rc v (put_gpr (op_ra op) v s))"

definition ppu_NAND :: "bool \<Rightarrow> u32 \<Rightarrow> ppu \<Rightarrow> ppu" where
  "ppu_NAND rc op s =
     (let v = NOT (gpr_of s (op_rs op) AND gpr_of s (op_rb op))
      in cr_rc rc v (put_gpr (op_ra op) v s))"

definition ppu_CNTLZW :: "bool \<Rightarrow> u32 \<Rightarrow> ppu \<Rightarrow> ppu" where
  "ppu_CNTLZW rc op s =
     (let v = of_nat (countl_zero (ucast (gpr_of s (op_rs op)) :: u32))
      in cr_rc rc v (put_gpr (op_ra op) v s))"

definition ppu_CNTLZD :: "bool \<Rightarrow> u32 \<Rightarrow> ppu \<Rightarrow> ppu" where
  "ppu_CNTLZD rc op s =
     (let v = of_nat (countl_zero (gpr_of s (op_rs op)))
      in cr_rc rc v (put_gpr (op_ra op) v s))"

definition ppu_EXTSH :: "bool \<Rightarrow> u32 \<Rightarrow> ppu \<Rightarrow> ppu" where
  "ppu_EXTSH rc op s =
     (let v = scast (ucast (gpr_of s (op_rs op)) :: u16)
      in cr_rc rc v (put_gpr (op_ra op) v s))"

definition ppu_EXTSB :: "bool \<Rightarrow> u32 \<Rightarrow> ppu \<Rightarrow> ppu" where
  "ppu_EXTSB rc op s =
     (let v = scast (ucast (gpr_of s (op_rs op)) :: u8)
      in cr_rc rc v (put_gpr (op_ra op) v s))"

definition ppu_EXTSW :: "bool \<Rightarrow> u32 \<Rightarrow> ppu \<Rightarrow> ppu" where
  "ppu_EXTSW rc op s =
     (let v = scast (ucast (gpr_of s (op_rs op)) :: u32)
      in cr_rc rc v (put_gpr (op_ra op) v s))"

section \<open>Rotates and shifts\<close>

definition ppu_RLWIMI :: "bool \<Rightarrow> u32 \<Rightarrow> ppu \<Rightarrow> ppu" where
  "ppu_RLWIMI rc op s =
     (let m = ppu_rotate_mask (32 + op_mb32 op) (32 + op_me32 op);
          v = (gpr_of s (op_ra op) AND NOT m)
              OR (dup32 (rotl (ucast (gpr_of s (op_rs op))) (op_sh32 op)) AND m)
      in cr_rc rc v (put_gpr (op_ra op) v s))"

definition ppu_RLWINM :: "bool \<Rightarrow> u32 \<Rightarrow> ppu \<Rightarrow> ppu" where
  "ppu_RLWINM rc op s =
     (let v = dup32 (rotl (ucast (gpr_of s (op_rs op))) (op_sh32 op))
            AND ppu_rotate_mask (32 + op_mb32 op) (32 + op_me32 op)
      in cr_rc rc v (put_gpr (op_ra op) v s))"

definition ppu_RLWNM :: "bool \<Rightarrow> u32 \<Rightarrow> ppu \<Rightarrow> ppu" where
  "ppu_RLWNM rc op s =
     (let v = dup32 (rotl (ucast (gpr_of s (op_rs op))) (unat (gpr_of s (op_rb op) AND 0x1f)))
            AND ppu_rotate_mask (32 + op_mb32 op) (32 + op_me32 op)
      in cr_rc rc v (put_gpr (op_ra op) v s))"

definition ppu_RLDICL :: "bool \<Rightarrow> u32 \<Rightarrow> ppu \<Rightarrow> ppu" where
  "ppu_RLDICL rc op s =
     (let v = rotl (gpr_of s (op_rs op)) (unat (op_sh64 op)) AND drop_bit (unat (op_mbe64 op)) (NOT 0)
      in cr_rc rc v (put_gpr (op_ra op) v s))"

definition ppu_RLDICR :: "bool \<Rightarrow> u32 \<Rightarrow> ppu \<Rightarrow> ppu" where
  "ppu_RLDICR rc op s =
     (let v = rotl (gpr_of s (op_rs op)) (unat (op_sh64 op)) AND push_bit (unat (op_mbe64 op XOR 63)) (NOT 0)
      in cr_rc rc v (put_gpr (op_ra op) v s))"

definition ppu_RLDIC :: "bool \<Rightarrow> u32 \<Rightarrow> ppu \<Rightarrow> ppu" where
  "ppu_RLDIC rc op s =
     (let v = rotl (gpr_of s (op_rs op)) (unat (op_sh64 op))
            AND ppu_rotate_mask (op_mbe64 op) (op_sh64 op XOR 63)
      in cr_rc rc v (put_gpr (op_ra op) v s))"

definition ppu_RLDIMI :: "bool \<Rightarrow> u32 \<Rightarrow> ppu \<Rightarrow> ppu" where
  "ppu_RLDIMI rc op s =
     (let m = ppu_rotate_mask (op_mbe64 op) (op_sh64 op XOR 63);
          v = (gpr_of s (op_ra op) AND NOT m) OR (rotl (gpr_of s (op_rs op)) (unat (op_sh64 op)) AND m)
      in cr_rc rc v (put_gpr (op_ra op) v s))"

definition ppu_RLDCL :: "bool \<Rightarrow> u32 \<Rightarrow> ppu \<Rightarrow> ppu" where
  "ppu_RLDCL rc op s =
     (let v = rotl (gpr_of s (op_rs op)) (unat (gpr_of s (op_rb op) AND 0x3f)) AND drop_bit (unat (op_mbe64 op)) (NOT 0)
      in cr_rc rc v (put_gpr (op_ra op) v s))"

definition ppu_RLDCR :: "bool \<Rightarrow> u32 \<Rightarrow> ppu \<Rightarrow> ppu" where
  "ppu_RLDCR rc op s =
     (let v = rotl (gpr_of s (op_rs op)) (unat (gpr_of s (op_rb op) AND 0x3f))
            AND push_bit (unat (op_mbe64 op XOR 63)) (NOT 0)
      in cr_rc rc v (put_gpr (op_ra op) v s))"

definition ppu_SLW :: "bool \<Rightarrow> u32 \<Rightarrow> ppu \<Rightarrow> ppu" where
  "ppu_SLW rc op s =
     (let v = ucast (ucast (push_bit (unat (gpr_of s (op_rb op) AND 0x3f)) (gpr_of s (op_rs op))) :: u32)
      in cr_rc rc v (put_gpr (op_ra op) v s))"

definition ppu_SLD :: "bool \<Rightarrow> u32 \<Rightarrow> ppu \<Rightarrow> ppu" where
  "ppu_SLD rc op s =
     (let v = (let n = gpr_of s (op_rb op) AND 0x7f
             in if n AND 0x40 \<noteq> 0 then 0 else push_bit (unat n) (gpr_of s (op_rs op)))
      in cr_rc rc v (put_gpr (op_ra op) v s))"

definition ppu_SRW :: "bool \<Rightarrow> u32 \<Rightarrow> ppu \<Rightarrow> ppu" where
  "ppu_SRW rc op s =
     (let v = drop_bit (unat (gpr_of s (op_rb op) AND 0x3f)) (gpr_of s (op_rs op) AND 0xffffffff)
      in cr_rc rc v (put_gpr (op_ra op) v s))"

definition ppu_SRD :: "bool \<Rightarrow> u32 \<Rightarrow> ppu \<Rightarrow> ppu" where
  "ppu_SRD rc op s =
     (let v = (let n = gpr_of s (op_rb op) AND 0x7f
             in if n AND 0x40 \<noteq> 0 then 0 else drop_bit (unat n) (gpr_of s (op_rs op)))
      in cr_rc rc v (put_gpr (op_ra op) v s))"

definition ppu_SRAW :: "bool \<Rightarrow> u32 \<Rightarrow> ppu \<Rightarrow> ppu" where
  "ppu_SRAW rc op s =
     (let RS = ucast (gpr_of s (op_rs op)) :: u32;
          shift = unat (gpr_of s (op_rb op) AND 63);
          v = (if 31 < shift then 0 - of_bool (sint RS < 0) else scast (sar RS shift));
          ca = (if 31 < shift then sint RS < 0
                else sint RS < 0 \<and> push_bit shift v \<noteq> scast RS)
      in cr_rc rc v ((put_gpr (op_ra op) v s)\<lparr>xer_ca := ca\<rparr>))"

definition ppu_SRAD :: "bool \<Rightarrow> u32 \<Rightarrow> ppu \<Rightarrow> ppu" where
  "ppu_SRAD rc op s =
     (let RS = gpr_of s (op_rs op);
          shift = unat (gpr_of s (op_rb op) AND 127);
          v = (if 63 < shift then 0 - of_bool (sint RS < 0) else sar RS shift);
          ca = (if 63 < shift then sint RS < 0 else sint RS < 0 \<and> push_bit shift v \<noteq> RS)
      in cr_rc rc v ((put_gpr (op_ra op) v s)\<lparr>xer_ca := ca\<rparr>))"

definition ppu_SRAWI :: "bool \<Rightarrow> u32 \<Rightarrow> ppu \<Rightarrow> ppu" where
  "ppu_SRAWI rc op s =
     (let RS = ucast (gpr_of s (op_rs op)) :: u32;
          v = scast (sar RS (op_sh32 op)) :: u64;
          ca = (sint RS < 0 \<and> ucast (push_bit (op_sh32 op) v) \<noteq> RS)
      in cr_rc rc v ((put_gpr (op_ra op) v s)\<lparr>xer_ca := ca\<rparr>))"

definition ppu_SRADI :: "bool \<Rightarrow> u32 \<Rightarrow> ppu \<Rightarrow> ppu" where
  "ppu_SRADI rc op s =
     (let sh = unat (op_sh64 op); RS = gpr_of s (op_rs op);
          v = sar RS sh;
          ca = (sint RS < 0 \<and> push_bit sh v \<noteq> RS)
      in cr_rc rc v ((put_gpr (op_ra op) v s)\<lparr>xer_ca := ca\<rparr>))"

section \<open>Comparisons and the condition register\<close>

definition ppu_CMP :: "u32 \<Rightarrow> ppu \<Rightarrow> ppu" where
  "ppu_CMP op s =
     (if op_l10 op then ppu_cr_set_s (op_crfd op) (gpr_of s (op_ra op)) (gpr_of s (op_rb op)) s
      else ppu_cr_set_s (op_crfd op) (ucast (gpr_of s (op_ra op)) :: u32)
             (ucast (gpr_of s (op_rb op))) s)"

definition ppu_CMPL :: "u32 \<Rightarrow> ppu \<Rightarrow> ppu" where
  "ppu_CMPL op s =
     (if op_l10 op then ppu_cr_set_u (op_crfd op) (gpr_of s (op_ra op)) (gpr_of s (op_rb op)) s
      else ppu_cr_set_u (op_crfd op) (ucast (gpr_of s (op_ra op)) :: u32)
             (ucast (gpr_of s (op_rb op))) s)"

definition cr_copy_field :: "nat \<Rightarrow> (nat \<Rightarrow> u8) \<Rightarrow> ppu \<Rightarrow> ppu" where
  "cr_copy_field field v s =
     put_cr (field * 4 + 3) (v 3) (put_cr (field * 4 + 2) (v 2)
    (put_cr (field * 4 + 1) (v 1) (put_cr (field * 4) (v 0) s)))"

definition ppu_MCRF :: "u32 \<Rightarrow> ppu \<Rightarrow> ppu" where
  "ppu_MCRF op s = cr_copy_field (op_crfd op) (\<lambda>i. cr_of s (op_crfs op * 4 + i)) s"

definition ppu_CRNOR :: "u32 \<Rightarrow> ppu \<Rightarrow> ppu" where
  "ppu_CRNOR op s = put_cr (op_crbd op) ((cr_of s (op_crba op) OR cr_of s (op_crbb op)) XOR 1) s"

definition ppu_CRANDC :: "u32 \<Rightarrow> ppu \<Rightarrow> ppu" where
  "ppu_CRANDC op s = put_cr (op_crbd op) (cr_of s (op_crba op) AND (cr_of s (op_crbb op) XOR 1)) s"

definition ppu_CRXOR :: "u32 \<Rightarrow> ppu \<Rightarrow> ppu" where
  "ppu_CRXOR op s = put_cr (op_crbd op) (cr_of s (op_crba op) XOR cr_of s (op_crbb op)) s"

definition ppu_CRNAND :: "u32 \<Rightarrow> ppu \<Rightarrow> ppu" where
  "ppu_CRNAND op s = put_cr (op_crbd op) ((cr_of s (op_crba op) AND cr_of s (op_crbb op)) XOR 1) s"

definition ppu_CRAND :: "u32 \<Rightarrow> ppu \<Rightarrow> ppu" where
  "ppu_CRAND op s = put_cr (op_crbd op) (cr_of s (op_crba op) AND cr_of s (op_crbb op)) s"

definition ppu_CREQV :: "u32 \<Rightarrow> ppu \<Rightarrow> ppu" where
  "ppu_CREQV op s = put_cr (op_crbd op) ((cr_of s (op_crba op) XOR cr_of s (op_crbb op)) XOR 1) s"

definition ppu_CRORC :: "u32 \<Rightarrow> ppu \<Rightarrow> ppu" where
  "ppu_CRORC op s = put_cr (op_crbd op) (cr_of s (op_crba op) OR (cr_of s (op_crbb op) XOR 1)) s"

definition ppu_CROR :: "u32 \<Rightarrow> ppu \<Rightarrow> ppu" where
  "ppu_CROR op s = put_cr (op_crbd op) (cr_of s (op_crba op) OR cr_of s (op_crbb op)) s"

text \<open>
  \<^verbatim>\<open>MFOCRF\<close> is compiled once per field \<open>n\<close>. \<^verbatim>\<open>MFCR\<close> packs the bytes on one path with vector instructions
  (the sign bits of the bytes of each half shifted left by 7 within 64-bit lanes) and with
  \<^verbatim>\<open>cr.pack()\<close> on the other.
\<close>

definition ppu_MFOCRF :: "nat \<Rightarrow> u32 \<Rightarrow> ppu \<Rightarrow> ppu" where
  "ppu_MFOCRF n op s =
     (let p = n * 4;
          v = push_bit 3 (ucast (cr_of s p)) OR push_bit 2 (ucast (cr_of s (p + 1)))
              OR push_bit 1 (ucast (cr_of s (p + 2))) OR push_bit 0 (ucast (cr_of s (p + 3))) :: u32
      in put_gpr (op_rd op) (ucast (push_bit (p XOR 0x1c) v)) s)"

definition ppu_MFCR :: "u32 \<Rightarrow> ppu \<Rightarrow> ppu" where
  "ppu_MFCR op s = put_gpr (op_rd op) (ucast (cr_pack (cr_of s))) s"

definition movemask_sll7 :: "(nat \<Rightarrow> u8) \<Rightarrow> nat \<Rightarrow> u32" where
  "movemask_sll7 bits base =
     (let lane = bytes_of_be (map (\<lambda>i. bits (base + i)) [0..<16]) :: u128;
          shifted = word_cat (push_bit 7 (ucast (drop_bit 64 lane)) :: u64)
                             (push_bit 7 (ucast lane) :: u64) :: u128
      in fold (\<lambda>i r. r OR push_bit i (of_bool (bit shifted (8 * i + 7)))) [0..<16] 0)"

definition ppu_MFCR_x64 :: "u32 \<Rightarrow> ppu \<Rightarrow> ppu" where
  "ppu_MFCR_x64 op s = put_gpr (op_rd op)
     (ucast (push_bit 16 (movemask_sll7 (cr_of s) 0) OR movemask_sll7 (cr_of s) 16)) s"

definition s_table :: "u64 \<Rightarrow> nat \<Rightarrow> u8" where
  "s_table v i = of_bool (bit v (3 - i))"

definition ppu_MTOCRF :: "u32 \<Rightarrow> ppu \<Rightarrow> ppu" where
  "ppu_MTOCRF op s =
     (let r = gpr_of s (op_rs op) in
      if op_l11 op then
        (let n = countl_zero (op_crm op) mod 8;
             v = drop_bit ((n * 4) XOR 0x1c) r AND 0xf
         in cr_copy_field n (s_table v) s)
      else
        fold (\<lambda>i s. if op_crm op AND drop_bit i 128 \<noteq> 0
                     then cr_copy_field i (s_table (drop_bit ((i * 4) XOR 0x1c) r AND 0xf)) s
                     else s) [0..<8] s)"

section \<open>Special registers\<close>

definition spr_of :: "u32 \<Rightarrow> u32" where
  "spr_of op = drop_bit 5 (op_spr op) OR push_bit 5 (op_spr op AND 0x1f)"

definition ppu_MFSPR :: "u32 \<Rightarrow> ppu \<Rightarrow> ppu res" where
  "ppu_MFSPR op s =
     (let n = spr_of op in
      if n = 0x001 then Inr (put_gpr (op_rd op)
        (ucast (push_bit 31 (of_bool (xer_so s)) OR push_bit 30 (of_bool (xer_ov s))
          OR push_bit 29 (of_bool (xer_ca s)) OR ucast (xer_cnt s) :: u32)) s)
      else if n = 0x008 then Inr (put_gpr (op_rd op) (lr_of s) s)
      else if n = 0x009 then Inr (put_gpr (op_rd op) (ctr_of s) s)
      else if n = 0x100 then Inr (put_gpr (op_rd op) (ucast (vrsave_of s)) s)
      else if n = 0x10C then Inr (put_gpr (op_rd op) (timebase s) s)
      else if n = 0x10D then Inr (put_gpr (op_rd op) (drop_bit 32 (timebase s)) s)
      else Inl (Unknown_spr n))"

definition ppu_MFTB :: "u32 \<Rightarrow> ppu \<Rightarrow> ppu res" where
  "ppu_MFTB op s =
     (let n = spr_of op in
      if n = 0x10C then Inr (put_gpr (op_rd op) (timebase s) s)
      else if n = 0x10D then Inr (put_gpr (op_rd op) (drop_bit 32 (timebase s)) s)
      else Inl (Unknown_spr n))"

definition ppu_MTSPR :: "u32 \<Rightarrow> ppu \<Rightarrow> ppu res" where
  "ppu_MTSPR op s =
     (let n = spr_of op; v = gpr_of s (op_rs op) in
      if n = 0x001 then Inr (s\<lparr>xer_so := v AND 0x80000000 \<noteq> 0, xer_ov := v AND 0x40000000 \<noteq> 0,
        xer_ca := v AND 0x20000000 \<noteq> 0, xer_cnt := ucast (v AND 0x7f)\<rparr>)
      else if n = 0x008 then Inr (s\<lparr>lr_of := v\<rparr>)
      else if n = 0x009 then Inr (s\<lparr>ctr_of := v\<rparr>)
      else if n = 0x100 then Inr (s\<lparr>vrsave_of := ucast v\<rparr>)
      else Inl (Unknown_spr n))"

end
