(* ===== verification/Ppu_Mem.thy ===== *)
theory Ppu_Mem
  imports Ppu_Machine
begin

text \<open>
  The loads and stores of the PPU interpreter (\<^verbatim>\<open>Emu/Cell/PPUInterpreter.cpp\<close>): scalar accesses of every
  width, byte-reversed accesses, the string and multiple-word instructions with their loops, and the
  vector accesses including the unaligned left and right halves. Every one computes a 64-bit effective
  address and fails when it does not fit in 32 bits (\<^verbatim>\<open>vm::cast\<close>).
\<close>

section \<open>Effective addresses\<close>

definition ea_x :: "u32 \<Rightarrow> ppu \<Rightarrow> u64" where
  "ea_x op s = (if op_ra op \<noteq> 0 then gpr_of s (op_ra op) + gpr_of s (op_rb op)
                else gpr_of s (op_rb op))"

definition ea_ux :: "u32 \<Rightarrow> ppu \<Rightarrow> u64" where
  "ea_ux op s = gpr_of s (op_ra op) + gpr_of s (op_rb op)"

definition ea_d :: "u32 \<Rightarrow> ppu \<Rightarrow> u64" where
  "ea_d op s = gpr_of s (op_ra op) + op_simm16 op"

definition ea_d0 :: "u32 \<Rightarrow> ppu \<Rightarrow> u64" where
  "ea_d0 op s = (if op_ra op \<noteq> 0 then gpr_of s (op_ra op) + op_simm16 op else op_simm16 op)"

definition ea_ds :: "u32 \<Rightarrow> ppu \<Rightarrow> u64" where
  "ea_ds op s = (op_simm16 op AND NOT 3) + (if op_ra op \<noteq> 0 then gpr_of s (op_ra op) else 0)"

definition ea_dsu :: "u32 \<Rightarrow> ppu \<Rightarrow> u64" where
  "ea_dsu op s = gpr_of s (op_ra op) + (op_simm16 op AND NOT 3)"

text \<open>Loads that test the register \<open>RA\<close> with \<^verbatim>\<open>op.ra || 1\<close> use \<open>ea_d\<close>: the test always succeeds.\<close>

section \<open>Scalar loads\<close>

definition ppu_LDX :: "u32 \<Rightarrow> ppu \<Rightarrow> ppu res" where
  "ppu_LDX op s =
     (let addr = ea_x op s
      in bind_res (feed_be 8 addr s) (\<lambda>(v :: u64, s'). Inr (put_gpr (op_rd op) v s')))"

definition ppu_LWZX :: "u32 \<Rightarrow> ppu \<Rightarrow> ppu res" where
  "ppu_LWZX op s =
     (let addr = ea_x op s
      in bind_res (feed_be 4 addr s) (\<lambda>(v :: u32, s'). Inr (put_gpr (op_rd op) (ucast v) s')))"

definition ppu_LDUX :: "u32 \<Rightarrow> ppu \<Rightarrow> ppu res" where
  "ppu_LDUX op s =
     (let addr = ea_ux op s
      in bind_res (feed_be 8 addr s) (\<lambda>(v :: u64, s'). Inr (put_gpr (op_ra op) addr (put_gpr (op_rd op) v s'))))"

definition ppu_LWZUX :: "u32 \<Rightarrow> ppu \<Rightarrow> ppu res" where
  "ppu_LWZUX op s =
     (let addr = ea_ux op s
      in bind_res (feed_be 4 addr s) (\<lambda>(v :: u32, s'). Inr (put_gpr (op_ra op) addr (put_gpr (op_rd op) (ucast v) s'))))"

definition ppu_LBZX :: "u32 \<Rightarrow> ppu \<Rightarrow> ppu res" where
  "ppu_LBZX op s =
     (let addr = ea_x op s
      in bind_res (feed_be 1 addr s) (\<lambda>(v :: u8, s'). Inr (put_gpr (op_rd op) (ucast v) s')))"

definition ppu_LBZUX :: "u32 \<Rightarrow> ppu \<Rightarrow> ppu res" where
  "ppu_LBZUX op s =
     (let addr = ea_ux op s
      in bind_res (feed_be 1 addr s) (\<lambda>(v :: u8, s'). Inr (put_gpr (op_ra op) addr (put_gpr (op_rd op) (ucast v) s'))))"

definition ppu_LHZX :: "u32 \<Rightarrow> ppu \<Rightarrow> ppu res" where
  "ppu_LHZX op s =
     (let addr = ea_x op s
      in bind_res (feed_be 2 addr s) (\<lambda>(v :: u16, s'). Inr (put_gpr (op_rd op) (ucast v) s')))"

definition ppu_LHZUX :: "u32 \<Rightarrow> ppu \<Rightarrow> ppu res" where
  "ppu_LHZUX op s =
     (let addr = ea_x op s
      in bind_res (feed_be 2 addr s) (\<lambda>(v :: u16, s'). Inr (put_gpr (op_ra op) addr (put_gpr (op_rd op) (ucast v) s'))))"

definition ppu_LWAX :: "u32 \<Rightarrow> ppu \<Rightarrow> ppu res" where
  "ppu_LWAX op s =
     (let addr = ea_x op s
      in bind_res (feed_be 4 addr s) (\<lambda>(v :: u32, s'). Inr (put_gpr (op_rd op) (scast v) s')))"

definition ppu_LHAX :: "u32 \<Rightarrow> ppu \<Rightarrow> ppu res" where
  "ppu_LHAX op s =
     (let addr = ea_x op s
      in bind_res (feed_be 2 addr s) (\<lambda>(v :: u16, s'). Inr (put_gpr (op_rd op) (scast v) s')))"

definition ppu_LWAUX :: "u32 \<Rightarrow> ppu \<Rightarrow> ppu res" where
  "ppu_LWAUX op s =
     (let addr = ea_x op s
      in bind_res (feed_be 4 addr s) (\<lambda>(v :: u32, s'). Inr (put_gpr (op_ra op) addr (put_gpr (op_rd op) (scast v) s'))))"

definition ppu_LHAUX :: "u32 \<Rightarrow> ppu \<Rightarrow> ppu res" where
  "ppu_LHAUX op s =
     (let addr = ea_x op s
      in bind_res (feed_be 2 addr s) (\<lambda>(v :: u16, s'). Inr (put_gpr (op_ra op) addr (put_gpr (op_rd op) (scast v) s'))))"

definition ppu_LDBRX :: "u32 \<Rightarrow> ppu \<Rightarrow> ppu res" where
  "ppu_LDBRX op s =
     (let addr = ea_x op s
      in bind_res (feed_le 8 addr s) (\<lambda>(v :: u64, s'). Inr (put_gpr (op_rd op) v s')))"

definition ppu_LWBRX :: "u32 \<Rightarrow> ppu \<Rightarrow> ppu res" where
  "ppu_LWBRX op s =
     (let addr = ea_x op s
      in bind_res (feed_le 4 addr s) (\<lambda>(v :: u32, s'). Inr (put_gpr (op_rd op) (ucast v) s')))"

definition ppu_LHBRX :: "u32 \<Rightarrow> ppu \<Rightarrow> ppu res" where
  "ppu_LHBRX op s =
     (let addr = ea_x op s
      in bind_res (feed_le 2 addr s) (\<lambda>(v :: u16, s'). Inr (put_gpr (op_rd op) (ucast v) s')))"

definition ppu_LWZ :: "u32 \<Rightarrow> ppu \<Rightarrow> ppu res" where
  "ppu_LWZ op s =
     (let addr = ea_d op s
      in bind_res (feed_be 4 addr s) (\<lambda>(v :: u32, s'). Inr (put_gpr (op_rd op) (ucast v) s')))"

definition ppu_LWZU :: "u32 \<Rightarrow> ppu \<Rightarrow> ppu res" where
  "ppu_LWZU op s =
     (let addr = ea_d op s
      in bind_res (feed_be 4 addr s) (\<lambda>(v :: u32, s'). Inr (put_gpr (op_ra op) addr (put_gpr (op_rd op) (ucast v) s'))))"

definition ppu_LBZ :: "u32 \<Rightarrow> ppu \<Rightarrow> ppu res" where
  "ppu_LBZ op s =
     (let addr = ea_d op s
      in bind_res (feed_be 1 addr s) (\<lambda>(v :: u8, s'). Inr (put_gpr (op_rd op) (ucast v) s')))"

definition ppu_LBZU :: "u32 \<Rightarrow> ppu \<Rightarrow> ppu res" where
  "ppu_LBZU op s =
     (let addr = ea_d op s
      in bind_res (feed_be 1 addr s) (\<lambda>(v :: u8, s'). Inr (put_gpr (op_ra op) addr (put_gpr (op_rd op) (ucast v) s'))))"

definition ppu_LHZ :: "u32 \<Rightarrow> ppu \<Rightarrow> ppu res" where
  "ppu_LHZ op s =
     (let addr = ea_d op s
      in bind_res (feed_be 2 addr s) (\<lambda>(v :: u16, s'). Inr (put_gpr (op_rd op) (ucast v) s')))"

definition ppu_LHZU :: "u32 \<Rightarrow> ppu \<Rightarrow> ppu res" where
  "ppu_LHZU op s =
     (let addr = ea_d op s
      in bind_res (feed_be 2 addr s) (\<lambda>(v :: u16, s'). Inr (put_gpr (op_ra op) addr (put_gpr (op_rd op) (ucast v) s'))))"

definition ppu_LHA :: "u32 \<Rightarrow> ppu \<Rightarrow> ppu res" where
  "ppu_LHA op s =
     (let addr = ea_d op s
      in bind_res (feed_be 2 addr s) (\<lambda>(v :: u16, s'). Inr (put_gpr (op_rd op) (scast v) s')))"

definition ppu_LHAU :: "u32 \<Rightarrow> ppu \<Rightarrow> ppu res" where
  "ppu_LHAU op s =
     (let addr = ea_d op s
      in bind_res (feed_be 2 addr s) (\<lambda>(v :: u16, s'). Inr (put_gpr (op_ra op) addr (put_gpr (op_rd op) (scast v) s'))))"

definition ppu_LD :: "u32 \<Rightarrow> ppu \<Rightarrow> ppu res" where
  "ppu_LD op s =
     (let addr = ea_ds op s
      in bind_res (feed_be 8 addr s) (\<lambda>(v :: u64, s'). Inr (put_gpr (op_rd op) v s')))"

definition ppu_LDU :: "u32 \<Rightarrow> ppu \<Rightarrow> ppu res" where
  "ppu_LDU op s =
     (let addr = ea_dsu op s
      in bind_res (feed_be 8 addr s) (\<lambda>(v :: u64, s'). Inr (put_gpr (op_ra op) addr (put_gpr (op_rd op) v s'))))"

definition ppu_LWA :: "u32 \<Rightarrow> ppu \<Rightarrow> ppu res" where
  "ppu_LWA op s =
     (let addr = ea_ds op s
      in bind_res (feed_be 4 addr s) (\<lambda>(v :: u32, s'). Inr (put_gpr (op_rd op) (scast v) s')))"

definition ppu_LFDX :: "u32 \<Rightarrow> ppu \<Rightarrow> ppu res" where
  "ppu_LFDX op s =
     (let addr = ea_x op s
      in bind_res (feed_be 8 addr s) (\<lambda>(v :: u64, s'). Inr (put_fpr (op_frd op) v s')))"

definition ppu_LFDUX :: "u32 \<Rightarrow> ppu \<Rightarrow> ppu res" where
  "ppu_LFDUX op s =
     (let addr = ea_ux op s
      in bind_res (feed_be 8 addr s) (\<lambda>(v :: u64, s'). Inr (put_gpr (op_ra op) addr (put_fpr (op_frd op) v s'))))"

definition ppu_LFD :: "u32 \<Rightarrow> ppu \<Rightarrow> ppu res" where
  "ppu_LFD op s =
     (let addr = ea_d op s
      in bind_res (feed_be 8 addr s) (\<lambda>(v :: u64, s'). Inr (put_fpr (op_frd op) v s')))"

definition ppu_LFDU :: "u32 \<Rightarrow> ppu \<Rightarrow> ppu res" where
  "ppu_LFDU op s =
     (let addr = ea_d op s
      in bind_res (feed_be 8 addr s) (\<lambda>(v :: u64, s'). Inr (put_gpr (op_ra op) addr (put_fpr (op_frd op) v s'))))"

section \<open>Scalar stores\<close>

definition ppu_STDX :: "u32 \<Rightarrow> ppu \<Rightarrow> ppu res" where
  "ppu_STDX op s = ppu_write (ea_x op s) (be_bytes 8 (gpr_of s (op_rs op))) s"

definition ppu_STWX :: "u32 \<Rightarrow> ppu \<Rightarrow> ppu res" where
  "ppu_STWX op s = ppu_write (ea_x op s) (be_bytes 4 (ucast (gpr_of s (op_rs op)) :: u32)) s"

definition ppu_STDUX :: "u32 \<Rightarrow> ppu \<Rightarrow> ppu res" where
  "ppu_STDUX op s =
     (let addr = ea_ux op s
      in bind_res (ppu_write addr (be_bytes 8 (gpr_of s (op_rs op))) s)
           (\<lambda>s'. Inr (put_gpr (op_ra op) addr s')))"

definition ppu_STWUX :: "u32 \<Rightarrow> ppu \<Rightarrow> ppu res" where
  "ppu_STWUX op s =
     (let addr = ea_ux op s
      in bind_res (ppu_write addr (be_bytes 4 (ucast (gpr_of s (op_rs op)) :: u32)) s)
           (\<lambda>s'. Inr (put_gpr (op_ra op) addr s')))"

definition ppu_STBX :: "u32 \<Rightarrow> ppu \<Rightarrow> ppu res" where
  "ppu_STBX op s = ppu_write (ea_x op s) (be_bytes 1 (ucast (gpr_of s (op_rs op)) :: u8)) s"

definition ppu_STBUX :: "u32 \<Rightarrow> ppu \<Rightarrow> ppu res" where
  "ppu_STBUX op s =
     (let addr = ea_ux op s
      in bind_res (ppu_write addr (be_bytes 1 (ucast (gpr_of s (op_rs op)) :: u8)) s)
           (\<lambda>s'. Inr (put_gpr (op_ra op) addr s')))"

definition ppu_STHX :: "u32 \<Rightarrow> ppu \<Rightarrow> ppu res" where
  "ppu_STHX op s = ppu_write (ea_x op s) (be_bytes 2 (ucast (gpr_of s (op_rs op)) :: u16)) s"

definition ppu_STHUX :: "u32 \<Rightarrow> ppu \<Rightarrow> ppu res" where
  "ppu_STHUX op s =
     (let addr = ea_ux op s
      in bind_res (ppu_write addr (be_bytes 2 (ucast (gpr_of s (op_rs op)) :: u16)) s)
           (\<lambda>s'. Inr (put_gpr (op_ra op) addr s')))"

definition ppu_STDBRX :: "u32 \<Rightarrow> ppu \<Rightarrow> ppu res" where
  "ppu_STDBRX op s = ppu_write (ea_x op s) (rev (be_bytes 8 (gpr_of s (op_rs op)))) s"

definition ppu_STWBRX :: "u32 \<Rightarrow> ppu \<Rightarrow> ppu res" where
  "ppu_STWBRX op s = ppu_write (ea_x op s) (rev (be_bytes 4 (ucast (gpr_of s (op_rs op)) :: u32))) s"

definition ppu_STHBRX :: "u32 \<Rightarrow> ppu \<Rightarrow> ppu res" where
  "ppu_STHBRX op s = ppu_write (ea_x op s) (rev (be_bytes 2 (ucast (gpr_of s (op_rs op)) :: u16))) s"

definition ppu_STWU :: "u32 \<Rightarrow> ppu \<Rightarrow> ppu res" where
  "ppu_STWU op s =
     (let addr = ea_d op s
      in bind_res (ppu_write addr (be_bytes 4 (ucast (gpr_of s (op_rs op)) :: u32)) s)
           (\<lambda>s'. Inr (put_gpr (op_ra op) addr s')))"

definition ppu_STB :: "u32 \<Rightarrow> ppu \<Rightarrow> ppu res" where
  "ppu_STB op s = ppu_write (ea_d op s) (be_bytes 1 (ucast (gpr_of s (op_rs op)) :: u8)) s"

definition ppu_STBU :: "u32 \<Rightarrow> ppu \<Rightarrow> ppu res" where
  "ppu_STBU op s =
     (let addr = ea_d op s
      in bind_res (ppu_write addr (be_bytes 1 (ucast (gpr_of s (op_rs op)) :: u8)) s)
           (\<lambda>s'. Inr (put_gpr (op_ra op) addr s')))"

definition ppu_STH :: "u32 \<Rightarrow> ppu \<Rightarrow> ppu res" where
  "ppu_STH op s = ppu_write (ea_d op s) (be_bytes 2 (ucast (gpr_of s (op_rs op)) :: u16)) s"

definition ppu_STHU :: "u32 \<Rightarrow> ppu \<Rightarrow> ppu res" where
  "ppu_STHU op s =
     (let addr = ea_d op s
      in bind_res (ppu_write addr (be_bytes 2 (ucast (gpr_of s (op_rs op)) :: u16)) s)
           (\<lambda>s'. Inr (put_gpr (op_ra op) addr s')))"

definition ppu_STD :: "u32 \<Rightarrow> ppu \<Rightarrow> ppu res" where
  "ppu_STD op s = ppu_write (ea_ds op s) (be_bytes 8 (gpr_of s (op_rs op))) s"

definition ppu_STDU :: "u32 \<Rightarrow> ppu \<Rightarrow> ppu res" where
  "ppu_STDU op s =
     (let addr = ea_dsu op s
      in bind_res (ppu_write addr (be_bytes 8 (gpr_of s (op_rs op))) s)
           (\<lambda>s'. Inr (put_gpr (op_ra op) addr s')))"

definition ppu_STFDX :: "u32 \<Rightarrow> ppu \<Rightarrow> ppu res" where
  "ppu_STFDX op s = ppu_write (ea_x op s) (be_bytes 8 (fpr_of s (op_frs op))) s"

definition ppu_STFDUX :: "u32 \<Rightarrow> ppu \<Rightarrow> ppu res" where
  "ppu_STFDUX op s =
     (let addr = ea_ux op s
      in bind_res (ppu_write addr (be_bytes 8 (fpr_of s (op_frs op))) s)
           (\<lambda>s'. Inr (put_gpr (op_ra op) addr s')))"

definition ppu_STFD :: "u32 \<Rightarrow> ppu \<Rightarrow> ppu res" where
  "ppu_STFD op s = ppu_write (ea_d op s) (be_bytes 8 (fpr_of s (op_frs op))) s"

definition ppu_STFDU :: "u32 \<Rightarrow> ppu \<Rightarrow> ppu res" where
  "ppu_STFDU op s =
     (let addr = ea_d op s
      in bind_res (ppu_write addr (be_bytes 8 (fpr_of s (op_frs op))) s)
           (\<lambda>s'. Inr (put_gpr (op_ra op) addr s')))"

definition ppu_STFIWX :: "u32 \<Rightarrow> ppu \<Rightarrow> ppu res" where
  "ppu_STFIWX op s = ppu_write (ea_x op s) (be_bytes 4 (ucast (fpr_of s (op_frs op)) :: u32)) s"

text \<open>\<^verbatim>\<open>STW\<close> also touches the reservation of the line when it stores the value 0xAAAAAAAA.\<close>

definition ppu_STW :: "u32 \<Rightarrow> ppu \<Rightarrow> ppu res" where
  "ppu_STW op s =
     (let addr = ea_d op s; value = ucast (gpr_of s (op_rs op)) :: u32
      in bind_res (ppu_write addr (be_bytes 4 value) s) (\<lambda>s'.
           if value = 0xAAAAAAAA
           then bind_res (vm_cast addr)
             (\<lambda>a. Inr (s'\<lparr>reservation_updates := reservation_updates s' @ [a]\<rparr>))
           else Inr s'))"

definition ppu_DCBZ :: "u32 \<Rightarrow> ppu \<Rightarrow> ppu res" where
  "ppu_DCBZ op s = bind_res (vm_cast (ea_x op s)) (\<lambda>a.
     Inr (s\<lparr>memory := store_bytes (a AND NOT 127) (replicate 128 0) (memory s)\<rparr>))"

section \<open>Multiple words and strings\<close>

fun lmw_loop :: "nat \<Rightarrow> nat \<Rightarrow> u64 \<Rightarrow> ppu \<Rightarrow> ppu res" where
  "lmw_loop 0 i addr s = Inr s"
| "lmw_loop (Suc n) i addr s =
     bind_res (feed_be 4 addr s) (\<lambda>(v :: u32, s'). lmw_loop n (i + 1) (addr + 4) (put_gpr i (ucast v) s'))"

definition ppu_LMW :: "u32 \<Rightarrow> ppu \<Rightarrow> ppu res" where
  "ppu_LMW op s = lmw_loop (32 - op_rd op) (op_rd op) (ea_d0 op s) s"

fun stmw_loop :: "nat \<Rightarrow> nat \<Rightarrow> u64 \<Rightarrow> ppu \<Rightarrow> ppu res" where
  "stmw_loop 0 i addr s = Inr s"
| "stmw_loop (Suc n) i addr s =
     bind_res (ppu_write addr (be_bytes 4 (ucast (gpr_of s i) :: u32)) s) (\<lambda>s'. stmw_loop n (i + 1) (addr + 4) s')"

definition ppu_STMW :: "u32 \<Rightarrow> ppu \<Rightarrow> ppu res" where
  "ppu_STMW op s = stmw_loop (32 - op_rs op) (op_rs op) (ea_d0 op s) s"

text \<open>
  \<^verbatim>\<open>LSWX\<close>: whole words while at least four bytes are left, then a last partial word assembled from
  the most significant byte down.
\<close>

function lswx_words :: "nat \<Rightarrow> u64 \<Rightarrow> nat \<Rightarrow> ppu \<Rightarrow> (nat \<times> u64 \<times> nat \<times> ppu) res" where
  "lswx_words cnt addr rd s =
     (if 4 \<le> cnt
      then bind_res (feed_be 4 addr s) (\<lambda>(v :: u32, s').
             lswx_words (cnt - 4) (addr + 4) ((rd + 1) mod 32) (put_gpr rd (ucast v) s'))
      else Inr (cnt, addr, rd, s))"
  by pat_completeness auto
termination by (relation "measure (\<lambda>(cnt, _). cnt)") auto

fun lswx_bytes :: "nat \<Rightarrow> nat \<Rightarrow> u64 \<Rightarrow> u32 \<Rightarrow> ppu \<Rightarrow> (u32 \<times> ppu) res" where
  "lswx_bytes 0 byte addr value s = Inr (value, s)"
| "lswx_bytes (Suc n) byte addr value s =
     bind_res (feed_be 1 (addr + of_nat byte) s) (\<lambda>(v :: u32, s').
       lswx_bytes n (byte + 1) addr (value OR push_bit ((3 XOR byte) * 8) v) s')"

definition ppu_LSWX :: "u32 \<Rightarrow> ppu \<Rightarrow> ppu res" where
  "ppu_LSWX op s =
     bind_res (lswx_words (unat (xer_cnt s AND 0x7f)) (ea_x op s) (op_rd op) s)
       (\<lambda>(cnt, addr, rd, s').
          if cnt \<noteq> 0
          then bind_res (lswx_bytes cnt 0 addr 0 s') (\<lambda>(value, s''). Inr (put_gpr rd (ucast value) s''))
          else Inr s')"

function stswx_words :: "nat \<Rightarrow> u64 \<Rightarrow> nat \<Rightarrow> ppu \<Rightarrow> (nat \<times> u64 \<times> nat \<times> ppu) res" where
  "stswx_words cnt addr rs s =
     (if 4 \<le> cnt
      then bind_res (ppu_write addr (be_bytes 4 (ucast (gpr_of s rs) :: u32)) s) (\<lambda>s'.
             stswx_words (cnt - 4) (addr + 4) ((rs + 1) mod 32) s')
      else Inr (cnt, addr, rs, s))"
  by pat_completeness auto
termination by (relation "measure (\<lambda>(cnt, _). cnt)") auto

fun stswx_bytes :: "nat \<Rightarrow> nat \<Rightarrow> u64 \<Rightarrow> u32 \<Rightarrow> ppu \<Rightarrow> ppu res" where
  "stswx_bytes 0 byte addr value s = Inr s"
| "stswx_bytes (Suc n) byte addr value s =
     bind_res (ppu_write (addr + of_nat byte) [ucast (drop_bit ((3 XOR byte) * 8) value)] s)
       (\<lambda>s'. stswx_bytes n (byte + 1) addr value s')"

definition ppu_STSWX :: "u32 \<Rightarrow> ppu \<Rightarrow> ppu res" where
  "ppu_STSWX op s =
     bind_res (stswx_words (unat (xer_cnt s AND 0x7f)) (ea_x op s) (op_rs op) s)
       (\<lambda>(cnt, addr, rs, s').
          if cnt \<noteq> 0 then stswx_bytes cnt 0 addr (ucast (gpr_of s' rs)) s' else Inr s')"

text \<open>\<^verbatim>\<open>LSWI\<close> and \<^verbatim>\<open>STSWI\<close> take the byte count from the opcode, 32 when the field is 0.\<close>

fun lswi_tail :: "nat \<Rightarrow> nat \<Rightarrow> u64 \<Rightarrow> u32 \<Rightarrow> ppu \<Rightarrow> (u32 \<times> ppu) res" where
  "lswi_tail 0 i addr buf s = Inr (buf, s)"
| "lswi_tail (Suc n) i addr buf s =
     bind_res (feed_be 1 addr s) (\<lambda>(v :: u32, s').
       lswi_tail n (i - 1) (addr + 1) (buf OR push_bit (i * 8) v) s')"

function lswi_loop :: "nat \<Rightarrow> u64 \<Rightarrow> nat \<Rightarrow> ppu \<Rightarrow> ppu res" where
  "lswi_loop n addr reg s =
     (if n = 0 then Inr s
      else if 3 < n
      then bind_res (feed_be 4 addr s) (\<lambda>(v :: u32, s').
             lswi_loop (n - 4) (addr + 4) ((reg + 1) mod 32) (put_gpr reg (ucast v) s'))
      else bind_res (lswi_tail n 3 addr 0 s) (\<lambda>(buf, s'). Inr (put_gpr reg (ucast buf) s')))"
  by pat_completeness auto
termination by (relation "measure (\<lambda>(n, _). n)") auto

definition ppu_LSWI :: "u32 \<Rightarrow> ppu \<Rightarrow> ppu res" where
  "ppu_LSWI op s = lswi_loop (if op_rb op \<noteq> 0 then op_rb op else 32)
     (if op_ra op \<noteq> 0 then gpr_of s (op_ra op) else 0) (op_rd op) s"

fun stswi_tail :: "nat \<Rightarrow> u64 \<Rightarrow> u32 \<Rightarrow> ppu \<Rightarrow> ppu res" where
  "stswi_tail 0 addr buf s = Inr s"
| "stswi_tail (Suc n) addr buf s =
     bind_res (ppu_write addr [ucast (drop_bit 24 (0xFF000000 AND buf))] s)
       (\<lambda>s'. stswi_tail n (addr + 1) (push_bit 8 buf) s')"

function stswi_loop :: "nat \<Rightarrow> u64 \<Rightarrow> nat \<Rightarrow> ppu \<Rightarrow> ppu res" where
  "stswi_loop n addr reg s =
     (if n = 0 then Inr s
      else if 3 < n
      then bind_res (ppu_write addr (be_bytes 4 (ucast (gpr_of s reg) :: u32)) s) (\<lambda>s'.
             stswi_loop (n - 4) (addr + 4) ((reg + 1) mod 32) s')
      else stswi_tail n addr (ucast (gpr_of s reg)) s)"
  by pat_completeness auto
termination by (relation "measure (\<lambda>(n, _). n)") auto

definition ppu_STSWI :: "u32 \<Rightarrow> ppu \<Rightarrow> ppu res" where
  "ppu_STSWI op s = stswi_loop (if op_rb op \<noteq> 0 then op_rb op else 32)
     (if op_ra op \<noteq> 0 then gpr_of s (op_ra op) else 0) (op_rd op) s"

declare lswx_words.simps [simp del] stswx_words.simps [simp del] lswi_loop.simps [simp del]
  stswi_loop.simps [simp del]

section \<open>Vector accesses\<close>

text \<open>The permute controls \<^verbatim>\<open>s_lvsl_consts\<close> and \<^verbatim>\<open>s_lvsr_consts\<close>: consecutive byte numbers.\<close>

definition s_lvsl_consts :: "nat \<Rightarrow> u128" where
  "s_lvsl_consts n = bytes_of_be (map (\<lambda>i. of_nat i + of_nat n) [0..<16])"

definition s_lvsr_consts :: "nat \<Rightarrow> u128" where
  "s_lvsr_consts n = bytes_of_be (map (\<lambda>i. of_nat i + of_nat (16 - n)) [0..<16])"

definition ppu_LVSL :: "u32 \<Rightarrow> ppu \<Rightarrow> ppu" where
  "ppu_LVSL op s = put_vr (op_vd op) (s_lvsl_consts (unat (ea_x op s mod 16))) s"

definition ppu_LVSR :: "u32 \<Rightarrow> ppu \<Rightarrow> ppu" where
  "ppu_LVSR op s = put_vr (op_vd op) (s_lvsr_consts (unat (ea_x op s mod 16))) s"

definition ppu_LVEBX :: "u32 \<Rightarrow> ppu \<Rightarrow> ppu res" where
  "ppu_LVEBX op s = bind_res (feed_be 16 (ea_x op s AND NOT 0xf) s)
     (\<lambda>(v, s'). Inr (put_vr (op_vd op) v s'))"

definition ppu_LVEHX :: "u32 \<Rightarrow> ppu \<Rightarrow> ppu res" where
  "ppu_LVEHX op s = bind_res (feed_be 16 (ea_x op s AND NOT 0xf) s)
     (\<lambda>(v, s'). Inr (put_vr (op_vd op) v s'))"

definition ppu_LVEWX :: "u32 \<Rightarrow> ppu \<Rightarrow> ppu res" where
  "ppu_LVEWX op s = bind_res (feed_be 16 (ea_x op s AND NOT 0xf) s)
     (\<lambda>(v, s'). Inr (put_vr (op_vd op) v s'))"

definition ppu_LVX :: "u32 \<Rightarrow> ppu \<Rightarrow> ppu res" where
  "ppu_LVX op s = bind_res (feed_be 16 (ea_x op s AND NOT 0xf) s)
     (\<lambda>(v, s'). Inr (put_vr (op_vd op) v s'))"

definition ppu_LVXL :: "u32 \<Rightarrow> ppu \<Rightarrow> ppu res" where
  "ppu_LVXL op s = bind_res (feed_be 16 (ea_x op s AND NOT 0xf) s)
     (\<lambda>(v, s'). Inr (put_vr (op_vd op) v s'))"

definition ppu_STVX :: "u32 \<Rightarrow> ppu \<Rightarrow> ppu res" where
  "ppu_STVX op s = ppu_write (ea_x op s AND NOT 0xf) (be_bytes 16 (vr_of s (op_vs op))) s"

definition ppu_STVXL :: "u32 \<Rightarrow> ppu \<Rightarrow> ppu res" where
  "ppu_STVXL op s = ppu_write (ea_x op s AND NOT 0xf) (be_bytes 16 (vr_of s (op_vs op))) s"

definition ppu_STVEBX :: "u32 \<Rightarrow> ppu \<Rightarrow> ppu res" where
  "ppu_STVEBX op s =
     (let addr = ea_x op s; eb = unat (addr AND 0xf)
      in ppu_write addr [ucast (drop_bit (8 * (15 - eb)) (vr_of s (op_vs op)))] s)"

definition ppu_STVEHX :: "u32 \<Rightarrow> ppu \<Rightarrow> ppu res" where
  "ppu_STVEHX op s =
     (let addr = ea_x op s AND NOT 1; eb = unat (drop_bit 1 (addr AND 0xf))
      in ppu_write addr (be_bytes 2 (ucast (drop_bit (16 * (7 - eb)) (vr_of s (op_vs op))) :: u16)) s)"

definition ppu_STVEWX :: "u32 \<Rightarrow> ppu \<Rightarrow> ppu res" where
  "ppu_STVEWX op s =
     (let addr = ea_x op s AND NOT 3; eb = unat (drop_bit 2 (addr AND 0xf))
      in ppu_write addr (be_bytes 4 (ucast (drop_bit (32 * (3 - eb)) (vr_of s (op_vs op))) :: u32)) s)"

text \<open>
  The unaligned halves. \<^verbatim>\<open>LVRX\<close> reads from the address of the current instruction when the offset is
  0, where the loaded data is shifted out entirely.
\<close>

definition ppu_LVLX :: "u32 \<Rightarrow> ppu \<Rightarrow> ppu res" where
  "ppu_LVLX op s =
     (let addr = ea_x op s
      in bind_res (feed_be 16 (addr AND -16) s)
           (\<lambda>(data, s'). Inr (put_vr (op_vd op) (push_bit (unat (addr AND 15) * 8) data) s')))"

definition ppu_LVRX :: "u32 \<Rightarrow> ppu \<Rightarrow> ppu res" where
  "ppu_LVRX op s =
     (let addr = ea_x op s
      in bind_res (feed_be 16 ((if addr AND 15 = 0 then ucast (cia_of s) else addr) AND -16) s)
           (\<lambda>(data, s'). Inr (put_vr (op_vd op)
              (drop_bit 8 (drop_bit (unat (NOT addr AND 15) * 8) data)) s')))"

definition ppu_STVLX :: "u32 \<Rightarrow> ppu \<Rightarrow> ppu res" where
  "ppu_STVLX op s =
     (let addr = ea_x op s; tail = unat (addr AND 15)
      in ppu_write addr (take (16 - tail) (be_bytes 16 (vr_of s (op_vs op)))) s)"

definition ppu_STVRX :: "u32 \<Rightarrow> ppu \<Rightarrow> ppu res" where
  "ppu_STVRX op s =
     (let addr = ea_x op s; tail = unat (addr AND 15)
      in bind_res (vm_cast (addr - 16)) (\<lambda>a.
           Inr (s\<lparr>memory := store_bytes (a + of_nat (16 - tail))
             (drop (16 - tail) (be_bytes 16 (vr_of s (op_vs op)))) (memory s)\<rparr>)))"

end
