(* ===== verification/Ppu_Decode.thy ===== *)
theory Ppu_Decode
  imports Ppu_Opcode
begin

text \<open>
  The PPU instruction decoder (\<^verbatim>\<open>ppu_decoder\<close> of \<^verbatim>\<open>Emu/Cell/PPUOpcodes.h\<close>): a table of 0x20000
  handlers indexed by the rotated instruction word, filled from one list of entries per opcode group.
  A handler is named by its mnemonic, as \<^verbatim>\<open>g_ppu_iname\<close> does. The table is filled by the loops of
  \<^verbatim>\<open>fill_table\<close>; \<open>fill_table_lookup\<close> gives its contents in closed form and \<open>decode_entries\<close> reads the
  decoder as a search in the entries by the fields of the instruction.
\<close>

section \<open>The table\<close>

type_synonym instruction_info = "nat \<times> string \<times> string \<times> nat"

type_synonym ppu_table = "nat \<Rightarrow> string"

text \<open>
  An entry: the value of the extended opcode, the handlers for a clear and a set \<^verbatim>\<open>Rc\<close> bit, and the
  number of most significant bits of the field that are operands.
\<close>

definition GET :: "nat \<Rightarrow> string \<Rightarrow> nat \<Rightarrow> instruction_info" where
  "GET v name m = (v, name, name, m)"

definition GETRC :: "nat \<Rightarrow> string \<Rightarrow> nat \<Rightarrow> instruction_info" where
  "GETRC v name m = (v, name, name @ ''_'', m)"

definition ppu_decode :: "u32 \<Rightarrow> u32" where
  "ppu_decode inst = (drop_bit 26 inst OR push_bit 6 inst) AND 0x1ffff"

definition table_set :: "nat \<Rightarrow> nat \<Rightarrow> string \<Rightarrow> string \<Rightarrow> ppu_table \<Rightarrow> ppu_table" where
  "table_set main_op k ptr0 ptr_rc T =
     T(push_bit 6 k OR main_op := if k AND 1 \<noteq> 0 then ptr_rc else ptr0)"

definition entry_keys :: "nat \<Rightarrow> nat \<Rightarrow> nat \<Rightarrow> nat \<Rightarrow> nat list" where
  "entry_keys cnt sh v m =
     [push_bit sh (push_bit (cnt - m) i OR v) OR j.
        i \<leftarrow> [0..<2 ^ (m + (11 - sh - cnt))], j \<leftarrow> [0..<2 ^ sh]]"

definition fill_entry :: "nat \<Rightarrow> nat \<Rightarrow> nat \<Rightarrow> instruction_info \<Rightarrow> ppu_table \<Rightarrow> ppu_table" where
  "fill_entry main_op cnt sh e T =
     (case e of (v, ptr0, ptr_rc, m) \<Rightarrow>
        fold (\<lambda>k T. table_set main_op k ptr0 ptr_rc T) (entry_keys cnt sh v m) T)"

text \<open>Without a shift cnt (the value \<open>-1\<close> of the source) the value of an entry is the main opcode.\<close>

definition fill_main_entry :: "instruction_info \<Rightarrow> ppu_table \<Rightarrow> ppu_table" where
  "fill_main_entry e T =
     (case e of (v, ptr0, ptr_rc, m) \<Rightarrow>
        fold (\<lambda>i T. table_set v i ptr0 ptr_rc T) [0..<2 ^ 11] T)"

definition fill_table ::
  "nat \<Rightarrow> nat \<Rightarrow> nat option \<Rightarrow> instruction_info list \<Rightarrow> ppu_table \<Rightarrow> ppu_table" where
  "fill_table main_op cnt sh entries T =
     (case sh of
        Some sh' \<Rightarrow> fold (fill_entry main_op cnt sh') entries T
      | None \<Rightarrow> fold fill_main_entry entries T)"

section \<open>The entries\<close>

definition main_entries :: "instruction_info list" where
  "main_entries = [
    GET 0x2 ''TDI'' 0, GET 0x3 ''TWI'' 0, GET 0x7 ''MULLI'' 0, GET 0x8 ''SUBFIC'' 0,
    GET 0xa ''CMPLI'' 0, GET 0xb ''CMPI'' 0, GET 0xc ''ADDIC'' 0, GET 0xd ''ADDIC'' 0,
    GET 0xe ''ADDI'' 0, GET 0xf ''ADDIS'' 0, GET 0x10 ''BC'' 0, GET 0x11 ''SC'' 0,
    GET 0x12 ''B'' 0, GETRC 0x14 ''RLWIMI'' 0, GETRC 0x15 ''RLWINM'' 0, GETRC 0x17 ''RLWNM'' 0,
    GET 0x18 ''ORI'' 0, GET 0x19 ''ORIS'' 0, GET 0x1a ''XORI'' 0, GET 0x1b ''XORIS'' 0,
    GET 0x1c ''ANDI'' 0, GET 0x1d ''ANDIS'' 0, GET 0x20 ''LWZ'' 0, GET 0x21 ''LWZU'' 0,
    GET 0x22 ''LBZ'' 0, GET 0x23 ''LBZU'' 0, GET 0x24 ''STW'' 0, GET 0x25 ''STWU'' 0,
    GET 0x26 ''STB'' 0, GET 0x27 ''STBU'' 0, GET 0x28 ''LHZ'' 0, GET 0x29 ''LHZU'' 0,
    GET 0x2a ''LHA'' 0, GET 0x2b ''LHAU'' 0, GET 0x2c ''STH'' 0, GET 0x2d ''STHU'' 0,
    GET 0x2e ''LMW'' 0, GET 0x2f ''STMW'' 0, GET 0x30 ''LFS'' 0, GET 0x31 ''LFSU'' 0,
    GET 0x32 ''LFD'' 0, GET 0x33 ''LFDU'' 0, GET 0x34 ''STFS'' 0, GET 0x35 ''STFSU'' 0,
    GET 0x36 ''STFD'' 0, GET 0x37 ''STFDU'' 0]"

definition group_04_entries :: "instruction_info list" where
  "group_04_entries = [
    GET 0x0 ''VADDUBM'' 0, GET 0x2 ''VMAXUB'' 0, GET 0x4 ''VRLB'' 0, GET 0x6 ''VCMPEQUB'' 0,
    GET 0x406 ''VCMPEQUB_'' 0, GET 0x8 ''VMULOUB'' 0, GET 0xa ''VADDFP'' 0, GET 0xc ''VMRGHB'' 0,
    GET 0xe ''VPKUHUM'' 0, GET 0x20 ''VMHADDSHS'' 5, GET 0x21 ''VMHRADDSHS'' 5,
    GET 0x22 ''VMLADDUHM'' 5, GET 0x24 ''VMSUMUBM'' 5, GET 0x25 ''VMSUMMBM'' 5,
    GET 0x26 ''VMSUMUHM'' 5, GET 0x27 ''VMSUMUHS'' 5, GET 0x28 ''VMSUMSHM'' 5,
    GET 0x29 ''VMSUMSHS'' 5, GET 0x2a ''VSEL'' 5, GET 0x2b ''VPERM'' 5, GET 0x2c ''VSLDOI'' 5,
    GET 0x2e ''VMADDFP'' 5, GET 0x2f ''VNMSUBFP'' 5, GET 0x40 ''VADDUHM'' 0,
    GET 0x42 ''VMAXUH'' 0, GET 0x44 ''VRLH'' 0, GET 0x46 ''VCMPEQUH'' 0,
    GET 0x446 ''VCMPEQUH_'' 0, GET 0x48 ''VMULOUH'' 0, GET 0x4a ''VSUBFP'' 0,
    GET 0x4c ''VMRGHH'' 0, GET 0x4e ''VPKUWUM'' 0, GET 0x80 ''VADDUWM'' 0, GET 0x82 ''VMAXUW'' 0,
    GET 0x84 ''VRLW'' 0, GET 0x86 ''VCMPEQUW'' 0, GET 0x486 ''VCMPEQUW_'' 0,
    GET 0x8c ''VMRGHW'' 0, GET 0x8e ''VPKUHUS'' 0, GET 0xc6 ''VCMPEQFP'' 0,
    GET 0x4c6 ''VCMPEQFP_'' 0, GET 0xce ''VPKUWUS'' 0, GET 0x102 ''VMAXSB'' 0,
    GET 0x104 ''VSLB'' 0, GET 0x108 ''VMULOSB'' 0, GET 0x10a ''VREFP'' 0, GET 0x10c ''VMRGLB'' 0,
    GET 0x10e ''VPKSHUS'' 0, GET 0x142 ''VMAXSH'' 0, GET 0x144 ''VSLH'' 0,
    GET 0x148 ''VMULOSH'' 0, GET 0x14a ''VRSQRTEFP'' 0, GET 0x14c ''VMRGLH'' 0,
    GET 0x14e ''VPKSWUS'' 0, GET 0x180 ''VADDCUW'' 0, GET 0x182 ''VMAXSW'' 0,
    GET 0x184 ''VSLW'' 0, GET 0x18a ''VEXPTEFP'' 0, GET 0x18c ''VMRGLW'' 0,
    GET 0x18e ''VPKSHSS'' 0, GET 0x1c4 ''VSL'' 0, GET 0x1c6 ''VCMPGEFP'' 0,
    GET 0x5c6 ''VCMPGEFP_'' 0, GET 0x1ca ''VLOGEFP'' 0, GET 0x1ce ''VPKSWSS'' 0,
    GET 0x200 ''VADDUBS'' 0, GET 0x202 ''VMINUB'' 0, GET 0x204 ''VSRB'' 0,
    GET 0x206 ''VCMPGTUB'' 0, GET 0x606 ''VCMPGTUB_'' 0, GET 0x208 ''VMULEUB'' 0,
    GET 0x20a ''VRFIN'' 0, GET 0x20c ''VSPLTB'' 0, GET 0x20e ''VUPKHSB'' 0,
    GET 0x240 ''VADDUHS'' 0, GET 0x242 ''VMINUH'' 0, GET 0x244 ''VSRH'' 0,
    GET 0x246 ''VCMPGTUH'' 0, GET 0x646 ''VCMPGTUH_'' 0, GET 0x248 ''VMULEUH'' 0,
    GET 0x24a ''VRFIZ'' 0, GET 0x24c ''VSPLTH'' 0, GET 0x24e ''VUPKHSH'' 0,
    GET 0x280 ''VADDUWS'' 0, GET 0x282 ''VMINUW'' 0, GET 0x284 ''VSRW'' 0,
    GET 0x286 ''VCMPGTUW'' 0, GET 0x686 ''VCMPGTUW_'' 0, GET 0x28a ''VRFIP'' 0,
    GET 0x28c ''VSPLTW'' 0, GET 0x28e ''VUPKLSB'' 0, GET 0x2c4 ''VSR'' 0,
    GET 0x2c6 ''VCMPGTFP'' 0, GET 0x6c6 ''VCMPGTFP_'' 0, GET 0x2ca ''VRFIM'' 0,
    GET 0x2ce ''VUPKLSH'' 0, GET 0x300 ''VADDSBS'' 0, GET 0x302 ''VMINSB'' 0,
    GET 0x304 ''VSRAB'' 0, GET 0x306 ''VCMPGTSB'' 0, GET 0x706 ''VCMPGTSB_'' 0,
    GET 0x308 ''VMULESB'' 0, GET 0x30a ''VCFUX'' 0, GET 0x30c ''VSPLTISB'' 0,
    GET 0x30e ''VPKPX'' 0, GET 0x340 ''VADDSHS'' 0, GET 0x342 ''VMINSH'' 0,
    GET 0x344 ''VSRAH'' 0, GET 0x346 ''VCMPGTSH'' 0, GET 0x746 ''VCMPGTSH_'' 0,
    GET 0x348 ''VMULESH'' 0, GET 0x34a ''VCFSX'' 0, GET 0x34c ''VSPLTISH'' 0,
    GET 0x34e ''VUPKHPX'' 0, GET 0x380 ''VADDSWS'' 0, GET 0x382 ''VMINSW'' 0,
    GET 0x384 ''VSRAW'' 0, GET 0x386 ''VCMPGTSW'' 0, GET 0x786 ''VCMPGTSW_'' 0,
    GET 0x38a ''VCTUXS'' 0, GET 0x38c ''VSPLTISW'' 0, GET 0x3c6 ''VCMPBFP'' 0,
    GET 0x7c6 ''VCMPBFP_'' 0, GET 0x3ca ''VCTSXS'' 0, GET 0x3ce ''VUPKLPX'' 0,
    GET 0x400 ''VSUBUBM'' 0, GET 0x402 ''VAVGUB'' 0, GET 0x404 ''VAND'' 0,
    GET 0x40a ''VMAXFP'' 0, GET 0x40c ''VSLO'' 0, GET 0x440 ''VSUBUHM'' 0,
    GET 0x442 ''VAVGUH'' 0, GET 0x444 ''VANDC'' 0, GET 0x44a ''VMINFP'' 0, GET 0x44c ''VSRO'' 0,
    GET 0x480 ''VSUBUWM'' 0, GET 0x482 ''VAVGUW'' 0, GET 0x484 ''VOR'' 0, GET 0x4c4 ''VXOR'' 0,
    GET 0x502 ''VAVGSB'' 0, GET 0x504 ''VNOR'' 0, GET 0x542 ''VAVGSH'' 0,
    GET 0x580 ''VSUBCUW'' 0, GET 0x582 ''VAVGSW'' 0, GET 0x600 ''VSUBUBS'' 0,
    GET 0x604 ''MFVSCR'' 0, GET 0x608 ''VSUM4UBS'' 0, GET 0x640 ''VSUBUHS'' 0,
    GET 0x644 ''MTVSCR'' 0, GET 0x648 ''VSUM4SHS'' 0, GET 0x680 ''VSUBUWS'' 0,
    GET 0x688 ''VSUM2SWS'' 0, GET 0x700 ''VSUBSBS'' 0, GET 0x708 ''VSUM4SBS'' 0,
    GET 0x740 ''VSUBSHS'' 0, GET 0x780 ''VSUBSWS'' 0, GET 0x788 ''VSUMSWS'' 0]"

definition group_13_entries :: "instruction_info list" where
  "group_13_entries = [
    GET 0x0 ''MCRF'' 0, GET 0x10 ''BCLR'' 0, GET 0x21 ''CRNOR'' 0, GET 0x81 ''CRANDC'' 0,
    GET 0x96 ''ISYNC'' 0, GET 0xc1 ''CRXOR'' 0, GET 0xe1 ''CRNAND'' 0, GET 0x101 ''CRAND'' 0,
    GET 0x121 ''CREQV'' 0, GET 0x1a1 ''CRORC'' 0, GET 0x1c1 ''CROR'' 0, GET 0x210 ''BCCTR'' 0]"

definition group_1e_entries :: "instruction_info list" where
  "group_1e_entries = [
    GETRC 0x0 ''RLDICL'' 0, GETRC 0x1 ''RLDICL'' 0, GETRC 0x2 ''RLDICR'' 0,
    GETRC 0x3 ''RLDICR'' 0, GETRC 0x4 ''RLDIC'' 0, GETRC 0x5 ''RLDIC'' 0, GETRC 0x6 ''RLDIMI'' 0,
    GETRC 0x7 ''RLDIMI'' 0, GETRC 0x8 ''RLDCL'' 0, GETRC 0x9 ''RLDCR'' 0]"

definition group_1f_entries :: "instruction_info list" where
  "group_1f_entries = [
    GET 0x0 ''CMP'' 0, GET 0x4 ''TW'' 0, GET 0x6 ''LVSL'' 0, GET 0x7 ''LVEBX'' 0,
    GETRC 0x8 ''SUBFC'' 0, GETRC 0x208 ''SUBFCO'' 0, GETRC 0x9 ''MULHDU'' 0,
    GETRC 0xa ''ADDC'' 0, GETRC 0x20a ''ADDCO'' 0, GETRC 0xb ''MULHWU'' 0, GET 0x13 ''MFOCRF'' 0,
    GET 0x14 ''LWARX'' 0, GET 0x15 ''LDX'' 0, GET 0x17 ''LWZX'' 0, GETRC 0x18 ''SLW'' 0,
    GETRC 0x1a ''CNTLZW'' 0, GETRC 0x1b ''SLD'' 0, GETRC 0x1c ''AND'' 0, GET 0x20 ''CMPL'' 0,
    GET 0x26 ''LVSR'' 0, GET 0x27 ''LVEHX'' 0, GETRC 0x28 ''SUBF'' 0, GETRC 0x228 ''SUBFO'' 0,
    GET 0x35 ''LDUX'' 0, GET 0x36 ''DCBST'' 0, GET 0x37 ''LWZUX'' 0, GETRC 0x3a ''CNTLZD'' 0,
    GETRC 0x3c ''ANDC'' 0, GET 0x44 ''TD'' 0, GET 0x47 ''LVEWX'' 0, GETRC 0x49 ''MULHD'' 0,
    GETRC 0x4b ''MULHW'' 0, GET 0x54 ''LDARX'' 0, GET 0x56 ''DCBF'' 0, GET 0x57 ''LBZX'' 0,
    GET 0x67 ''LVX'' 0, GETRC 0x68 ''NEG'' 0, GETRC 0x268 ''NEGO'' 0, GET 0x77 ''LBZUX'' 0,
    GETRC 0x7c ''NOR'' 0, GET 0x87 ''STVEBX'' 0, GETRC 0x88 ''SUBFE'' 0,
    GETRC 0x288 ''SUBFEO'' 0, GETRC 0x8a ''ADDE'' 0, GETRC 0x28a ''ADDEO'' 0,
    GET 0x90 ''MTOCRF'' 0, GET 0x95 ''STDX'' 0, GET 0x96 ''STWCX'' 0, GET 0x97 ''STWX'' 0,
    GET 0xa7 ''STVEHX'' 0, GET 0xb5 ''STDUX'' 0, GET 0xb7 ''STWUX'' 0, GET 0xc7 ''STVEWX'' 0,
    GETRC 0xc8 ''SUBFZE'' 0, GETRC 0x2c8 ''SUBFZEO'' 0, GETRC 0xca ''ADDZE'' 0,
    GETRC 0x2ca ''ADDZEO'' 0, GET 0xd6 ''STDCX'' 0, GET 0xd7 ''STBX'' 0, GET 0xe7 ''STVX'' 0,
    GETRC 0xe8 ''SUBFME'' 0, GETRC 0x2e8 ''SUBFMEO'' 0, GETRC 0xe9 ''MULLD'' 0,
    GETRC 0x2e9 ''MULLDO'' 0, GETRC 0xea ''ADDME'' 0, GETRC 0x2ea ''ADDMEO'' 0,
    GETRC 0xeb ''MULLW'' 0, GETRC 0x2eb ''MULLWO'' 0, GET 0xf6 ''DCBTST'' 0,
    GET 0xf7 ''STBUX'' 0, GETRC 0x10a ''ADD'' 0, GETRC 0x30a ''ADDO'' 0, GET 0x116 ''DCBT'' 0,
    GET 0x117 ''LHZX'' 0, GETRC 0x11c ''EQV'' 0, GET 0x136 ''ECIWX'' 0, GET 0x137 ''LHZUX'' 0,
    GETRC 0x13c ''XOR'' 0, GET 0x153 ''MFSPR'' 0, GET 0x155 ''LWAX'' 0, GET 0x156 ''DST'' 0,
    GET 0x157 ''LHAX'' 0, GET 0x167 ''LVXL'' 0, GET 0x173 ''MFTB'' 0, GET 0x175 ''LWAUX'' 0,
    GET 0x176 ''DSTST'' 0, GET 0x177 ''LHAUX'' 0, GET 0x197 ''STHX'' 0, GETRC 0x19c ''ORC'' 0,
    GET 0x1b6 ''ECOWX'' 0, GET 0x1b7 ''STHUX'' 0, GETRC 0x1bc ''OR'' 0, GETRC 0x1c9 ''DIVDU'' 0,
    GETRC 0x3c9 ''DIVDUO'' 0, GETRC 0x1cb ''DIVWU'' 0, GETRC 0x3cb ''DIVWUO'' 0,
    GET 0x1d3 ''MTSPR'' 0, GET 0x1d6 ''DCBI'' 0, GETRC 0x1dc ''NAND'' 0, GET 0x1e7 ''STVXL'' 0,
    GETRC 0x1e9 ''DIVD'' 0, GETRC 0x3e9 ''DIVDO'' 0, GETRC 0x1eb ''DIVW'' 0,
    GETRC 0x3eb ''DIVWO'' 0, GET 0x207 ''LVLX'' 0, GET 0x214 ''LDBRX'' 0, GET 0x215 ''LSWX'' 0,
    GET 0x216 ''LWBRX'' 0, GET 0x217 ''LFSX'' 0, GETRC 0x218 ''SRW'' 0, GETRC 0x21b ''SRD'' 0,
    GET 0x227 ''LVRX'' 0, GET 0x237 ''LFSUX'' 0, GET 0x255 ''LSWI'' 0, GET 0x256 ''SYNC'' 0,
    GET 0x257 ''LFDX'' 0, GET 0x277 ''LFDUX'' 0, GET 0x287 ''STVLX'' 0, GET 0x294 ''STDBRX'' 0,
    GET 0x295 ''STSWX'' 0, GET 0x296 ''STWBRX'' 0, GET 0x297 ''STFSX'' 0, GET 0x2a7 ''STVRX'' 0,
    GET 0x2b7 ''STFSUX'' 0, GET 0x2d5 ''STSWI'' 0, GET 0x2d7 ''STFDX'' 0, GET 0x2f7 ''STFDUX'' 0,
    GET 0x307 ''LVLXL'' 0, GET 0x316 ''LHBRX'' 0, GETRC 0x318 ''SRAW'' 0, GETRC 0x31a ''SRAD'' 0,
    GET 0x327 ''LVRXL'' 0, GET 0x336 ''DSS'' 0, GETRC 0x338 ''SRAWI'' 0, GETRC 0x33a ''SRADI'' 0,
    GETRC 0x33b ''SRADI'' 0, GET 0x356 ''EIEIO'' 0, GET 0x387 ''STVLXL'' 0,
    GET 0x396 ''STHBRX'' 0, GETRC 0x39a ''EXTSH'' 0, GET 0x3a7 ''STVRXL'' 0,
    GETRC 0x3ba ''EXTSB'' 0, GET 0x3d7 ''STFIWX'' 0, GETRC 0x3da ''EXTSW'' 0,
    GET 0x3d6 ''ICBI'' 0, GET 0x3f6 ''DCBZ'' 0]"

definition group_3a_entries :: "instruction_info list" where
  "group_3a_entries = [
    GET 0x0 ''LD'' 0, GET 0x1 ''LDU'' 0, GET 0x2 ''LWA'' 0]"

definition group_3b_entries :: "instruction_info list" where
  "group_3b_entries = [
    GETRC 0x12 ''FDIVS'' 5, GETRC 0x14 ''FSUBS'' 5, GETRC 0x15 ''FADDS'' 5,
    GETRC 0x16 ''FSQRTS'' 5, GETRC 0x18 ''FRES'' 5, GETRC 0x19 ''FMULS'' 5,
    GETRC 0x1c ''FMSUBS'' 5, GETRC 0x1d ''FMADDS'' 5, GETRC 0x1e ''FNMSUBS'' 5,
    GETRC 0x1f ''FNMADDS'' 5]"

definition group_3e_entries :: "instruction_info list" where
  "group_3e_entries = [
    GET 0x0 ''STD'' 0, GET 0x1 ''STDU'' 0]"

definition group_3f_entries :: "instruction_info list" where
  "group_3f_entries = [
    GETRC 0x26 ''MTFSB1'' 0, GET 0x40 ''MCRFS'' 0, GETRC 0x46 ''MTFSB0'' 0,
    GETRC 0x86 ''MTFSFI'' 0, GETRC 0x247 ''MFFS'' 0, GETRC 0x2c7 ''MTFSF'' 0,
    GET 0x0 ''FCMPU'' 0, GETRC 0xc ''FRSP'' 0, GETRC 0xe ''FCTIW'' 0, GETRC 0xf ''FCTIWZ'' 0,
    GETRC 0x12 ''FDIV'' 5, GETRC 0x14 ''FSUB'' 5, GETRC 0x15 ''FADD'' 5, GETRC 0x16 ''FSQRT'' 5,
    GETRC 0x17 ''FSEL'' 5, GETRC 0x19 ''FMUL'' 5, GETRC 0x1a ''FRSQRTE'' 5,
    GETRC 0x1c ''FMSUB'' 5, GETRC 0x1d ''FMADD'' 5, GETRC 0x1e ''FNMSUB'' 5,
    GETRC 0x1f ''FNMADD'' 5, GET 0x20 ''FCMPO'' 0, GETRC 0x28 ''FNEG'' 0, GETRC 0x48 ''FMR'' 0,
    GETRC 0x88 ''FNABS'' 0, GETRC 0x108 ''FABS'' 0, GETRC 0x32e ''FCTID'' 0,
    GETRC 0x32f ''FCTIDZ'' 0, GETRC 0x34e ''FCFID'' 0]"

definition ppu_decoder :: ppu_table where
  "ppu_decoder =
     (fill_table 0x3f 10 (Some 1) group_3f_entries
     (fill_table 0x3e 2 (Some 0) group_3e_entries
     (fill_table 0x3b 10 (Some 1) group_3b_entries
     (fill_table 0x3a 2 (Some 0) group_3a_entries
     (fill_table 0x1f 10 (Some 1) group_1f_entries
     (fill_table 0x1e 4 (Some 1) group_1e_entries
     (fill_table 0x13 10 (Some 1) group_13_entries
     (fill_table 0x04 11 (Some 0) group_04_entries
     (fill_table 0x00 6 None main_entries (\<lambda>_. ''UNK''))))))))))"

definition decode :: "u32 \<Rightarrow> string" where
  "decode inst = ppu_decoder (unat (ppu_decode inst))"

section \<open>The table in closed form\<close>

lemma nat_or_add:
  assumes "(v :: nat) < 2 ^ w"
  shows "push_bit w i OR v = i * 2 ^ w + v"
proof -
  have "push_bit w i AND take_bit w v = 0"
    by (rule bit_eqI) (auto simp: bit_and_iff bit_push_bit_iff bit_take_bit_iff)
  then have "push_bit w i AND v = 0" using assms by (simp add: take_bit_nat_eq_self)
  then show ?thesis by (simp add: disjunctive_add_eq_or [symmetric] push_bit_eq_mult)
qed

lemma digit_less: "(i :: nat) < a \<Longrightarrow> v < b \<Longrightarrow> i * b + v < a * b"
proof -
  assume "i < a" "v < b"
  then have "i * b + v < Suc i * b" "Suc i * b \<le> a * b" by (simp, intro mult_le_mono1) simp
  then show ?thesis by (rule less_le_trans)
qed

lemma fold_update:
  "(\<And>s. s \<in> set ss \<Longrightarrow> g s = h (f s)) \<Longrightarrow>
   fold (\<lambda>s T. T(f s := g s)) ss T x = (if x \<in> f ` set ss then h x else T x)"
  by (induction ss arbitrary: T) auto

lemma table_set_index:
  "main_op < 64 \<Longrightarrow> table_set main_op k p q T = T(64 * k + main_op := if odd k then q else p)"
  using nat_or_add [of main_op 6 k] by (simp add: table_set_def and_one_eq odd_iff_mod_2_eq_one mult.commute)

lemma fold_table_set:
  assumes "main_op < 64"
  shows "fold (\<lambda>k T. table_set main_op k p q T) ks T x =
    (if x mod 64 = main_op \<and> x div 64 \<in> set ks then if odd (x div 64) then q else p else T x)"
proof -
  have k: "(64 * k + main_op) div 64 = k" "(64 * k + main_op) mod 64 = main_op" for k
    using assms by simp_all
  have x: "x = 64 * (x div 64) + x mod 64" by simp
  have "fold (\<lambda>k T. table_set main_op k p q T) ks T x =
      (if x \<in> (\<lambda>k. 64 * k + main_op) ` set ks
       then (\<lambda>x. if odd (x div 64) then q else p) x else T x)"
    unfolding table_set_index [OF assms] by (rule fold_update) (simp add: k)
  moreover have "x \<in> (\<lambda>k. 64 * k + main_op) ` set ks
      \<longleftrightarrow> x mod 64 = main_op \<and> x div 64 \<in> set ks"
    using x k by (metis (no_types, lifting) image_iff)
  ultimately show ?thesis by simp
qed

lemma entry_keys_iff:
  assumes "m \<le> cnt" "sh + cnt \<le> 11" "v < 2 ^ (cnt - m)"
  shows "k \<in> set (entry_keys cnt sh v m)
    \<longleftrightarrow> k < 2 ^ 11 \<and> (k div 2 ^ sh) mod 2 ^ (cnt - m) = v"
proof -
  define w where "w = cnt - m"
  define n where "n = m + (11 - sh - cnt)"
  have e: "(2 :: nat) ^ n * 2 ^ w * 2 ^ sh = 2 ^ 11"
    using assms by (simp add: n_def w_def flip: power_add)
  have "set (entry_keys cnt sh v m)
      = (\<Union>i \<in> {..<2 ^ n}. (\<lambda>j. push_bit sh (push_bit w i OR v) OR j) ` {..<2 ^ sh})"
    by (simp add: entry_keys_def w_def n_def lessThan_atLeast0)
  also have "\<dots> = (\<Union>i \<in> {..<2 ^ n}. (\<lambda>j. (i * 2 ^ w + v) * 2 ^ sh + j) ` {..<2 ^ sh})"
    using assms(3) by (intro SUP_cong image_cong refl) (simp_all add: nat_or_add w_def)
  finally have keys: "set (entry_keys cnt sh v m)
      = {(i * 2 ^ w + v) * 2 ^ sh + j | i j. i < 2 ^ n \<and> j < 2 ^ sh}" by blast
  show ?thesis unfolding keys w_def [symmetric]
  proof safe
    fix i j :: nat assume i: "i < 2 ^ n" and j: "j < 2 ^ sh"
    have v: "v < 2 ^ w" using assms(3) by (simp add: w_def)
    show "(i * 2 ^ w + v) * 2 ^ sh + j < 2 ^ 11"
      unfolding e [symmetric] by (intro digit_less i j v)
    show "((i * 2 ^ w + v) * 2 ^ sh + j) div 2 ^ sh mod 2 ^ w = v" using j v by simp
  next
    assume k: "k < 2 ^ 11" and v: "v = k div 2 ^ sh mod 2 ^ w"
    have "k = (k div 2 ^ sh div 2 ^ w * 2 ^ w + k div 2 ^ sh mod 2 ^ w) * 2 ^ sh + k mod 2 ^ sh"
      by (simp only: div_mult_mod_eq)
    moreover have "k div 2 ^ sh div 2 ^ w < 2 ^ n"
      using k unfolding e [symmetric] by (intro less_mult_imp_div_less)
    moreover have "k mod 2 ^ sh < 2 ^ sh" by simp
    ultimately show "\<exists>i j. k = (i * 2 ^ w + k div 2 ^ sh mod 2 ^ w) * 2 ^ sh + j
        \<and> i < 2 ^ n \<and> j < 2 ^ sh"
      by blast
  qed
qed

text \<open>
  The decoder as a search: an instruction of group \<open>main\<close> is decoded by the last entry whose value the
  extended opcode field of the instruction has.
\<close>

definition entry_matches :: "nat \<Rightarrow> nat \<Rightarrow> u32 \<Rightarrow> instruction_info \<Rightarrow> bool" where
  "entry_matches cnt sh op e = (case e of (v, _, _, m) \<Rightarrow> unat (bf_extract sh (cnt - m) op) = v)"

definition entry_name :: "u32 \<Rightarrow> instruction_info \<Rightarrow> string" where
  "entry_name op e = (case e of (_, ptr0, ptr_rc, _) \<Rightarrow> if op_rc op then ptr_rc else ptr0)"

definition entry_lookup ::
  "nat \<Rightarrow> nat \<Rightarrow> instruction_info list \<Rightarrow> u32 \<Rightarrow> string option" where
  "entry_lookup cnt sh es op = map_option (entry_name op) (find (entry_matches cnt sh op) (rev es))"

definition main_lookup :: "u32 \<Rightarrow> string option" where
  "main_lookup op = map_option (entry_name op) (find (\<lambda>e. fst e = op_main op) (rev main_entries))"

definition groups :: "(nat \<times> nat \<times> nat \<times> instruction_info list) list" where
  "groups = [(0x04, 11, 0, group_04_entries), (0x13, 10, 1, group_13_entries),
     (0x1e, 4, 1, group_1e_entries), (0x1f, 10, 1, group_1f_entries),
     (0x3a, 2, 0, group_3a_entries), (0x3b, 10, 1, group_3b_entries),
     (0x3e, 2, 0, group_3e_entries), (0x3f, 10, 1, group_3f_entries)]"

definition decode_search :: "u32 \<Rightarrow> string" where
  "decode_search op =
     (case map_of groups (op_main op) of
        Some (cnt, sh, es) \<Rightarrow>
          (case entry_lookup cnt sh es op of
             Some n \<Rightarrow> n
           | None \<Rightarrow> (case main_lookup op of Some n \<Rightarrow> n | None \<Rightarrow> ''UNK''))
      | None \<Rightarrow> (case main_lookup op of Some n \<Rightarrow> n | None \<Rightarrow> ''UNK''))"

definition entry_fits :: "nat \<Rightarrow> nat \<Rightarrow> instruction_info \<Rightarrow> bool" where
  "entry_fits cnt sh e = (case e of (v, _, _, m) \<Rightarrow>
     m \<le> cnt \<and> sh + cnt \<le> 11 \<and> v < 2 ^ (cnt - m))"

lemma groups_fit:
  "\<forall>(main_op, cnt, sh, es) \<in> set groups. main_op < 64 \<and> list_all (entry_fits cnt sh) es"
  by (simp add: groups_def entry_fits_def GET_def GETRC_def group_04_entries_def
      group_13_entries_def group_1e_entries_def group_1f_entries_def group_3a_entries_def
      group_3b_entries_def group_3e_entries_def group_3f_entries_def)

lemma main_entries_fit: "list_all (\<lambda>e. fst e < 64) main_entries"
  by (simp add: main_entries_def GET_def GETRC_def)

lemma unat_drop_bit_div: "unat (drop_bit n w) = unat w div 2 ^ n"
  by (subst unat_drop_bit_eq) (rule drop_bit_eq_div)

lemma unat_take_bit_mod: "unat (take_bit n w) = unat w mod 2 ^ n"
  by (subst unsigned_take_bit_eq) (rule take_bit_eq_mod)

lemma ppu_decode_parts:
  "unat (ppu_decode op) mod 64 = op_main op"
  "unat (ppu_decode op) div 64 = unat (take_bit 11 op)"
  "odd (unat (take_bit 11 op)) = op_rc op"
proof -
  have d: "ppu_decode op = take_bit 17 (drop_bit 26 op OR push_bit 6 op)"
    using take_bit_eq_mask [of 17 "drop_bit 26 op OR push_bit 6 op"]
    by (simp add: ppu_decode_def mask_eq_decr_exp)
  have "take_bit 6 (ppu_decode op) = ppu_bf 0 6 op"
    unfolding d ppu_bf_def
    by (rule bit_eqI) (auto simp: bit_simps bit_bf_extract dest: bit_imp_le_length)
  then show "unat (ppu_decode op) mod 64 = op_main op"
    by (simp add: op_main_def flip: take_bit_eq_mod [of 6, simplified] unsigned_take_bit_eq)
  have "take_bit 11 op = drop_bit 6 (ppu_decode op)"
    unfolding d by (rule bit_eqI) (auto simp: bit_simps dest: bit_imp_le_length)
  then show "unat (ppu_decode op) div 64 = unat (take_bit 11 op)"
    by (simp add: unat_drop_bit_div)
  have "odd (unat (take_bit 11 op)) = bit (take_bit 11 op) 0"
    using bit_unsigned_iff [of "take_bit 11 op" 0, where 'a = nat] by (simp add: bit_0)
  also have "\<dots> = (ppu_bf 31 1 op \<noteq> 0)"
    by (simp add: ppu_bf_def bf_extract_take bit_0 take_bit_Suc mod_2_eq_odd bit_take_bit_iff)
  finally show "odd (unat (take_bit 11 op)) = op_rc op" by (simp add: op_rc_def)
qed

lemma fill_entry_lookup:
  assumes "main_op < 64" "entry_fits cnt sh e"
  shows "fill_entry main_op cnt sh e T (unat (ppu_decode op)) =
    (if op_main op = main_op \<and> entry_matches cnt sh op e then entry_name op e
     else T (unat (ppu_decode op)))"
proof (cases e)
  case (fields v p q m)
  have f: "m \<le> cnt" "sh + cnt \<le> 11" "v < 2 ^ (cnt - m)"
    using assms(2) by (auto simp: entry_fits_def fields)
  have "bf_extract sh (cnt - m) op = take_bit (cnt - m) (drop_bit sh (take_bit 11 op))"
    using f by (intro bit_eqI) (auto simp: bit_bf_extract bit_take_bit_iff bit_drop_bit_eq)
  then have "unat (take_bit 11 op) div 2 ^ sh mod 2 ^ (cnt - m)
      = unat (bf_extract sh (cnt - m) op)"
    by (simp add: unat_take_bit_mod unat_drop_bit_div)
  moreover have "unat (take_bit 11 op) < 2 ^ 11"
    by (simp add: unat_take_bit_mod)
  ultimately show ?thesis
    by (simp add: fields fill_entry_def fold_table_set [OF assms(1)] ppu_decode_parts
        entry_keys_iff [OF f] entry_matches_def entry_name_def)
qed

lemma fill_main_entry_lookup:
  assumes "fst e < 64"
  shows "fill_main_entry e T (unat (ppu_decode op)) =
    (if fst e = op_main op then entry_name op e else T (unat (ppu_decode op)))"
proof (cases e)
  case (fields v p q m)
  have "unat (take_bit 11 op) < 2048"
    by (simp add: unat_take_bit_mod)
  then show ?thesis using assms
    by (simp add: fields fill_main_entry_def fold_table_set ppu_decode_parts entry_name_def
        eq_commute [of "op_main op"])
qed

lemma fold_lookup:
  assumes "\<And>e T. e \<in> set es \<Longrightarrow> f e T x = (if P e then n e else T x)"
  shows "fold f es T x = (case map_option n (find P (rev es)) of Some y \<Rightarrow> y | None \<Rightarrow> T x)"
  using assms
proof (induction es rule: rev_induct)
  case (snoc e es)
  then show ?case by simp
qed simp

lemma fill_table_lookup:
  assumes "main_op < 64" "list_all (entry_fits cnt sh) es"
  shows "fill_table main_op cnt (Some sh) es T (unat (ppu_decode op)) =
    (if op_main op = main_op
     then case entry_lookup cnt sh es op of Some n \<Rightarrow> n | None \<Rightarrow> T (unat (ppu_decode op))
     else T (unat (ppu_decode op)))"
proof -
  have "fold (fill_entry main_op cnt sh) es T (unat (ppu_decode op)) =
    (case map_option (entry_name op)
        (find (\<lambda>e. op_main op = main_op \<and> entry_matches cnt sh op e) (rev es)) of
       Some n \<Rightarrow> n | None \<Rightarrow> T (unat (ppu_decode op)))"
    using assms by (intro fold_lookup fill_entry_lookup) (auto simp: list_all_iff)
  moreover have "find (\<lambda>e. False) xs = None" for xs :: "instruction_info list"
    by (simp add: find_None_iff)
  ultimately show ?thesis by (simp add: fill_table_def entry_lookup_def)
qed

lemma decode_entries: "decode op = decode_search op"
proof -
  have m: "fill_table 0 6 None main_entries T (unat (ppu_decode op))
      = (case main_lookup op of Some n \<Rightarrow> n | None \<Rightarrow> T (unat (ppu_decode op)))" for T
    using main_entries_fit unfolding fill_table_def main_lookup_def option.case
    by (intro fold_lookup fill_main_entry_lookup) (simp add: list_all_iff)
  have fits: "list_all (entry_fits 11 0) group_04_entries" "list_all (entry_fits 10 1) group_13_entries"
    "list_all (entry_fits 4 1) group_1e_entries" "list_all (entry_fits 10 1) group_1f_entries"
    "list_all (entry_fits 2 0) group_3a_entries" "list_all (entry_fits 10 1) group_3b_entries"
    "list_all (entry_fits 2 0) group_3e_entries" "list_all (entry_fits 10 1) group_3f_entries"
    using groups_fit by (simp_all add: groups_def)
  have mains: "(0x04 :: nat) < 64" "(0x13 :: nat) < 64" "(0x1e :: nat) < 64" "(0x1f :: nat) < 64"
    "(0x3a :: nat) < 64" "(0x3b :: nat) < 64" "(0x3e :: nat) < 64" "(0x3f :: nat) < 64"
    by simp_all
  show ?thesis
    unfolding decode_def ppu_decoder_def m decode_search_def groups_def
      fill_table_lookup [OF mains(1) fits(1)] fill_table_lookup [OF mains(2) fits(2)]
      fill_table_lookup [OF mains(3) fits(3)] fill_table_lookup [OF mains(4) fits(4)]
      fill_table_lookup [OF mains(5) fits(5)] fill_table_lookup [OF mains(6) fits(6)]
      fill_table_lookup [OF mains(7) fits(7)] fill_table_lookup [OF mains(8) fits(8)]
    by simp
qed

end
