(* ===== verification/Ppu_Exec.thy ===== *)
theory Ppu_Exec
  imports Ppu_Alu Ppu_Mem Ppu_Decode
begin

text \<open>
  Control flow and dispatch of the PPU interpreter: the branch, trap and system call instructions
  (\<^verbatim>\<open>Emu/Cell/PPUInterpreter.cpp\<close>), the table of handlers built by the constructor of
  \<^verbatim>\<open>ppu_interpreter_rt_base\<close>, the run-time decoder \<^verbatim>\<open>ppu_interpreter_rt::decode\<close> with its special
  cases, and the loop \<^verbatim>\<open>ppu_recompiler_fallback\<close> of \<^verbatim>\<open>Emu/Cell/PPUThread.cpp\<close> that executes one
  instruction at a time. The handlers of floating-point, reservation and vector arithmetic
  instructions, system calls and HLE functions are parameters.
\<close>

section \<open>Outcomes of an instruction\<close>

text \<open>
  A handler continues with the next instruction, returns to its caller with the program counter
  set, enters a system call or an HLE function, or throws.
\<close>

datatype ppu_step =
    Next ppu
  | Leave ppu
  | Syscall u64 ppu
  | Hle nat ppu
  | Throw ppu_exc

record interp_host =
  hle_addr :: u32
  hle_count :: nat
  stub_ppu_traps :: u32
  page_executable :: "u32 \<Rightarrow> bool"
  other_handler :: "string \<Rightarrow> u32 \<Rightarrow> u32 \<Rightarrow> ppu \<Rightarrow> ppu_step"
  execute_syscall :: "u64 \<Rightarrow> ppu \<Rightarrow> ppu res"
  hle_function :: "nat \<Rightarrow> ppu \<Rightarrow> ppu res"
  test_stopped :: "ppu \<Rightarrow> bool"

type_synonym handler = "interp_host \<Rightarrow> u32 \<Rightarrow> u32 \<Rightarrow> ppu \<Rightarrow> ppu_step"

section \<open>Traps\<close>

definition ppu_trap :: "interp_host \<Rightarrow> u32 \<Rightarrow> ppu \<Rightarrow> ppu_step" where
  "ppu_trap h addr s =
     (let add = stub_ppu_traps h * 4 in
      if addr AND 3 \<noteq> 0 \<or> add = 0 \<or> \<not> page_executable h addr \<or> \<not> page_executable h (addr + add)
      then Throw (Unimplemented ''PPU Trap'')
      else Leave (s\<lparr>cia_of := addr + add\<rparr>))"

definition trap_condition :: "u32 \<Rightarrow> 'a::len word \<Rightarrow> 'a word \<Rightarrow> bool" where
  "trap_condition bo a b \<longleftrightarrow>
     bo AND 0x10 \<noteq> 0 \<and> sint a < sint b \<or> bo AND 0x8 \<noteq> 0 \<and> sint b < sint a
   \<or> bo AND 0x4 \<noteq> 0 \<and> a = b \<or> bo AND 0x2 \<noteq> 0 \<and> a < b \<or> bo AND 0x1 \<noteq> 0 \<and> b < a"

definition ppu_TDI :: handler where
  "ppu_TDI h op pc s =
     (if trap_condition (op_bo op) (gpr_of s (op_ra op)) (op_simm16 op) then ppu_trap h pc s
      else Next s)"

definition ppu_TWI :: handler where
  "ppu_TWI h op pc s =
     (if trap_condition (op_bo op) (ucast (gpr_of s (op_ra op)) :: u32) (op_simm16_32 op)
      then ppu_trap h pc s else Next s)"

definition ppu_TW :: handler where
  "ppu_TW h op pc s =
     (if trap_condition (op_bo op) (ucast (gpr_of s (op_ra op)) :: u32) (ucast (gpr_of s (op_rb op)))
      then ppu_trap h pc s else Next s)"

definition ppu_TD :: handler where
  "ppu_TD h op pc s =
     (if trap_condition (op_bo op) (gpr_of s (op_ra op)) (gpr_of s (op_rb op))
      then ppu_trap h pc s else Next s)"

section \<open>Branches\<close>

text \<open>
  The instruction after a taken branch is reached through the caller. One that is not taken
  continues with the next instruction, unless the thread has a pending state change. The amount of
  executed code is counted when the handler returns.
\<close>

definition count_exec :: "u32 \<Rightarrow> u32 \<Rightarrow> ppu \<Rightarrow> ppu" where
  "count_exec link old_cia s = s\<lparr>exec_bytes_of := exec_bytes_of s + ucast (link - old_cia)\<rparr>"

definition set_link :: "bool \<Rightarrow> u32 \<Rightarrow> ppu \<Rightarrow> ppu" where
  "set_link lk link s = (if lk then s\<lparr>lr_of := ucast link\<rparr> else s)"

definition bo_bit :: "u32 \<Rightarrow> u32 \<Rightarrow> bool" where
  "bo_bit op m \<longleftrightarrow> op_bo op AND m \<noteq> 0"

definition ctr_decrement :: "u32 \<Rightarrow> ppu \<Rightarrow> ppu" where
  "ctr_decrement op s = s\<lparr>ctr_of := ctr_of s - of_bool (\<not> bo_bit op 0x04)\<rparr>"

definition branch_ok :: "u32 \<Rightarrow> ppu \<Rightarrow> bool" where
  "branch_ok op s \<longleftrightarrow>
     (bo_bit op 0x04 \<or> (ctr_of s \<noteq> 0) \<noteq> bo_bit op 0x02)
   \<and> (bo_bit op 0x10 \<or> (cr_of s (op_bi op) \<noteq> 0) \<noteq> (\<not> bo_bit op 0x08))"

definition not_taken :: "u32 \<Rightarrow> u32 \<Rightarrow> ppu \<Rightarrow> ppu_step" where
  "not_taken link old_cia s =
     (if \<not> stopping s then Next s else Leave (count_exec link old_cia (s\<lparr>cia_of := link\<rparr>)))"

definition ppu_BC :: handler where
  "ppu_BC h op pc s =
     (let link = pc + 4;
          s1 = set_link (op_lk op) link (ctr_decrement op s);
          old_cia = cia_of s1
      in if branch_ok op s1
         then Leave (count_exec link old_cia
                (s1\<lparr>cia_of := (if op_aa op then 0 else pc) + op_bt14 op\<rparr>))
         else not_taken link old_cia s1)"

definition ppu_B :: handler where
  "ppu_B h op pc s =
     (let link = pc + 4; old_cia = cia_of s;
          s1 = s\<lparr>cia_of := (if op_aa op then 0 else pc) + op_bt24 op\<rparr>
      in Leave (count_exec link old_cia (set_link (op_lk op) link s1)))"

definition ppu_BCLR :: handler where
  "ppu_BCLR h op pc s =
     (let s1 = ctr_decrement op s;
          target = ucast (lr_of s1) AND NOT 3;
          link = pc + 4;
          s2 = set_link (op_lk op) link s1;
          old_cia = cia_of s2
      in if branch_ok op s2
         then Leave (count_exec link old_cia (s2\<lparr>cia_of := target\<rparr>))
         else not_taken link old_cia s2)"

definition ppu_BCCTR :: handler where
  "ppu_BCCTR h op pc s =
     (let link = pc + 4;
          s1 = set_link (op_lk op) link s;
          old_cia = cia_of s1
      in if bo_bit op 0x10 \<or> cr_of s1 (op_bi op) = of_bool (bo_bit op 0x08)
         then Leave (count_exec link old_cia (s1\<lparr>cia_of := ucast (ctr_of s1) AND NOT 3\<rparr>))
         else not_taken link old_cia s1)"

text \<open>The instruction word \<open>SC 0\<close> of \<^verbatim>\<open>ppu_instructions::SC\<close>.\<close>

definition asm_SC :: "u32 \<Rightarrow> u32" where
  "asm_SC lev = bf_store (32 - 7 - 20) 7 lev (push_bit 26 0x11 OR push_bit 1 1)"

definition ppu_SC :: handler where
  "ppu_SC h op pc s =
     (let s1 = s\<lparr>cia_of := pc, exec_bytes_of := exec_bytes_of s + ucast (pc - cia_of s)\<rparr>
      in if op \<noteq> asm_SC 0 then Throw (Invalid_form ''SC'' op)
         else Syscall (gpr_of s1 11) s1)"

definition ppu_UNK :: handler where
  "ppu_UNK h op pc s =
     (let s1 = s\<lparr>cia_of := pc, exec_bytes_of := exec_bytes_of s + ucast (pc - cia_of s)\<rparr>;
          index = unat ((pc - hle_addr h) div 8)
      in if pc mod 8 = 4 \<and> index < hle_count h then Hle index s1 else Throw (Illegal_opcode op))"

section \<open>Dispatch\<close>

text \<open>Cache hints and memory barriers change nothing a single thread can observe.\<close>

definition ppu_HINT :: "u32 \<Rightarrow> ppu \<Rightarrow> ppu" where
  "ppu_HINT op s = s"

definition ppu_ECIWX :: "u32 \<Rightarrow> ppu \<Rightarrow> ppu res" where
  "ppu_ECIWX op s = Inl (Unimplemented ''ECIWX'')"

definition ppu_ECOWX :: "u32 \<Rightarrow> ppu \<Rightarrow> ppu res" where
  "ppu_ECOWX op s = Inl (Unimplemented ''ECOWX'')"

definition plain :: "(u32 \<Rightarrow> ppu \<Rightarrow> ppu) \<Rightarrow> handler" where
  "plain f = (\<lambda>h op pc s. Next (f op s))"

definition fallible :: "(u32 \<Rightarrow> ppu \<Rightarrow> ppu res) \<Rightarrow> handler" where
  "fallible f = (\<lambda>h op pc s. case f op s of Inl e \<Rightarrow> Throw e | Inr s' \<Rightarrow> Next s')"

definition INIT :: "string \<Rightarrow> (u32 \<Rightarrow> ppu \<Rightarrow> ppu) \<Rightarrow> (string \<times> handler) list" where
  "INIT name f = [(name, plain f)]"

definition INIT_F :: "string \<Rightarrow> (u32 \<Rightarrow> ppu \<Rightarrow> ppu res) \<Rightarrow> (string \<times> handler) list" where
  "INIT_F name f = [(name, fallible f)]"

definition INIT_RC :: "string \<Rightarrow> (bool \<Rightarrow> u32 \<Rightarrow> ppu \<Rightarrow> ppu) \<Rightarrow> (string \<times> handler) list" where
  "INIT_RC name f = [(name, plain (f False)), (name @ ''_'', plain (f True))]"

definition INIT_RC_OV ::
  "string \<Rightarrow> (bool \<Rightarrow> bool \<Rightarrow> u32 \<Rightarrow> ppu \<Rightarrow> ppu) \<Rightarrow> (string \<times> handler) list" where
  "INIT_RC_OV name f =
     [(name, plain (f False False)), (name @ ''O'', plain (f True False)),
      (name @ ''_'', plain (f False True)), (name @ ''O_'', plain (f True True))]"

definition ppu_ptrs :: "(string \<times> handler) list" where
  "ppu_ptrs = concat [
    [(''TDI'', ppu_TDI)], [(''TWI'', ppu_TWI)], INIT ''MULLI'' ppu_MULLI,
    INIT ''SUBFIC'' ppu_SUBFIC, INIT ''CMPLI'' ppu_CMPLI, INIT ''CMPI'' ppu_CMPI,
    INIT ''ADDIC'' ppu_ADDIC, INIT ''ADDI'' ppu_ADDI, INIT ''ADDIS'' ppu_ADDIS,
    [(''BC'', ppu_BC)], [(''SC'', ppu_SC)], [(''B'', ppu_B)], INIT ''MCRF'' ppu_MCRF,
    [(''BCLR'', ppu_BCLR)], INIT ''CRNOR'' ppu_CRNOR, INIT ''CRANDC'' ppu_CRANDC,
    INIT ''ISYNC'' ppu_HINT, INIT ''CRXOR'' ppu_CRXOR, INIT ''CRNAND'' ppu_CRNAND,
    INIT ''CRAND'' ppu_CRAND, INIT ''CREQV'' ppu_CREQV, INIT ''CRORC'' ppu_CRORC,
    INIT ''CROR'' ppu_CROR, [(''BCCTR'', ppu_BCCTR)], INIT_RC ''RLWIMI'' ppu_RLWIMI,
    INIT_RC ''RLWINM'' ppu_RLWINM, INIT_RC ''RLWNM'' ppu_RLWNM, INIT ''ORI'' ppu_ORI,
    INIT ''ORIS'' ppu_ORIS, INIT ''XORI'' ppu_XORI, INIT ''XORIS'' ppu_XORIS,
    INIT ''ANDI'' ppu_ANDI, INIT ''ANDIS'' ppu_ANDIS, INIT_RC ''RLDICL'' ppu_RLDICL,
    INIT_RC ''RLDICR'' ppu_RLDICR, INIT_RC ''RLDIC'' ppu_RLDIC, INIT_RC ''RLDIMI'' ppu_RLDIMI,
    INIT_RC ''RLDCL'' ppu_RLDCL, INIT_RC ''RLDCR'' ppu_RLDCR, INIT ''CMP'' ppu_CMP,
    [(''TW'', ppu_TW)], INIT ''LVSL'' ppu_LVSL, INIT_F ''LVEBX'' ppu_LVEBX,
    INIT_RC_OV ''SUBFC'' ppu_SUBFC, INIT_RC_OV ''ADDC'' ppu_ADDC, INIT_RC ''MULHDU'' ppu_MULHDU,
    INIT_RC ''MULHWU'' ppu_MULHWU, INIT ''MFCR'' ppu_MFCR, INIT_F ''LDX'' ppu_LDX,
    INIT_F ''LWZX'' ppu_LWZX, INIT_RC ''SLW'' ppu_SLW, INIT_RC ''CNTLZW'' ppu_CNTLZW,
    INIT_RC ''SLD'' ppu_SLD, INIT_RC ''AND'' ppu_AND, INIT ''CMPL'' ppu_CMPL,
    INIT ''LVSR'' ppu_LVSR, INIT_F ''LVEHX'' ppu_LVEHX, INIT_RC_OV ''SUBF'' ppu_SUBF,
    INIT_F ''LDUX'' ppu_LDUX, INIT ''DCBST'' ppu_HINT, INIT_F ''LWZUX'' ppu_LWZUX,
    INIT_RC ''CNTLZD'' ppu_CNTLZD, INIT_RC ''ANDC'' ppu_ANDC, [(''TD'', ppu_TD)],
    INIT_F ''LVEWX'' ppu_LVEWX, INIT_RC ''MULHD'' ppu_MULHD, INIT_RC ''MULHW'' ppu_MULHW,
    INIT ''DCBF'' ppu_HINT, INIT_F ''LBZX'' ppu_LBZX, INIT_F ''LVX'' ppu_LVX,
    INIT_RC_OV ''NEG'' ppu_NEG, INIT_F ''LBZUX'' ppu_LBZUX, INIT_RC ''NOR'' ppu_NOR,
    INIT_F ''STVEBX'' ppu_STVEBX, INIT_RC_OV ''SUBFE'' ppu_SUBFE, INIT_RC_OV ''ADDE'' ppu_ADDE,
    INIT ''MTOCRF'' ppu_MTOCRF, INIT_F ''STDX'' ppu_STDX, INIT_F ''STWX'' ppu_STWX,
    INIT_F ''STVEHX'' ppu_STVEHX, INIT_F ''STDUX'' ppu_STDUX, INIT_F ''STWUX'' ppu_STWUX,
    INIT_F ''STVEWX'' ppu_STVEWX, INIT_RC_OV ''SUBFZE'' ppu_SUBFZE,
    INIT_RC_OV ''ADDZE'' ppu_ADDZE, INIT_F ''STBX'' ppu_STBX, INIT_F ''STVX'' ppu_STVX,
    INIT_RC_OV ''SUBFME'' ppu_SUBFME, INIT_RC_OV ''MULLD'' (\<lambda>_. ppu_MULLD),
    INIT_RC_OV ''ADDME'' ppu_ADDME, INIT_RC_OV ''MULLW'' ppu_MULLW, INIT ''DCBTST'' ppu_HINT,
    INIT_F ''STBUX'' ppu_STBUX, INIT_RC_OV ''ADD'' ppu_ADD, INIT ''DCBT'' ppu_HINT,
    INIT_F ''LHZX'' ppu_LHZX, INIT_RC ''EQV'' ppu_EQV, INIT_F ''ECIWX'' ppu_ECIWX,
    INIT_F ''LHZUX'' ppu_LHZUX, INIT_RC ''XOR'' ppu_XOR, INIT_F ''MFSPR'' ppu_MFSPR,
    INIT_F ''LWAX'' ppu_LWAX, INIT ''DST'' ppu_HINT, INIT_F ''LHAX'' ppu_LHAX,
    INIT_F ''LVXL'' ppu_LVXL, INIT_F ''MFTB'' ppu_MFTB, INIT_F ''LWAUX'' ppu_LWAUX,
    INIT ''DSTST'' ppu_HINT, INIT_F ''LHAUX'' ppu_LHAUX, INIT_F ''STHX'' ppu_STHX,
    INIT_RC ''ORC'' ppu_ORC, INIT_F ''ECOWX'' ppu_ECOWX, INIT_F ''STHUX'' ppu_STHUX,
    INIT_RC ''OR'' ppu_OR, INIT_RC_OV ''DIVDU'' ppu_DIVDU, INIT_RC_OV ''DIVWU'' ppu_DIVWU,
    INIT_F ''MTSPR'' ppu_MTSPR, INIT ''DCBI'' ppu_HINT, INIT_RC ''NAND'' ppu_NAND,
    INIT_F ''STVXL'' ppu_STVXL, INIT_RC_OV ''DIVD'' ppu_DIVD, INIT_RC_OV ''DIVW'' ppu_DIVW,
    INIT_F ''LVLX'' ppu_LVLX, INIT_F ''LDBRX'' ppu_LDBRX, INIT_F ''LSWX'' ppu_LSWX,
    INIT_F ''LWBRX'' ppu_LWBRX, INIT_RC ''SRW'' ppu_SRW, INIT_RC ''SRD'' ppu_SRD,
    INIT_F ''LVRX'' ppu_LVRX, INIT_F ''LSWI'' ppu_LSWI, INIT ''SYNC'' ppu_HINT,
    INIT_F ''LFDX'' ppu_LFDX, INIT_F ''LFDUX'' ppu_LFDUX, INIT_F ''STVLX'' ppu_STVLX,
    INIT_F ''STDBRX'' ppu_STDBRX, INIT_F ''STSWX'' ppu_STSWX, INIT_F ''STWBRX'' ppu_STWBRX,
    INIT_F ''STVRX'' ppu_STVRX, INIT_F ''STSWI'' ppu_STSWI, INIT_F ''STFDX'' ppu_STFDX,
    INIT_F ''STFDUX'' ppu_STFDUX, INIT_F ''LVLXL'' ppu_LVLX, INIT_F ''LHBRX'' ppu_LHBRX,
    INIT_RC ''SRAW'' ppu_SRAW, INIT_RC ''SRAD'' ppu_SRAD, INIT_F ''LVRXL'' ppu_LVRX,
    INIT ''DSS'' ppu_HINT, INIT_RC ''SRAWI'' ppu_SRAWI, INIT_RC ''SRADI'' ppu_SRADI,
    INIT ''EIEIO'' ppu_HINT, INIT_F ''STVLXL'' ppu_STVLX, INIT_F ''STHBRX'' ppu_STHBRX,
    INIT_RC ''EXTSH'' ppu_EXTSH, INIT_F ''STVRXL'' ppu_STVRX, INIT_RC ''EXTSB'' ppu_EXTSB,
    INIT_F ''STFIWX'' ppu_STFIWX, INIT_RC ''EXTSW'' ppu_EXTSW, INIT ''ICBI'' ppu_HINT,
    INIT_F ''DCBZ'' ppu_DCBZ, INIT_F ''LWZ'' ppu_LWZ, INIT_F ''LWZU'' ppu_LWZU,
    INIT_F ''LBZ'' ppu_LBZ, INIT_F ''LBZU'' ppu_LBZU, INIT_F ''STW'' ppu_STW,
    INIT_F ''STWU'' ppu_STWU, INIT_F ''STB'' ppu_STB, INIT_F ''STBU'' ppu_STBU,
    INIT_F ''LHZ'' ppu_LHZ, INIT_F ''LHZU'' ppu_LHZU, INIT_F ''LHA'' ppu_LHA,
    INIT_F ''LHAU'' ppu_LHAU, INIT_F ''STH'' ppu_STH, INIT_F ''STHU'' ppu_STHU,
    INIT_F ''LMW'' ppu_LMW, INIT_F ''STMW'' ppu_STMW, INIT_F ''LFD'' ppu_LFD,
    INIT_F ''LFDU'' ppu_LFDU, INIT_F ''STFD'' ppu_STFD, INIT_F ''STFDU'' ppu_STFDU,
    INIT_F ''LD'' ppu_LD, INIT_F ''LDU'' ppu_LDU, INIT_F ''LWA'' ppu_LWA, INIT_F ''STD'' ppu_STD,
    INIT_F ''STDU'' ppu_STDU, [(''UNK'', ppu_UNK)]]"

definition table_handler :: "string \<Rightarrow> handler" where
  "table_handler name =
     (case map_of ppu_ptrs name of Some f \<Rightarrow> f | None \<Rightarrow> (\<lambda>h. other_handler h name))"

definition base_register_required :: "string list" where
  "base_register_required = [''LWZ'', ''LBZ'', ''STW'', ''STB'', ''LHZ'', ''LHA'', ''STH'', ''LFS'', ''LFD'',
     ''STFS'', ''STFD'']"

definition rt_decode :: "u32 \<Rightarrow> handler" where
  "rt_decode op =
     (let name = decode op in
      if name \<in> set base_register_required \<and> op_ra op = 0
      then (\<lambda>h op pc s. Throw (Invalid_form name op))
      else if name = ''MFOCRF'' then
        (if op_l11 op then
           (let n = countl_zero (op_crm op) mod 8 in
            if drop_bit n 0x80 \<noteq> op_crm op then (\<lambda>h op pc s. Throw (Invalid_form name op))
            else plain (ppu_MFOCRF n))
         else plain ppu_MFCR)
      else table_handler name)"

section \<open>Execution\<close>

definition read32 :: "(u32 \<Rightarrow> u8) \<Rightarrow> u32 \<Rightarrow> u32" where
  "read32 m a = bytes_of_be (load_bytes m a 4)"

text \<open>
  One instruction of \<^verbatim>\<open>ppu_recompiler_fallback\<close>: the handler runs with \<^verbatim>\<open>ppu_ret\<close> in place of the next
  instruction, which only fixes the program counter.
\<close>

definition ppu_single :: "interp_host \<Rightarrow> ppu \<Rightarrow> ppu res" where
  "ppu_single h s =
     (let pc = cia_of s; op = read32 (memory s) pc in
      case rt_decode op h op pc s of
        Next s' \<Rightarrow> Inr (s'\<lparr>cia_of := pc + 4\<rparr>)
      | Leave s' \<Rightarrow> Inr s'
      | Syscall code s' \<Rightarrow> execute_syscall h code s'
      | Hle i s' \<Rightarrow> hle_function h i s'
      | Throw e \<Rightarrow> Inl e)"

fun ppu_recompiler_fallback ::
  "interp_host \<Rightarrow> (u32 \<Rightarrow> bool) \<Rightarrow> nat \<Rightarrow> ppu \<Rightarrow> ppu res option" where
  "ppu_recompiler_fallback h compiled 0 s = None"
| "ppu_recompiler_fallback h compiled (Suc n) s =
     (if compiled (cia_of s) then Some (Inr s)
      else case ppu_single h s of
        Inl e \<Rightarrow> Some (Inl e)
      | Inr s' \<Rightarrow> if test_stopped h s' then Some (Inr s')
                   else ppu_recompiler_fallback h compiled n s')"

text \<open>\<^verbatim>\<open>ppu_reservation_fallback\<close> runs until the reservation is gone.\<close>

fun ppu_reservation_fallback :: "interp_host \<Rightarrow> nat \<Rightarrow> ppu \<Rightarrow> ppu res option" where
  "ppu_reservation_fallback h 0 s = None"
| "ppu_reservation_fallback h (Suc n) s =
     (case ppu_single h s of
        Inl e \<Rightarrow> Some (Inl e)
      | Inr s' \<Rightarrow> if raddr_of s' = 0 \<or> \<not> use_full_rdata s' \<or> test_stopped h s' then Some (Inr s')
                   else ppu_reservation_fallback h n s')"

end
