(* ===== verification/Ppu_Inv.thy ===== *)
theory Ppu_Inv
  imports Ppu_Exec
begin

text \<open>
  The representation invariant of the interpreter state: the unpacked condition register holds only
  zeros and ones, the string count of \<^verbatim>\<open>XER\<close> has seven bits and the reservation data is one cache
  line. Several instructions rely on it (\<^verbatim>\<open>BCCTR\<close> compares a condition byte with a boolean, \<^verbatim>\<open>MFCR\<close>
  packs the bytes by their lowest bits); every instruction of the
  model keeps it.
\<close>

section \<open>The invariant\<close>

definition ppu_ok :: "ppu \<Rightarrow> bool" where
  "ppu_ok s \<longleftrightarrow> (\<forall>i. cr_of s i \<le> 1) \<and> xer_cnt s < 128 \<and> length (rdata_of s) = 128"

fun step_ok :: "ppu_step \<Rightarrow> bool" where
  "step_ok (Next s) = ppu_ok s"
| "step_ok (Leave s) = ppu_ok s"
| "step_ok (Syscall c s) = ppu_ok s"
| "step_ok (Hle i s) = ppu_ok s"
| "step_ok (Throw e) = True"

named_theorems ppu_keep

lemma ppu_ok_put [ppu_keep, simp]:
  "ppu_ok (put_gpr r v s) = ppu_ok s" "ppu_ok (put_fpr r v s) = ppu_ok s"
  "ppu_ok (put_vr r w s) = ppu_ok s"
  by (simp_all add: ppu_ok_def put_gpr_def put_fpr_def put_vr_def)

lemma ppu_ok_upd [ppu_keep, simp]:
  "ppu_ok (s\<lparr>xer_ca := a\<rparr>) = ppu_ok s" "ppu_ok (s\<lparr>xer_ov := a\<rparr>) = ppu_ok s"
  "ppu_ok (s\<lparr>xer_so := a\<rparr>) = ppu_ok s"
  "ppu_ok (s\<lparr>lr_of := b\<rparr>) = ppu_ok s" "ppu_ok (s\<lparr>ctr_of := b\<rparr>) = ppu_ok s"
  "ppu_ok (s\<lparr>vrsave_of := c\<rparr>) = ppu_ok s" "ppu_ok (s\<lparr>cia_of := c\<rparr>) = ppu_ok s"
  "ppu_ok (s\<lparr>exec_bytes_of := b\<rparr>) = ppu_ok s" "ppu_ok (s\<lparr>memory := m\<rparr>) = ppu_ok s"
  "ppu_ok (s\<lparr>raddr_of := c\<rparr>) = ppu_ok s" "ppu_ok (s\<lparr>res_cached_of := c\<rparr>) = ppu_ok s"
  "ppu_ok (s\<lparr>reservation_updates := l\<rparr>) = ppu_ok s"
  by (simp_all add: ppu_ok_def)

lemma ppu_ok_put_cr: "ppu_ok s \<Longrightarrow> v \<le> 1 \<Longrightarrow> ppu_ok (put_cr i v s)"
  by (simp add: ppu_ok_def put_cr_def)

lemma ppu_ok_cr_le: "ppu_ok s \<Longrightarrow> cr_of s i \<le> 1"
  by (simp add: ppu_ok_def)

lemma of_bool_le_1: "(of_bool b :: u8) \<le> 1"
  by (cases b) simp_all

lemma ppu_ok_cr_set [ppu_keep, simp]: "ppu_ok s \<Longrightarrow> ppu_ok (ppu_cr_set f a b c d s)"
  unfolding ppu_cr_set_def by (intro ppu_ok_put_cr of_bool_le_1)

lemma ppu_ok_cr_cmp [ppu_keep, simp]:
  "ppu_ok s \<Longrightarrow> ppu_ok (ppu_cr_set_s f a b s)" "ppu_ok s \<Longrightarrow> ppu_ok (ppu_cr_set_u f a b s)"
  "ppu_ok s \<Longrightarrow> ppu_ok (cr_rc rc x s)" "ppu_ok (ppu_ov_set v s) = ppu_ok s"
  by (simp_all add: ppu_cr_set_s_def ppu_cr_set_u_def cr_rc_def ppu_ov_set_def)

lemma ppu_ok_copy_field: "ppu_ok s \<Longrightarrow> (\<And>i. v i \<le> 1) \<Longrightarrow> ppu_ok (cr_copy_field f v s)"
  unfolding cr_copy_field_def by (intro ppu_ok_put_cr)

lemma bool_byte: "(x :: u8) \<le> 1 \<longleftrightarrow> x = 0 \<or> x = 1"
proof -
  have "x \<le> 1 \<longleftrightarrow> uint x \<le> 1" by (simp add: word_le_def)
  also have "\<dots> \<longleftrightarrow> uint x = 0 \<or> uint x = 1" using uint_ge_0 [of x] by linarith
  finally show ?thesis using word_uint_eq_iff [of x 0] word_uint_eq_iff [of x 1] by simp
qed

lemma bool_byte_ops:
  assumes "(x :: u8) \<le> 1" "y \<le> 1"
  shows "x AND y \<le> 1" "x OR y \<le> 1" "x XOR y \<le> 1" "x XOR 1 \<le> 1"
  using assms unfolding bool_byte by auto

section \<open>Every instruction keeps the invariant\<close>

definition keeps :: "(u32 \<Rightarrow> ppu \<Rightarrow> ppu) \<Rightarrow> bool" where
  "keeps f \<longleftrightarrow> (\<forall>op s. ppu_ok s \<longrightarrow> ppu_ok (f op s))"

definition keeps_res :: "(u32 \<Rightarrow> ppu \<Rightarrow> ppu res) \<Rightarrow> bool" where
  "keeps_res f \<longleftrightarrow> (\<forall>op s s'. ppu_ok s \<longrightarrow> f op s = Inr s' \<longrightarrow> ppu_ok s')"

definition keeps_step :: "handler \<Rightarrow> bool" where
  "keeps_step f \<longleftrightarrow> (\<forall>h op pc s. ppu_ok s \<longrightarrow> step_ok (f h op pc s))"

lemma keeps_plain: "keeps f \<Longrightarrow> keeps_step (plain f)"
  by (simp add: keeps_def keeps_step_def plain_def)

lemma keeps_fallible: "keeps_res f \<Longrightarrow> keeps_step (fallible f)"
  by (auto simp: keeps_res_def keeps_step_def fallible_def split: sum.split)

lemma keepsI: "(\<And>op s. ppu_ok s \<Longrightarrow> ppu_ok (f op s)) \<Longrightarrow> keeps f"
  by (simp add: keeps_def)

lemma ppu_ok_if [ppu_keep]: "ppu_ok s \<Longrightarrow> ppu_ok s' \<Longrightarrow> ppu_ok (if b then s else s')"
  by simp

lemma keeps_alu:
  "keeps ppu_MULLI" "keeps ppu_SUBFIC" "keeps ppu_CMPLI" "keeps ppu_CMPI" "keeps ppu_ADDIC"
  "keeps ppu_ADDI" "keeps ppu_ADDIS" "keeps (ppu_SUBFC oe rc)" "keeps (ppu_MULHDU rc)"
  "keeps (ppu_ADDC oe rc)" "keeps (ppu_MULHWU rc)" "keeps (ppu_SUBF oe rc)"
  "keeps (ppu_MULHD rc)" "keeps (ppu_MULHW rc)" "keeps (ppu_NEG oe rc)"
  "keeps (ppu_SUBFE oe rc)" "keeps (ppu_ADDE oe rc)" "keeps (ppu_SUBFZE oe rc)"
  "keeps (ppu_ADDZE oe rc)" "keeps (ppu_MULLD rc)" "keeps (ppu_SUBFME oe rc)"
  "keeps (ppu_ADDME oe rc)" "keeps (ppu_MULLW oe rc)" "keeps (ppu_ADD oe rc)"
  "keeps (ppu_DIVDU oe rc)" "keeps (ppu_DIVWU oe rc)" "keeps (ppu_DIVD oe rc)"
  "keeps (ppu_DIVW oe rc)" "keeps ppu_ORI" "keeps ppu_ORIS" "keeps ppu_XORI" "keeps ppu_XORIS"
  "keeps ppu_ANDI" "keeps ppu_ANDIS" "keeps (ppu_AND rc)" "keeps (ppu_ANDC rc)"
  "keeps (ppu_NOR rc)" "keeps (ppu_EQV rc)" "keeps (ppu_XOR rc)" "keeps (ppu_ORC rc)"
  "keeps (ppu_OR rc)" "keeps (ppu_NAND rc)" "keeps (ppu_CNTLZW rc)" "keeps (ppu_CNTLZD rc)"
  "keeps (ppu_EXTSH rc)" "keeps (ppu_EXTSB rc)" "keeps (ppu_EXTSW rc)" "keeps (ppu_RLWIMI rc)"
  "keeps (ppu_RLWINM rc)" "keeps (ppu_RLWNM rc)" "keeps (ppu_RLDICL rc)" "keeps (ppu_RLDICR rc)"
  "keeps (ppu_RLDIC rc)" "keeps (ppu_RLDIMI rc)" "keeps (ppu_RLDCL rc)" "keeps (ppu_RLDCR rc)"
  "keeps (ppu_SLW rc)" "keeps (ppu_SLD rc)" "keeps (ppu_SRW rc)" "keeps (ppu_SRD rc)"
  "keeps (ppu_SRAW rc)" "keeps (ppu_SRAD rc)" "keeps (ppu_SRAWI rc)" "keeps (ppu_SRADI rc)"
  "keeps ppu_CMP" "keeps ppu_CMPL" "keeps ppu_MFCR"
  by (intro keepsI; simp only: Let_def ppu_keep
      ppu_MULLI_def ppu_SUBFIC_def ppu_CMPLI_def ppu_CMPI_def ppu_ADDIC_def ppu_ADDI_def
      ppu_ADDIS_def ppu_SUBFC_def ppu_MULHDU_def ppu_ADDC_def ppu_MULHWU_def ppu_SUBF_def
      ppu_MULHD_def ppu_MULHW_def ppu_NEG_def ppu_SUBFE_def ppu_ADDE_def ppu_SUBFZE_def
      ppu_ADDZE_def ppu_MULLD_def ppu_SUBFME_def ppu_ADDME_def ppu_MULLW_def ppu_ADD_def
      ppu_DIVDU_def ppu_DIVWU_def ppu_DIVD_def ppu_DIVW_def ppu_ORI_def ppu_ORIS_def
      ppu_XORI_def ppu_XORIS_def ppu_ANDI_def ppu_ANDIS_def ppu_AND_def ppu_ANDC_def ppu_NOR_def
      ppu_EQV_def ppu_XOR_def ppu_ORC_def ppu_OR_def ppu_NAND_def ppu_CNTLZW_def ppu_CNTLZD_def
      ppu_EXTSH_def ppu_EXTSB_def ppu_EXTSW_def ppu_RLWIMI_def ppu_RLWINM_def ppu_RLWNM_def
      ppu_RLDICL_def ppu_RLDICR_def ppu_RLDIC_def ppu_RLDIMI_def ppu_RLDCL_def ppu_RLDCR_def
      ppu_SLW_def ppu_SLD_def ppu_SRW_def ppu_SRD_def ppu_SRAW_def ppu_SRAD_def ppu_SRAWI_def
      ppu_SRADI_def ppu_CMP_def ppu_CMPL_def ppu_MFCR_def)+

lemma keeps_cr:
  "keeps ppu_CRNOR" "keeps ppu_CRANDC" "keeps ppu_CRXOR" "keeps ppu_CRNAND" "keeps ppu_CRAND"
  "keeps ppu_CREQV" "keeps ppu_CRORC" "keeps ppu_CROR"
  by (intro keepsI; simp only: ppu_CRNOR_def ppu_CRANDC_def ppu_CRXOR_def ppu_CRNAND_def
      ppu_CRAND_def ppu_CREQV_def ppu_CRORC_def ppu_CROR_def ppu_ok_put_cr bool_byte_ops
      ppu_ok_cr_le)+

lemma s_table_le: "s_table v i \<le> 1"
  by (simp add: s_table_def of_bool_le_1)

lemma keeps_cr_moves:
  "keeps ppu_MCRF" "keeps (ppu_MFOCRF n)" "keeps ppu_MTOCRF"
proof -
  show "keeps ppu_MCRF" unfolding keeps_def ppu_MCRF_def
    by (safe; intro ppu_ok_copy_field ppu_ok_cr_le)
  show "keeps (ppu_MFOCRF n)" by (simp add: keeps_def ppu_MFOCRF_def Let_def)
  have "ppu_ok (fold (\<lambda>i s. if P i then cr_copy_field i (s_table (f i)) s else s) js s)"
    if "ppu_ok s" for P f js s
    using that by (induction js arbitrary: s) (simp_all add: ppu_ok_copy_field s_table_le)
  then show "keeps ppu_MTOCRF"
    by (simp add: keeps_def ppu_MTOCRF_def Let_def ppu_ok_copy_field s_table_le)
qed

lemma keeps_spr: "keeps_res ppu_MFSPR" "keeps_res ppu_MFTB" "keeps_res ppu_MTSPR"
proof -
  show "keeps_res ppu_MFSPR" "keeps_res ppu_MFTB"
    by (auto simp: keeps_res_def ppu_MFSPR_def ppu_MFTB_def Let_def split: if_splits)
  have "(ucast (v AND 0x7f :: u64) :: u8) < 128" for v
  proof -
    have "ucast (v AND 0x7f :: u64) = (take_bit 7 (ucast v) :: u8)"
      by (rule bit_eqI) (auto simp: bit_simps mask_eq_decr_exp [of 7, simplified, symmetric])
    then show ?thesis
      using take_bit_nat_less_exp [of 7 "unat (ucast v :: u8)"]
      by (simp add: word_less_nat_alt unsigned_take_bit_eq)
  qed
  then show "keeps_res ppu_MTSPR"
    by (auto simp: keeps_res_def ppu_MTSPR_def Let_def ppu_ok_def split: if_splits)
qed

text \<open>Results: an exception, or a state that satisfies the invariant.\<close>

fun res_ok :: "ppu res \<Rightarrow> bool" where
  "res_ok (Inl e) = True"
| "res_ok (Inr s) = ppu_ok s"

lemma keeps_resI: "(\<And>op s. ppu_ok s \<Longrightarrow> res_ok (f op s)) \<Longrightarrow> keeps_res f"
  unfolding keeps_res_def by (metis res_ok.simps(2))

lemma feed_data_ok: "ppu_feed_data n addr s = Inr (bs, s') \<Longrightarrow> ppu_ok s \<Longrightarrow> ppu_ok s'"
  by (auto simp: ppu_feed_data_def Let_def)

lemma bind_feed_ok:
  assumes "ppu_ok s" "\<And>v s'. ppu_ok s' \<Longrightarrow> res_ok (g v s')"
  shows "res_ok (bind_res (feed_be n a s) (\<lambda>(v, s'). g v s'))"
    "res_ok (bind_res (feed_le n a s) (\<lambda>(v, s'). g v s'))"
  using assms feed_data_ok [of n a s]
  by (cases "ppu_feed_data n a s"; auto simp: feed_be_def feed_le_def)+

lemma write_ok: "ppu_ok s \<Longrightarrow> res_ok (ppu_write addr bs s)"
  unfolding ppu_write_def by (cases "vm_cast addr") simp_all

lemma bind_ok:
  assumes "res_ok r" "\<And>s'. ppu_ok s' \<Longrightarrow> res_ok (g s')"
  shows "res_ok (bind_res r g)"
  using assms by (cases r) simp_all

lemma bind_cast_ok: "(\<And>a. res_ok (g a)) \<Longrightarrow> res_ok (bind_res (vm_cast addr) g)"
  by (cases "vm_cast addr") simp_all

lemma if_res_ok: "res_ok r \<Longrightarrow> res_ok r' \<Longrightarrow> res_ok (if b then r else r')"
  by simp

lemma Inr_ok: "ppu_ok s \<Longrightarrow> res_ok (Inr s)"
  by simp

lemma put_ok:
  "ppu_ok s \<Longrightarrow> ppu_ok (put_gpr r v s)" "ppu_ok s \<Longrightarrow> ppu_ok (put_fpr r v s)"
  "ppu_ok s \<Longrightarrow> ppu_ok (put_vr r w s)" "ppu_ok s \<Longrightarrow> ppu_ok (s\<lparr>memory := m\<rparr>)"
  "ppu_ok s \<Longrightarrow> ppu_ok (s\<lparr>reservation_updates := l\<rparr>)"
  by simp_all

lemmas res_rules = keeps_resI bind_feed_ok bind_cast_ok bind_ok write_ok if_res_ok Inr_ok put_ok

lemma keeps_mem:
  "keeps_res ppu_LDX" "keeps_res ppu_LWZX" "keeps_res ppu_LDUX" "keeps_res ppu_LWZUX"
  "keeps_res ppu_LBZX" "keeps_res ppu_LBZUX" "keeps_res ppu_LHZX" "keeps_res ppu_LHZUX"
  "keeps_res ppu_LWAX" "keeps_res ppu_LHAX" "keeps_res ppu_LWAUX" "keeps_res ppu_LHAUX"
  "keeps_res ppu_LDBRX" "keeps_res ppu_LWBRX" "keeps_res ppu_LHBRX" "keeps_res ppu_LWZ"
  "keeps_res ppu_LWZU" "keeps_res ppu_LBZ" "keeps_res ppu_LBZU" "keeps_res ppu_LHZ"
  "keeps_res ppu_LHZU" "keeps_res ppu_LHA" "keeps_res ppu_LHAU" "keeps_res ppu_LD"
  "keeps_res ppu_LDU" "keeps_res ppu_LWA" "keeps_res ppu_LFDX" "keeps_res ppu_LFDUX"
  "keeps_res ppu_LFD" "keeps_res ppu_LFDU" "keeps_res ppu_STDX" "keeps_res ppu_STWX"
  "keeps_res ppu_STDUX" "keeps_res ppu_STWUX" "keeps_res ppu_STBX" "keeps_res ppu_STBUX"
  "keeps_res ppu_STHX" "keeps_res ppu_STHUX" "keeps_res ppu_STDBRX" "keeps_res ppu_STWBRX"
  "keeps_res ppu_STHBRX" "keeps_res ppu_STWU" "keeps_res ppu_STB" "keeps_res ppu_STBU"
  "keeps_res ppu_STH" "keeps_res ppu_STHU" "keeps_res ppu_STD" "keeps_res ppu_STDU"
  "keeps_res ppu_STFDX" "keeps_res ppu_STFDUX" "keeps_res ppu_STFD" "keeps_res ppu_STFDU"
  "keeps_res ppu_STFIWX" "keeps_res ppu_STW" "keeps_res ppu_DCBZ" "keeps_res ppu_LVEBX"
  "keeps_res ppu_LVEHX" "keeps_res ppu_LVEWX" "keeps_res ppu_LVX" "keeps_res ppu_LVXL"
  "keeps_res ppu_STVX" "keeps_res ppu_STVXL" "keeps_res ppu_STVEBX" "keeps_res ppu_STVEHX"
  "keeps_res ppu_STVEWX" "keeps_res ppu_LVLX" "keeps_res ppu_LVRX" "keeps_res ppu_STVLX"
  "keeps_res ppu_STVRX"
  unfolding Let_def
    ppu_LDX_def ppu_LWZX_def ppu_LDUX_def ppu_LWZUX_def ppu_LBZX_def ppu_LBZUX_def ppu_LHZX_def
    ppu_LHZUX_def ppu_LWAX_def ppu_LHAX_def ppu_LWAUX_def ppu_LHAUX_def ppu_LDBRX_def
    ppu_LWBRX_def ppu_LHBRX_def ppu_LWZ_def ppu_LWZU_def ppu_LBZ_def ppu_LBZU_def ppu_LHZ_def
    ppu_LHZU_def ppu_LHA_def ppu_LHAU_def ppu_LD_def ppu_LDU_def ppu_LWA_def ppu_LFDX_def
    ppu_LFDUX_def ppu_LFD_def ppu_LFDU_def ppu_STDX_def ppu_STWX_def ppu_STDUX_def ppu_STWUX_def
    ppu_STBX_def ppu_STBUX_def ppu_STHX_def ppu_STHUX_def ppu_STDBRX_def ppu_STWBRX_def
    ppu_STHBRX_def ppu_STWU_def ppu_STB_def ppu_STBU_def ppu_STH_def ppu_STHU_def ppu_STD_def
    ppu_STDU_def ppu_STFDX_def ppu_STFDUX_def ppu_STFD_def ppu_STFDU_def ppu_STFIWX_def
    ppu_STW_def ppu_DCBZ_def ppu_LVEBX_def ppu_LVEHX_def ppu_LVEWX_def ppu_LVX_def ppu_LVXL_def
    ppu_STVX_def ppu_STVXL_def ppu_STVEBX_def ppu_STVEHX_def ppu_STVEWX_def ppu_LVLX_def
    ppu_LVRX_def ppu_STVLX_def ppu_STVRX_def
  by (intro res_rules; assumption)+

text \<open>The loops of the multiple-word and string instructions.\<close>

lemma lmw_ok: "ppu_ok s \<Longrightarrow> res_ok (lmw_loop n i addr s)"
  by (induction n arbitrary: i addr s) (auto intro!: bind_feed_ok)

lemma stmw_ok: "ppu_ok s \<Longrightarrow> res_ok (stmw_loop n i addr s)"
  by (induction n arbitrary: i addr s) (auto intro!: bind_ok write_ok)

text \<open>Results that carry more than the state.\<close>

definition res_all :: "('a \<Rightarrow> bool) \<Rightarrow> 'a res \<Rightarrow> bool" where
  "res_all P r = (case r of Inl e \<Rightarrow> True | Inr x \<Rightarrow> P x)"

lemma res_all_simps [simp]: "res_all P (Inl e)" "res_all P (Inr x) = P x"
  by (simp_all add: res_all_def)

lemma res_ok_all: "res_ok r = res_all ppu_ok r"
  by (cases r) simp_all

lemma res_all_bind: "res_all P m \<Longrightarrow> (\<And>x. P x \<Longrightarrow> res_all Q (f x)) \<Longrightarrow> res_all Q (bind_res m f)"
  by (cases m) simp_all

lemma feed_all: "ppu_ok s \<Longrightarrow> res_all (\<lambda>(v, s'). ppu_ok s') (feed_be n a s)"
  using feed_data_ok [of n a s] by (cases "ppu_feed_data n a s") (auto simp: feed_be_def)

lemma write_all: "ppu_ok s \<Longrightarrow> res_all ppu_ok (ppu_write addr bs s)"
  using write_ok [of s addr bs] by (simp add: res_ok_all)

lemma lswx_words_ok: "ppu_ok s \<Longrightarrow> res_all (\<lambda>(_, _, _, s'). ppu_ok s') (lswx_words cnt addr rd s)"
proof (induction cnt addr rd s rule: lswx_words.induct)
  case (1 cnt addr rd s)
  then show ?case by (subst lswx_words.simps) (auto intro!: res_all_bind [OF feed_all])
qed

lemma lswx_bytes_ok: "ppu_ok s \<Longrightarrow> res_all (\<lambda>(_, s'). ppu_ok s') (lswx_bytes n byte addr v s)"
  by (induction n arbitrary: byte v s) (auto intro!: res_all_bind [OF feed_all])

lemma stswx_words_ok:
  "ppu_ok s \<Longrightarrow> res_all (\<lambda>(_, _, _, s'). ppu_ok s') (stswx_words cnt addr rs s)"
proof (induction cnt addr rs s rule: stswx_words.induct)
  case (1 cnt addr rs s)
  then show ?case by (subst stswx_words.simps) (auto intro!: res_all_bind [OF write_all])
qed

lemma stswx_bytes_ok: "ppu_ok s \<Longrightarrow> res_ok (stswx_bytes n byte addr v s)"
  by (induction n arbitrary: byte s) (auto intro!: bind_ok write_ok)

lemma lswi_tail_ok: "ppu_ok s \<Longrightarrow> res_all (\<lambda>(_, s'). ppu_ok s') (lswi_tail n i addr buf s)"
  by (induction n arbitrary: i addr buf s) (auto intro!: res_all_bind [OF feed_all])

lemma lswi_loop_ok: "ppu_ok s \<Longrightarrow> res_ok (lswi_loop n addr reg s)"
proof (induction n addr reg s rule: lswi_loop.induct)
  case (1 n addr reg s)
  then show ?case unfolding res_ok_all
    by (subst lswi_loop.simps)
      (auto intro!: res_all_bind [OF feed_all] res_all_bind [OF lswi_tail_ok])
qed

lemma stswi_tail_ok: "ppu_ok s \<Longrightarrow> res_ok (stswi_tail n addr buf s)"
  by (induction n arbitrary: addr buf s) (auto intro!: bind_ok write_ok)

lemma stswi_loop_ok: "ppu_ok s \<Longrightarrow> res_ok (stswi_loop n addr reg s)"
proof (induction n addr reg s rule: stswi_loop.induct)
  case (1 n addr reg s)
  then show ?case by (subst stswi_loop.simps) (auto intro!: bind_ok write_ok stswi_tail_ok)
qed

lemma keeps_strings:
  "keeps_res ppu_LMW" "keeps_res ppu_STMW" "keeps_res ppu_LSWI" "keeps_res ppu_STSWI"
  "keeps_res ppu_LSWX" "keeps_res ppu_STSWX" "keeps ppu_LVSL" "keeps ppu_LVSR"
proof -
  show "keeps_res ppu_LMW" "keeps_res ppu_STMW" "keeps_res ppu_LSWI" "keeps_res ppu_STSWI"
    unfolding ppu_LMW_def ppu_STMW_def ppu_LSWI_def ppu_STSWI_def
    by (intro keeps_resI lmw_ok stmw_ok lswi_loop_ok stswi_loop_ok; assumption)+
  show "keeps_res ppu_LSWX" unfolding ppu_LSWX_def
    by (rule keeps_resI)
      (auto simp: res_ok_all intro!: res_all_bind [OF lswx_words_ok] res_all_bind [OF lswx_bytes_ok])
  show "keeps_res ppu_STSWX" unfolding ppu_STSWX_def
    by (rule keeps_resI)
      (auto simp: res_ok_all intro!: res_all_bind [OF stswx_words_ok]
        intro: stswx_bytes_ok [unfolded res_ok_all])
  show "keeps ppu_LVSL" "keeps ppu_LVSR" by (simp_all add: keeps_def ppu_LVSL_def ppu_LVSR_def)
qed

lemma keeps_control:
  "keeps_step ppu_TDI" "keeps_step ppu_TWI" "keeps_step ppu_TW" "keeps_step ppu_TD"
  "keeps_step ppu_BC" "keeps_step ppu_B" "keeps_step ppu_BCLR" "keeps_step ppu_BCCTR"
  "keeps_step ppu_SC" "keeps_step ppu_UNK" "keeps ppu_HINT" "keeps_res ppu_ECIWX"
  "keeps_res ppu_ECOWX"
  by (auto simp: keeps_step_def keeps_def keeps_res_def Let_def ppu_TDI_def ppu_TWI_def ppu_TW_def
      ppu_TD_def ppu_BC_def ppu_B_def ppu_BCLR_def ppu_BCCTR_def ppu_SC_def ppu_UNK_def ppu_HINT_def
      ppu_ECIWX_def ppu_ECOWX_def ppu_trap_def not_taken_def count_exec_def set_link_def
      ctr_decrement_def)

lemmas keeps_all = keeps_alu keeps_cr keeps_cr_moves keeps_spr keeps_mem keeps_strings keeps_control

lemma ptrs_ok: "list_all (\<lambda>(n, f). keeps_step f) ppu_ptrs"
  unfolding ppu_ptrs_def INIT_def INIT_F_def INIT_RC_def INIT_RC_OV_def
  by (simp add: keeps_plain keeps_fallible keeps_all)

section \<open>Dispatch and execution keep the invariant\<close>

text \<open>
  The instructions whose handlers are definitions of the model, and a run of the interpreter loop that executes only
  these and enters neither a system call nor an HLE function. Nothing is assumed of the handlers outside the model.
\<close>

definition modelled :: "string \<Rightarrow> bool" where
  "modelled name \<longleftrightarrow> name \<in> fst ` set ppu_ptrs \<or> name = ''MFOCRF''"

fun is_call :: "ppu_step \<Rightarrow> bool" where
  "is_call (Syscall c s) = True"
| "is_call (Hle i s) = True"
| "is_call r = False"

fun modelled_run :: "interp_host \<Rightarrow> (u32 \<Rightarrow> bool) \<Rightarrow> nat \<Rightarrow> ppu \<Rightarrow> bool" where
  "modelled_run h compiled 0 s = True"
| "modelled_run h compiled (Suc n) s =
     (compiled (cia_of s)
    \<or> (let op = read32 (memory s) (cia_of s) in modelled (decode op) \<and> \<not> is_call (rt_decode op h op (cia_of s) s))
      \<and> (case ppu_single h s of Inl e \<Rightarrow> True | Inr s' \<Rightarrow> test_stopped h s' \<or> modelled_run h compiled n s'))"

lemma keeps_step_at: "keeps_step f \<Longrightarrow> ppu_ok s \<Longrightarrow> step_ok (f h op pc s)"
  by (simp add: keeps_step_def)

lemma table_handler_ok:
  assumes "name \<in> fst ` set ppu_ptrs" "ppu_ok s"
  shows "step_ok (table_handler name h op pc s)"
proof -
  obtain f where f: "map_of ppu_ptrs name = Some f" using assms(1) by (metis map_of_eq_None_iff not_None_eq)
  then have "(name, f) \<in> set ppu_ptrs" by (rule map_of_SomeD)
  then have "keeps_step f" using ptrs_ok by (auto simp: list_all_iff)
  then show ?thesis using assms(2) by (simp add: table_handler_def f keeps_step_at)
qed

lemma rt_decode_ok: "modelled (decode op) \<Longrightarrow> ppu_ok s \<Longrightarrow> step_ok (rt_decode op h op pc s)"
  unfolding rt_decode_def Let_def modelled_def
  by (cases "decode op = ''MFOCRF''") (simp_all add: table_handler_ok keeps_step_at keeps_plain keeps_cr_moves keeps_alu)

lemma ppu_single_ok:
  assumes "modelled (decode (read32 (memory s) (cia_of s)))" "ppu_ok s"
    and "\<not> is_call (rt_decode (read32 (memory s) (cia_of s)) h (read32 (memory s) (cia_of s)) (cia_of s) s)"
  shows "res_ok (ppu_single h s)"
  using rt_decode_ok [OF assms(1,2), of h "cia_of s"] assms(3) unfolding ppu_single_def Let_def
  by (cases "rt_decode (read32 (memory s) (cia_of s)) h (read32 (memory s) (cia_of s)) (cia_of s) s") simp_all

lemma fallback_ok:
  "modelled_run h compiled n s \<Longrightarrow> ppu_ok s \<Longrightarrow> ppu_recompiler_fallback h compiled n s = Some r \<Longrightarrow> res_ok r"
proof (induction n arbitrary: s)
  case (Suc n)
  show ?case
  proof (cases "compiled (cia_of s)")
    case True
    then show ?thesis using Suc.prems by auto
  next
    case False
    then have k: "res_ok (ppu_single h s)" using Suc.prems(1,2) by (auto simp: Let_def intro: ppu_single_ok)
    show ?thesis
    proof (cases "ppu_single h s")
      case (Inl e)
      then have "r = Inl e" using False Suc.prems(3) by simp
      then show ?thesis by simp
    next
      case (Inr s')
      then have "ppu_ok s'" using k by simp
      moreover have "r = Inr s'" if "test_stopped h s'" using that False Inr Suc.prems(3) by simp
      moreover have "modelled_run h compiled n s' \<and> ppu_recompiler_fallback h compiled n s' = Some r" if "\<not> test_stopped h s'"
        using that False Inr Suc.prems(1,3) by (simp add: Let_def)
      ultimately show ?thesis using Suc.IH [of s'] by (cases "test_stopped h s'") simp_all
    qed
  qed
qed simp

text \<open>A concrete host and state, for the examples.\<close>

definition demo_interp :: interp_host where
  "demo_interp = \<lparr>hle_addr = 0, hle_count = 0, stub_ppu_traps = 0, page_executable = (\<lambda>_. True),
     other_handler = (\<lambda>name op pc s. Throw (Illegal_opcode op)),
     execute_syscall = (\<lambda>code s. Inr (s\<lparr>cia_of := cia_of s + 4\<rparr>)),
     hle_function = (\<lambda>i s. Inr s), test_stopped = (\<lambda>s. False)\<rparr>"

definition demo_ppu :: ppu where
  "demo_ppu = \<lparr>gpr_of = (\<lambda>_. 0), fpr_of = (\<lambda>_. 0), vr_of = (\<lambda>_. 0), cr_of = (\<lambda>_. 0), lr_of = 0,
     ctr_of = 0, vrsave_of = 0, cia_of = 0x10000, xer_so = False, xer_ov = False, xer_ca = False,
     xer_cnt = 0, raddr_of = 0, rdata_of = replicate 128 0, use_full_rdata = False,
     res_cached_of = 0, stopping = False, exec_bytes_of = 0, memory = (\<lambda>_. 0), timebase = 0,
     feed_data = False, reservation_updates = []\<rparr>"

lemma demo_ppu_ok: "ppu_ok demo_ppu"
  by (simp add: ppu_ok_def demo_ppu_def)

end
