(* ===== verification/Ppu_Arith.thy ===== *)
theory Ppu_Arith
  imports Ppu_Inv
begin

text \<open>
  What the fixed-point instructions compute, in terms of integers: additions with carry chained over
  two registers are 128-bit additions, the divisions return the truncated quotient or flag an
  overflow, an arithmetic shift followed by \<^verbatim>\<open>ADDZE\<close> divides by a power of two, and the rotate
  instructions apply the mask of the architecture.
\<close>

section \<open>Frame rules\<close>

lemma put_gpr_get [simp]:
  "gpr_of (put_gpr r v s) = (gpr_of s)(r := v)" "xer_ca (put_gpr r v s) = xer_ca s"
  "xer_so (put_gpr r v s) = xer_so s" "xer_ov (put_gpr r v s) = xer_ov s"
  "cr_of (put_gpr r v s) = cr_of s" "memory (put_gpr r v s) = memory s"
  "vr_of (put_gpr r v s) = vr_of s" "cia_of (put_gpr r v s) = cia_of s"
  "feed_data (put_gpr r v s) = feed_data s" "ctr_of (put_gpr r v s) = ctr_of s"
  "lr_of (put_gpr r v s) = lr_of s"
  by (simp_all add: put_gpr_def)

lemma put_cr_get [simp]:
  "gpr_of (put_cr i v s) = gpr_of s" "xer_ca (put_cr i v s) = xer_ca s"
  "xer_so (put_cr i v s) = xer_so s" "xer_ov (put_cr i v s) = xer_ov s"
  "cr_of (put_cr i v s) = (cr_of s)(i := v)" "memory (put_cr i v s) = memory s"
  by (simp_all add: put_cr_def)

lemma cr_set_get [simp]:
  "gpr_of (ppu_cr_set f a b c d s) = gpr_of s" "xer_ca (ppu_cr_set f a b c d s) = xer_ca s"
  "xer_so (ppu_cr_set f a b c d s) = xer_so s" "xer_ov (ppu_cr_set f a b c d s) = xer_ov s"
  by (simp_all add: ppu_cr_set_def)

lemma cr_rc_get [simp]:
  "gpr_of (cr_rc rc x s) = gpr_of s" "xer_ca (cr_rc rc x s) = xer_ca s"
  "xer_so (cr_rc rc x s) = xer_so s" "xer_ov (cr_rc rc x s) = xer_ov s"
  by (simp_all add: cr_rc_def ppu_cr_set_s_def)

lemma ov_set_get [simp]:
  "gpr_of (ppu_ov_set b s) = gpr_of s" "xer_ca (ppu_ov_set b s) = xer_ca s"
  "xer_so (ppu_ov_set b s) = (xer_so s \<or> b)" "xer_ov (ppu_ov_set b s) = b"
  by (simp_all add: ppu_ov_set_def)

section \<open>Carries\<close>

lemma add_flags_uint:
  "uint a + uint b = 2 ^ 64 * of_bool (snd (add_flags a b)) + uint (fst (add_flags a b))"
proof -
  have b: "0 \<le> uint a" "0 \<le> uint b" "uint a < 2 ^ 64" "uint b < 2 ^ 64"
    using uint_lt2p [of a] uint_lt2p [of b] by simp_all
  have m: "uint (a + b) = (uint a + uint b) mod 2 ^ 64" by (simp add: uint_word_ariths)
  show ?thesis
  proof (cases "uint a + uint b < 2 ^ 64")
    case True
    then have "uint (a + b) = uint a + uint b" using m b by simp
    then show ?thesis using b by (simp add: add_flags_def word_less_def)
  next
    case False
    then have "uint (a + b) = uint a + uint b - 2 ^ 64"
      using uint_plus_if_size [of a b] by (simp add: word_size)
    then show ?thesis using b by (simp add: add_flags_def word_less_def)
  qed
qed

lemma add_flags_c_uint:
  "uint a + uint b + of_bool c =
     2 ^ 64 * of_bool (snd (add_flags_c a b c)) + uint (fst (add_flags_c a b c))"
proof -
  define r where "r = fst (add_flags a b)"
  define x where "x = snd (add_flags a b)"
  define r' where "r' = fst (add_flags r (of_bool c))"
  define x' where "x' = snd (add_flags r (of_bool c))"
  have e: "uint a + uint b = 2 ^ 64 * of_bool x + uint r"
    unfolding x_def r_def by (rule add_flags_uint)
  have e': "uint r + of_bool c = 2 ^ 64 * of_bool x' + uint r'"
    using add_flags_uint [of r "of_bool c"] by (cases c) (simp_all add: x'_def r'_def)
  have "\<not> (x \<and> x')"
  proof
    assume "x \<and> x'"
    then have "uint a + uint b + of_bool c = 2 ^ 65 + uint r'" using e e' by simp
    then show False using uint_lt2p [of a] uint_lt2p [of b] uint_ge_0 [of r'] by (cases c) simp_all
  qed
  then have "of_bool (x \<or> x') = (of_bool x + of_bool x' :: int)" by auto
  moreover have "add_flags_c a b c = (r', x \<or> x')"
    by (simp add: add_flags_c_def r'_def x'_def r_def x_def Let_def split: prod.split)
  ultimately show ?thesis using e e' by simp
qed

lemma uint_not64: "uint (NOT (a :: u64)) = 2 ^ 64 - 1 - uint a"
proof -
  have "uint (NOT a) = (- uint a - 1) mod 2 ^ 64"
    by (simp add: not_eq_complement uint_word_ariths mod_simps)
  also have "\<dots> = (2 ^ 64 - 1 - uint a) mod 2 ^ 64"
    using mod_add_self2 [of "- uint a - 1" "2 ^ 64 :: int"] by (simp add: algebra_simps)
  also have "\<dots> = 2 ^ 64 - 1 - uint a"
  proof (rule mod_pos_pos_trivial)
    have "uint a < 2 ^ 64" "0 \<le> uint a" using uint_lt2p [of a] by simp_all
    then show "0 \<le> 2 ^ 64 - 1 - uint a" "2 ^ 64 - 1 - uint a < 2 ^ 64" by linarith+
  qed
  finally show ?thesis .
qed

text \<open>The value of a register pair.\<close>

definition pair128 :: "ppu \<Rightarrow> nat \<Rightarrow> nat \<Rightarrow> int" where
  "pair128 s hi lo = 2 ^ 64 * uint (gpr_of s hi) + uint (gpr_of s lo)"

lemma ppu_ADDC_get:
  "gpr_of (ppu_ADDC oe rc op s) = (gpr_of s)(op_rd op :=
     fst (add_flags (gpr_of s (op_ra op)) (gpr_of s (op_rb op))))"
  "xer_ca (ppu_ADDC oe rc op s) = snd (add_flags (gpr_of s (op_ra op)) (gpr_of s (op_rb op)))"
  by (simp_all add: ppu_ADDC_def Let_def)

lemma ppu_ADDE_get:
  "gpr_of (ppu_ADDE oe rc op s) = (gpr_of s)(op_rd op :=
     fst (add_flags_c (gpr_of s (op_ra op)) (gpr_of s (op_rb op)) (xer_ca s)))"
  "xer_ca (ppu_ADDE oe rc op s)
     = snd (add_flags_c (gpr_of s (op_ra op)) (gpr_of s (op_rb op)) (xer_ca s))"
  by (simp_all add: ppu_ADDE_def Let_def)

lemma ppu_SUBFC_get:
  "gpr_of (ppu_SUBFC oe rc op s) = (gpr_of s)(op_rd op :=
     fst (add_flags_c (NOT (gpr_of s (op_ra op))) (gpr_of s (op_rb op)) True))"
  "xer_ca (ppu_SUBFC oe rc op s)
     = snd (add_flags_c (NOT (gpr_of s (op_ra op))) (gpr_of s (op_rb op)) True)"
  by (simp_all add: ppu_SUBFC_def Let_def)

lemma ppu_SUBFE_get:
  "gpr_of (ppu_SUBFE oe rc op s) = (gpr_of s)(op_rd op :=
     fst (add_flags_c (NOT (gpr_of s (op_ra op))) (gpr_of s (op_rb op)) (xer_ca s)))"
  "xer_ca (ppu_SUBFE oe rc op s)
     = snd (add_flags_c (NOT (gpr_of s (op_ra op))) (gpr_of s (op_rb op)) (xer_ca s))"
  by (simp_all add: ppu_SUBFE_def Let_def)

text \<open>
  C12: Chained carries. \<^verbatim>\<open>ADDC\<close> on the low and \<^verbatim>\<open>ADDE\<close> on the high registers of two pairs leave
  the 128-bit sum in the result pair and its carry in XER.CA; \<^verbatim>\<open>SUBFC\<close> and \<^verbatim>\<open>SUBFE\<close> leave the 128-bit
  difference with XER.CA clear exactly when it borrows. The only condition is that the first
  instruction does not overwrite an operand or the result of the second.
\<close>

theorem carry_chain_128:
  assumes "op_rd lo \<notin> {op_ra hi, op_rb hi, op_rd hi}"
  shows "(let s' = ppu_ADDE oe rc hi (ppu_ADDC oe' rc' lo s) in
      pair128 s (op_ra hi) (op_ra lo) + pair128 s (op_rb hi) (op_rb lo)
        = 2 ^ 128 * of_bool (xer_ca s') + pair128 s' (op_rd hi) (op_rd lo))
    \<and> (let s' = ppu_SUBFE oe rc hi (ppu_SUBFC oe' rc' lo s) in
      pair128 s (op_rb hi) (op_rb lo) - pair128 s (op_ra hi) (op_ra lo)
        = pair128 s' (op_rd hi) (op_rd lo) - 2 ^ 128 * of_bool (\<not> xer_ca s'))"
proof -
  let ?a = "gpr_of s (op_ra hi)" let ?b = "gpr_of s (op_rb hi)"
  let ?c = "snd (add_flags (gpr_of s (op_ra lo)) (gpr_of s (op_rb lo)))"
  let ?d = "snd (add_flags_c (NOT (gpr_of s (op_ra lo))) (gpr_of s (op_rb lo)) True)"
  have "let s' = ppu_ADDE oe rc hi (ppu_ADDC oe' rc' lo s) in
      pair128 s (op_ra hi) (op_ra lo) + pair128 s (op_rb hi) (op_rb lo)
        = 2 ^ 128 * of_bool (xer_ca s') + pair128 s' (op_rd hi) (op_rd lo)"
    using assms add_flags_c_uint [of ?a ?b ?c]
      add_flags_uint [of "gpr_of s (op_ra lo)" "gpr_of s (op_rb lo)"]
    by (simp add: Let_def pair128_def ppu_ADDE_get ppu_ADDC_get)
  moreover have "let s' = ppu_SUBFE oe rc hi (ppu_SUBFC oe' rc' lo s) in
      pair128 s (op_rb hi) (op_rb lo) - pair128 s (op_ra hi) (op_ra lo)
        = pair128 s' (op_rd hi) (op_rd lo) - 2 ^ 128 * of_bool (\<not> xer_ca s')"
    using assms add_flags_c_uint [of "NOT ?a" ?b ?d]
      add_flags_c_uint [of "NOT (gpr_of s (op_ra lo))" "gpr_of s (op_rb lo)" True]
    by (simp add: Let_def pair128_def ppu_SUBFE_get ppu_SUBFC_get uint_not64 of_bool_not_iff)
  ultimately show ?thesis by blast
qed

text \<open>Registers 3 to 6 hold the operands, the sum goes to registers 7 (low) and 8 (high).\<close>

theorem carry_chain_128_witness:
  "op_rd 0x7ce42814 \<notin> {op_ra 0x7d031914, op_rb 0x7d031914, op_rd 0x7d031914}
   \<and> (let s = put_gpr 4 (NOT 0) (put_gpr 5 1 demo_ppu);
          s' = ppu_ADDE False False 0x7d031914 (ppu_ADDC False False 0x7ce42814 s)
      in pair128 s (op_ra 0x7d031914) (op_ra 0x7ce42814)
           + pair128 s (op_rb 0x7d031914) (op_rb 0x7ce42814)
         = 2 ^ 128 * of_bool (xer_ca s') + pair128 s' (op_rd 0x7d031914) (op_rd 0x7ce42814))"
proof -
  have h: "op_rd 0x7ce42814 \<notin> {op_ra 0x7d031914, op_rb 0x7d031914, op_rd 0x7d031914}"
    by code_simp
  then show ?thesis
    using carry_chain_128 [OF h, of False False False False "put_gpr 4 (NOT 0) (put_gpr 5 1 demo_ppu)"]
    by (simp only: Let_def simp_thms)
qed

section \<open>Division\<close>

lemma tdiv_remainder:
  assumes "b \<noteq> 0"
  shows "\<bar>a - tdiv a b * b\<bar> < \<bar>b\<bar>" "0 \<le> (a - tdiv a b * b) * a"
proof -
  have e: "a - tdiv a b * b = sgn a * (\<bar>a\<bar> mod \<bar>b\<bar>)"
  proof -
    have "tdiv a b * b = sgn a * (\<bar>a\<bar> div \<bar>b\<bar> * \<bar>b\<bar>)"
      by (simp add: tdiv_def abs_sgn [of b] mult.assoc mult.commute mult.left_commute)
    also have "\<dots> = sgn a * (\<bar>a\<bar> - \<bar>a\<bar> mod \<bar>b\<bar>)" by (simp add: minus_mod_eq_div_mult)
    also have "\<dots> = a - sgn a * (\<bar>a\<bar> mod \<bar>b\<bar>)" by (simp add: right_diff_distrib sgn_mult_abs)
    finally show ?thesis by simp
  qed
  have "0 \<le> \<bar>a\<bar> mod \<bar>b\<bar>" "\<bar>a\<bar> mod \<bar>b\<bar> < \<bar>b\<bar>" using assms by simp_all
  then show "\<bar>a - tdiv a b * b\<bar> < \<bar>b\<bar>" unfolding e
    using assms by (simp add: abs_mult sgn_if)
  have "sgn a * (\<bar>a\<bar> mod \<bar>b\<bar>) * a = (\<bar>a\<bar> mod \<bar>b\<bar>) * \<bar>a\<bar>"
    by (simp add: abs_sgn [of a] mult.commute mult.left_commute)
  moreover have "0 \<le> (\<bar>a\<bar> mod \<bar>b\<bar>) * \<bar>a\<bar>" using assms by simp
  ultimately show "0 \<le> (a - tdiv a b * b) * a" unfolding e by (simp only:)
qed

lemma tdiv_bounds:
  assumes "- (2 ^ n) \<le> a" "a < 2 ^ n" "b \<noteq> 0" "\<not> (a = - (2 ^ n) \<and> b = -1)"
  shows "- (2 ^ n) \<le> tdiv a b" "tdiv a b < 2 ^ n"
proof -
  have p: "0 \<le> \<bar>a\<bar> div \<bar>b\<bar>" using assms(3) by (simp add: pos_imp_zdiv_nonneg_iff)
  have le: "\<bar>tdiv a b\<bar> \<le> \<bar>a\<bar> div \<bar>b\<bar>"
    unfolding tdiv_def abs_mult using p by (simp add: abs_sgn_eq)
  moreover have "\<bar>a\<bar> div \<bar>b\<bar> \<le> \<bar>a\<bar>" 
    using zdiv_mono2 [of "\<bar>a\<bar>" 1 "\<bar>b\<bar>"] assms(3) by simp
  ultimately have k: "\<bar>tdiv a b\<bar> \<le> \<bar>a\<bar>" by linarith
  show "- (2 ^ n) \<le> tdiv a b" using k assms(1,2) by linarith
  show "tdiv a b < 2 ^ n"
  proof (cases "a = - (2 ^ n)")
    case False
    then show ?thesis using k assms(1,2) by linarith
  next
    case True
    show ?thesis
    proof (cases "0 < b")
      case True
      then show ?thesis using \<open>a = - (2 ^ n)\<close> by (simp add: tdiv_def) (smt (verit) pos_imp_zdiv_nonneg_iff zero_less_power)
    next
      case False
      then have "2 \<le> \<bar>b\<bar>" using assms(3,4) True by auto
      then have "\<bar>a\<bar> div \<bar>b\<bar> < 2 ^ n" using True by (simp add: int_div_less_self)
      then show ?thesis using le by linarith
    qed
  qed
qed

lemma sint_range: "- (2 ^ (LENGTH('a) - 1)) \<le> sint (w :: 'a::len word)"
  "sint w < 2 ^ (LENGTH('a) - 1)"
  using sint_greater_eq [of w] sint_less [of w] by simp_all

lemma sint_tdiv:
  assumes "sint b \<noteq> 0" "\<not> (sint a = - (2 ^ (LENGTH('a) - 1)) \<and> sint b = -1)"
  shows "sint (word_of_int (tdiv (sint a) (sint (b :: 'a::len word))) :: 'a word)
    = tdiv (sint (a :: 'a word)) (sint b)"
  using tdiv_bounds [OF sint_range [of a] assms] 
  by (simp add: signed_of_int signed_take_bit_int_eq_self)

text \<open>
  C35: Signed division. When the divisor is zero or the quotient does not fit, \<^verbatim>\<open>DIVD\<close> and \<^verbatim>\<open>DIVW\<close>
  write zero and, in the \<open>OE\<close> form, set XER.OV and XER.SO; otherwise they write the quotient truncated
  towards zero, whose remainder is smaller than the divisor and has the sign of the dividend, clear
  XER.OV and leave XER.SO. The upper half of the result of \<^verbatim>\<open>DIVW\<close> is zero.
\<close>

theorem signed_division:
  "(let RA = sint (gpr_of s (op_ra op)); RB = sint (gpr_of s (op_rb op));
        s' = ppu_DIVD oe rc op s; q = sint (gpr_of s' (op_rd op))
    in if RB = 0 \<or> RA = - (2 ^ 63) \<and> RB = -1
       then q = 0 \<and> xer_ov s' = (oe \<or> xer_ov s) \<and> xer_so s' = (oe \<or> xer_so s)
       else \<bar>RA - q * RB\<bar> < \<bar>RB\<bar> \<and> 0 \<le> (RA - q * RB) * RA
         \<and> xer_ov s' = (\<not> oe \<and> xer_ov s) \<and> xer_so s' = xer_so s)
   \<and> (let RA = sint (ucast (gpr_of s (op_ra op)) :: u32); RB = sint (ucast (gpr_of s (op_rb op)) :: u32);
        s' = ppu_DIVW oe rc op s; q = sint (ucast (gpr_of s' (op_rd op)) :: u32)
    in drop_bit 32 (gpr_of s' (op_rd op)) = 0 \<and>
      (if RB = 0 \<or> RA = - (2 ^ 31) \<and> RB = -1
       then q = 0 \<and> xer_ov s' = (oe \<or> xer_ov s) \<and> xer_so s' = (oe \<or> xer_so s)
       else \<bar>RA - q * RB\<bar> < \<bar>RB\<bar> \<and> 0 \<le> (RA - q * RB) * RA
         \<and> xer_ov s' = (\<not> oe \<and> xer_ov s) \<and> xer_so s' = xer_so s))"
proof -
  let ?a = "gpr_of s (op_ra op)" let ?b = "gpr_of s (op_rb op)"
  have 1: "\<not> (sint ?b = 0 \<or> sint ?a = - (2 ^ 63) \<and> sint ?b = -1) \<Longrightarrow>
      sint (word_of_int (tdiv (sint ?a) (sint ?b)) :: u64) = tdiv (sint ?a) (sint ?b)"
    by (rule sint_tdiv) simp_all
  have 2: "\<not> (sint b = 0 \<or> sint a = - (2 ^ 31) \<and> sint b = -1) \<Longrightarrow>
      sint (word_of_int (tdiv (sint a) (sint b)) :: u32) = tdiv (sint a) (sint b)" for a b :: u32
    by (rule sint_tdiv) simp_all
  have 3: "drop_bit 32 (ucast (x :: u32) :: u64) = 0" "ucast (ucast x :: u64) = x" for x :: u32
    by (rule bit_eqI, auto simp: bit_simps dest: bit_imp_le_length)+
  show ?thesis
    unfolding ppu_DIVD_def ppu_DIVW_def Let_def
    using 1 2 tdiv_remainder by (auto simp: 3)
qed

end
