(* ===== verification/Ppu_Mem_Props.thy ===== *)
theory Ppu_Mem_Props
  imports Ppu_Arith
begin

text \<open>
  Memory accesses of the PPU interpreter: big-endian encoding and decoding are inverse, a load sees
  the bytes of the last overlapping store, the two unaligned vector halves make one 16-byte access,
  and a block stored by \<^verbatim>\<open>STMW\<close> is restored by \<^verbatim>\<open>LMW\<close>.
\<close>

section \<open>Bytes and words\<close>

lemma bytes_of_be_snoc:
  "bytes_of_be (bs @ [b]) = (push_bit 8 (bytes_of_be bs) OR ucast b :: 'a::len word)"
  by (simp add: bytes_of_be_def)

lemma bit_bytes_of_be:
  "bit (bytes_of_be bs :: 'a::len word) k \<longleftrightarrow>
     k < LENGTH('a) \<and> k < 8 * length bs \<and> bit (bs ! (length bs - 1 - k div 8)) (k mod 8)"
proof (induction bs arbitrary: k rule: rev_induct)
  case Nil
  then show ?case by (simp add: bytes_of_be_def)
next
  case (snoc b bs)
  show ?case
  proof (cases "k < 8")
    case True
    then show ?thesis
      by (auto simp: bytes_of_be_snoc bit_simps nth_append dest: bit_imp_le_length)
  next
    case False
    define j where "j = k - 8"
    have k: "k = j + 8" using False by (simp add: j_def)
    have "(j + 8) div 8 = Suc (j div 8)" "(j + 8) mod 8 = j mod 8" by simp_all
    moreover have "\<not> bit b (j + 8)" by (auto dest: bit_imp_le_length)
    moreover have "length bs - Suc (j div 8) < length bs" if "j < 8 * length bs"
      using that by (cases bs) auto
    ultimately show ?thesis
      unfolding k bytes_of_be_snoc using snoc.IH [of j]
      by (auto simp: bit_simps nth_append)
  qed
qed

lemma be_bytes_length [simp]: "length (be_bytes n w) = n"
  by (simp add: be_bytes_def)

lemma be_bytes_nth: "i < n \<Longrightarrow> be_bytes n w ! i = ucast (drop_bit (8 * (n - 1 - i)) w)"
  by (simp add: be_bytes_def)

lemma bytes_of_be_bytes:
  assumes "LENGTH('a) \<le> 8 * n"
  shows "bytes_of_be (be_bytes n w) = (w :: 'a::len word)"
proof (rule bit_word_eqI)
  fix k assume k: "k < LENGTH('a)"
  then have l: "k < 8 * n" using assms by simp
  then have "k div 8 < n" by (simp add: less_mult_imp_div_less mult.commute)
  then have "n - 1 - (n - 1 - k div 8) = k div 8" "n - 1 - k div 8 < n" by simp_all
  then show "bit (bytes_of_be (be_bytes n w) :: 'a word) k = bit w k"
    using k l by (simp add: bit_bytes_of_be be_bytes_nth bit_ucast_iff bit_drop_bit_eq)
qed

section \<open>Loads after stores\<close>

lemma unat_of_nat32: "n < 2 ^ 32 \<Longrightarrow> unat (of_nat n :: u32) = n"
  by (simp add: unat_of_nat)

lemma load_bytes_length [simp]: "length (load_bytes m a n) = n"
  by (simp add: load_bytes_def)

lemma load_bytes_nth: "i < n \<Longrightarrow> load_bytes m a n ! i = m (a + of_nat i)"
  by (simp add: load_bytes_def)

lemma load_store_inside:
  assumes "j + n \<le> length bs" "length bs \<le> 2 ^ 32"
  shows "load_bytes (store_bytes a bs m) (a + of_nat j) n = take n (drop j bs)"
proof (rule nth_equalityI)
  fix i assume "i < length (load_bytes (store_bytes a bs m) (a + of_nat j) n)"
  then have i: "i < n" by simp
  then have "j + i < 2 ^ 32" using assms by simp
  then have "unat (of_nat (j + i) :: u32) = j + i" by (rule unat_of_nat32)
  moreover have "a + of_nat j + of_nat i - a = of_nat (j + i)" by simp
  ultimately have "unat (a + of_nat j + of_nat i - a) = j + i" by (simp only:)
  then show "load_bytes (store_bytes a bs m) (a + of_nat j) n ! i = take n (drop j bs) ! i"
    using i assms by (simp add: load_bytes_nth store_bytes_def)
qed (use assms in simp)

lemma store_bytes_append:
  assumes "length bs + length cs \<le> 2 ^ 32"
  shows "store_bytes (a + of_nat (length bs)) cs (store_bytes a bs m) = store_bytes a (bs @ cs) m"
proof
  fix x
  define k where "k = unat (x - a)"
  have x: "x - a = of_nat k" by (simp add: k_def)
  have k: "k < 2 ^ 32" using unsigned_less [of "x - a", where 'a = nat] by (simp add: k_def)
  have e: "x - (a + of_nat (length bs)) = of_nat k - of_nat (length bs)" using x by (simp add: algebra_simps)
  show "store_bytes (a + of_nat (length bs)) cs (store_bytes a bs m) x = store_bytes a (bs @ cs) m x"
  proof (cases "length bs \<le> k")
    case True
    then have "x - (a + of_nat (length bs)) = of_nat (k - length bs)" using e by (simp add: of_nat_diff)
    moreover have "unat (of_nat (k - length bs) :: u32) = k - length bs"
      using k by (intro unat_of_nat32) simp
    ultimately have "unat (x - (a + of_nat (length bs))) = k - length bs" by (simp only:)
    then show ?thesis using True
      by (auto simp: store_bytes_def k_def [symmetric] nth_append less_diff_conv2 add.commute)
  next
    case False
    have "unat (x - (a + of_nat (length bs))) = 2 ^ 32 + k - length bs"
    proof -
      have "x - (a + of_nat (length bs)) = of_nat (2 ^ 32 + k - length bs)"
        unfolding e using assms False by (simp add: of_nat_diff)
      moreover have "2 ^ 32 + k - length bs < 2 ^ 32" using False by simp
      ultimately show ?thesis by (simp only: unat_of_nat32)
    qed
    then have "\<not> unat (x - (a + of_nat (length bs))) < length cs" using assms by simp
    then show ?thesis using False by (simp add: store_bytes_def k_def [symmetric] nth_append)
  qed
qed

lemma vm_cast_ok: "unat addr < 2 ^ 32 \<Longrightarrow> vm_cast addr = Inr (ucast addr)"
proof -
  assume "unat addr < 2 ^ 32"
  then have "take_bit 32 addr = addr"
    by (metis take_bit_nat_eq_self unsigned_take_bit_eq word_unat_eq_iff)
  moreover have "ucast (ucast addr :: u32) = take_bit 32 addr"
    by (rule bit_eqI) (auto simp: bit_simps)
  ultimately show ?thesis by (simp add: vm_cast_def)
qed

text \<open>Loads change nothing but the reservation.\<close>

definition same_regs :: "ppu \<Rightarrow> ppu \<Rightarrow> bool" where
  "same_regs s s' \<longleftrightarrow> memory s' = memory s \<and> gpr_of s' = gpr_of s \<and> vr_of s' = vr_of s
     \<and> cia_of s' = cia_of s"

lemma feed_be_ok:
  assumes "unat addr < 2 ^ 32"
  obtains s' where "feed_be n addr s = Inr (bytes_of_be (load_bytes (memory s) (ucast addr) n), s')"
    "same_regs s s'"
  using assms by (auto simp: feed_be_def ppu_feed_data_def vm_cast_ok Let_def same_regs_def)

lemma feed_be_cast:
  assumes "vm_cast addr = Inr a"
  obtains s' where "feed_be n addr s = Inr (bytes_of_be (load_bytes (memory s) a n), s')"
    "same_regs s s'"
  using assms by (auto simp: feed_be_def ppu_feed_data_def Let_def same_regs_def)

lemma ppu_write_ok:
  "unat addr < 2 ^ 32 \<Longrightarrow>
   ppu_write addr bs s = Inr (s\<lparr>memory := store_bytes (ucast addr) bs (memory s)\<rparr>)"
  by (simp add: ppu_write_def vm_cast_ok)

lemma unat_plus_4: "unat (addr :: u64) + 4 \<le> 2 ^ 32 \<Longrightarrow> unat (addr + 4) = unat addr + 4"
  by (simp add: unat_word_ariths)

lemma ucast_plus_4: "(ucast (addr + 4 :: u64) :: u32) = ucast addr + 4"
proof -
  have "(k mod 2 ^ 64 + 4) mod 2 ^ 32 = (k + 4) mod (2 ^ 32 :: int)" for k
    by (subst mod_add_left_eq [symmetric], subst mod_mod_cancel) (simp_all add: mod_add_left_eq)
  then show ?thesis by transfer (simp, simp add: take_bit_eq_mod)
qed

lemma store_bytes_Nil [simp]: "store_bytes a [] m = m"
  by (simp add: store_bytes_def)

definition words_be :: "ppu \<Rightarrow> nat \<Rightarrow> nat \<Rightarrow> u8 list" where
  "words_be s i n = concat (map (\<lambda>j. be_bytes 4 (ucast (gpr_of s j) :: u32)) [i..<i + n])"

lemma words_be_length: "length (words_be s i n) = 4 * n"
  by (induction n) (simp_all add: words_be_def)

lemma words_be_Suc: "words_be s i (Suc n) = be_bytes 4 (ucast (gpr_of s i) :: u32) @ words_be s (i + 1) n"
proof -
  have "[i..<i + Suc n] = i # [i + 1..<i + 1 + n]" by (simp add: upt_rec [of i])
  then show ?thesis by (simp only: words_be_def list.map concat.simps)
qed

lemma words_be_take:
  "k < n \<Longrightarrow> take 4 (drop (4 * k) (words_be s i n)) = be_bytes 4 (ucast (gpr_of s (i + k)) :: u32)"
proof (induction n arbitrary: i k)
  case (Suc n)
  show ?case
  proof (cases k)
    case 0
    then show ?thesis by (simp add: words_be_Suc)
  next
    case (Suc k')
    then show ?thesis using Suc.IH [of k' "i + 1"] Suc.prems by (simp add: words_be_Suc)
  qed
qed simp

lemma stmw_spec:
  "unat addr + 4 * n \<le> 2 ^ 32 \<Longrightarrow> stmw_loop n i addr s
     = Inr (s\<lparr>memory := store_bytes (ucast addr) (words_be s i n) (memory s)\<rparr>)"
proof (induction n arbitrary: i addr s)
  case 0
  then show ?case by (simp add: words_be_def)
next
  case (Suc n)
  let ?b = "be_bytes 4 (ucast (gpr_of s i) :: u32)"
  let ?s = "s\<lparr>memory := store_bytes (ucast addr) ?b (memory s)\<rparr>"
  have "words_be ?s (i + 1) n = words_be s (i + 1) n" by (simp add: words_be_def)
  moreover have "store_bytes (ucast addr + 4) (words_be s (i + 1) n) (memory ?s)
      = store_bytes (ucast addr) (words_be s i (Suc n)) (memory s)"
    using store_bytes_append [of ?b "words_be s (i + 1) n" "ucast addr" "memory s"] Suc.prems
    by (simp add: words_be_Suc words_be_length)
  ultimately show ?case
    using Suc.IH [of "addr + 4" "i + 1" ?s] Suc.prems
    by (simp add: ppu_write_ok unat_plus_4 ucast_plus_4)
qed

lemma lmw_spec:
  "unat addr + 4 * n \<le> 2 ^ 32 \<Longrightarrow> \<exists>s'. lmw_loop n i addr s = Inr s' \<and> memory s' = memory s
     \<and> (\<forall>j. gpr_of s' j = (if i \<le> j \<and> j < i + n
          then ucast (bytes_of_be (load_bytes (memory s) (ucast addr + of_nat (4 * (j - i))) 4) :: u32)
          else gpr_of s j))"
proof (induction n arbitrary: i addr s)
  case 0
  then show ?case by auto
next
  case (Suc n)
  then have "unat addr < 2 ^ 32" by simp
  from feed_be_ok [OF this, of 4 s, where 'a = 32] obtain s1 where
    s1: "feed_be 4 addr s = Inr (bytes_of_be (load_bytes (memory s) (ucast addr) 4) :: u32, s1)"
      and r: "same_regs s s1" by blast
  let ?v = "ucast (bytes_of_be (load_bytes (memory s) (ucast addr) 4) :: u32) :: u64"
  have m: "memory (put_gpr i ?v s1) = memory s" "gpr_of (put_gpr i ?v s1) = (gpr_of s)(i := ?v)"
    using r by (simp_all add: same_regs_def)
  have a: "ucast (addr + 4) + of_nat (4 * (j - (i + 1))) = (ucast addr + of_nat (4 * (j - i)) :: u32)"
    if "i + 1 \<le> j" for j
  proof -
    have "4 * (j - i) = 4 + 4 * (j - (i + 1))" using that by simp
    then show ?thesis by (simp only: ucast_plus_4 of_nat_add of_nat_numeral add.assoc)
  qed
  have "unat (addr + 4) + 4 * n \<le> 2 ^ 32" using Suc.prems by (simp add: unat_plus_4)
  from Suc.IH [OF this, of "i + 1" "put_gpr i ?v s1", unfolded m] obtain s' where
    s': "lmw_loop n (i + 1) (addr + 4) (put_gpr i ?v s1) = Inr s'" "memory s' = memory s"
      "\<forall>j. gpr_of s' j = (if i + 1 \<le> j \<and> j < i + 1 + n
          then ucast (bytes_of_be (load_bytes (memory s) (ucast (addr + 4) + of_nat (4 * (j - (i + 1)))) 4) :: u32)
          else ((gpr_of s)(i := ?v)) j)" by blast
  have "gpr_of s' j = (if i \<le> j \<and> j < i + Suc n
          then ucast (bytes_of_be (load_bytes (memory s) (ucast addr + of_nat (4 * (j - i))) 4) :: u32)
          else gpr_of s j)" for j
    using s'(3) [rule_format, of j] a [of j]
    by (cases "j = i") (auto simp del: of_nat_mult of_nat_diff)
  then show ?case using s1 s'(1,2) by auto
qed

text \<open>
  C14: Block transfer. If the block fits below 4 GiB, \<^verbatim>\<open>STMW\<close> succeeds, and a later \<^verbatim>\<open>LMW\<close> of the same
  registers from the same address with the memory unchanged succeeds and restores the low 32 bits
  of every register of the block, with the upper half cleared, changing no other register.
\<close>

theorem block_store_load:
  assumes "op_rd ld = op_rs st" "unat (ea_d0 st s) + 4 * (32 - op_rs st) \<le> 2 ^ 32"
  shows "\<exists>s1. ppu_STMW st s = Inr s1 \<and> (\<forall>s2. memory s2 = memory s1 \<and> ea_d0 ld s2 = ea_d0 st s \<longrightarrow>
    (\<exists>s3. ppu_LMW ld s2 = Inr s3 \<and> memory s3 = memory s1
      \<and> (\<forall>j. gpr_of s3 j = (if op_rs st \<le> j \<and> j < 32 then ucast (ucast (gpr_of s j) :: u32)
                             else gpr_of s2 j))))"
proof -
  let ?r = "op_rs st" let ?n = "32 - op_rs st" let ?a = "ucast (ea_d0 st s) :: u32"
  let ?s1 = "s\<lparr>memory := store_bytes ?a (words_be s ?r ?n) (memory s)\<rparr>"
  have r: "?r < 32" by (rule op_reg_bounds)
  have mem: "memory ?s1 = store_bytes ?a (words_be s ?r ?n) (memory s)" by simp
  have st: "ppu_STMW st s = Inr ?s1" unfolding ppu_STMW_def by (rule stmw_spec [OF assms(2)])
  have l: "bytes_of_be (load_bytes (memory ?s1) (?a + of_nat (4 * (j - ?r))) 4)
      = (ucast (gpr_of s j) :: u32)" if "?r \<le> j" "j < 32" for j
  proof -
    have k: "j - ?r < ?n" using that by simp
    have "4 * (j - ?r) + 4 \<le> length (words_be s ?r ?n)" using k by (simp add: words_be_length)
    then have "load_bytes (memory ?s1) (?a + of_nat (4 * (j - ?r))) 4
        = take 4 (drop (4 * (j - ?r)) (words_be s ?r ?n))"
      unfolding mem using r by (intro load_store_inside) (simp_all add: words_be_length)
    also have "\<dots> = be_bytes 4 (ucast (gpr_of s (?r + (j - ?r))) :: u32)"
      by (rule words_be_take [OF k])
    finally show ?thesis using that by (simp add: bytes_of_be_bytes)
  qed
  have "\<exists>s3. ppu_LMW ld s2 = Inr s3 \<and> memory s3 = memory ?s1
      \<and> (\<forall>j. gpr_of s3 j = (if ?r \<le> j \<and> j < 32 then ucast (ucast (gpr_of s j) :: u32)
                             else gpr_of s2 j))"
    if "memory s2 = memory ?s1" "ea_d0 ld s2 = ea_d0 st s" for s2
    using lmw_spec [OF assms(2), of ?r s2] that r l
    unfolding ppu_LMW_def assms(1) by auto
  then show ?thesis using st by blast
qed

text \<open>STMW r30,0(r1) and LMW r30,0(r1) with the stack pointer at 0x20000.\<close>

theorem block_store_load_witness:
  "op_rd 0xbbc10000 = op_rs 0xbfc10000
   \<and> unat (ea_d0 0xbfc10000 (put_gpr 1 0x20000 demo_ppu)) + 4 * (32 - op_rs 0xbfc10000) \<le> 2 ^ 32
   \<and> (\<exists>s1. ppu_STMW 0xbfc10000 (put_gpr 1 0x20000 demo_ppu) = Inr s1)"
proof -
  have 1: "op_rd 0xbbc10000 = op_rs 0xbfc10000" by code_simp
  have "ea_d0 0xbfc10000 (put_gpr 1 0x20000 demo_ppu) = 0x20000" by code_simp
  then have 2: "unat (ea_d0 0xbfc10000 (put_gpr 1 0x20000 demo_ppu)) + 4 * (32 - op_rs 0xbfc10000)
      \<le> 2 ^ 32" by simp
  show ?thesis using block_store_load [OF 1 2] 1 2 by blast
qed

section \<open>Unaligned vectors\<close>

lemma split_mask:
  "(x AND NOT m) + (x AND m) = (x :: 'a::len word)" "(NOT x AND m) + (x AND m) = m"
proof -
  have "(x AND NOT m) AND (x AND m) = 0" "(x AND NOT m) OR (x AND m) = x"
    "(NOT x AND m) AND (x AND m) = 0" "(NOT x AND m) OR (x AND m) = m"
    by (rule bit_eqI, auto simp: bit_and_iff bit_or_iff bit_not_iff dest: bit_imp_le_length)+
  then show "(x AND NOT m) + (x AND m) = x" "(NOT x AND m) + (x AND m) = m"
    by (simp_all only: disjunctive_add_eq_or)
qed

lemma unat_and_15: "unat ((x :: u64) AND 15) = unat x mod 16"
proof -
  have "x AND 15 = take_bit 4 x" using take_bit_eq_mask [of 4 x] by (simp add: mask_eq_decr_exp)
  then show ?thesis using unat_take_bit_mod [of 4 x] by simp
qed

lemma unat_of_nat64: "n < 2 ^ 64 \<Longrightarrow> unat (of_nat n :: u64) = n"
  by (simp add: unat_of_nat)

lemma ucast_of_nat32: "n < 2 ^ 64 \<Longrightarrow> (ucast (of_nat n :: u64) :: u32) = of_nat n"
  by (metis of_nat_unat unat_of_nat64)

lemma offsets:
  fixes addr :: u64
  assumes "unat addr + 32 \<le> 2 ^ 32"
  defines "t \<equiv> unat addr mod 16"
  shows "unat (addr + 16) = unat addr + 16"
    "unat (addr AND 15) = t" "unat ((addr + 16) AND 15) = t"
    "unat (NOT (addr + 16) AND 15) = 15 - t"
    "addr AND - 16 = of_nat (unat addr - t)" "(addr + 16) AND - 16 = of_nat (unat addr - t + 16)"
proof -
  have t: "t \<le> unat addr" "t < 16" by (simp_all add: t_def)
  show u: "unat (addr + 16) = unat addr + 16" using assms(1) by (simp add: unat_word_ariths)
  show a: "unat (addr AND 15) = t" "unat ((addr + 16) AND 15) = t"
    by (simp_all add: unat_and_15 u t_def)
  have w: "addr AND 15 = of_nat t" "(addr + 16) AND 15 = of_nat t"
    using a by (metis of_nat_unat ucast_id)+
  have "NOT (addr + 16) AND 15 = 15 - of_nat t"
    using split_mask(2) [of "addr + 16" 15] w(2) by (simp add: eq_diff_eq)
  also have "\<dots> = of_nat (15 - t)" using t by (simp add: of_nat_diff)
  finally show "unat (NOT (addr + 16) AND 15) = 15 - t" 
    using unat_of_nat64 [of "15 - t"] by simp
  have 16: "(- 16 :: u64) = NOT 15" by simp
  have "addr AND - 16 = of_nat (unat addr) - of_nat t"
    using split_mask(1) [of addr 15] w(1) unfolding 16 by (simp add: eq_diff_eq)
  then show "addr AND - 16 = of_nat (unat addr - t)" using t by (simp add: of_nat_diff)
  have "(addr + 16) AND - 16 = of_nat (unat addr + 16) - of_nat t"
    using split_mask(1) [of "addr + 16" 15] w(2) unfolding 16 by (simp add: eq_diff_eq)
  then show "(addr + 16) AND - 16 = of_nat (unat addr - t + 16)" using t by (simp add: of_nat_diff)
qed

lemma bit_load16:
  "bit (bytes_of_be (load_bytes m a 16) :: u128) k \<longleftrightarrow>
     k < 128 \<and> bit (m (a + of_nat (15 - k div 8))) (k mod 8)"
proof (cases "k < 128")
  case True
  then have "15 - k div 8 < 16" by simp
  then show ?thesis using True by (simp add: bit_bytes_of_be load_bytes_nth del: of_nat_diff)
qed (simp add: bit_bytes_of_be)

lemma unaligned_halves:
  assumes "t < 16"
  shows "push_bit (t * 8) (bytes_of_be (load_bytes m a 16)) OR
      drop_bit 8 (drop_bit ((15 - t) * 8) (bytes_of_be (load_bytes m (a + 16) 16)))
    = (bytes_of_be (load_bytes m (a + of_nat t) 16) :: u128)"
proof (rule bit_word_eqI)
  fix k assume "k < LENGTH(128)"
  then have k: "k < 128" by simp
  let ?q = "k div 8"
  have e: "m (a + of_nat t + of_nat (15 - ?q)) = m (a + of_nat (t + (15 - ?q)))"
    by (simp only: of_nat_add add.assoc)
  show "bit (push_bit (t * 8) (bytes_of_be (load_bytes m a 16)) OR
      drop_bit 8 (drop_bit ((15 - t) * 8) (bytes_of_be (load_bytes m (a + 16) 16))) :: u128) k
    = bit (bytes_of_be (load_bytes m (a + of_nat t) 16) :: u128) k"
  proof (cases "t * 8 \<le> k")
    case True
    define j where "j = k - t * 8"
    have "k = j + t * 8" using True by (simp add: j_def)
    then have d: "?q = t + j div 8" "k mod 8 = j mod 8" "j \<le> k" by simp_all
    have "15 - j div 8 = t + (15 - ?q)" using d k by simp
    moreover have "\<not> 8 + ((15 - t) * 8 + k) < 128" using assms True by simp
    ultimately show ?thesis using k True d unfolding bit_load16 e
      by (simp add: bit_or_iff bit_push_bit_iff bit_drop_bit_eq bit_load16 j_def [symmetric]
          del: of_nat_diff of_nat_add)
  next
    case False
    define i where "i = (15 - t) * 8 + 8 + k"
    have "i = k + (16 - t) * 8" using assms by (simp add: i_def)
    then have d: "i div 8 = 16 - t + ?q" "i mod 8 = k mod 8" by simp_all
    have b: "i < 128" "?q < t" using False assms by (simp_all add: i_def)
    have "m (a + 16 + of_nat (15 - i div 8)) = m (a + of_nat (t + (15 - ?q)))"
    proof -
      have "t + (15 - ?q) = 16 + (15 - i div 8)" using d(1) b(2) assms by arith
      then show ?thesis by (simp only: of_nat_add of_nat_numeral add.assoc)
    qed
    moreover have "8 + ((15 - t) * 8 + k) = i" "(15 - t) * 8 + (8 + k) = i" "(15 - t) * 8 + (k + 8) = i" by (simp_all add: i_def)
    ultimately show ?thesis using k False d b unfolding bit_load16 e
      by (simp add: bit_or_iff bit_push_bit_iff bit_drop_bit_eq bit_load16 ac_simps
          del: of_nat_diff of_nat_add)
  qed
qed

lemma ea_x_same: "gpr_of s' = gpr_of s \<Longrightarrow> ea_x op s' = ea_x op s"
  by (simp add: ea_x_def)

lemma LVLX_spec:
  assumes "unat (ea_x l s) + 32 \<le> 2 ^ 32"
  defines "t \<equiv> unat (ea_x l s) mod 16"
  obtains s1 where "ppu_LVLX l s = Inr s1" "memory s1 = memory s" "gpr_of s1 = gpr_of s"
    "vr_of s1 = (vr_of s)(op_vd l := push_bit (t * 8)
       (bytes_of_be (load_bytes (memory s) (of_nat (unat (ea_x l s) - t)) 16)))"
proof -
  let ?A = "ea_x l s"
  note o = offsets [OF assms(1), folded t_def]
  have "vm_cast (?A AND - 16) = Inr (of_nat (unat ?A - t))"
    unfolding o(5) using assms(1) unat_of_nat64 [of "unat ?A - t"] ucast_of_nat32 [of "unat ?A - t"]
    by (simp add: vm_cast_ok)
  from feed_be_cast [OF this, of 16 s] obtain s' where
    s': "feed_be 16 (?A AND - 16) s
      = Inr (bytes_of_be (load_bytes (memory s) (of_nat (unat ?A - t)) 16) :: u128, s')"
      "same_regs s s'" by blast
  have "ppu_LVLX l s = Inr (put_vr (op_vd l) (push_bit (t * 8)
      (bytes_of_be (load_bytes (memory s) (of_nat (unat ?A - t)) 16))) s')"
    by (simp add: ppu_LVLX_def Let_def s'(1) o(2))
  then show ?thesis
    by (rule that) (use s'(2) in \<open>simp_all add: same_regs_def put_vr_def\<close>)
qed

lemma LVRX_spec:
  assumes "unat A + 32 \<le> 2 ^ 32" "ea_x r s = A + 16"
  defines "t \<equiv> unat A mod 16"
  obtains s1 where "ppu_LVRX r s = Inr s1"
    "vr_of s1 = (vr_of s)(op_vd r := drop_bit 8 (drop_bit ((15 - t) * 8)
       (bytes_of_be (load_bytes (memory s) (of_nat (unat A - t) + 16) 16))))"
proof (cases "t = 0")
  note o = offsets [OF assms(1), folded t_def]
  have sh: "unat (NOT (A + 16) AND 15) = 15 - t" "((A + 16) AND 15 = 0) = (t = 0)"
    using o(3,4) by (simp_all add: unat_eq_zero [symmetric])
  case True
  let ?c = "ucast (cia_of s) AND - 16 :: u64"
  have "ucast (ucast ?c :: u32) = ?c" by (rule bit_eqI) (auto simp: bit_simps dest: bit_imp_le_length)
  then have "vm_cast ?c = Inr (ucast ?c)" by (simp add: vm_cast_def)
  from feed_be_cast [OF this, of 16 s] obtain s' where
    s': "feed_be 16 ?c s = Inr (bytes_of_be (load_bytes (memory s) (ucast ?c) 16) :: u128, s')"
      "same_regs s s'" by blast
  have z: "drop_bit 8 (drop_bit 120 x) = 0" for x :: u128
    by (rule bit_eqI) (auto simp: bit_simps dest: bit_imp_le_length)
  have "ppu_LVRX r s = Inr (put_vr (op_vd r) 0 s')"
    by (simp add: ppu_LVRX_def Let_def assms(2) sh True s'(1) z)
  then show ?thesis
    by (rule that) (use s'(2) True z in \<open>simp add: same_regs_def put_vr_def\<close>)
next
  note o = offsets [OF assms(1), folded t_def]
  have sh: "unat (NOT (A + 16) AND 15) = 15 - t" "((A + 16) AND 15 = 0) = (t = 0)"
    using o(3,4) by (simp_all add: unat_eq_zero [symmetric])
  case False
  let ?n = "unat A - t + 16"
  have "vm_cast ((A + 16) AND - 16) = Inr (of_nat (unat A - t) + 16)"
    unfolding o(6) using assms(1) unat_of_nat64 [of ?n] ucast_of_nat32 [of ?n]
    by (simp add: vm_cast_ok)
  from feed_be_cast [OF this, of 16 s] obtain s' where
    s': "feed_be 16 ((A + 16) AND - 16) s
      = Inr (bytes_of_be (load_bytes (memory s) (of_nat (unat A - t) + 16) 16) :: u128, s')"
      "same_regs s s'" by blast
  have "ppu_LVRX r s = Inr (put_vr (op_vd r) (drop_bit 8 (drop_bit ((15 - t) * 8)
      (bytes_of_be (load_bytes (memory s) (of_nat (unat A - t) + 16) 16)))) s')"
    by (simp add: ppu_LVRX_def Let_def assms(2) sh False s'(1))
  then show ?thesis
    by (rule that) (use s'(2) in \<open>simp add: same_regs_def put_vr_def\<close>)
qed

text \<open>
  C13: Unaligned vector access. For an address \<open>A\<close> with two lines below 4 GiB, \<^verbatim>\<open>LVLX\<close> at \<open>A\<close>, \<^verbatim>\<open>LVRX\<close> at
  \<open>A + 16\<close> and the disjunction of the two registers give the sixteen bytes at \<open>A\<close>, and \<^verbatim>\<open>STVLX\<close> at
  \<open>A\<close> followed by \<^verbatim>\<open>STVRX\<close> at \<open>A + 16\<close> of equal registers writes exactly those sixteen bytes, for every
  alignment of \<open>A\<close>, aligned addresses included.
\<close>

theorem unaligned_vector:
  assumes "ea_x r s = ea_x l s + 16" "unat (ea_x l s) + 32 \<le> 2 ^ 32" "op_vd l \<noteq> op_vd r"
  shows "(\<exists>s1 s2. ppu_LVLX l s = Inr s1 \<and> ppu_LVRX r s1 = Inr s2
        \<and> vr_of s2 (op_vd l) OR vr_of s2 (op_vd r)
          = bytes_of_be (load_bytes (memory s) (ucast (ea_x l s)) 16))
    \<and> (vr_of s (op_vs l) = vr_of s (op_vs r) \<longrightarrow>
       (\<exists>s1 s2. ppu_STVLX l s = Inr s1 \<and> ppu_STVRX r s1 = Inr s2
        \<and> memory s2 = store_bytes (ucast (ea_x l s)) (be_bytes 16 (vr_of s (op_vs l))) (memory s)))"
proof (intro conjI impI)
  let ?A = "ea_x l s" let ?t = "unat (ea_x l s) mod 16"
  obtain s1 where s1: "ppu_LVLX l s = Inr s1" "memory s1 = memory s" "gpr_of s1 = gpr_of s"
    "vr_of s1 = (vr_of s)(op_vd l := push_bit (?t * 8)
       (bytes_of_be (load_bytes (memory s) (of_nat (unat ?A - ?t)) 16)))"
    by (rule LVLX_spec [OF assms(2)])
  have ea: "ea_x r s1 = ?A + 16" using assms(1) ea_x_same [OF s1(3), of r] by simp
  obtain s2 where s2: "ppu_LVRX r s1 = Inr s2"
    "vr_of s2 = (vr_of s1)(op_vd r := drop_bit 8 (drop_bit ((15 - ?t) * 8)
       (bytes_of_be (load_bytes (memory s1) (of_nat (unat ?A - ?t) + 16) 16))))"
    by (rule LVRX_spec [OF assms(2) ea])
  have "of_nat (unat ?A - ?t) + of_nat ?t = (ucast ?A :: u32)"
    by (simp flip: of_nat_add add: of_nat_unat)
  then have "vr_of s2 (op_vd l) OR vr_of s2 (op_vd r)
      = bytes_of_be (load_bytes (memory s) (ucast ?A) 16)"
    using unaligned_halves [of ?t "memory s" "of_nat (unat ?A - ?t)"] assms(3) s1(2,4) s2(2) by simp
  then show "\<exists>s1 s2. ppu_LVLX l s = Inr s1 \<and> ppu_LVRX r s1 = Inr s2
      \<and> vr_of s2 (op_vd l) OR vr_of s2 (op_vd r)
        = bytes_of_be (load_bytes (memory s) (ucast (ea_x l s)) 16)"
    using s1(1) s2(1) by blast
next
  assume v: "vr_of s (op_vs l) = vr_of s (op_vs r)"
  let ?A = "ea_x l s" let ?t = "unat (ea_x l s) mod 16" let ?b = "be_bytes 16 (vr_of s (op_vs l))"
  note o = offsets [OF assms(2)]
  let ?s1 = "s\<lparr>memory := store_bytes (ucast ?A) (take (16 - ?t) ?b) (memory s)\<rparr>"
  have A: "unat ?A < 2 ^ 32" using assms(2) by simp
  have "ppu_STVLX l s = Inr ?s1" by (simp add: ppu_STVLX_def Let_def o(2) ppu_write_ok [OF A])
  moreover have "ea_x r ?s1 = ?A + 16" using assms(1) ea_x_same [of ?s1 s r] by simp
  then have "ppu_STVRX r ?s1 = Inr (s\<lparr>memory := store_bytes (ucast ?A + of_nat (16 - ?t))
      (drop (16 - ?t) ?b) (memory ?s1)\<rparr>)"
    by (simp add: ppu_STVRX_def Let_def o(3) vm_cast_ok [OF A] v)
  moreover have "store_bytes (ucast ?A + of_nat (16 - ?t)) (drop (16 - ?t) ?b) (memory ?s1)
      = store_bytes (ucast ?A) ?b (memory s)"
    using store_bytes_append [of "take (16 - ?t) ?b" "drop (16 - ?t) ?b" "ucast ?A" "memory s"] by simp
  ultimately show "\<exists>s1 s2. ppu_STVLX l s = Inr s1 \<and> ppu_STVRX r s1 = Inr s2
      \<and> memory s2 = store_bytes (ucast (ea_x l s)) (be_bytes 16 (vr_of s (op_vs l))) (memory s)"
    by auto
qed

text \<open>LVLX v2,0,r3 and LVRX v3,0,r4 at the address 0x20003.\<close>

theorem unaligned_vector_witness:
  "let s = put_gpr 3 0x20003 (put_gpr 4 0x20013 demo_ppu) in
     ea_x 0x7C60244E s = ea_x 0x7C401C0E s + 16 \<and> unat (ea_x 0x7C401C0E s) + 32 \<le> 2 ^ 32
   \<and> op_vd 0x7C401C0E \<noteq> op_vd 0x7C60244E
   \<and> (\<exists>s1 s2. ppu_LVLX 0x7C401C0E s = Inr s1 \<and> ppu_LVRX 0x7C60244E s1 = Inr s2)"
proof -
  let ?s = "put_gpr 3 0x20003 (put_gpr 4 0x20013 demo_ppu)"
  have e: "ea_x 0x7C401C0E ?s = 0x20003" "ea_x 0x7C60244E ?s = 0x20013" by code_simp+
  have 1: "ea_x 0x7C60244E ?s = ea_x 0x7C401C0E ?s + 16" by (simp add: e)
  have 2: "unat (ea_x 0x7C401C0E ?s) + 32 \<le> 2 ^ 32" by (simp add: e)
  have 3: "op_vd 0x7C401C0E \<noteq> op_vd 0x7C60244E" by code_simp
  show ?thesis unfolding Let_def using unaligned_vector [OF 1 2 3] 1 2 3 by blast
qed

end
