(* ===== verification/Ppu_Cr.thy ===== *)
theory Ppu_Cr
  imports Ppu_Mem_Props
begin

text \<open>
  The condition register, kept unpacked as one byte per bit: packing and unpacking are inverse, the
  vectorised packing of \<^verbatim>\<open>MFCR\<close> agrees with the loop of \<^verbatim>\<open>cr_bits::pack\<close>, and \<^verbatim>\<open>MTCRF\<close> of a value read
  by \<^verbatim>\<open>MFCR\<close> restores the selected fields.
\<close>

lemma bit_bool_byte: "(x :: u8) \<le> 1 \<Longrightarrow> bit x k \<longleftrightarrow> k = 0 \<and> x = 1"
  unfolding bool_byte by (auto simp: bit_1_iff)

lemma bit_cr_pack_fold:
  fixes bits :: "nat \<Rightarrow> u8"
  assumes "\<And>i. bits i \<le> 1"
  shows "bit (fold (\<lambda>i r. push_bit 1 r OR ucast (bits i)) [0..<n] (0 :: u32)) k
    \<longleftrightarrow> k < 32 \<and> k < n \<and> bits (n - 1 - k) = 1"
proof (induction n arbitrary: k)
  case (Suc n)
  have step: "fold f [0..<Suc n] x = f n (fold f [0..<n] x)" for f :: "nat \<Rightarrow> u32 \<Rightarrow> u32" and x
    by (simp only: upt_Suc_append [OF le0] fold_append comp_def fold_simps)
  show ?case
  proof (cases k)
    case 0
    then show ?thesis using bit_bool_byte [OF assms [of n], of 0]
      unfolding step bit_or_iff bit_push_bit_iff by (simp add: bit_ucast_iff)
  next
    case (Suc k')
    then show ?thesis using bit_bool_byte [OF assms [of n], of k] Suc.IH [of k']
      unfolding step bit_or_iff bit_push_bit_iff by (auto simp: bit_ucast_iff)
  qed
qed simp

lemma bit_cr_pack:
  assumes "\<And>i. bits i \<le> 1"
  shows "bit (cr_pack bits) k \<longleftrightarrow> k < 32 \<and> bits (31 - k) = 1"
  unfolding cr_pack_def bit_cr_pack_fold [of bits 32 k, OF assms] by auto

lemma cr_unpack_fold:
  "n \<le> 32 \<Longrightarrow>
   fold (\<lambda>i (bits, value). (bits(i := of_bool (value AND push_bit 31 1 \<noteq> 0)), push_bit 1 value))
     [0..<n] (b :: nat \<Rightarrow> u8, v :: u32)
   = ((\<lambda>i. if i < n then of_bool (bit v (31 - i)) else b i), push_bit n v)"
proof (induction n)
  case (Suc n)
  have "push_bit n v AND push_bit 31 1 \<noteq> 0 \<longleftrightarrow> bit (push_bit n v) 31"
    by (simp only: bit_iff_and_push_bit_not_eq_0)
  also have "\<dots> \<longleftrightarrow> bit v (31 - n)" using Suc.prems by (auto simp: bit_push_bit_iff)
  finally have e: "of_bool (push_bit n v AND push_bit 31 1 \<noteq> 0) = (of_bool (bit v (31 - n)) :: u8)"
    by (simp only:)
  have "(\<lambda>i. if i < n then of_bool (bit v (31 - i)) else b i)(n := of_bool (bit v (31 - n)))
      = (\<lambda>i. if i < Suc n then of_bool (bit v (31 - i)) else b i)"
    by (auto simp: fun_eq_iff less_Suc_eq)
  moreover have "push_bit 1 (push_bit n v) = push_bit (Suc n) v" by (simp only: push_bit_push_bit plus_1_eq_Suc)
  ultimately show ?case using Suc.prems
    by (simp only: upt_Suc_append [OF le0] fold_append comp_def fold_simps Suc.IH [OF Suc_leD]
        prod.case e)
qed simp

lemma cr_unpack_at: "cr_unpack v i = (if i < 32 then of_bool (bit v (31 - i)) else 0)"
  by (simp only: cr_unpack_def cr_unpack_fold [OF order.refl] fst_conv)

text \<open>The packed register, and the vectorised packing.\<close>

lemma bit_movemask_fold:
  "bit (fold (\<lambda>i r. r OR push_bit i (of_bool (P i))) [0..<n] (0 :: u32)) k \<longleftrightarrow> k < 32 \<and> k < n \<and> P k"
proof (induction n)
  case (Suc n)
  have "bit (push_bit n (of_bool (P n)) :: u32) k \<longleftrightarrow> k < 32 \<and> k = n \<and> P n"
    by (cases "P n") (auto simp: bit_push_bit_iff bit_1_iff bit_exp_iff)
  then show ?case using Suc by (auto simp: bit_or_iff less_Suc_eq)
qed simp

lemma bit_sll7_lane:
  fixes lane :: u128
  assumes "i < 16"
  shows "bit (word_cat (push_bit 7 (ucast (drop_bit 64 lane)) :: u64) (push_bit 7 (ucast lane) :: u64) :: u128)
    (8 * i + 7) \<longleftrightarrow> bit lane (8 * i)"
proof (cases "i < 8")
  case True
  then show ?thesis by (simp add: bit_word_cat_iff bit_push_bit_iff bit_ucast_iff)
next
  case False
  define j where "j = i - 8"
  have i: "i = j + 8" "j < 8" using False assms by (simp_all add: j_def)
  show ?thesis unfolding i(1) using i(2)
    by (simp add: bit_word_cat_iff bit_push_bit_iff bit_ucast_iff bit_drop_bit_eq algebra_simps)
qed

lemma bit_lane:
  assumes "\<And>i. bits i \<le> 1" "i < 16"
  shows "bit (bytes_of_be (map (\<lambda>i. bits (base + i)) [0..<16]) :: u128) (8 * i)
    \<longleftrightarrow> bits (base + (15 - i)) = 1"
proof -
  have "15 - i < 16" by simp
  then show ?thesis using assms(2) bit_bool_byte [OF assms(1)]
    by (simp add: bit_bytes_of_be del: upt_Suc)
qed

lemma bit_movemask:
  assumes "\<And>i. bits i \<le> 1"
  shows "bit (movemask_sll7 bits base) k \<longleftrightarrow> k < 16 \<and> bits (base + (15 - k)) = 1"
proof (cases "k < 16")
  case True
  then have "k < 32" by simp
  then show ?thesis
    unfolding movemask_sll7_def Let_def bit_movemask_fold bit_sll7_lane [OF True]
      bit_lane [where bits = bits and i = k and base = base, OF assms True]
    using True by blast
next
  case False
  then show ?thesis unfolding movemask_sll7_def Let_def bit_movemask_fold by blast
qed

lemma mfcr_x64:
  assumes "ppu_ok s"
  shows "ppu_MFCR_x64 op s = ppu_MFCR op s"
proof -
  have c: "cr_of s i \<le> 1" for i using assms by (simp add: ppu_ok_def)
  have "push_bit 16 (movemask_sll7 (cr_of s) 0) OR movemask_sll7 (cr_of s) 16 = cr_pack (cr_of s)"
  proof (rule bit_word_eqI)
    fix k assume "k < LENGTH(32)"
    then have k: "k < 32" "k - 16 < 16" by simp_all
    have "15 - (k - 16) = 31 - k" if "16 \<le> k" using that by simp
    moreover have "16 + (15 - k) = 31 - k" if "k < 16" using that by simp
    ultimately show "bit (push_bit 16 (movemask_sll7 (cr_of s) 0) OR movemask_sll7 (cr_of s) 16) k
        = bit (cr_pack (cr_of s)) k"
      using k by (cases "k < 16")
        (simp_all add: bit_or_iff bit_push_bit_iff bit_movemask [OF c] bit_cr_pack [OF c])
  qed
  then show ?thesis by (simp add: ppu_MFCR_x64_def ppu_MFCR_def)
qed

section \<open>Writing fields\<close>

lemma cr_copy_field_at:
  "cr_of (cr_copy_field f v s) i = (if i div 4 = f then v (i mod 4) else cr_of s i)"
proof (cases "i div 4 = f")
  case True
  have "i = f * 4 + i mod 4" using True by auto
  moreover have "i mod 4 = 0 \<or> i mod 4 = 1 \<or> i mod 4 = 2 \<or> i mod 4 = 3" by presburger
  ultimately show ?thesis using True by (elim disjE) (simp_all add: cr_copy_field_def)
next
  case False
  then have "i \<noteq> f * 4" "i \<noteq> f * 4 + 1" "i \<noteq> f * 4 + 2" "i \<noteq> f * 4 + 3" by auto
  then show ?thesis using False by (simp add: cr_copy_field_def)
qed

lemma field_shift: "f < 8 \<Longrightarrow> (f * 4) XOR 0x1c = (28 - f * 4 :: nat)"
proof -
  assume "f < 8"
  moreover have "\<forall>f \<in> set [0..<8]. (f * 4) XOR 0x1c = (28 - f * 4 :: nat)" by code_simp
  ultimately show ?thesis by simp
qed

lemma bit_and_0xf: "bit ((x :: u64) AND 0xf) k \<longleftrightarrow> k < 4 \<and> bit x k"
proof -
  have "x AND 0xf = take_bit 4 x" using take_bit_eq_mask [of 4 x] by (simp add: mask_eq_decr_exp)
  then show ?thesis by (simp add: bit_take_bit_iff)
qed

lemma s_table_field:
  assumes "i < 32"
  shows "s_table (drop_bit ((i div 4 * 4) XOR 0x1c) (r :: u64) AND 0xf) (i mod 4) = of_bool (bit r (31 - i))"
proof -
  have f: "i div 4 < 8" using assms by simp
  have "28 - i div 4 * 4 + (3 - i mod 4) = 31 - i" using assms by presburger
  moreover have "3 - i mod 4 < 4" by simp
  ultimately show ?thesis
    unfolding s_table_def field_shift [OF f] bit_and_0xf bit_drop_bit_eq comp_def by (simp only: simp_thms)
qed

lemma fold_fields:
  assumes "i < 32"
  shows "cr_of (fold (\<lambda>f s. if P f
      then cr_copy_field f (s_table (drop_bit ((f * 4) XOR 0x1c) r AND 0xf)) s else s) [0..<n] s) i
    = (if i div 4 < n \<and> P (i div 4) then of_bool (bit r (31 - i)) else cr_of s i)"
proof (induction n)
  case (Suc n)
  show ?case
  proof (cases "i div 4 = n")
    case True
    then show ?thesis using Suc s_table_field [OF assms, of r] by (auto simp: cr_copy_field_at)
  next
    case False
    then show ?thesis using Suc by (auto simp: cr_copy_field_at less_Suc_eq)
  qed
qed simp

lemma crm_bit: "f < 8 \<Longrightarrow> (op_crm op AND drop_bit f 128 \<noteq> 0) = bit (op_crm op) (7 - f)"
proof -
  assume f: "f < 8"
  have "drop_bit f (128 :: u32) = push_bit (7 - f) 1"
  proof -
    have "\<forall>f \<in> set [0..<8]. drop_bit f (128 :: u32) = push_bit (7 - f) 1" by code_simp
    then show ?thesis using f by simp
  qed
  then show ?thesis by (simp only: bit_iff_and_push_bit_not_eq_0)
qed

lemma mtcrf_at:
  assumes "\<not> op_l11 op" "i < 32"
  shows "cr_of (ppu_MTOCRF op s) i =
    (if bit (op_crm op) (7 - i div 4) then of_bool (bit (gpr_of s (op_rs op)) (31 - i)) else cr_of s i)"
proof -
  have "i div 4 < 8" using assms(2) by simp
  then show ?thesis using assms(1)
    by (simp add: ppu_MTOCRF_def Let_def fold_fields [OF assms(2)] crm_bit del: upt_Suc)
qed

text \<open>
  C37: Saving and restoring the condition register. \<^verbatim>\<open>MFCR\<close> gives the same register value on the
  vectorised and on the portable path, and \<^verbatim>\<open>MTCRF\<close> with that value, in any state, restores exactly
  the bits of the fields its mask selects and leaves the others alone.
\<close>

theorem cr_save_restore:
  assumes "ppu_ok s" "\<not> op_l11 mt" "gpr_of s' (op_rs mt) = gpr_of (ppu_MFCR mf s) (op_rd mf)" "i < 32"
  shows "ppu_MFCR_x64 mf s = ppu_MFCR mf s
    \<and> cr_of (ppu_MTOCRF mt s') i = (if bit (op_crm mt) (7 - i div 4) then cr_of s i else cr_of s' i)"
proof
  show "ppu_MFCR_x64 mf s = ppu_MFCR mf s" by (rule mfcr_x64 [OF assms(1)])
  have c: "cr_of s i \<le> 1" for i using assms(1) by (simp add: ppu_ok_def)
  have b: "31 - i < 32" "31 - i < 64" by simp_all
  have "bit (gpr_of s' (op_rs mt)) (31 - i) = (cr_of s i = 1)"
    using assms(3,4) bit_cr_pack [where bits = "cr_of s" and k = "31 - i", OF c] by (simp add: ppu_MFCR_def bit_ucast_iff b)
  moreover have "of_bool (cr_of s i = 1) = cr_of s i" using c [of i] unfolding bool_byte by auto
  ultimately show "cr_of (ppu_MTOCRF mt s') i
      = (if bit (op_crm mt) (7 - i div 4) then cr_of s i else cr_of s' i)"
    by (simp add: mtcrf_at [OF assms(2,4)])
qed

text \<open>MFCR r3 and MTCRF 0xff,r3 in a state where bit 2 of the first field is set.\<close>

theorem cr_save_restore_witness:
  "let s = put_cr 2 1 demo_ppu; s' = ppu_MFCR 0x7c600026 s in
     ppu_ok s \<and> \<not> op_l11 0x7c6ff120 \<and> gpr_of s' (op_rs 0x7c6ff120) = gpr_of s' (op_rd 0x7c600026)
   \<and> cr_of (ppu_MTOCRF 0x7c6ff120 s') 2 = cr_of s 2"
proof -
  let ?s = "put_cr 2 1 demo_ppu"
  have 1: "ppu_ok ?s" by (simp add: ppu_ok_put_cr demo_ppu_ok)
  have 2: "\<not> op_l11 0x7c6ff120" by code_simp
  have "op_rs 0x7c6ff120 = op_rd 0x7c600026" by code_simp
  then have 3: "gpr_of (ppu_MFCR 0x7c600026 ?s) (op_rs 0x7c6ff120)
      = gpr_of (ppu_MFCR 0x7c600026 ?s) (op_rd 0x7c600026)" by simp
  have "bit (op_crm 0x7c6ff120) (7 - 2 div 4)" by code_simp
  then show ?thesis unfolding Let_def using cr_save_restore [OF 1 2 3, of 2] 1 2 3 by simp
qed

end
