(* ===== verification/Ppu_Shift.thy ===== *)
theory Ppu_Shift
  imports Ppu_Arith
begin

text \<open>
  Shifts and rotates of the PPU interpreter against the architecture: the carry of an arithmetic
  right shift is what \<^verbatim>\<open>ADDZE\<close> needs to turn it into a division, and the rotate instructions select
  the bits of the rotated operand that the mask of the instruction names.
\<close>

section \<open>Arithmetic shifts\<close>

lemma shift_back_eq:
  assumes "n < LENGTH('a)"
  shows "(of_int (2 ^ n * (sint w div 2 ^ n)) :: 'a::len word) = w \<longleftrightarrow> sint w mod 2 ^ n = 0"
proof -
  let ?m = "sint w mod 2 ^ n"
  have e: "2 ^ n * (sint w div 2 ^ n) = sint w - ?m" by (simp add: minus_mod_eq_mult_div)
  have "(of_int (sint w - ?m) :: 'a word) = w \<longleftrightarrow> (of_int ?m :: 'a word) = 0" by simp
  also have "\<dots> \<longleftrightarrow> ?m mod 2 ^ LENGTH('a) = 0"
    by (simp add: word_of_int_eq_0_iff dvd_eq_mod_eq_0)
  also have "\<dots> \<longleftrightarrow> ?m = 0"
  proof -
    have "0 \<le> ?m" "?m < 2 ^ n" by simp_all
    moreover have "(2 :: int) ^ n < 2 ^ LENGTH('a)" using assms by simp
    ultimately show ?thesis by (simp only: mod_pos_pos_trivial less_trans)
  qed
  finally show ?thesis unfolding e .
qed

lemma tdiv_shift:
  "tdiv a (2 ^ n) = a div 2 ^ n + of_bool (a < 0 \<and> a mod 2 ^ n \<noteq> 0)"
proof (cases "a < 0")
  case True
  have "tdiv a (2 ^ n) = - (- a div 2 ^ n)" using True by (simp add: tdiv_def)
  also have "- a div 2 ^ n = (if a mod 2 ^ n = 0 then - (a div 2 ^ n) else - (a div 2 ^ n) - 1)"
    by (simp add: zdiv_zminus1_eq_if)
  finally show ?thesis using True by simp
next
  case False
  then show ?thesis by (cases "a = 0") (simp_all add: tdiv_def)
qed

lemma sint_sar: "sint (sar w n) = sint w div 2 ^ n"
  by (simp add: sar_def sint_signed_drop_bit_eq drop_bit_eq_div)

lemma push_sar:
  "push_bit n (sar (w :: 'a::len word) n) = of_int (2 ^ n * (sint w div 2 ^ n))"
proof -
  have "push_bit n (sar w n) = of_int (sint (sar w n)) * 2 ^ n" by (simp add: push_bit_eq_mult)
  then show ?thesis by (simp add: sint_sar mult.commute)
qed

lemma shift_carry:
  assumes "n < LENGTH('a)"
  shows "push_bit n (sar w n) \<noteq> (w :: 'a::len word) \<longleftrightarrow> sint w mod 2 ^ n \<noteq> 0"
  unfolding push_sar using shift_back_eq [OF assms, of w] by simp

lemma sint_add_carry:
  assumes "\<not> c \<or> sint v < 0"
  shows "sint ((v :: u64) + of_bool c) = sint v + of_bool c"
proof -
  have "- (2 ^ 63) \<le> sint v + of_bool c" "sint v + of_bool c < 2 ^ 63"
    using assms sint_range [of v] by (cases c; simp)+
  moreover have "v + of_bool c = of_int (sint v + of_bool c)" by simp
  ultimately show ?thesis by (simp only: signed_of_int) (simp add: signed_take_bit_int_eq_self)
qed

lemma ppu_ADDZE_get:
  "gpr_of (ppu_ADDZE oe rc op s) = (gpr_of s)(op_rd op := gpr_of s (op_ra op) + of_bool (xer_ca s))"
  by (simp add: ppu_ADDZE_def Let_def add_flags_c_def add_flags_def)

lemma op_sh64_bound: "unat (op_sh64 op) < 64" "unat (op_mbe64 op) < 64"
proof -
  have "take_bit 6 (op_sh64 op) = op_sh64 op" "take_bit 6 (op_mbe64 op) = op_mbe64 op"
    unfolding op_sh64_def op_mbe64_def ppu_bf_def
    by (rule bit_eqI, auto simp: bit_simps bit_bf_extract)+
  then show "unat (op_sh64 op) < 64" "unat (op_mbe64 op) < 64"
    using take_bit_nat_less_exp [of 6 "unat (op_sh64 op)"]
      take_bit_nat_less_exp [of 6 "unat (op_mbe64 op)"]
    by (simp_all add: unsigned_take_bit_eq [symmetric])
qed

lemma ucast_push_scast: "(ucast (push_bit n (scast (x :: u32) :: u64)) :: u32) = push_bit n x"
proof (rule bit_eqI)
  fix m
  show "bit (ucast (push_bit n (scast x :: u64)) :: u32) m = bit (push_bit n x) m"
    by (cases "m - n = 31") (auto simp: bit_simps min_def)
qed

lemma sint_scast64: "sint (scast (x :: u32) :: u64) = sint x"
  using sint_range [of x] by (simp add: signed_scast_eq signed_take_bit_int_eq_self)

text \<open>
  C36: An arithmetic right shift followed by \<^verbatim>\<open>ADDZE\<close> on its result divides by a power of two with
  truncation towards zero, as the carry the shift leaves is set exactly when a negative operand
  loses a one bit. This holds of the 64-bit \<^verbatim>\<open>SRADI\<close> and, on the low word, of \<^verbatim>\<open>SRAWI\<close>.
\<close>

theorem shift_addze_divides:
  assumes "op_ra add = op_ra sh"
  shows "sint (gpr_of (ppu_ADDZE oe rc add (ppu_SRADI rc' sh s)) (op_rd add))
      = tdiv (sint (gpr_of s (op_rs sh))) (2 ^ unat (op_sh64 sh))
    \<and> sint (gpr_of (ppu_ADDZE oe rc add (ppu_SRAWI rc' sh s)) (op_rd add))
      = tdiv (sint (ucast (gpr_of s (op_rs sh)) :: u32)) (2 ^ op_sh32 sh)"
proof
  let ?w = "gpr_of s (op_rs sh)" let ?n = "unat (op_sh64 sh)"
  have n: "?n < LENGTH(64)" using op_sh64_bound(1) [of sh] by simp
  have c: "\<not> (sint ?w < 0 \<and> push_bit ?n (sar ?w ?n) \<noteq> ?w) \<or> sint (sar ?w ?n) < 0"
    by (auto simp: sint_sar div_neg_pos_less0)
  show "sint (gpr_of (ppu_ADDZE oe rc add (ppu_SRADI rc' sh s)) (op_rd add))
      = tdiv (sint ?w) (2 ^ ?n)"
    using sint_add_carry [OF c] assms
    by (simp add: ppu_ADDZE_get ppu_SRADI_def Let_def tdiv_shift sint_sar shift_carry [OF n])
next
  let ?w = "ucast (gpr_of s (op_rs sh)) :: u32" let ?n = "op_sh32 sh"
  have n: "?n < LENGTH(32)" using op_reg_bounds(9) [of sh] by simp
  have c: "\<not> (sint ?w < 0 \<and> push_bit ?n (sar ?w ?n) \<noteq> ?w) \<or> sint (scast (sar ?w ?n) :: u64) < 0"
    by (auto simp: sint_sar sint_scast64 div_neg_pos_less0)
  show "sint (gpr_of (ppu_ADDZE oe rc add (ppu_SRAWI rc' sh s)) (op_rd add))
      = tdiv (sint ?w) (2 ^ ?n)"
    using sint_add_carry [OF c] assms
    by (simp add: ppu_ADDZE_get ppu_SRAWI_def Let_def tdiv_shift sint_sar shift_carry [OF n]
        ucast_push_scast sint_scast64)
qed

text \<open>Dividing -7 by 4: SRADI r4,r3,2 and ADDZE r5,r4.\<close>

theorem shift_addze_divides_witness:
  "op_ra 0x7ca40194 = op_ra 0x7c641674 \<and> unat (op_sh64 0x7c641674) = 2
   \<and> sint (gpr_of (ppu_ADDZE False False 0x7ca40194
       (ppu_SRADI False 0x7c641674 (put_gpr 3 (- 7) demo_ppu))) (op_rd 0x7ca40194)) = - 1"
proof -
  have h: "op_ra 0x7ca40194 = op_ra 0x7c641674" by code_simp
  have n: "unat (op_sh64 0x7c641674) = 2" "op_rs 0x7c641674 = 3" by code_simp+
  have "tdiv (- 7) 4 = - 1" by (simp add: tdiv_def)
  then show ?thesis
    using shift_addze_divides [OF h, of False False False "put_gpr 3 (- 7) demo_ppu"] h n by simp
qed

section \<open>Rotates\<close>

lemma bit_rotate_mask:
  assumes "unat mb < 64" "unat me < 64" "i < 64"
  shows "bit (ppu_rotate_mask mb me) (63 - i) \<longleftrightarrow> isa_mask (unat mb) (unat me) i"
  using bit_ppu_rotate_mask [OF assms] by simp

lemma unat_mask_bounds:
  "unat (32 + op_mb32 op) = 32 + unat (op_mb32 op)" "unat (32 + op_me32 op) = 32 + unat (op_me32 op)"
  "unat (op_mb32 op) < 32" "unat (op_me32 op) < 32"
proof -
  show b: "unat (op_mb32 op) < 32" "unat (op_me32 op) < 32"
    using unat_ppu_bf [of 5 21 op] unat_ppu_bf [of 5 26 op] by (simp_all add: op_mb32_def op_me32_def)
  show "unat (32 + op_mb32 op) = 32 + unat (op_mb32 op)" "unat (32 + op_me32 op) = 32 + unat (op_me32 op)"
    using b by (simp_all add: unat_word_ariths)
qed

lemma unat_xor_63:
  assumes "unat (x :: u32) < 64"
  shows "unat (x XOR 63) = 63 - unat x"
proof -
  have "list_all (\<lambda>n. unat ((of_nat n :: u32) XOR 63) = 63 - n) [0..<64]" by code_simp
  then have "\<forall>n \<in> set [0..<64]. unat ((of_nat n :: u32) XOR 63) = 63 - n" by (simp only: list_all_iff)
  from bspec [OF this, of "unat x"] show ?thesis using assms by simp
qed

lemma bit_dup32: "bit (dup32 x) k \<longleftrightarrow> k < 64 \<and> bit x (k mod 32)"
proof (cases "k < 32")
  case True
  then show ?thesis by (auto simp: dup32_def bit_simps)
next
  case False
  then have "k < 64 \<Longrightarrow> k mod 32 = k - 32" by (simp add: mod_if)
  then show ?thesis using False
    by (auto simp: dup32_def bit_simps dest: bit_imp_le_length)
qed

lemma bit_rotl:
  "k < LENGTH('a) \<Longrightarrow>
   bit (rotl (w :: 'a::len word) n) k \<longleftrightarrow> bit w ((k + (LENGTH('a) - n mod LENGTH('a))) mod LENGTH('a))"
  by (simp add: rotl_def bit_word_rotl_iff)

text \<open>
  C11: The rotate instructions do what the architecture says. Numbering bits from the most
  significant one, bit \<open>i\<close> of the result of \<^verbatim>\<open>RLWINM\<close> is the bit of the rotated word at its position,
  repeated in both halves, where the mask \<open>32 + MB .. 32 + ME\<close> covers \<open>i\<close> and zero elsewhere, the
  mask wrapping around when \<open>MB\<close> exceeds \<open>ME\<close>; \<^verbatim>\<open>RLDIMI\<close> inserts the rotated register under the mask
  \<open>MB .. 63 - SH\<close> and keeps the other bits of the target.
\<close>

theorem rotate_and_mask:
  assumes "i < 64"
  shows "bit (gpr_of (ppu_RLWINM rc op s) (op_ra op)) (63 - i) =
      (isa_mask (32 + unat (op_mb32 op)) (32 + unat (op_me32 op)) i
       \<and> bit (ucast (gpr_of s (op_rs op)) :: u32) (((63 - i) mod 32 + (32 - op_sh32 op)) mod 32))
    \<and> bit (gpr_of (ppu_RLDIMI rc op s) (op_ra op)) (63 - i) =
      (if isa_mask (unat (op_mbe64 op)) (63 - unat (op_sh64 op)) i
       then bit (gpr_of s (op_rs op)) ((63 - i + (64 - unat (op_sh64 op))) mod 64)
       else bit (gpr_of s (op_ra op)) (63 - i))"
proof
  have "op_sh32 op mod 32 = op_sh32 op" using op_reg_bounds(9) [of op] by simp
  then show "bit (gpr_of (ppu_RLWINM rc op s) (op_ra op)) (63 - i) =
      (isa_mask (32 + unat (op_mb32 op)) (32 + unat (op_me32 op)) i
       \<and> bit (ucast (gpr_of s (op_rs op)) :: u32) (((63 - i) mod 32 + (32 - op_sh32 op)) mod 32))"
    using assms unat_mask_bounds [of op]
      bit_rotate_mask [of "32 + op_mb32 op" "32 + op_me32 op" i]
    by (auto simp: ppu_RLWINM_def Let_def bit_and_iff bit_dup32 bit_rotl)
next
  have b: "unat (op_sh64 op) < 64" "unat (op_mbe64 op) < 64" by (rule op_sh64_bound)+
  then show "bit (gpr_of (ppu_RLDIMI rc op s) (op_ra op)) (63 - i) =
      (if isa_mask (unat (op_mbe64 op)) (63 - unat (op_sh64 op)) i
       then bit (gpr_of s (op_rs op)) ((63 - i + (64 - unat (op_sh64 op))) mod 64)
       else bit (gpr_of s (op_ra op)) (63 - i))"
    using assms bit_rotate_mask [of "op_mbe64 op" "op_sh64 op XOR 63" i] unat_xor_63 [OF b(1)]
    by (auto simp: ppu_RLDIMI_def Let_def bit_and_iff bit_or_iff bit_not_iff bit_rotl)
qed

text \<open>Bit 63 of the result of RLWINM r4,r3,8,24,31, which moves the top byte to the bottom.\<close>

theorem rotate_and_mask_witness:
  "(63 :: nat) < 64
   \<and> bit (gpr_of (ppu_RLWINM False 0x5464463e (put_gpr 3 0x01000000 demo_ppu)) (op_ra 0x5464463e)) (63 - 63)"
proof -
  have h: "(63 :: nat) < 64" by simp
  have f: "op_mb32 0x5464463e = 24" "op_me32 0x5464463e = 31" "op_sh32 0x5464463e = 8"
    "op_rs 0x5464463e = 3" by code_simp+
  show ?thesis
    using rotate_and_mask [OF h, where rc = False and op = "0x5464463e"
        and s = "put_gpr 3 0x01000000 demo_ppu"]
    by (simp add: f isa_mask_def bit_ucast_iff bit_numeral_rec)
qed

end
