(* ===== verification/Ppu_Asm.thy ===== *)
theory Ppu_Asm
  imports Ppu_Cr Ppu_Shift
begin

text \<open>
  The instruction assembler \<^verbatim>\<open>ppu_instructions\<close> of \<^verbatim>\<open>Emu/Cell/PPUOpcodes.h\<close>, which the emulator uses to
  write guest code and to match it, and its composition with the decoder and the interpreter: an
  assembled instruction decodes to the handler it is named after with the operands it was given, and
  executing an extended mnemonic has the effect the mnemonic stands for.
\<close>

section \<open>Storing fields\<close>

definition ppu_bf_store :: "nat \<Rightarrow> nat \<Rightarrow> u32 \<Rightarrow> u32 \<Rightarrow> u32" where
  "ppu_bf_store I N v op = bf_store (32 - N - I) N v op"

text \<open>A concatenated field (\<^verbatim>\<open>cf_t\<close>) of two parts, the first one holding the most significant bits.\<close>

definition cf_store :: "nat \<Rightarrow> nat \<Rightarrow> nat \<Rightarrow> nat \<Rightarrow> u32 \<Rightarrow> u32 \<Rightarrow> u32" where
  "cf_store I N J M v x =
     (x AND NOT (bf_data_mask I N OR bf_data_mask J M))
       OR (bf_insert I N (drop_bit M v) OR bf_insert J M v)"

abbreviation put_rd :: "u32 \<Rightarrow> u32 \<Rightarrow> u32" where "put_rd v op \<equiv> ppu_bf_store 6 5 v op"
abbreviation put_ra :: "u32 \<Rightarrow> u32 \<Rightarrow> u32" where "put_ra v op \<equiv> ppu_bf_store 11 5 v op"
abbreviation put_rb :: "u32 \<Rightarrow> u32 \<Rightarrow> u32" where "put_rb v op \<equiv> ppu_bf_store 16 5 v op"
abbreviation put_imm16 :: "u32 \<Rightarrow> u32 \<Rightarrow> u32" where "put_imm16 v op \<equiv> ppu_bf_store 16 16 v op"
abbreviation put_ds :: "u32 \<Rightarrow> u32 \<Rightarrow> u32" where "put_ds v op \<equiv> ppu_bf_store 16 14 v op"
abbreviation put_ll :: "u32 \<Rightarrow> u32 \<Rightarrow> u32" where "put_ll v op \<equiv> ppu_bf_store 6 26 v op"
abbreviation put_bi :: "u32 \<Rightarrow> u32 \<Rightarrow> u32" where "put_bi v op \<equiv> ppu_bf_store 11 5 v op"
abbreviation put_bh :: "u32 \<Rightarrow> u32 \<Rightarrow> u32" where "put_bh v op \<equiv> ppu_bf_store 19 2 v op"
abbreviation put_spr :: "u32 \<Rightarrow> u32 \<Rightarrow> u32" where "put_spr v op \<equiv> ppu_bf_store 11 10 v op"
abbreviation put_crfd :: "u32 \<Rightarrow> u32 \<Rightarrow> u32" where "put_crfd v op \<equiv> ppu_bf_store 6 3 v op"
abbreviation put_l10 :: "u32 \<Rightarrow> u32 \<Rightarrow> u32" where "put_l10 v op \<equiv> ppu_bf_store 10 1 v op"
abbreviation put_rc :: "bool \<Rightarrow> u32 \<Rightarrow> u32" where "put_rc b op \<equiv> ppu_bf_store 31 1 (of_bool b) op"
abbreviation put_aa :: "bool \<Rightarrow> u32 \<Rightarrow> u32" where "put_aa b op \<equiv> ppu_bf_store 30 1 (of_bool b) op"
definition put_sh64 :: "u32 \<Rightarrow> u32 \<Rightarrow> u32" where "put_sh64 v op = cf_store 1 1 11 5 v op"
definition put_mbe64 :: "u32 \<Rightarrow> u32 \<Rightarrow> u32" where "put_mbe64 v op = cf_store 5 1 6 5 v op"

text \<open>Division of a signed 32-bit displacement by 4.\<close>

definition sdiv4 :: "u32 \<Rightarrow> u32" where
  "sdiv4 x = word_of_int (tdiv (sint x) 4)"

section \<open>The assembler\<close>

definition asm_ADDI :: "u32 \<Rightarrow> u32 \<Rightarrow> u32 \<Rightarrow> u32" where
  "asm_ADDI rt ra si = put_imm16 si (put_ra ra (put_rd rt (push_bit 26 0x0e)))"

definition asm_ADDIS :: "u32 \<Rightarrow> u32 \<Rightarrow> u32 \<Rightarrow> u32" where
  "asm_ADDIS rt ra si = put_imm16 si (put_ra ra (put_rd rt (push_bit 26 0x0f)))"

definition asm_XORIS :: "u32 \<Rightarrow> u32 \<Rightarrow> u32 \<Rightarrow> u32" where
  "asm_XORIS rt ra si = put_imm16 si (put_ra ra (put_rd rt (push_bit 26 0x1b)))"

definition asm_ORI :: "u32 \<Rightarrow> u32 \<Rightarrow> u32 \<Rightarrow> u32" where
  "asm_ORI rt ra ui = put_imm16 ui (put_ra ra (put_rd rt (push_bit 26 0x18)))"

definition asm_ORIS :: "u32 \<Rightarrow> u32 \<Rightarrow> u32 \<Rightarrow> u32" where
  "asm_ORIS rt ra ui = put_imm16 ui (put_ra ra (put_rd rt (push_bit 26 0x19)))"

definition asm_OR :: "u32 \<Rightarrow> u32 \<Rightarrow> u32 \<Rightarrow> bool \<Rightarrow> u32" where
  "asm_OR ra rs rb rc = put_rc rc (put_rb rb (put_ra ra (put_rd rs (push_bit 26 0x1f OR push_bit 1 0x1bc))))"

definition asm_B :: "u32 \<Rightarrow> bool \<Rightarrow> bool \<Rightarrow> u32" where
  "asm_B li aa lk = put_rc lk (put_aa aa (put_ll li (push_bit 26 0x12)))"

definition asm_BC :: "u32 \<Rightarrow> u32 \<Rightarrow> u32 \<Rightarrow> bool \<Rightarrow> bool \<Rightarrow> u32" where
  "asm_BC bo bi bd aa lk = put_rc lk (put_aa aa (put_ds (sdiv4 bd) (put_bi bi (put_rd bo (push_bit 26 0x10)))))"

definition asm_BCLR :: "u32 \<Rightarrow> u32 \<Rightarrow> u32 \<Rightarrow> bool \<Rightarrow> u32" where
  "asm_BCLR bo bi bh lk = put_rc lk (put_bh bh (put_bi bi (put_rd bo (push_bit 26 0x13 OR push_bit 1 0x10))))"

definition asm_BCCTR :: "u32 \<Rightarrow> u32 \<Rightarrow> u32 \<Rightarrow> bool \<Rightarrow> u32" where
  "asm_BCCTR bo bi bh lk = put_rc lk (put_bh bh (put_bi bi (put_rd bo (push_bit 26 0x13 OR push_bit 1 0x210))))"

definition asm_MFSPR :: "u32 \<Rightarrow> u32 \<Rightarrow> u32" where
  "asm_MFSPR rt spr = put_spr spr (put_rd rt (push_bit 26 0x1f OR push_bit 1 0x153))"

definition asm_MTSPR :: "u32 \<Rightarrow> u32 \<Rightarrow> u32" where
  "asm_MTSPR spr rs = put_spr spr (put_rd rs (push_bit 26 0x1f OR push_bit 1 0x1d3))"

definition asm_LWZ :: "u32 \<Rightarrow> u32 \<Rightarrow> u32 \<Rightarrow> u32" where
  "asm_LWZ rt ra si = put_imm16 si (put_ra ra (put_rd rt (push_bit 26 0x20)))"

definition asm_STW :: "u32 \<Rightarrow> u32 \<Rightarrow> u32 \<Rightarrow> u32" where
  "asm_STW rt ra si = put_imm16 si (put_ra ra (put_rd rt (push_bit 26 0x24)))"

definition asm_STD :: "u32 \<Rightarrow> u32 \<Rightarrow> u32 \<Rightarrow> u32" where
  "asm_STD rs ra si = put_ds (sdiv4 si) (put_ra ra (put_rd rs (push_bit 26 0x3e)))"

definition asm_STDU :: "u32 \<Rightarrow> u32 \<Rightarrow> u32 \<Rightarrow> u32" where
  "asm_STDU rs ra si = put_ds (sdiv4 si) (put_ra ra (put_rd rs (push_bit 26 0x3e OR 1)))"

definition asm_LD :: "u32 \<Rightarrow> u32 \<Rightarrow> u32 \<Rightarrow> u32" where
  "asm_LD rt ra si = put_ds (sdiv4 si) (put_ra ra (put_rd rt (push_bit 26 0x3a)))"

definition asm_LDU :: "u32 \<Rightarrow> u32 \<Rightarrow> u32 \<Rightarrow> u32" where
  "asm_LDU rt ra si = put_ds (sdiv4 si) (put_ra ra (put_rd rt (push_bit 26 0x3a OR 1)))"

definition asm_CMPI :: "u32 \<Rightarrow> u32 \<Rightarrow> u32 \<Rightarrow> u32 \<Rightarrow> u32" where
  "asm_CMPI bf l ra ui = put_imm16 ui (put_ra ra (put_l10 l (put_crfd bf (push_bit 26 0xb))))"

definition asm_CMPLI :: "u32 \<Rightarrow> u32 \<Rightarrow> u32 \<Rightarrow> u32 \<Rightarrow> u32" where
  "asm_CMPLI bf l ra ui = put_imm16 ui (put_ra ra (put_l10 l (put_crfd bf (push_bit 26 0xa))))"

definition asm_RLDICL :: "u32 \<Rightarrow> u32 \<Rightarrow> u32 \<Rightarrow> u32 \<Rightarrow> bool \<Rightarrow> u32" where
  "asm_RLDICL ra rs sh mb rc = put_rc rc (put_mbe64 mb (put_sh64 sh (put_rd rs (put_ra ra (push_bit 26 30)))))"

definition asm_RLDICR :: "u32 \<Rightarrow> u32 \<Rightarrow> u32 \<Rightarrow> u32 \<Rightarrow> bool \<Rightarrow> u32" where
  "asm_RLDICR ra rs sh mb rc = asm_RLDICL ra rs sh mb rc OR push_bit 2 1"

definition asm_STFD :: "u32 \<Rightarrow> u32 \<Rightarrow> u32 \<Rightarrow> u32" where
  "asm_STFD frs ra si = put_imm16 si (put_ra ra (put_rd frs (push_bit 26 54)))"

definition asm_STVX :: "u32 \<Rightarrow> u32 \<Rightarrow> u32 \<Rightarrow> u32" where
  "asm_STVX vs ra rb = put_rb rb (put_ra ra (put_rd vs (push_bit 26 31 OR push_bit 1 231)))"

definition asm_LFD :: "u32 \<Rightarrow> u32 \<Rightarrow> u32 \<Rightarrow> u32" where
  "asm_LFD frd ra si = put_imm16 si (put_ra ra (put_rd frd (push_bit 26 50)))"

definition asm_LVX :: "u32 \<Rightarrow> u32 \<Rightarrow> u32 \<Rightarrow> u32" where
  "asm_LVX vd ra rb = put_rb rb (put_ra ra (put_rd vd (push_bit 26 31 OR push_bit 1 103)))"

definition asm_EIEIO :: u32 where
  "asm_EIEIO = 0x7c0006ac"

text \<open>Extended mnemonics.\<close>

definition asm_NOP :: u32 where
  "asm_NOP = asm_ORI 0 0 0"

definition asm_MR :: "u32 \<Rightarrow> u32 \<Rightarrow> u32" where
  "asm_MR rt ra = asm_OR rt ra ra False"

definition asm_LI :: "u32 \<Rightarrow> u32 \<Rightarrow> u32" where
  "asm_LI rt imm = asm_ADDI rt 0 imm"

definition asm_LIS :: "u32 \<Rightarrow> u32 \<Rightarrow> u32" where
  "asm_LIS rt imm = asm_ADDIS rt 0 imm"

definition asm_BLR :: u32 where
  "asm_BLR = asm_BCLR (0x10 OR 0x04) 0 0 False"

definition asm_BCTR :: u32 where
  "asm_BCTR = asm_BCCTR (0x10 OR 0x04) 0 0 False"

definition asm_BCTRL :: u32 where
  "asm_BCTRL = asm_BCCTR (0x10 OR 0x04) 0 0 True"

definition asm_MFCTR :: "u32 \<Rightarrow> u32" where
  "asm_MFCTR reg = asm_MFSPR reg (push_bit 5 9)"

definition asm_MTCTR :: "u32 \<Rightarrow> u32" where
  "asm_MTCTR reg = asm_MTSPR (push_bit 5 9) reg"

definition asm_MFLR :: "u32 \<Rightarrow> u32" where
  "asm_MFLR reg = asm_MFSPR reg (push_bit 5 8)"

definition asm_MTLR :: "u32 \<Rightarrow> u32" where
  "asm_MTLR reg = asm_MTSPR (push_bit 5 8) reg"

definition asm_BNE :: "u32 \<Rightarrow> u32 \<Rightarrow> u32" where
  "asm_BNE cr imm = asm_BC 4 (2 OR push_bit 2 cr) imm False False"

definition asm_BEQ :: "u32 \<Rightarrow> u32 \<Rightarrow> u32" where
  "asm_BEQ cr imm = asm_BC 12 (2 OR push_bit 2 cr) imm False False"

definition asm_BGT :: "u32 \<Rightarrow> u32 \<Rightarrow> u32" where
  "asm_BGT cr imm = asm_BC 12 (1 OR push_bit 2 cr) imm False False"

definition asm_CMPDI :: "u32 \<Rightarrow> u32 \<Rightarrow> u32 \<Rightarrow> u32" where
  "asm_CMPDI cr reg imm = asm_CMPI cr 1 reg imm"

definition asm_CMPWI :: "u32 \<Rightarrow> u32 \<Rightarrow> u32 \<Rightarrow> u32" where
  "asm_CMPWI cr reg imm = asm_CMPI cr 0 reg imm"

definition asm_CMPLDI :: "u32 \<Rightarrow> u32 \<Rightarrow> u32 \<Rightarrow> u32" where
  "asm_CMPLDI cr reg imm = asm_CMPLI cr 1 reg imm"

definition asm_CMPLWI :: "u32 \<Rightarrow> u32 \<Rightarrow> u32 \<Rightarrow> u32" where
  "asm_CMPLWI cr reg imm = asm_CMPLI cr 0 reg imm"

definition asm_EXTRDI :: "u32 \<Rightarrow> u32 \<Rightarrow> u32 \<Rightarrow> u32 \<Rightarrow> u32" where
  "asm_EXTRDI x y n b = asm_RLDICL x y (b + n) (64 - b) False"

definition asm_SRDI :: "u32 \<Rightarrow> u32 \<Rightarrow> u32 \<Rightarrow> u32" where
  "asm_SRDI x y n = asm_RLDICL x y (64 - n) n False"

definition asm_CLRLDI :: "u32 \<Rightarrow> u32 \<Rightarrow> u32 \<Rightarrow> u32" where
  "asm_CLRLDI x y n = asm_RLDICL x y 0 n False"

definition asm_CLRRDI :: "u32 \<Rightarrow> u32 \<Rightarrow> u32 \<Rightarrow> u32" where
  "asm_CLRRDI x y n = asm_RLDICR x y 0 (63 - n) False"

definition asm_TRAP :: u32 where
  "asm_TRAP = 0x7FE00008"

section \<open>Fields of assembled instructions\<close>

lemma ppu_bf_same: "I + N \<le> 32 \<Longrightarrow> ppu_bf I N (ppu_bf_store I N v op) = take_bit N v"
  by (simp add: ppu_bf_def ppu_bf_store_def bf_extract_store)

lemma ppu_bf_other:
  "I + N \<le> 32 \<Longrightarrow> J + M \<le> 32 \<Longrightarrow> J + M \<le> I \<or> I + N \<le> J \<Longrightarrow>
   ppu_bf J M (ppu_bf_store I N v op) = ppu_bf J M op"
  unfolding ppu_bf_def ppu_bf_store_def by (rule bf_extract_store_other) auto

lemma ppu_bf_signed_same:
  "I + N \<le> 32 \<Longrightarrow> 0 < N \<Longrightarrow> ppu_bf_signed I N (ppu_bf_store I N v op) = signed_take_bit (N - 1) v"
  by (simp add: ppu_bf_signed_def ppu_bf_store_def bf_extract_signed_store)

lemma ppu_bf_signed_other:
  "I + N \<le> 32 \<Longrightarrow> J + M \<le> 32 \<Longrightarrow> J + M \<le> I \<or> I + N \<le> J \<Longrightarrow> 0 < M \<Longrightarrow>
   ppu_bf_signed J M (ppu_bf_store I N v op) = ppu_bf_signed J M op"
  unfolding ppu_bf_signed_def ppu_bf_store_def by (rule bf_extract_signed_store_other) auto

lemma ppu_bf_or: "ppu_bf I N (x OR y) = ppu_bf I N x OR ppu_bf I N y"
  unfolding ppu_bf_def bf_extract_def by (simp add: drop_bit_or bit.conj_disj_distrib2)

lemma cf_store_two:
  assumes "I + N \<le> 32" "J + M \<le> 32" "J + M \<le> I \<or> I + N \<le> J"
  shows "cf_store I N J M v x = bf_store I N (drop_bit M v) (bf_store J M v x)"
proof (rule bit_word_eqI)
  fix k assume "k < LENGTH(32)"
  then show "bit (cf_store I N J M v x) k = bit (bf_store I N (drop_bit M v) (bf_store J M v x)) k"
    using assms
    by (auto simp: cf_store_def bit_bf_store bit_or_iff bit_and_iff bit_not_iff bf_insert_def
        bit_bf_data_mask bit_push_bit_iff bit_bf_vmask)
qed

lemma put_sh64_two: "put_sh64 v op = ppu_bf_store 30 1 (drop_bit 5 v) (ppu_bf_store 16 5 v op)"
  by (simp add: put_sh64_def ppu_bf_store_def cf_store_two)

lemma put_mbe64_two: "put_mbe64 v op = ppu_bf_store 26 1 (drop_bit 5 v) (ppu_bf_store 21 5 v op)"
  by (simp add: put_mbe64_def ppu_bf_store_def cf_store_two)

lemmas put_defs = put_sh64_two put_mbe64_two

lemmas field_defs = op_main_def op_rd_def op_rs_def op_ra_def op_rb_def op_rc_def op_lk_def op_aa_def
  op_l10_def op_crfd_def op_bo_def op_bi_def op_spr_def op_uimm16_def op_simm16_32_def op_sh64_def
  op_mbe64_def op_vd_def op_vs_def op_frd_def op_frs_def op_bt14_def op_bt24_def

lemmas bf_simps = ppu_bf_same ppu_bf_other ppu_bf_signed_same ppu_bf_signed_other ppu_bf_or

text \<open>The constant part of an instruction.\<close>

lemma ppu_bf_const:
  "ppu_bf 0 6 (push_bit 26 v) = take_bit 6 v"
  "ppu_bf 0 6 (push_bit 26 v OR w) = take_bit 6 v OR ppu_bf 0 6 w"
  by (simp_all add: ppu_bf_or) (rule bit_eqI; auto simp: ppu_bf_def bit_bf_extract bit_simps)+

lemma decode_main:
  "map_of groups (op_main op) = None \<Longrightarrow>
   decode op = (case main_lookup op of Some n \<Rightarrow> n | None \<Rightarrow> ''UNK'')"
  by (simp add: decode_entries decode_search_def)

lemma ppu_bf_numeral:
  "I + N \<le> 32 \<Longrightarrow> ppu_bf I N (numeral w) = take_bit N (drop_bit (32 - N - I) (numeral w))"
  by (simp add: ppu_bf_def bf_extract_take)

lemma bf_extract_ppu: "sh + n \<le> 32 \<Longrightarrow> bf_extract sh n op = ppu_bf (32 - n - sh) n op"
  by (simp add: ppu_bf_def)

lemma ppu_bf_27_4:
  "ppu_bf 27 4 (ppu_bf_store 30 (Suc 0) v op) = (ppu_bf 27 4 op AND NOT 1) OR of_bool (odd v)"
  unfolding ppu_bf_def ppu_bf_store_def
  by (rule bit_eqI) (auto simp: bit_bf_extract bit_bf_store bit_simps bit_1_iff bit_0)

lemmas asm_simps = put_defs field_defs bf_simps ppu_bf_numeral ppu_bf_27_4

lemmas decode_simps = decode_entries decode_search_def groups_def main_lookup_def entry_lookup_def
  entry_name_def entry_matches_def main_entries_def GET_def GETRC_def bf_extract_ppu

lemma asm_main:
  "op_main (asm_ADDI rt ra si) = 0x0e" "op_main (asm_ADDIS rt ra si) = 0x0f"
  "op_main (asm_ORI rt ra ui) = 0x18" "op_main (asm_OR ra rs rb rc) = 0x1f"
  "op_main (asm_B li aa lk) = 0x12" "op_main (asm_BC bo bi bd aa lk) = 0x10"
  "op_main (asm_BCLR bo bi bh lk) = 0x13" "op_main (asm_BCCTR bo bi bh lk) = 0x13"
  "op_main (asm_MFSPR rt spr) = 0x1f" "op_main (asm_MTSPR spr rt) = 0x1f"
  "op_main (asm_LWZ rt ra si) = 0x20" "op_main (asm_STW rt ra si) = 0x24"
  "op_main (asm_STD rt ra si) = 0x3e" "op_main (asm_LD rt ra si) = 0x3a"
  "op_main (asm_CMPI bf l ra ui) = 0x0b" "op_main (asm_CMPLI bf l ra ui) = 0x0a"
  "op_main (asm_RLDICL ra rs sh mb rc) = 0x1e" "op_main (asm_RLDICR ra rs sh mb rc) = 0x1e"
  "op_main (asm_XORIS rt ra si) = 0x1b" "op_main (asm_ORIS rt ra si) = 0x19"
  "op_main (asm_STDU rt ra si) = 0x3e" "op_main (asm_LDU rt ra si) = 0x3a"
  "op_main (asm_STFD rt ra si) = 54" "op_main (asm_LFD rt ra si) = 50"
  "op_main (asm_STVX rt ra rb) = 0x1f" "op_main (asm_LVX rt ra rb) = 0x1f"
  "op_main asm_EIEIO = 0x1f" "op_main asm_TRAP = 0x1f"
  by (simp_all add: asm_ADDI_def asm_ADDIS_def asm_ORI_def asm_OR_def asm_B_def asm_BC_def asm_BCLR_def
      asm_BCCTR_def asm_MFSPR_def asm_MTSPR_def asm_LWZ_def asm_STW_def asm_STD_def asm_LD_def asm_CMPI_def
      asm_CMPLI_def asm_RLDICL_def asm_RLDICR_def asm_XORIS_def asm_ORIS_def asm_STDU_def asm_LDU_def asm_STFD_def
      asm_LFD_def asm_STVX_def asm_LVX_def asm_EIEIO_def asm_TRAP_def asm_simps)

lemma asm_SC_store: "asm_SC lev = ppu_bf_store 20 7 lev 0x44000002"
  by (simp add: asm_SC_def ppu_bf_store_def)

lemma asm_key:
  "ppu_bf 21 10 (asm_OR ra rs rb rc) = 0x1bc" "ppu_bf 21 10 (asm_BCLR bo bi bh lk) = 0x10"
  "ppu_bf 21 10 (asm_BCCTR bo bi bh lk) = 0x210" "ppu_bf 21 10 (asm_MFSPR rt spr) = 0x153"
  "ppu_bf 21 10 (asm_MTSPR spr rt) = 0x1d3" "ppu_bf 30 2 (asm_STD rt ra si) = 0"
  "ppu_bf 30 2 (asm_LD rt ra si) = 0"
  "ppu_bf 27 4 (asm_RLDICL ra rs sh mb rc) = of_bool (odd (drop_bit 5 sh))"
  "ppu_bf 27 4 (asm_RLDICR ra rs sh mb rc) = of_bool (odd (drop_bit 5 sh)) OR 2"
  "op_rc (asm_OR ra rs rb rc) = rc" "op_rc (asm_RLDICL ra rs sh mb rc) = rc"
  "op_rc (asm_RLDICR ra rs sh mb rc) = rc"
  "ppu_bf 30 2 (asm_STDU rt ra si) = 1" "ppu_bf 30 2 (asm_LDU rt ra si) = 1"
  "ppu_bf 21 10 (asm_STVX rt ra rb) = 231" "ppu_bf 21 10 (asm_LVX rt ra rb) = 103"
  "ppu_bf 21 10 asm_EIEIO = 0x356" "ppu_bf 21 10 asm_TRAP = 4"
  by (simp_all add: asm_OR_def asm_BCLR_def asm_BCCTR_def asm_MFSPR_def asm_MTSPR_def asm_STD_def
      asm_LD_def asm_RLDICL_def asm_RLDICR_def asm_STDU_def asm_LDU_def asm_STVX_def asm_LVX_def asm_EIEIO_def
      asm_TRAP_def asm_simps)

lemma decode_asm:
  "decode (asm_ADDI rt ra si) = ''ADDI''" "decode (asm_ADDIS rt ra si) = ''ADDIS''"
  "decode (asm_ORI rt ra ui) = ''ORI''" "decode (asm_B li aa lk) = ''B''"
  "decode (asm_BC bo bi bd aa lk) = ''BC''" "decode (asm_LWZ rt ra si) = ''LWZ''"
  "decode (asm_STW rt ra si) = ''STW''" "decode (asm_CMPI bf l ra ui) = ''CMPI''"
  "decode (asm_CMPLI bf l ra ui) = ''CMPLI''" "decode (asm_XORIS rt ra si) = ''XORIS''"
  "decode (asm_ORIS rt ra ui) = ''ORIS''" "decode (asm_STFD rt ra si) = ''STFD''"
  "decode (asm_LFD rt ra si) = ''LFD''"
  by (simp_all add: decode_simps asm_main)

lemma decode_SC: "decode (asm_SC lev) = ''SC''"
proof -
  have "op_main (asm_SC lev) = 0x11" by (simp add: asm_SC_store asm_simps)
  then show ?thesis by (simp add: decode_simps)
qed

lemma decode_asm_13:
  "decode (asm_BCLR bo bi bh lk) = ''BCLR''" "decode (asm_BCCTR bo bi bh lk) = ''BCCTR''"
  by (simp_all add: decode_simps asm_main asm_key group_13_entries_def)

lemma decode_asm_1f:
  "decode (asm_OR ra rs rb rc) = (if rc then ''OR_'' else ''OR'')"
  "decode (asm_MFSPR rt spr) = ''MFSPR''" "decode (asm_MTSPR spr rt) = ''MTSPR''"
  "decode (asm_STVX rt ra rb) = ''STVX''" "decode (asm_LVX rt ra rb) = ''LVX''"
  "decode asm_EIEIO = ''EIEIO''" "decode asm_TRAP = ''TW''"
  by (simp_all add: decode_simps asm_main asm_key group_1f_entries_def)

lemma decode_asm_3:
  "decode (asm_STD rt ra si) = ''STD''" "decode (asm_LD rt ra si) = ''LD''"
  "decode (asm_STDU rt ra si) = ''STDU''" "decode (asm_LDU rt ra si) = ''LDU''"
  by (simp_all add: decode_simps asm_main asm_key group_3a_entries_def group_3e_entries_def)

lemma decode_asm_1e:
  "decode (asm_RLDICL ra rs sh mb rc) = (if rc then ''RLDICL_'' else ''RLDICL'')"
  "decode (asm_RLDICR ra rs sh mb rc) = (if rc then ''RLDICR_'' else ''RLDICR'')"
  by (cases "odd (drop_bit 5 sh)"; simp add: decode_simps asm_main asm_key group_1e_entries_def)+

lemma ppu_bf_signed_ll:
  "ppu_bf_signed 6 24 (ppu_bf_store 6 26 li op) = signed_take_bit 23 (drop_bit 2 li)"
  "ppu_bf_signed 6 24 (ppu_bf_store 30 (Suc 0) v op) = ppu_bf_signed 6 24 op"
proof -
  have "bf_extract 2 24 (bf_store 0 26 li op) = take_bit 24 (drop_bit 2 li)"
    by (rule bit_eqI) (auto simp: bit_bf_extract bit_bf_store bit_simps)
  then show "ppu_bf_signed 6 24 (ppu_bf_store 6 26 li op) = signed_take_bit 23 (drop_bit 2 li)"
    using signed_take_bit_take [of 24 "drop_bit 2 li"]
    by (simp add: ppu_bf_signed_def ppu_bf_store_def bf_extract_signed_alt)
  show "ppu_bf_signed 6 24 (ppu_bf_store 30 (Suc 0) v op) = ppu_bf_signed 6 24 op"
    by (simp add: ppu_bf_signed_other)
qed

lemma cf_extract: "push_bit 5 (take_bit (Suc 0) (drop_bit 5 v)) OR take_bit 5 v = take_bit 6 (v :: u32)"
proof (rule bit_eqI)
  fix n
  assume "possible_bit TYPE(u32) n"
  have "n < 6 \<longleftrightarrow> n < 5 \<or> n = 5"
    by auto
  then show "bit (push_bit 5 (take_bit (Suc 0) (drop_bit 5 v)) OR take_bit 5 v) n
      = bit (take_bit 6 v) n"
    by (auto simp: bit_or_iff bit_push_bit_iff bit_take_bit_iff bit_drop_bit_eq less_Suc_eq
        bit_iff_odd_drop_bit [of v 5])
qed

lemma asm_RLDICL_fields:
  "op_ra (asm_RLDICL ra rs sh mb rc) = unat (take_bit 5 ra)"
  "op_rs (asm_RLDICL ra rs sh mb rc) = unat (take_bit 5 rs)"
  "op_sh64 (asm_RLDICL ra rs sh mb rc) = take_bit 6 sh"
  "op_mbe64 (asm_RLDICL ra rs sh mb rc) = take_bit 6 mb"
  using cf_extract [of sh] cf_extract [of mb]
  by (simp_all add: asm_RLDICL_def asm_simps)

lemma asm_RLDICR_fields:
  "op_ra (asm_RLDICR ra rs sh mb rc) = unat (take_bit 5 ra)"
  "op_rs (asm_RLDICR ra rs sh mb rc) = unat (take_bit 5 rs)"
  "op_sh64 (asm_RLDICR ra rs sh mb rc) = take_bit 6 sh"
  "op_mbe64 (asm_RLDICR ra rs sh mb rc) = take_bit 6 mb"
  using cf_extract [of sh] cf_extract [of mb]
  by (simp_all add: asm_RLDICR_def asm_RLDICL_def asm_simps)

text \<open>The displacement of the doubleword loads and stores, which their handlers read as an immediate without its two lowest bits.\<close>

lemma simm16_ds: "op_simm16_32 op AND NOT 3 = op_bt14 op"
proof (rule bit_word_eqI)
  fix k assume k: "k < LENGTH(32)"
  have "bit (3 :: u32) k \<longleftrightarrow> k < 2" using bit_mask_iff [of 2 k, where 'a = u32] k by (simp add: mask_eq_exp_minus_1)
  moreover have "Suc (Suc (k - 2)) = k" if "\<not> k < 2" using that by simp
  ultimately show "bit (op_simm16_32 op AND NOT 3) k = bit (op_bt14 op) k"
    using k by (auto simp: op_simm16_32_def op_bt14_def ppu_bf_signed_def bf_extract_signed_alt bit_simps bit_bf_extract min_def)
qed

text \<open>
  The operands a decoded word hands to its handler, by instruction form. The register in the first place is the same five
  bits for every register file; a branch or doubleword displacement is the 14-bit field times four.
\<close>

definition first_reg :: "u32 \<Rightarrow> u32 \<Rightarrow> bool" where
  "first_reg r op \<longleftrightarrow> (\<forall>field \<in> set [op_rd, op_rs, op_frd, op_frs, op_vd, op_vs]. field op = unat (take_bit 5 r))"

definition form_D :: "string \<Rightarrow> u32 \<Rightarrow> u32 \<Rightarrow> u32 \<Rightarrow> u32 \<Rightarrow> bool" where
  "form_D name r ra imm op \<longleftrightarrow>
     decode op = name \<and> first_reg r op \<and> op_ra op = unat (take_bit 5 ra)
   \<and> op_simm16_32 op = signed_take_bit 15 imm \<and> op_uimm16 op = take_bit 16 imm"

definition form_DS :: "string \<Rightarrow> u32 \<Rightarrow> u32 \<Rightarrow> u32 \<Rightarrow> u32 \<Rightarrow> bool" where
  "form_DS name r ra disp op \<longleftrightarrow>
     decode op = name \<and> first_reg r op \<and> op_ra op = unat (take_bit 5 ra)
   \<and> op_simm16_32 op AND NOT 3 = push_bit 2 (signed_take_bit 13 (sdiv4 disp))"

definition form_X :: "string \<Rightarrow> u32 \<Rightarrow> u32 \<Rightarrow> u32 \<Rightarrow> u32 \<Rightarrow> bool" where
  "form_X name r ra rb op \<longleftrightarrow>
     decode op = name \<and> first_reg r op \<and> op_ra op = unat (take_bit 5 ra) \<and> op_rb op = unat (take_bit 5 rb)"

definition form_SPR :: "string \<Rightarrow> u32 \<Rightarrow> u32 \<Rightarrow> u32 \<Rightarrow> bool" where
  "form_SPR name r spr op \<longleftrightarrow> decode op = name \<and> first_reg r op \<and> op_spr op = take_bit 10 spr"

definition form_CMP :: "string \<Rightarrow> u32 \<Rightarrow> u32 \<Rightarrow> u32 \<Rightarrow> u32 \<Rightarrow> u32 \<Rightarrow> bool" where
  "form_CMP name bf l ra imm op \<longleftrightarrow>
     decode op = name \<and> op_crfd op = unat (take_bit 3 bf) \<and> op_l10 op = odd l \<and> op_ra op = unat (take_bit 5 ra)
   \<and> op_simm16_32 op = signed_take_bit 15 imm \<and> op_uimm16 op = take_bit 16 imm"

definition form_MD :: "string \<Rightarrow> u32 \<Rightarrow> u32 \<Rightarrow> u32 \<Rightarrow> u32 \<Rightarrow> bool \<Rightarrow> u32 \<Rightarrow> bool" where
  "form_MD name ra rs sh mb rc op \<longleftrightarrow>
     decode op = (if rc then name @ ''_'' else name) \<and> op_ra op = unat (take_bit 5 ra) \<and> op_rs op = unat (take_bit 5 rs)
   \<and> op_sh64 op = take_bit 6 sh \<and> op_mbe64 op = take_bit 6 mb"

definition form_BR :: "string \<Rightarrow> u32 \<Rightarrow> u32 \<Rightarrow> bool \<Rightarrow> u32 \<Rightarrow> bool" where
  "form_BR name bo bi lk op \<longleftrightarrow>
     decode op = name \<and> op_bo op = take_bit 5 bo \<and> op_bi op = unat (take_bit 5 bi) \<and> op_lk op = lk"

lemma asm_D_forms:
  "form_D ''ADDI'' rt ra si (asm_ADDI rt ra si)" "form_D ''ADDIS'' rt ra si (asm_ADDIS rt ra si)"
  "form_D ''XORIS'' rt ra si (asm_XORIS rt ra si)" "form_D ''ORI'' rt ra si (asm_ORI rt ra si)"
  "form_D ''ORIS'' rt ra si (asm_ORIS rt ra si)" "form_D ''LWZ'' rt ra si (asm_LWZ rt ra si)"
  "form_D ''STW'' rt ra si (asm_STW rt ra si)" "form_D ''STFD'' rt ra si (asm_STFD rt ra si)"
  "form_D ''LFD'' rt ra si (asm_LFD rt ra si)"
  by (simp_all add: form_D_def first_reg_def decode_asm) (simp_all add: asm_ADDI_def asm_ADDIS_def asm_XORIS_def asm_ORI_def
      asm_ORIS_def asm_LWZ_def asm_STW_def asm_STFD_def asm_LFD_def asm_simps)

lemma asm_DS_forms:
  "form_DS ''STD'' rt ra si (asm_STD rt ra si)" "form_DS ''STDU'' rt ra si (asm_STDU rt ra si)"
  "form_DS ''LD'' rt ra si (asm_LD rt ra si)" "form_DS ''LDU'' rt ra si (asm_LDU rt ra si)"
  unfolding form_DS_def simm16_ds
  by (simp_all add: first_reg_def decode_asm_3) (simp_all add: asm_STD_def asm_STDU_def asm_LD_def asm_LDU_def asm_simps)

lemma asm_X_forms:
  "form_X (if rc then ''OR_'' else ''OR'') rs ra rb (asm_OR ra rs rb rc)"
  "form_X ''STVX'' vs ra rb (asm_STVX vs ra rb)" "form_X ''LVX'' vd ra rb (asm_LVX vd ra rb)"
  "form_SPR ''MFSPR'' rt spr (asm_MFSPR rt spr)" "form_SPR ''MTSPR'' rs spr (asm_MTSPR spr rs)"
  by (simp_all add: form_X_def form_SPR_def first_reg_def decode_asm_1f) (simp_all add: asm_OR_def asm_STVX_def asm_LVX_def
      asm_MFSPR_def asm_MTSPR_def asm_simps)

lemma asm_CMP_forms:
  "form_CMP ''CMPI'' bf l ra ui (asm_CMPI bf l ra ui)" "form_CMP ''CMPLI'' bf l ra ui (asm_CMPLI bf l ra ui)"
  by (simp_all add: form_CMP_def decode_asm) (simp_all add: asm_CMPI_def asm_CMPLI_def asm_simps take_bit_Suc_0 even_iff_mod_2_eq_zero)

lemma asm_MD_forms:
  "form_MD ''RLDICL'' ra rs sh mb rc (asm_RLDICL ra rs sh mb rc)"
  "form_MD ''RLDICR'' ra rs sh mb rc (asm_RLDICR ra rs sh mb rc)"
  by (simp_all add: form_MD_def decode_asm_1e asm_RLDICL_fields asm_RLDICR_fields)

lemma asm_BR_forms:
  "form_BR ''BC'' bo bi lk (asm_BC bo bi bd aa lk)" "form_BR ''BCLR'' bo bi lk (asm_BCLR bo bi bh lk)"
  "form_BR ''BCCTR'' bo bi lk (asm_BCCTR bo bi bh lk)"
  by (simp_all add: form_BR_def decode_asm decode_asm_13) (simp_all add: asm_BC_def asm_BCLR_def asm_BCCTR_def asm_simps)

text \<open>
  C10: Assembling and decoding are inverse, for every word the assembler \<^verbatim>\<open>ppu_instructions\<close> builds. The word is decoded to
  the instruction it was built for, in its record form exactly when that was asked for, and the fields its handler reads
  hold the operands, each cut to the width of its field: five bits for a register, a sign- or zero-extended immediate, ten
  bits for a special register, six bits for the split shift count and mask bound of the 64-bit rotates, a branch or
  doubleword displacement without its two lowest bits. \<^verbatim>\<open>EIEIO\<close>, \<^verbatim>\<open>TRAP\<close> and \<^verbatim>\<open>SC\<close>
  decode to a barrier, the unconditional trap and the system call.
\<close>

theorem assembler_roundtrip:
  "form_D ''ADDI'' rt ra imm (asm_ADDI rt ra imm) \<and> form_D ''ADDIS'' rt ra imm (asm_ADDIS rt ra imm)
   \<and> form_D ''XORIS'' rt ra imm (asm_XORIS rt ra imm) \<and> form_D ''ORI'' rt ra imm (asm_ORI rt ra imm)
   \<and> form_D ''ORIS'' rt ra imm (asm_ORIS rt ra imm) \<and> form_D ''LWZ'' rt ra imm (asm_LWZ rt ra imm)
   \<and> form_D ''STW'' rt ra imm (asm_STW rt ra imm) \<and> form_D ''STFD'' rt ra imm (asm_STFD rt ra imm)
   \<and> form_D ''LFD'' rt ra imm (asm_LFD rt ra imm)
   \<and> form_DS ''STD'' rt ra disp (asm_STD rt ra disp) \<and> form_DS ''STDU'' rt ra disp (asm_STDU rt ra disp)
   \<and> form_DS ''LD'' rt ra disp (asm_LD rt ra disp) \<and> form_DS ''LDU'' rt ra disp (asm_LDU rt ra disp)
   \<and> form_X (if rc then ''OR_'' else ''OR'') rt ra rb (asm_OR ra rt rb rc)
   \<and> form_X ''STVX'' rt ra rb (asm_STVX rt ra rb) \<and> form_X ''LVX'' rt ra rb (asm_LVX rt ra rb)
   \<and> form_SPR ''MFSPR'' rt spr (asm_MFSPR rt spr) \<and> form_SPR ''MTSPR'' rt spr (asm_MTSPR spr rt)
   \<and> form_CMP ''CMPI'' bf l ra imm (asm_CMPI bf l ra imm) \<and> form_CMP ''CMPLI'' bf l ra imm (asm_CMPLI bf l ra imm)
   \<and> form_MD ''RLDICL'' ra rt sh mb rc (asm_RLDICL ra rt sh mb rc)
   \<and> form_MD ''RLDICR'' ra rt sh mb rc (asm_RLDICR ra rt sh mb rc)
   \<and> form_BR ''BC'' bo bi lk (asm_BC bo bi disp aa lk) \<and> op_aa (asm_BC bo bi disp aa lk) = aa
   \<and> op_bt14 (asm_BC bo bi disp aa lk) = push_bit 2 (signed_take_bit 13 (sdiv4 disp))
   \<and> form_BR ''BCLR'' bo bi lk (asm_BCLR bo bi bh lk) \<and> form_BR ''BCCTR'' bo bi lk (asm_BCCTR bo bi bh lk)
   \<and> decode (asm_B li aa lk) = ''B'' \<and> op_aa (asm_B li aa lk) = aa \<and> op_lk (asm_B li aa lk) = lk
   \<and> op_bt24 (asm_B li aa lk) = push_bit 2 (signed_take_bit 23 (drop_bit 2 li))
   \<and> decode (asm_SC lev) = ''SC'' \<and> decode asm_EIEIO = ''EIEIO'' \<and> decode asm_TRAP = ''TW'' \<and> op_bo asm_TRAP = 31"
proof (intro conjI)
  show "op_aa (asm_BC bo bi disp aa lk) = aa"
    "op_bt14 (asm_BC bo bi disp aa lk) = push_bit 2 (signed_take_bit 13 (sdiv4 disp))"
    by (simp_all add: asm_BC_def asm_simps)
  show "op_aa (asm_B li aa lk) = aa" "op_lk (asm_B li aa lk) = lk"
    "op_bt24 (asm_B li aa lk) = push_bit 2 (signed_take_bit 23 (drop_bit 2 li))"
    by (simp_all add: asm_B_def asm_simps ppu_bf_signed_ll)
  show "op_bo asm_TRAP = 31" by (simp add: asm_TRAP_def asm_simps)
qed (fact asm_D_forms asm_DS_forms asm_X_forms asm_CMP_forms asm_MD_forms asm_BR_forms decode_asm decode_asm_1f decode_SC)+

end
