(* ===== verification/Ppu_Program.thy ===== *)
theory Ppu_Program
  imports Ppu_Asm Ppu_Inv
begin

text \<open>
  Programs: what the words built by \<^verbatim>\<open>ppu_instructions\<close> do when the interpreter decodes and runs
  them. The extended mnemonics (shifts, masks, moves to and from the special registers, return) are
  followed from the assembler through the decoding table and the dispatch table into the handlers,
  and a counted loop is followed through memory fetch and \<^verbatim>\<open>ppu_recompiler_fallback\<close>.
\<close>

unbundle bit_operations_syntax

section \<open>Dispatch of the instructions used\<close>

lemmas ptrs_simps = table_handler_def ppu_ptrs_def INIT_def INIT_F_def INIT_RC_def INIT_RC_OV_def

lemma handlers:
  "table_handler ''ADDI'' = plain ppu_ADDI" "table_handler ''OR'' = plain (ppu_OR False)"
  "table_handler ''BC'' = ppu_BC" "table_handler ''BCLR'' = ppu_BCLR"
  "table_handler ''MTSPR'' = fallible ppu_MTSPR" "table_handler ''MFSPR'' = fallible ppu_MFSPR"
  "table_handler ''RLDICL'' = plain (ppu_RLDICL False)"
  "table_handler ''RLDICR'' = plain (ppu_RLDICR False)"
  by (simp_all add: ptrs_simps)

lemma rt_decode_asm:
  "rt_decode (asm_ADDI rt ra si) = plain ppu_ADDI"
  "rt_decode (asm_OR ra rs rb False) = plain (ppu_OR False)"
  "rt_decode (asm_BC bo bi bd aa lk) = ppu_BC" "rt_decode (asm_BCLR bo bi bh lk) = ppu_BCLR"
  "rt_decode (asm_MTSPR spr rs) = fallible ppu_MTSPR" "rt_decode (asm_MFSPR rt spr) = fallible ppu_MFSPR"
  "rt_decode (asm_RLDICL ra rs sh mb False) = plain (ppu_RLDICL False)"
  "rt_decode (asm_RLDICR ra rs sh mb False) = plain (ppu_RLDICR False)"
  by (simp_all add: rt_decode_def decode_asm decode_asm_13 decode_asm_1f decode_asm_1e handlers
      base_register_required_def)

lemma reg_field: "unat r < 32 \<Longrightarrow> unat (take_bit 5 (r :: u32)) = unat r"
  by (simp add: unat_take_bit_mod)

section \<open>Shifts and masks as rotations\<close>

lemma rotl_0 [simp]: "rotl w 0 = w"
  by (rule bit_word_eqI) (simp add: bit_rotl)

lemma bit_ones_drop: "bit (drop_bit n (NOT 0) :: u64) k \<longleftrightarrow> n + k < 64"
  by (simp only: bit_drop_bit_eq o_def bit_not_iff possible_bit_word bit_0_eq) simp

lemma rotl_right:
  fixes w :: u64
  assumes "n < 64"
  shows "rotl w ((64 - n) mod 64) AND drop_bit n (NOT 0) = drop_bit n w"
proof (rule bit_word_eqI)
  fix k assume k: "k < LENGTH(64)"
  have "(k + (64 - (64 - n) mod 64 mod 64)) mod 64 = (n + k) mod 64"
    using assms by (cases "n = 0") (auto simp: add.commute)
  then have "bit (rotl w ((64 - n) mod 64)) k = bit w ((n + k) mod 64)"
    using bit_rotl [of k w "(64 - n) mod 64"] k by simp
  moreover have "\<not> n + k < 64 \<Longrightarrow> \<not> bit w (n + k)"
    by (auto dest: bit_imp_le_length)
  ultimately show "bit (rotl w ((64 - n) mod 64) AND drop_bit n (NOT 0)) k = bit (drop_bit n w) k"
    unfolding bit_and_iff bit_ones_drop by (cases "n + k < 64") (simp_all add: bit_drop_bit_eq)
qed

lemma rotl_extract:
  fixes w :: u64
  assumes "0 < b" "n + b \<le> 64"
  shows "rotl w ((b + n) mod 64) AND drop_bit (64 - b) (NOT 0) = take_bit b (drop_bit (64 - n - b) w)"
proof (rule bit_word_eqI)
  fix k assume k: "k < LENGTH(64)"
  have "k < b \<Longrightarrow> (k + (64 - (b + n) mod 64 mod 64)) mod 64 = 64 - n - b + k"
    using assms by (cases "n + b = 64") (auto simp: add.commute)
  then show "bit (rotl w ((b + n) mod 64) AND drop_bit (64 - b) (NOT 0)) k
      = bit (take_bit b (drop_bit (64 - n - b) w)) k"
    using k assms bit_rotl [of k w "(b + n) mod 64"]
    by (auto simp: bit_and_iff bit_drop_bit_eq bit_mask_iff bit_take_bit_iff)
qed

lemma and_ones_push: "(w :: u64) AND NOT (mask n) = push_bit n (drop_bit n w)"
  by (rule bit_eqI) (auto simp: bit_simps)

lemma unat_six: "unat (take_bit 6 (v :: u32)) = unat v mod 64"
  by (simp add: unat_take_bit_mod)

lemma unat_sub_const:
  "unat (n :: u32) \<le> 64 \<Longrightarrow> unat (64 - n) = 64 - unat n"
  "unat (n :: u32) \<le> 63 \<Longrightarrow> unat (63 - n) = 63 - unat n"
  by (simp_all add: unat_sub word_le_nat_alt)

lemma unat_add_small: "unat (a :: u32) + unat b \<le> 64 \<Longrightarrow> unat (a + b) = unat a + unat b"
  by (simp add: unat_word_ariths)

lemma run_RLDICL:
  assumes "unat x < 32" "unat y < 32"
  shows "rt_decode (asm_RLDICL x y sh mb False) h (asm_RLDICL x y sh mb False) pc s
    = Next (put_gpr (unat x) (rotl (gpr_of s (unat y)) (unat sh mod 64) AND drop_bit (unat mb mod 64) (NOT 0)) s)"
  using assms by (simp add: rt_decode_asm plain_def ppu_RLDICL_def asm_RLDICL_fields reg_field unat_six
      cr_rc_def Let_def del: bit.conj_one_right)

lemma run_RLDICR:
  assumes "unat x < 32" "unat y < 32"
  shows "rt_decode (asm_RLDICR x y sh mb False) h (asm_RLDICR x y sh mb False) pc s
    = Next (put_gpr (unat x)
        (rotl (gpr_of s (unat y)) (unat sh mod 64) AND push_bit (63 - unat mb mod 64) (NOT 0)) s)"
proof -
  have "unat (take_bit 6 mb XOR 63) = 63 - unat mb mod 64"
    using unat_xor_63 [of "take_bit 6 mb"] by (simp add: unat_six)
  then show ?thesis
    using assms by (simp add: rt_decode_asm plain_def ppu_RLDICR_def asm_RLDICR_fields reg_field unat_six
        cr_rc_def Let_def)
qed

lemma run_ADDI:
  assumes "unat rt < 32" "unat ra < 32"
  shows "rt_decode (asm_ADDI rt ra si) h (asm_ADDI rt ra si) pc s
    = Next (put_gpr (unat rt)
        ((if ra \<noteq> 0 then gpr_of s (unat ra) else 0) + scast (signed_take_bit 15 si)) s)"
proof -
  have "op_ra (asm_ADDI rt ra si) = unat ra" "op_rd (asm_ADDI rt ra si) = unat rt"
    "op_simm16_32 (asm_ADDI rt ra si) = signed_take_bit 15 si"
    using assms by (simp_all add: asm_ADDI_def asm_simps reg_field)
  then show ?thesis
    by (auto simp: rt_decode_asm plain_def ppu_ADDI_def op_simm16_def unat_eq_zero)
qed

lemma asm_OR_fields:
  "op_ra (asm_OR ra rs rb rc) = unat (take_bit 5 ra)" "op_rs (asm_OR ra rs rb rc) = unat (take_bit 5 rs)"
  "op_rb (asm_OR ra rs rb rc) = unat (take_bit 5 rb)"
  by (simp_all add: asm_OR_def asm_simps)

lemma asm_SPR_fields:
  "op_rs (asm_MTSPR spr x) = unat (take_bit 5 x)" "op_rd (asm_MFSPR x spr) = unat (take_bit 5 x)"
  "op_spr (asm_MTSPR spr x) = take_bit 10 spr" "op_spr (asm_MFSPR x spr) = take_bit 10 spr"
  by (simp_all add: asm_MTSPR_def asm_MFSPR_def asm_simps)

lemma run_OR:
  assumes "unat x < 32" "unat y < 32" "unat z < 32"
  shows "rt_decode (asm_OR x y z False) h (asm_OR x y z False) pc s
    = Next (put_gpr (unat x) (gpr_of s (unat y) OR gpr_of s (unat z)) s)"
  using assms by (simp add: rt_decode_asm plain_def ppu_OR_def asm_OR_fields reg_field cr_rc_def Let_def)

lemma run_special:
  assumes "unat x < 32"
  shows "rt_decode (asm_MTCTR x) h (asm_MTCTR x) pc s = Next (s\<lparr>ctr_of := gpr_of s (unat x)\<rparr>)"
    and "rt_decode (asm_MFCTR x) h (asm_MFCTR x) pc s = Next (put_gpr (unat x) (ctr_of s) s)"
    and "rt_decode (asm_MTLR x) h (asm_MTLR x) pc s = Next (s\<lparr>lr_of := gpr_of s (unat x)\<rparr>)"
    and "rt_decode (asm_MFLR x) h (asm_MFLR x) pc s = Next (put_gpr (unat x) (lr_of s) s)"
  using assms
  by (simp_all add: asm_MTCTR_def asm_MFCTR_def asm_MTLR_def asm_MFLR_def rt_decode_asm fallible_def
      ppu_MTSPR_def ppu_MFSPR_def spr_of_def asm_SPR_fields reg_field)

lemma run_BLR:
  "rt_decode asm_BLR h asm_BLR pc s
   = Leave (count_exec (pc + 4) (cia_of s) (s\<lparr>cia_of := ucast (lr_of s) AND NOT 3\<rparr>))"
proof -
  have "op_bo asm_BLR = 0x14" "\<not> op_lk asm_BLR"
    by (simp_all add: asm_BLR_def asm_BCLR_def asm_simps)
  moreover have "rt_decode asm_BLR = ppu_BCLR"
    by (simp only: asm_BLR_def rt_decode_asm)
  ultimately show ?thesis
    by (simp add: ppu_BCLR_def ctr_decrement_def bo_bit_def branch_ok_def set_link_def Let_def)
qed

text \<open>
  C38: The extended mnemonics do what they are named for, from assembling over decoding and dispatch to
  execution: \<^verbatim>\<open>SRDI\<close> shifts right, \<^verbatim>\<open>CLRLDI\<close> and \<^verbatim>\<open>CLRRDI\<close> clear the upper and the lower bits, \<^verbatim>\<open>LI\<close>
  loads a sign-extended immediate, \<^verbatim>\<open>MR\<close> copies a register, the moves reach CTR and LR, and \<^verbatim>\<open>BLR\<close>
  continues at the link register. \<^verbatim>\<open>EXTRDI x y n b\<close> skips \<open>n\<close> bits and extracts \<open>b\<close>, where the
  mnemonic of the architecture extracts \<open>n\<close> bits from position \<open>b\<close>.
\<close>

theorem mnemonics_execute:
  assumes "unat x < 32" "unat y < 32" "unat n < 64" "0 < unat b" "unat n + unat b \<le> 64"
  shows "rt_decode (asm_SRDI x y n) h (asm_SRDI x y n) pc s
       = Next (put_gpr (unat x) (drop_bit (unat n) (gpr_of s (unat y))) s)
    \<and> rt_decode (asm_CLRLDI x y n) h (asm_CLRLDI x y n) pc s
       = Next (put_gpr (unat x) (take_bit (64 - unat n) (gpr_of s (unat y))) s)
    \<and> rt_decode (asm_CLRRDI x y n) h (asm_CLRRDI x y n) pc s
       = Next (put_gpr (unat x) (push_bit (unat n) (drop_bit (unat n) (gpr_of s (unat y)))) s)
    \<and> rt_decode (asm_EXTRDI x y n b) h (asm_EXTRDI x y n b) pc s
       = Next (put_gpr (unat x)
           (take_bit (unat b) (drop_bit (64 - unat n - unat b) (gpr_of s (unat y)))) s)
    \<and> rt_decode (asm_LI x imm) h (asm_LI x imm) pc s
       = Next (put_gpr (unat x) (scast (signed_take_bit 15 imm)) s)
    \<and> rt_decode (asm_MR x y) h (asm_MR x y) pc s = Next (put_gpr (unat x) (gpr_of s (unat y)) s)
    \<and> rt_decode (asm_MTCTR x) h (asm_MTCTR x) pc s = Next (s\<lparr>ctr_of := gpr_of s (unat x)\<rparr>)
    \<and> rt_decode (asm_MFLR x) h (asm_MFLR x) pc s = Next (put_gpr (unat x) (lr_of s) s)
    \<and> rt_decode asm_BLR h asm_BLR pc s
       = Leave (count_exec (pc + 4) (cia_of s) (s\<lparr>cia_of := ucast (lr_of s) AND NOT 3\<rparr>))"
proof (intro conjI)
  have n: "unat n mod 64 = unat n" "unat (64 - n) mod 64 = (64 - unat n) mod 64"
    "63 - unat (63 - n) mod 64 = unat n"
    using assms by (simp_all add: unat_sub_const)
  have b: "unat (64 - b) mod 64 = 64 - unat b" "unat (b + n) mod 64 = (unat b + unat n) mod 64"
    using assms by (simp_all add: unat_sub_const unat_add_small)
  note run = run_RLDICL [OF assms(1,2)] run_RLDICR [OF assms(1,2)]
  show "rt_decode (asm_SRDI x y n) h (asm_SRDI x y n) pc s
       = Next (put_gpr (unat x) (drop_bit (unat n) (gpr_of s (unat y))) s)"
    unfolding asm_SRDI_def run n using rotl_right [OF assms(3)] by simp
  show "rt_decode (asm_CLRLDI x y n) h (asm_CLRLDI x y n) pc s
       = Next (put_gpr (unat x) (take_bit (64 - unat n) (gpr_of s (unat y))) s)"
    unfolding asm_CLRLDI_def run n by (simp add: take_bit_eq_mask)
  show "rt_decode (asm_CLRRDI x y n) h (asm_CLRRDI x y n) pc s
       = Next (put_gpr (unat x) (push_bit (unat n) (drop_bit (unat n) (gpr_of s (unat y)))) s)"
    unfolding asm_CLRRDI_def run n by (simp add: and_ones_push)
  show "rt_decode (asm_EXTRDI x y n b) h (asm_EXTRDI x y n b) pc s
       = Next (put_gpr (unat x)
           (take_bit (unat b) (drop_bit (64 - unat n - unat b) (gpr_of s (unat y)))) s)"
    unfolding asm_EXTRDI_def run b using rotl_extract [OF assms(4,5)] by simp
qed (use assms in \<open>simp_all add: asm_LI_def asm_MR_def run_ADDI run_OR run_special run_BLR\<close>)

theorem mnemonics_execute_witness:
  "rt_decode (asm_SRDI 3 4 8) demo_interp (asm_SRDI 3 4 8) 0x10000 demo_ppu
   = Next (put_gpr 3 (drop_bit 8 (gpr_of demo_ppu 4)) demo_ppu)"
proof -
  have h: "unat (3 :: u32) < 32" "unat (4 :: u32) < 32" "unat (8 :: u32) < 64" "0 < unat (1 :: u32)"
    "unat (8 :: u32) + unat (1 :: u32) \<le> 64"
    by simp_all
  show ?thesis using mnemonics_execute [OF h, of demo_interp "0x10000" demo_ppu] by simp
qed

section \<open>A counted loop\<close>

text \<open>
  Two instructions in memory: an addition to a register, and \<^verbatim>\<open>bdnz\<close> back to it. The lemmas follow
  one round through fetch, decoding and dispatch.
\<close>

definition bdnz_back :: u32 where
  "bdnz_back = asm_BC 0x10 0 (- 4) False False"

lemma bdnz_back_fields:
  "op_bo bdnz_back = 0x10" "\<not> op_lk bdnz_back" "\<not> op_aa bdnz_back" "op_bt14 bdnz_back = - 4"
proof -
  have "push_bit 2 (signed_take_bit 13 (sdiv4 (- 4))) = - (4 :: u32)"
    by code_simp
  then show "op_bo bdnz_back = 0x10" "\<not> op_lk bdnz_back" "\<not> op_aa bdnz_back" "op_bt14 bdnz_back = - 4"
    by (simp_all add: bdnz_back_def asm_BC_def asm_simps)
qed

lemma single_ADDI:
  assumes "read32 (memory s) (cia_of s) = asm_ADDI r r si" "0 < unat r" "unat r < 32"
  shows "ppu_single h s = Inr (put_gpr (unat r) (gpr_of s (unat r) + scast (signed_take_bit 15 si)) s
           \<lparr>cia_of := cia_of s + 4\<rparr>)"
  using assms by (auto simp: ppu_single_def Let_def run_ADDI)

lemma single_bdnz:
  assumes "read32 (memory s) (cia_of s) = bdnz_back"
  obtains e where "ppu_single h s = Inr (s\<lparr>ctr_of := ctr_of s - 1,
           cia_of := cia_of s - 4 + of_bool (ctr_of s = 1) * 8, exec_bytes_of := e\<rparr>)"
proof -
  have "rt_decode bdnz_back = ppu_BC"
    by (simp only: bdnz_back_def rt_decode_asm)
  then have "ppu_single h s = Inr (s\<lparr>ctr_of := ctr_of s - 1,
           cia_of := cia_of s - 4 + of_bool (ctr_of s = 1) * 8,
           exec_bytes_of := exec_bytes_of s + of_bool (ctr_of s \<noteq> 1 \<or> stopping s) * 4\<rparr>)"
    using assms by (cases s) (auto simp: ppu_single_def Let_def ppu_BC_def branch_ok_def bo_bit_def
        ctr_decrement_def set_link_def not_taken_def count_exec_def bdnz_back_fields)
  then show ?thesis
    by (rule that)
qed

definition loop_count :: "u64 \<Rightarrow> nat" where
  "loop_count c = (if c = 0 then 2 ^ 64 else unat c)"

lemma loop_count_1 [simp]: "loop_count 1 = 1"
  by (simp add: loop_count_def)

lemma loop_count_step: "c \<noteq> 1 \<Longrightarrow> loop_count c = Suc (loop_count (c - 1))"
proof (cases "c = 0")
  case True
  have "unat (- 1 :: u64) = 2 ^ 64 - 1"
    by (simp add: unsigned_minus_1_eq_mask mask_eq_exp_minus_1)
  then show ?thesis using True by (simp add: loop_count_def)
next
  case False
  moreover assume "c \<noteq> 1"
  moreover have "unat c = Suc (unat (c - 1))"
    using False by (simp add: unat_minus_one unat_gt_0)
  ultimately show ?thesis by (auto simp: loop_count_def)
qed

lemma loop_run:
  assumes "0 < unat r" "unat r < 32" "\<not> compiled a" "\<not> compiled (a + 4)" "compiled (a + 8)"
    "\<And>s'. \<not> test_stopped h s'"
    and "cia_of s = a" "read32 (memory s) a = asm_ADDI r r si" "read32 (memory s) (a + 4) = bdnz_back"
  shows "\<exists>s'. (\<forall>n. ppu_recompiler_fallback h compiled n s
               = (if n \<le> 2 * loop_count (ctr_of s) then None else Some (Inr s')))
      \<and> cia_of s' = a + 8 \<and> ctr_of s' = 0 \<and> memory s' = memory s
      \<and> gpr_of s' = (gpr_of s)(unat r := gpr_of s (unat r) + ctr_of s * scast (signed_take_bit 15 si))"
  using assms(7-)
proof (induction "loop_count (ctr_of s)" arbitrary: s rule: less_induct)
  case less
  let ?d = "scast (signed_take_bit 15 si) :: u64"
  let ?s1 = "put_gpr (unat r) (gpr_of s (unat r) + ?d) s\<lparr>cia_of := a + 4\<rparr>"
  have "read32 (memory ?s1) (cia_of ?s1) = bdnz_back"
    using less.prems by (simp add: put_gpr_def)
  then obtain e where e: "ppu_single h ?s1 = Inr (?s1\<lparr>ctr_of := ctr_of s - 1,
           cia_of := a + of_bool (ctr_of s = 1) * 8, exec_bytes_of := e\<rparr>)"
    by (rule single_bdnz [where h = h]) (simp add: put_gpr_def)
  let ?s2 = "?s1\<lparr>ctr_of := ctr_of s - 1, cia_of := a + of_bool (ctr_of s = 1) * 8, exec_bytes_of := e\<rparr>"
  have one: "ppu_single h s = Inr ?s1"
    using single_ADDI [of s r si h] less.prems assms by simp
  have step: "ppu_recompiler_fallback h compiled n s =
      (if n < 2 then None else ppu_recompiler_fallback h compiled (n - 2) ?s2)" for n
    using less.prems assms one e
    by (cases n; cases "n - 1") (auto simp: put_gpr_def)
  show ?case
  proof (cases "ctr_of s = 1")
    case True
    have "ppu_recompiler_fallback h compiled n ?s2 = (if n = 0 then None else Some (Inr ?s2))" for n
      using True assms by (cases n) auto
    then show ?thesis
      using True by (intro exI [of _ ?s2]) (auto simp: step put_gpr_def)
  next
    case False
    then have "loop_count (ctr_of ?s2) < loop_count (ctr_of s)"
      by (simp add: loop_count_step)
    from less.hyps [OF this] less.prems False obtain s' where
      "\<And>n. ppu_recompiler_fallback h compiled n ?s2
        = (if n \<le> 2 * loop_count (ctr_of s - 1) then None else Some (Inr s'))"
      "cia_of s' = a + 8" "ctr_of s' = 0" "memory s' = memory s"
      "gpr_of s' = (gpr_of s)(unat r := gpr_of s (unat r) + ?d + (ctr_of s - 1) * ?d)"
      by (auto simp: put_gpr_def)
    then show ?thesis
      using False by (intro exI [of _ s']) (auto simp: step loop_count_step algebra_simps)
  qed
qed

text \<open>
  C9: A counted loop run by the interpreter ends, after exactly as many rounds as the count register
  says. With an addition at \<open>a\<close>, \<^verbatim>\<open>bdnz\<close> back to it at \<open>a + 4\<close>, and compiled code from \<open>a + 8\<close> on, the
  fallback loop returns once it was given more than two steps per round, and not before; the count
  register is then zero, the register has grown by the count times the immediate, memory is
  unchanged, and execution continues behind the loop. A count of zero means the full 2^64 rounds.
\<close>

theorem counted_loop_terminates:
  assumes "0 < unat r" "unat r < 32" "\<not> compiled a" "\<not> compiled (a + 4)" "compiled (a + 8)"
    "\<And>s'. \<not> test_stopped h s'" "cia_of s = a" "read32 (memory s) a = asm_ADDI r r si"
    "read32 (memory s) (a + 4) = asm_BC 0x10 0 (- 4) False False"
  shows "\<exists>s'. (\<forall>n. ppu_recompiler_fallback h compiled n s
               = (if n \<le> 2 * loop_count (ctr_of s) then None else Some (Inr s')))
      \<and> cia_of s' = a + 8 \<and> ctr_of s' = 0 \<and> memory s' = memory s
      \<and> gpr_of s' = (gpr_of s)(unat r := gpr_of s (unat r) + ctr_of s * scast (signed_take_bit 15 si))"
  using loop_run [of r compiled a h s si] assms unfolding bdnz_back_def by blast

definition demo_loop :: ppu where
  "demo_loop = demo_ppu\<lparr>ctr_of := 3,
     memory := (\<lambda>a. [0x38, 0x63, 0, 5, 0x42, 0, 0xff, 0xfc] ! unat (a - 0x10000))\<rparr>"

theorem counted_loop_terminates_witness:
  "\<exists>s'. ppu_recompiler_fallback demo_interp (\<lambda>a. a = 0x10008) 7 demo_loop = Some (Inr s')
    \<and> ctr_of s' = 0 \<and> gpr_of s' 3 = 15"
proof -
  have f: "read32 (memory demo_loop) 0x10000 = asm_ADDI 3 3 5"
    "read32 (memory demo_loop) (0x10000 + 4) = asm_BC 0x10 0 (- 4) False False"
    by code_simp+
  have "\<exists>s'. (\<forall>n. ppu_recompiler_fallback demo_interp (\<lambda>a. a = 0x10008) n demo_loop
               = (if n \<le> 2 * loop_count (ctr_of demo_loop) then None else Some (Inr s')))
      \<and> cia_of s' = 0x10000 + 8 \<and> ctr_of s' = 0 \<and> memory s' = memory demo_loop
      \<and> gpr_of s' = (gpr_of demo_loop)(unat (3 :: u32) := gpr_of demo_loop (unat (3 :: u32))
          + ctr_of demo_loop * scast (signed_take_bit 15 5 :: u32))"
    by (rule counted_loop_terminates) (use f in \<open>simp_all add: demo_loop_def demo_ppu_def demo_interp_def\<close>)
  moreover have "scast (signed_take_bit 15 5 :: u32) = (5 :: u64)"
    by code_simp
  moreover have "ctr_of demo_loop = 3" "gpr_of demo_loop 3 = 0" "loop_count 3 = 3"
    by (simp_all add: demo_loop_def demo_ppu_def loop_count_def)
  ultimately show ?thesis by auto
qed

section \<open>The register representation\<close>

text \<open>
  C8: Every instruction of the model keeps the representation of the thread's registers: the bytes of the condition
  register stay 0 or 1, the string count of XER stays below 128 and the reservation data keeps its 128 bytes. It
  holds for the decoded handler of every opcode whose instruction is in the model, whatever the handler returns and
  whatever the handlers outside the model do, and for every run of the interpreter loop, of any length, that executes
  instructions of the model only and makes no system or HLE call.
\<close>

theorem ppu_state_well_typed:
  assumes "ppu_ok s"
  shows "(modelled (decode op) \<longrightarrow> step_ok (rt_decode op h op pc s))
    \<and> (\<forall>n r. modelled_run h compiled n s \<longrightarrow> ppu_recompiler_fallback h compiled n s = Some r \<longrightarrow> res_ok r)"
  using rt_decode_ok [OF _ assms] fallback_ok [OF _ assms] by blast

text \<open>One round of the loop: an addition and a branch that falls through.\<close>

definition demo_round :: ppu where
  "demo_round = demo_loop\<lparr>ctr_of := 1\<rparr>"

lemma demo_round_ok: "ppu_ok demo_round"
  by (simp add: ppu_ok_def demo_round_def demo_loop_def demo_ppu_def)

lemma modelled_loop: "modelled ''ADDI''" "modelled ''BC''"
  by (simp_all add: modelled_def ptrs_simps)

lemma demo_round_run:
  "modelled_run demo_interp (\<lambda>a. a = 0x10008) 3 demo_round
   \<and> (\<exists>s'. ppu_recompiler_fallback demo_interp (\<lambda>a. a = 0x10008) 3 demo_round = Some (Inr s'))"
proof -
  have f: "read32 (memory demo_round) 0x10000 = asm_ADDI 3 3 5" "read32 (memory demo_round) 0x10004 = bdnz_back"
    by code_simp+
  have c: "cia_of demo_round = 0x10000" "ctr_of demo_round = 1" "test_stopped demo_interp = (\<lambda>_. False)"
    by (simp_all add: demo_round_def demo_loop_def demo_ppu_def demo_interp_def)
  obtain s1 where 1: "ppu_single demo_interp demo_round = Inr s1" "read32 (memory s1) (cia_of s1) = bdnz_back"
    "cia_of s1 = 0x10004" "ctr_of s1 = 1"
    using single_ADDI [of demo_round 3 5 demo_interp] f c by (auto simp: put_gpr_def)
  obtain e where e: "ppu_single demo_interp s1
      = Inr (s1\<lparr>ctr_of := ctr_of s1 - 1, cia_of := cia_of s1 - 4 + of_bool (ctr_of s1 = 1) * 8, exec_bytes_of := e\<rparr>)"
    by (rule single_bdnz [OF 1(2), where h = demo_interp])
  define s2 where "s2 = s1\<lparr>ctr_of := ctr_of s1 - 1, cia_of := cia_of s1 - 4 + of_bool (ctr_of s1 = 1) * 8, exec_bytes_of := e\<rparr>"
  have 2: "ppu_single demo_interp s1 = Inr s2" "cia_of s2 = 0x10008" using e 1(3,4) by (simp_all add: s2_def)
  have b: "decode bdnz_back = ''BC''" "rt_decode bdnz_back = ppu_BC" by (simp_all only: bdnz_back_def rt_decode_asm decode_asm)
  have "\<not> is_call (ppu_BC demo_interp bdnz_back 0x10004 s1)" by (simp add: ppu_BC_def Let_def not_taken_def)
  then show ?thesis
    using f c 1 2 b unfolding numeral_3_eq_3
    by (simp add: Let_def modelled_loop decode_asm rt_decode_asm plain_def)
qed

theorem ppu_state_well_typed_witness:
  "step_ok (rt_decode (asm_ADDI 3 3 5) demo_interp (asm_ADDI 3 3 5) 0x10000 demo_round)
   \<and> (\<exists>s'. ppu_recompiler_fallback demo_interp (\<lambda>a. a = 0x10008) 3 demo_round = Some (Inr s') \<and> ppu_ok s')"
proof -
  have "modelled (decode (asm_ADDI 3 3 5))" by (simp add: decode_asm modelled_loop)
  moreover obtain s' where s': "ppu_recompiler_fallback demo_interp (\<lambda>a. a = 0x10008) 3 demo_round = Some (Inr s')"
    using demo_round_run by blast
  moreover note ppu_state_well_typed [OF demo_round_ok, where op = "asm_ADDI 3 3 5" and h = demo_interp and pc = "0x10000"
    and compiled = "\<lambda>a. a = 0x10008"]
  ultimately show ?thesis using demo_round_run by (metis res_ok.simps(2))
qed

end
