(* ===== verification/Spec2Isabelle.thy ===== *)
theory Spec2Isabelle
  imports
    Sleep_Queue_Ptr Scheduler_Props Id_Props Lv2_Create
    Mutex_System Sys_Semaphore Sys_Rwlock Event_Flag_System Cond_System Lwcond_System
    Event_Queue_System Event_Port
    Spu_Mailbox Spu_Signal
    Ppu_Program
begin

text \<open>
  A verification of the core of the emulator: the LV2 kernel objects and the scheduler that PPU threads see, the
  channels of the SPUs, and the PPU instruction decoder, assembler and interpreter. Paths are relative to
  \<^verbatim>\<open>src/rpcs3/Emu\<close>.

  \<^bold>\<open>The parts and how they interact.\<close> A PPU thread is a record of flags, priority and registers (\<^verbatim>\<open>CPU/CPUThread.h\<close>,
  \<^verbatim>\<open>Cell/PPUThread.h\<close>). The scheduler (\<^verbatim>\<open>Cell/lv2/lv2.cpp\<close>) keeps the run queue, the timeouts and the threads that
  wait to be woken; a system call on a kernel object either returns, or puts the caller into the sleep queue of the object
  and lets the scheduler park it. Another call, or a timeout, takes it out again and makes it runnable. Objects are
  found by identifier (\<^verbatim>\<open>IdManager.h\<close>) or by IPC key (\<^verbatim>\<open>IPC.h\<close>). The interpreter executes the guest code between
  the calls. An SPU exchanges words with the other threads through lock-free channels.

  \<^bold>\<open>The kernel.\<close>
  \<^item> \<^verbatim>\<open>Prelude\<close>: machine integers, guest error codes, the result of a system call, shared facts.
  \<^item> \<^verbatim>\<open>Ppu_Thread\<close>, \<^verbatim>\<open>Sleep_Queue\<close>: threads, and the sleep queues with \<^verbatim>\<open>lv2_obj::schedule\<close>, \<^verbatim>\<open>unqueue\<close> and
    \<^verbatim>\<open>emplace\<close> (\<^verbatim>\<open>Cell/lv2/sys_sync.h\<close>) on lists; the locale \<^verbatim>\<open>sleep_queue\<close> is their contract. \<^verbatim>\<open>Sleep_Queue_Ptr\<close>
    has the loops over \<^verbatim>\<open>next_cpu\<close> links that the code runs, proved to return and to refine the lists.
  \<^item> \<^verbatim>\<open>Scheduler\<close>: \<^verbatim>\<open>sleep\<close>, \<^verbatim>\<open>awake\<close>, \<^verbatim>\<open>yield\<close>, \<^verbatim>\<open>set_priority\<close> and \<^verbatim>\<open>schedule_all\<close> over the state \<^verbatim>\<open>kstate\<close>, a
    failed \<^verbatim>\<open>ensure\<close> being recorded in it. \<^verbatim>\<open>Scheduler_Inv\<close> and \<^verbatim>\<open>Lv2_Wait\<close> have the invariant and what the
    scheduler does to one thread; \<^verbatim>\<open>Scheduler_Props\<close> the order of the run queue, dispatch and timeouts.
  \<^item> \<^verbatim>\<open>Wait_Object\<close>: the locale \<^verbatim>\<open>wait_object\<close>, the contract between a kernel object and the threads that call it. It fixes
    the queue, the invariant, the calls and the timeout handler of an object, assumes that each of them has one of the
    effects of \<^verbatim>\<open>op_effect\<close>, and proves once that in every interleaving no wake-up is lost and no \<^verbatim>\<open>ensure\<close> fails. A system
    call that blocks is a step that leaves its caller waiting; the rest of the call is a later step.
  \<^item> \<^verbatim>\<open>Sys_Mutex\<close> and \<^verbatim>\<open>Mutex_System\<close>, \<^verbatim>\<open>Sys_Semaphore\<close>, \<^verbatim>\<open>Sys_Rwlock\<close>, \<^verbatim>\<open>Sys_Event_Flag\<close> with \<^verbatim>\<open>Event_Flag_Serve\<close> and
    \<^verbatim>\<open>Event_Flag_System\<close>, \<^verbatim>\<open>Sys_Cond\<close> and \<^verbatim>\<open>Cond_System\<close>, \<^verbatim>\<open>Sys_Lwmutex\<close>, \<^verbatim>\<open>Sys_Lwcond\<close> and \<^verbatim>\<open>Lwcond_System\<close>,
    \<^verbatim>\<open>Sys_Event\<close> and \<^verbatim>\<open>Event_Queue_System\<close>: for each object of \<^verbatim>\<open>Cell/lv2/sys_*.cpp\<close> a record with the fields of the
    class, one definition per system call with its error branches in the order of the code, and an interpretation of
    \<^verbatim>\<open>wait_object\<close>. The mutex alone has its own step relation, in which a lock is split where it gives up the mutex of the
    object. The properties are exclusion, exact values and counters, hand-over to the waiter the protocol selects, and
    for event queues delivery once and in order.
  \<^item> \<^verbatim>\<open>Event_Port\<close>: the ports that feed an event queue, with the busy count that a waiting sender holds.
  \<^item> \<^verbatim>\<open>Id_Manager\<close>, \<^verbatim>\<open>Id_Props\<close>, \<^verbatim>\<open>Lv2_Create\<close>: identifiers with their invalidation counts, the locale
    \<^verbatim>\<open>handle_table\<close>, and the creation and destruction of shared objects.

  \<^bold>\<open>The SPU channels.\<close> \<^verbatim>\<open>Spu_Channel\<close> models \<^verbatim>\<open>spu_channel\<close> and \<^verbatim>\<open>spu_channel_4_t\<close> (\<^verbatim>\<open>Cell/SPUThread.h\<close>,
  \<^verbatim>\<open>SPUThread.cpp\<close>): each routine is a program counter and a function that makes one atomic access. The locale
  \<^verbatim>\<open>fifo_channel\<close> states delivery; \<^verbatim>\<open>Spu_Mailbox\<close> and \<^verbatim>\<open>Spu_Outbox\<close> interleave the two ends and interpret it, and show by
  runs what happens outside the discipline they need. \<^verbatim>\<open>Spu_Signal\<close> has the signal registers and their events.

  \<^bold>\<open>The PPU.\<close>
  \<^item> \<^verbatim>\<open>Bit_Field\<close> (\<^verbatim>\<open>src/Utilities/BitField.h\<close>), \<^verbatim>\<open>Ppu_Opcode\<close> and \<^verbatim>\<open>Ppu_Decode\<close> (\<^verbatim>\<open>Cell/PPUOpcodes.h\<close>): the fields of an
    instruction and the table of 131072 entries the decoder fills; a search of the entry lists is proved equal to it.
  \<^item> \<^verbatim>\<open>Ppu_Machine\<close>, \<^verbatim>\<open>Ppu_Alu\<close>, \<^verbatim>\<open>Ppu_Mem\<close>, \<^verbatim>\<open>Ppu_Exec\<close> (\<^verbatim>\<open>Cell/PPUInterpreter.cpp\<close>, \<^verbatim>\<open>PPUThread.cpp\<close>): the registers
    as a record of words, one definition per instruction, the dispatch table and the execution loops. Instructions
    that are not modelled, guest memory and the host services are parameters (\<^verbatim>\<open>interp_host\<close>).
  \<^item> \<^verbatim>\<open>Ppu_Inv\<close>: what every instruction of the model, and every run of such instructions, keeps. \<^verbatim>\<open>Ppu_Arith\<close>, \<^verbatim>\<open>Ppu_Shift\<close>, \<^verbatim>\<open>Ppu_Mem_Props\<close>, \<^verbatim>\<open>Ppu_Cr\<close>: instructions
    against the arithmetic, the rotations under masks, the memory and the condition register of the architecture.
  \<^item> \<^verbatim>\<open>Ppu_Asm\<close> and \<^verbatim>\<open>Ppu_Program\<close>: the assembler \<^verbatim>\<open>ppu_instructions\<close>, its round trip through the decoder, the
    extended mnemonics, a counted loop run by the interpreter and the representation of the registers along runs.

  \<^bold>\<open>Integers, loops and fuel.\<close> Unsigned integers are words of their width; signed ones are integers with the wrap-around
  written out (\<^verbatim>\<open>s32\<close>, \<^verbatim>\<open>s64\<close>). A loop whose end depends on the state is a partial function, and its return is proved: the
  pointer loops on every well-formed queue, the loops that drain a queue when no queued thread is being saved. The
  interpreter loop takes a number of steps as fuel; the loop property gives the number that is enough. The retries of
  \<^verbatim>\<open>sys_event_flag_set\<close> are driven by the list of concurrent changes. The three steps of an undisturbed \<^verbatim>\<open>push_snr\<close> are
  enough because its loop repeats only when another thread interferes. There are no other bounds.

  \<^bold>\<open>Conditions of use.\<close> Some interfaces trust their callers, and their properties hold for callers that keep to the rules;
  each property says which. The scheduler fails an \<^verbatim>\<open>ensure\<close> exactly on two misuses (\<^verbatim>\<open>misuse\<close>). A reader-writer lock does not
  record its readers, so a thread may only release a read lock it has. A signal of mode 1 to a lightweight condition
  variable comes from the owner of the mutex, and fails an \<^verbatim>\<open>ensure\<close> otherwise. The inbound mailbox needs writers that see a
  free place and reads that do not follow an aborted one too early; the outbound mailboxes an SPU that is not stopped. An
  event queue is shown for PPU threads. An identifier table needs constructors that succeed. Histories that are not in the
  code (who took a lock, which writes returned success, what was read) are built from what the calls return.

  \<^bold>\<open>Concurrency.\<close> A handler under the mutex of its object is one step; a fast path on an atomic variable before the mutex is
  taken is folded into the step when it decides the same, and is a step of its own otherwise. The channels of
  the SPUs, which take no mutex, are interleaved access by access.

  \<^bold>\<open>Not modelled.\<close>
  \<^item> Savestates: the flag \<^verbatim>\<open>again\<close> and what the calls do with it are, the serialised contents are not. The SPU side of an
    event queue that puts an SPU thread to sleep, and the resumption of thread groups.
  \<^item> The host timer loop \<^verbatim>\<open>wait_timeout\<close> and the host primitives behind \<^verbatim>\<open>wait_on\<close> and \<^verbatim>\<open>notify\<close>: a parked thread may wake
    at any time, and a notification wakes it.
  \<^item> Floating-point and vector arithmetic of the interpreter, which is the arithmetic of the host with its rounding modes,
    and the reservation instructions, which depend on the memory system.
  \<^item> The remaining SPU channels and the SPU instruction set; the recompilers, which build code through LLVM and asmjit; the
    graphics, audio, input, file, network and user interface parts, whose effect is on host libraries and devices.
\<close>

end
